(* ===== verification/Xv6_Prelude.thy ===== *)
theory Xv6_Prelude
  imports Main "HOL-Library.Word"
begin

unbundle bit_operations_syntax

text \<open>
  Shared vocabulary of the development.

  Kernel code runs as one thread of control on one hart, over an explicit state.  A C
  function becomes a computation of type \<open>('s, 'a) kmon\<close>: it takes the state and ends in
  one of four ways, the constructors of \<open>outcome\<close>.  \<open>Ok\<close> is a normal return, \<open>Panic\<close> a
  call of \<open>panic()\<close> with its message, and \<open>Hang\<close> a busy wait that only another hart or a
  device could end.  \<open>Swtch s k\<close> is the point where the thread gives up the processor in
  \<open>swtch()\<close> (from \<open>sleep\<close>, \<open>yield\<close> or \<open>exit\<close>) in state \<open>s\<close>; \<open>k\<close> is the rest of the
  thread, to be run on whatever state the scheduler resumes it in.  Loops over C arrays are
  the two combinators \<open>for_each\<close> (run to the end) and \<open>for_find\<close> (stop at the first
  \<open>return\<close> inside the body).  A loop that waits for other threads carries a bound on the
  number of its rounds, \<open>ROUNDS\<close>, and hangs beyond it.
\<close>

section \<open>Machine types\<close>

type_synonym byte = "8 word"
type_synonym ushort = "16 word"
type_synonym uint = "32 word"
type_synonym uint64 = "64 word"

text \<open>The modes of \<open>open\<close> (\<open>fcntl.h\<close>), shared by the kernel and user programs.\<close>

definition O_RDONLY :: int where "O_RDONLY = 0"
definition O_WRONLY :: int where "O_WRONLY = 1"
definition O_RDWR :: int where "O_RDWR = 2"
definition O_CREATE :: int where "O_CREATE = 0x200"
definition O_TRUNC :: int where "O_TRUNC = 0x400"

section \<open>Kernel computations\<close>

datatype ('s, 'a) outcome =
    Ok 'a 's
  | Panic string 's
  | Hang 's
  | Swtch 's "'s \<Rightarrow> ('s, 'a) outcome"

type_synonym ('s, 'a) kmon = "'s \<Rightarrow> ('s, 'a) outcome"

primrec continue :: "('s, 'a) outcome \<Rightarrow> ('a \<Rightarrow> ('s, 'b) kmon) \<Rightarrow> ('s, 'b) outcome" where
  "continue (Ok a s) f = f a s"
| "continue (Panic e s) f = Panic e s"
| "continue (Hang s) f = Hang s"
| "continue (Swtch s k) f = Swtch s (\<lambda>s'. continue (k s') f)"

definition return :: "'a \<Rightarrow> ('s, 'a) kmon" where
  "return a = (\<lambda>s. Ok a s)"

definition bind :: "('s, 'a) kmon \<Rightarrow> ('a \<Rightarrow> ('s, 'b) kmon) \<Rightarrow> ('s, 'b) kmon" where
  "bind m f = (\<lambda>s. continue (m s) f)"

definition seq :: "('s, unit) kmon \<Rightarrow> ('s, 'b) kmon \<Rightarrow> ('s, 'b) kmon" where
  "seq m k = bind m (\<lambda>_. k)"

definition skip :: "('s, unit) kmon" where
  "skip = return ()"

definition gets :: "('s \<Rightarrow> 'a) \<Rightarrow> ('s, 'a) kmon" where
  "gets f = (\<lambda>s. Ok (f s) s)"

definition modify :: "('s \<Rightarrow> 's) \<Rightarrow> ('s, unit) kmon" where
  "modify f = (\<lambda>s. Ok () (f s))"

definition panic :: "string \<Rightarrow> ('s, 'a) kmon" where
  "panic msg = (\<lambda>s. Panic msg s)"

definition hang :: "('s, 'a) kmon" where
  "hang = (\<lambda>s. Hang s)"

definition swtch :: "('s, unit) kmon" where
  "swtch = (\<lambda>s. Swtch s (\<lambda>s'. Ok () s'))"

definition kwhen :: "bool \<Rightarrow> ('s, unit) kmon \<Rightarrow> ('s, unit) kmon" where
  "kwhen b m = (if b then m else skip)"

primrec for_each :: "'i list \<Rightarrow> ('i \<Rightarrow> ('s, unit) kmon) \<Rightarrow> ('s, unit) kmon" where
  "for_each [] body = skip"
| "for_each (i # js) body = bind (body i) (\<lambda>_. for_each js body)"

primrec for_find :: "'i list \<Rightarrow> ('i \<Rightarrow> ('s, 'r option) kmon) \<Rightarrow> ('s, 'r option) kmon" where
  "for_find [] body = return None"
| "for_find (i # js) body =
     bind (body i) (\<lambda>r. case r of None \<Rightarrow> for_find js body | Some x \<Rightarrow> return (Some x))"

text \<open>
  \<open>while (cond) body\<close> for a loop whose body waits for other threads: at most \<open>n\<close> rounds.
\<close>

primrec while_rounds :: "nat \<Rightarrow> ('s, bool) kmon \<Rightarrow> ('s, unit) kmon \<Rightarrow> ('s, unit) kmon" where
  "while_rounds 0 c body = bind c (\<lambda>b. if b then hang else skip)"
| "while_rounds (Suc n) c body =
     bind c (\<lambda>b. if b then seq body (while_rounds n c body) else skip)"

definition ROUNDS :: nat where
  "ROUNDS = 2 ^ 32"

primrec collect :: "nat \<Rightarrow> ('s, 'a) kmon \<Rightarrow> ('s, 'a list) kmon" where
  "collect 0 m = return []"
| "collect (Suc n) m = bind m (\<lambda>a. bind (collect n m) (\<lambda>as. return (a # as)))"

named_theorems kexec \<open>unfolding kernel computations applied to a state\<close>

lemma return_apply [simp]: "return a s = Ok a s"
  by (simp add: return_def)

lemma skip_apply [simp]: "skip s = Ok () s"
  by (simp add: skip_def)

lemma gets_apply [simp]: "gets f s = Ok (f s) s"
  by (simp add: gets_def)

lemma modify_apply [simp]: "modify f s = Ok () (f s)"
  by (simp add: modify_def)

lemma panic_apply [simp]: "panic msg s = Panic msg s"
  by (simp add: panic_def)

lemma hang_apply [simp]: "hang s = Hang s"
  by (simp add: hang_def)

lemma swtch_apply [simp]: "swtch s = Swtch s (\<lambda>s'. Ok () s')"
  by (simp add: swtch_def)

lemma bind_apply [kexec]: "bind m f s = continue (m s) f"
  by (simp add: bind_def)

lemma bind_Ok: "m s = Ok a s' \<Longrightarrow> bind m f s = f a s'"
  by (simp add: bind_def)

lemma seq_apply [kexec]: "seq m k s = bind m (\<lambda>_. k) s"
  by (simp add: seq_def)

lemma kwhen_apply [kexec]: "kwhen b m s = (if b then m s else Ok () s)"
  by (simp add: kwhen_def)

lemma bind_return [simp]: "bind (return a) f = f a"
  by (simp add: bind_def return_def)

lemma bind_Ok_left [simp]: "bind (Ok a) f = f a"
  by (simp add: bind_def)

lemma continue_return [simp]: "continue r return = r"
  by (induction r) (simp_all add: return_def)

lemma continue_assoc: "continue (continue r f) g = continue r (\<lambda>a. bind (f a) g)"
  by (induction r) (simp_all add: bind_def)

lemma continue_cong:
  "r = r' \<Longrightarrow> (\<And>a s. f a s = g a s) \<Longrightarrow> continue r f = continue r' g"
proof (induction r arbitrary: r')
  case (Swtch s k)
  then show ?case by (auto intro!: ext)
qed auto

lemma bind_return_right [simp]: "bind m return = m"
  by (rule ext) (simp add: bind_def)

lemma bind_assoc: "bind (bind m f) g = bind m (\<lambda>a. bind (f a) g)"
  by (rule ext) (simp add: bind_apply continue_assoc)

lemma bind_eq_Ok_iff:
  "bind m f s = Ok b t \<longleftrightarrow> (\<exists>a s'. m s = Ok a s' \<and> f a s' = Ok b t)"
  by (cases "m s") (simp_all add: bind_def)

lemma while_rounds_done: "c s = Ok False s' \<Longrightarrow> while_rounds n c body s = Ok () s'"
  by (cases n) (simp_all add: kexec)

lemma ROUNDS_pos [simp]: "0 < ROUNDS"
  by (simp add: ROUNDS_def)

section \<open>Loops\<close>

text \<open>
  Invariant rule of \<open>for_each\<close>: a body that returns and keeps \<open>I\<close> at each index makes the
  whole loop return with \<open>I\<close>.
\<close>

lemma for_each_Ok:
  assumes "I s"
    and "\<And>i s. i \<in> set js \<Longrightarrow> I s \<Longrightarrow> \<exists>s'. body i s = Ok () s' \<and> I s'"
  shows "\<exists>s'. for_each js body s = Ok () s' \<and> I s'"
  using assms
proof (induction js arbitrary: s)
  case Nil
  then show ?case by simp
next
  case (Cons i js)
  from Cons.prems obtain s1 where s1: "body i s = Ok () s1" "I s1"
    by (metis list.set_intros(1))
  from Cons.IH [OF s1(2)] Cons.prems(2) show ?case
    by (simp add: bind_apply s1(1))
qed

lemma for_each_append:
  "for_each (xs @ ys) body = bind (for_each xs body) (\<lambda>_. for_each ys body)"
  by (induction xs) (simp_all add: bind_assoc)

text \<open>A search that reads nothing but a pure predicate of the state behaves like \<open>find\<close>.\<close>

lemma for_find_pure:
  assumes "\<And>i. i \<in> set js \<Longrightarrow> body i s = Ok (if P i then Some (f i) else None) s"
  shows "for_find js body s = Ok (map_option f (find P js)) s"
  using assms by (induction js) (auto simp: bind_apply)

text \<open>A search that leaves the state alone until it succeeds.\<close>

lemma for_find_first:
  assumes "\<And>i. i \<in> set js \<Longrightarrow> body i s = (if P i then Ok (Some (f i)) (g i) else Ok None s)"
  shows "for_find js body s = (case find P js of None \<Rightarrow> Ok None s | Some i \<Rightarrow> Ok (Some (f i)) (g i))"
  using assms
proof (induction js)
  case (Cons i js)
  then have "body i s = (if P i then Ok (Some (f i)) (g i) else Ok None s)" by simp
  with Cons show ?case by (simp add: bind_apply)
qed simp

text \<open>A loop whose body is a total state transformer.\<close>

lemma for_each_fold:
  assumes "I s" "\<And>i s. i \<in> set js \<Longrightarrow> I s \<Longrightarrow> body i s = Ok () (f i s) \<and> I (f i s)"
  shows "for_each js body s = Ok () (fold f js s) \<and> I (fold f js s)"
  using assms
proof (induction js arbitrary: s)
  case (Cons i js)
  then have "body i s = Ok () (f i s)" "I (f i s)" by simp_all
  with Cons show ?case by (simp add: bind_apply)
qed simp

section \<open>Little-endian encoding\<close>

text \<open>Words as the bytes RISC-V stores them in, for memory, disk blocks and packet headers alike.\<close>

fun le_word :: "byte list \<Rightarrow> 'a::len word" where
  "le_word [] = 0"
| "le_word (b # bs) = ucast b OR push_bit 8 (le_word bs)"

definition le_bytes :: "nat \<Rightarrow> 'a::len word \<Rightarrow> byte list" where
  "le_bytes n w = map (\<lambda>i. ucast (drop_bit (8 * i) w)) [0..<n]"

lemma length_le_bytes [simp]: "length (le_bytes n w) = n"
  by (simp add: le_bytes_def)

lemma bit_le_word:
  "bit (le_word bs :: 'a::len word) k \<longleftrightarrow>
     k < LENGTH('a) \<and> k div 8 < length bs \<and> bit (bs ! (k div 8)) (k mod 8)"
proof (induction bs arbitrary: k)
  case Nil
  then show ?case by simp
next
  case (Cons b bs)
  show ?case
  proof (cases "k < 8")
    case True
    then show ?thesis by (auto simp: bit_or_iff bit_push_bit_iff bit_ucast_iff)
  next
    case False
    then obtain j where j: "k = j + 8" by (metis add.commute le_Suc_ex not_less)
    have "\<not> bit b k" using False bit_imp_le_length [of b k] by auto
    then show ?thesis
      using Cons [of j]
      by (auto simp: j bit_or_iff bit_push_bit_iff bit_ucast_iff div_add_self2 nth_Cons
          split: nat.splits)
  qed
qed

lemma le_word_le_bytes:
  assumes "LENGTH('a) \<le> 8 * n"
  shows "le_word (le_bytes n w) = (w :: 'a::len word)"
proof (rule bit_word_eqI)
  fix k assume k: "k < LENGTH('a)"
  then have "k div 8 < n" using assms by (simp add: div_less_iff_less_mult mult.commute)
  then show "bit (le_word (le_bytes n w) :: 'a word) k \<longleftrightarrow> bit w k"
    using k by (simp add: bit_le_word le_bytes_def bit_ucast_iff bit_drop_bit_eq)
qed

lemma le_bytes_le_word:
  assumes "8 * length bs \<le> LENGTH('a)"
  shows "le_bytes (length bs) (le_word bs :: 'a::len word) = bs"
proof (rule nth_equalityI)
  fix i assume "i < length (le_bytes (length bs) (le_word bs :: 'a word))"
  then have i: "i < length bs" by simp
  show "le_bytes (length bs) (le_word bs :: 'a word) ! i = bs ! i"
  proof (rule bit_word_eqI)
    fix k assume "k < LENGTH(8)"
    then have "k < 8" by simp
    moreover have "8 * i + k < LENGTH('a)" using i \<open>k < 8\<close> assms by simp
    ultimately show "bit (le_bytes (length bs) (le_word bs :: 'a word) ! i) k \<longleftrightarrow> bit (bs ! i) k"
      using i by (simp add: le_bytes_def bit_ucast_iff bit_drop_bit_eq bit_le_word)
  qed
qed simp

lemma sint_small: "n < 2 ^ 31 \<Longrightarrow> sint (of_nat n :: uint) = int n"
  by transfer (simp add: signed_take_bit_int_eq_self)

end
