(* ===== verification/Xv6_String.thy ===== *)
theory Xv6_String
  imports Xv6_Prelude
begin

text \<open>
  \<open>kernel/string.c\<close>.  Routines that only read their arguments, or write through one
  pointer and never read back what they wrote, see a C pointer as the bytes from it on
  (\<open>cptr\<close>, with \<open>p++\<close> as \<open>padv\<close>); \<open>strncpy\<close> and \<open>safestrcpy\<close> return the bytes they store
  at the destination, in order.  \<open>memset\<close> and \<open>memmove\<close> work on the byte-addressed memory
  \<open>mem\<close>, since for \<open>memmove\<close> the two regions may overlap.
\<close>

type_synonym cptr = "nat \<Rightarrow> byte"
type_synonym mem = "uint64 \<Rightarrow> byte"

definition padv :: "cptr \<Rightarrow> cptr" where
  "padv p = (\<lambda>i. p (Suc i))"

definition mem_ptr :: "mem \<Rightarrow> uint64 \<Rightarrow> cptr" where
  "mem_ptr m a = (\<lambda>i. m (a + of_nat i))"

definition arr_ptr :: "byte list \<Rightarrow> cptr" where
  "arr_ptr xs = (\<lambda>i. if i < length xs then xs ! i else 0)"

section \<open>Definitions\<close>

definition memset :: "uint64 \<Rightarrow> byte \<Rightarrow> uint \<Rightarrow> mem \<Rightarrow> mem" where
  "memset dst c n m = fold (\<lambda>i m. m(dst + of_nat i := c)) [0..<unat n] m"

fun memcmp :: "cptr \<Rightarrow> cptr \<Rightarrow> nat \<Rightarrow> int" where
  "memcmp s1 s2 0 = 0"
| "memcmp s1 s2 (Suc n) =
     (if s1 0 \<noteq> s2 0 then uint (s1 0) - uint (s2 0) else memcmp (padv s1) (padv s2) n)"

text \<open>The two copy loops of \<open>memmove\<close>: \<open>*--d = *--s\<close> and \<open>*d++ = *s++\<close>.\<close>

fun memmove_down :: "uint64 \<Rightarrow> uint64 \<Rightarrow> nat \<Rightarrow> mem \<Rightarrow> mem" where
  "memmove_down d s 0 m = m"
| "memmove_down d s (Suc n) m = memmove_down (d - 1) (s - 1) n (m(d - 1 := m (s - 1)))"

fun memmove_up :: "uint64 \<Rightarrow> uint64 \<Rightarrow> nat \<Rightarrow> mem \<Rightarrow> mem" where
  "memmove_up d s 0 m = m"
| "memmove_up d s (Suc n) m = memmove_up (d + 1) (s + 1) n (m(d := m s))"

definition memmove :: "uint64 \<Rightarrow> uint64 \<Rightarrow> uint \<Rightarrow> mem \<Rightarrow> mem" where
  "memmove dst src n m =
     (if n = 0 then m
      else if src < dst \<and> src + ucast n > dst
      then memmove_down (dst + ucast n) (src + ucast n) (unat n) m
      else memmove_up dst src (unat n) m)"

definition memcpy :: "uint64 \<Rightarrow> uint64 \<Rightarrow> uint \<Rightarrow> mem \<Rightarrow> mem" where
  "memcpy dst src n m = memmove dst src n m"

fun strncmp :: "cptr \<Rightarrow> cptr \<Rightarrow> nat \<Rightarrow> int" where
  "strncmp p q 0 = 0"
| "strncmp p q (Suc n) =
     (if p 0 \<noteq> 0 \<and> p 0 = q 0 then strncmp (padv p) (padv q) n
      else uint (p 0) - uint (q 0))"

fun strncpy_loop :: "cptr \<Rightarrow> nat \<Rightarrow> byte list" where
  "strncpy_loop t 0 = []"
| "strncpy_loop t (Suc n) =
     (if t 0 \<noteq> 0 then t 0 # strncpy_loop (padv t) n else t 0 # replicate n 0)"

definition strncpy :: "cptr \<Rightarrow> int \<Rightarrow> byte list" where
  "strncpy t n = strncpy_loop t (nat n)"

text \<open>\<open>safestrcpy_loop t k\<close>: the copy loop with \<open>k\<close> bytes of room before the final NUL.\<close>

fun safestrcpy_loop :: "cptr \<Rightarrow> nat \<Rightarrow> byte list" where
  "safestrcpy_loop t 0 = [0]"
| "safestrcpy_loop t (Suc n) =
     (if t 0 \<noteq> 0 then t 0 # safestrcpy_loop (padv t) n else [t 0, 0])"

definition safestrcpy :: "cptr \<Rightarrow> int \<Rightarrow> byte list" where
  "safestrcpy t n = (if n \<le> 0 then [] else safestrcpy_loop t (nat (n - 1)))"

partial_function (option) strlen_from :: "cptr \<Rightarrow> nat \<Rightarrow> nat option" where
  "strlen_from s n = (if s n = 0 then Some n else strlen_from s (Suc n))"

definition strlen :: "cptr \<Rightarrow> nat option" where
  "strlen s = strlen_from s 0"

section \<open>memset and memmove\<close>

lemma fold_fill_apply:
  "fold (\<lambda>i m. m((d :: uint64) + of_nat i := c)) [0..<n] m a =
     (if \<exists>i < n. a = d + of_nat i then c else m a)"
  by (induction n) (auto simp: less_Suc_eq)

lemma offset_unat_iff:
  assumes "n \<le> 2 ^ 64"
  shows "(\<exists>i < n. a = (d :: uint64) + of_nat i) \<longleftrightarrow> unat (a - d) < n"
proof
  assume "\<exists>i < n. a = d + of_nat i"
  then obtain i where i: "i < n" "a = d + of_nat i" by blast
  then have "unat (a - d) = i"
    using assms by (simp add: unat_of_nat)
  then show "unat (a - d) < n" using i by simp
next
  assume "unat (a - d) < n"
  then show "\<exists>i < n. a = d + of_nat i"
    by (intro exI [of _ "unat (a - d)"]) simp
qed

lemma memset_apply:
  "memset d c n m a = (if unat (a - d) < unat n then c else m a)"
proof -
  have "unat n \<le> 2 ^ 64"
    using unsigned_less [of n, where ?'a = nat] by simp
  then show ?thesis
    by (simp add: memset_def fold_fill_apply offset_unat_iff)
qed

lemma unat_add_1:
  assumes "unat (d :: uint64) + 1 < 2 ^ 64"
  shows "unat (d + 1) = unat d + 1"
  using assms by (simp add: unat_word_ariths)

lemma unat_diff_1:
  assumes "0 < unat (d :: uint64)"
  shows "unat (d - 1) = unat d - 1"
  using assms by (simp add: unat_sub_if' word_gt_0 unat_gt_0 Suc_leI)

lemma unat_shifted_offset:
  assumes "unat d \<le> unat a" "unat a < unat d + n" "unat s + n < 2 ^ 64"
  shows "unat ((s :: uint64) + (a - d)) = unat s + (unat a - unat d)"
proof -
  have "unat (a - d) = unat a - unat d"
    using assms(1) by (simp add: unat_sub_if')
  moreover have "unat s + (unat a - unat d) < 2 ^ 64"
    using assms by linarith
  ultimately show ?thesis
    by (simp add: unat_word_ariths del: Nat.add_diff_assoc)
qed

text \<open>The simultaneous copy that both loops of \<open>memmove\<close> have to produce.\<close>

definition mem_copy :: "uint64 \<Rightarrow> uint64 \<Rightarrow> nat \<Rightarrow> mem \<Rightarrow> mem" where
  "mem_copy d s n m =
     (\<lambda>a. if unat d \<le> unat a \<and> unat a < unat d + n then m (s + (a - d)) else m a)"

lemma memmove_up_copy:
  assumes "unat s + n < 2 ^ 64" "unat d + n < 2 ^ 64"
    and "unat d \<le> unat s \<or> unat s + n \<le> unat d"
  shows "memmove_up d s n m = mem_copy d s n m"
  using assms
proof (induction n arbitrary: d s m)
  case 0
  then show ?case by (auto simp: mem_copy_def fun_eq_iff)
next
  case (Suc n)
  have u: "unat (d + 1) = unat d + 1" "unat (s + 1) = unat s + 1"
    using Suc.prems by (simp_all add: unat_add_1)
  have IH: "memmove_up (d + 1) (s + 1) n (m(d := m s)) =
      mem_copy (d + 1) (s + 1) n (m(d := m s))"
    by (rule Suc.IH) (use Suc.prems in \<open>auto simp: u\<close>)
  show ?case
  proof
    fix a
    show "memmove_up d s (Suc n) m a = mem_copy d s (Suc n) m a"
    proof (cases "unat d + 1 \<le> unat a \<and> unat a < unat d + Suc n")
      case True
      then have "unat (s + (a - d)) = unat s + (unat a - unat d)"
        using Suc.prems by (intro unat_shifted_offset [of _ _ "Suc n"]) auto
      then have "unat (s + (a - d)) \<noteq> unat d"
        using True Suc.prems by linarith
      then have "s + (a - d) \<noteq> d" by metis
      then show ?thesis
        using True by (auto simp: IH mem_copy_def u)
    next
      case outside: False
      show ?thesis
      proof (cases "a = d")
        case True
        then show ?thesis by (simp add: IH mem_copy_def u)
      next
        case False
        then have "unat a \<noteq> unat d" by (simp add: word_unat_eq_iff)
        with outside False have "\<not> (unat d \<le> unat a \<and> unat a < unat d + Suc n)"
          "\<not> (unat (d + 1) \<le> unat a \<and> unat a < unat (d + 1) + n)" by (auto simp: u)
        with False show ?thesis by (auto simp: IH mem_copy_def simp del: add_Suc_right)
      qed
    qed
  qed
qed

lemma memmove_down_copy:
  assumes "unat s + n < 2 ^ 64" "unat d + n < 2 ^ 64"
    and "unat s \<le> unat d"
  shows "memmove_down (d + of_nat n) (s + of_nat n) n m = mem_copy d s n m"
  using assms
proof (induction n arbitrary: m)
  case 0
  then show ?case by (auto simp: mem_copy_def fun_eq_iff)
next
  case (Suc n)
  let ?m = "m(d + of_nat n := m (s + of_nat n))"
  have un: "unat (d + of_nat n) = unat d + n"
    using Suc.prems by (simp add: unat_word_ariths unat_of_nat)
  have IH: "memmove_down (d + of_nat n) (s + of_nat n) n ?m = mem_copy d s n ?m"
    by (rule Suc.IH) (use Suc.prems in auto)
  have step: "memmove_down (d + of_nat (Suc n)) (s + of_nat (Suc n)) (Suc n) m =
      memmove_down (d + of_nat n) (s + of_nat n) n ?m"
    by (simp add: algebra_simps)
  show ?case
  proof
    fix a
    show "memmove_down (d + of_nat (Suc n)) (s + of_nat (Suc n)) (Suc n) m a =
        mem_copy d s (Suc n) m a"
    proof (cases "unat d \<le> unat a \<and> unat a < unat d + n")
      case True
      then have "unat (s + (a - d)) = unat s + (unat a - unat d)"
        using Suc.prems by (intro unat_shifted_offset [of _ _ "Suc n"]) auto
      then have "unat (s + (a - d)) < unat (d + of_nat n)"
        using True Suc.prems un by linarith
      then have "s + (a - d) \<noteq> d + of_nat n" by (metis less_irrefl)
      then show ?thesis
        using True unfolding step IH by (simp add: mem_copy_def)
    next
      case outside: False
      show ?thesis
      proof (cases "a = d + of_nat n")
        case True
        then show ?thesis unfolding step IH by (simp add: mem_copy_def un)
      next
        case False
        then have "unat a \<noteq> unat d + n" by (simp add: word_unat_eq_iff un)
        with outside have "\<not> (unat d \<le> unat a \<and> unat a < unat d + Suc n)" by auto
        with False outside show ?thesis
          unfolding step IH by (auto simp: mem_copy_def simp del: add_Suc_right)
      qed
    qed
  qed
qed

lemma memmove_copy:
  assumes "unat s + unat n < 2 ^ 64" "unat d + unat n < 2 ^ 64"
  shows "memmove d s n m = mem_copy d s (unat n) m"
proof -
  have un: "unat (ucast n :: uint64) = unat n"
    using unsigned_less [of n, where ?'a = nat] by (simp add: unsigned_ucast_eq take_bit_nat_eq_self)
  have sn: "unat (s + ucast n) = unat s + unat n"
    using assms(1) by (simp add: unat_word_ariths un)
  consider (zero) "n = 0" | (down) "n \<noteq> 0" "s < d \<and> s + ucast n > d"
    | (up) "n \<noteq> 0" "\<not> (s < d \<and> s + ucast n > d)" by blast
  then show ?thesis
  proof cases
    case zero
    then show ?thesis by (auto simp: memmove_def mem_copy_def fun_eq_iff)
  next
    case down
    have "(ucast n :: uint64) = of_nat (unat n)"
      by (simp add: un [symmetric])
    then show ?thesis
      using down assms memmove_down_copy [of s "unat n" d m]
      by (simp add: memmove_def word_less_nat_alt)
  next
    case up
    have "unat d \<le> unat s \<or> unat s + unat n \<le> unat d"
      using up sn by (auto simp: word_less_nat_alt not_less)
    then show ?thesis
      using up assms by (auto simp: memmove_def memmove_up_copy)
  qed
qed

section \<open>String routines\<close>

text \<open>\<open>cstr p\<close> starts with the string \<open>xs\<close> when its first bytes are \<open>xs\<close>, none of them NUL, and
  then a NUL.\<close>

definition is_cstr :: "cptr \<Rightarrow> byte list \<Rightarrow> bool" where
  "is_cstr p xs \<longleftrightarrow> (\<forall>i < length xs. p i = xs ! i \<and> xs ! i \<noteq> 0) \<and> p (length xs) = 0"

lemma is_cstr_Nil [simp]: "is_cstr p [] \<longleftrightarrow> p 0 = 0"
  by (simp add: is_cstr_def)

lemma is_cstr_Cons [simp]:
  "is_cstr p (x # xs) \<longleftrightarrow> p 0 = x \<and> x \<noteq> 0 \<and> is_cstr (padv p) xs"
  by (auto simp: is_cstr_def padv_def All_less_Suc2)

lemma padv_0: "padv p 0 = p 1"
  by (simp add: padv_def)

lemma strncpy_loop_cstr:
  "is_cstr t xs \<Longrightarrow> strncpy_loop t n = take n (xs @ replicate n 0)"
proof (induction n arbitrary: t xs)
  case 0
  then show ?case by simp
next
  case (Suc n)
  show ?case
  proof (cases xs)
    case Nil
    with Suc.prems show ?thesis by simp
  next
    case (Cons x ys)
    with Suc.prems have "strncpy_loop (padv t) n = take n (ys @ replicate n 0)"
      by (intro Suc.IH) simp
    with Cons Suc.prems show ?thesis
      by (simp add: replicate_append_same [symmetric])
  qed
qed

lemma safestrcpy_loop_cstr:
  "is_cstr t xs \<Longrightarrow> \<exists>zs. safestrcpy_loop t n = take n xs @ 0 # zs \<and> length zs \<le> n - length xs"
proof (induction n arbitrary: t xs)
  case 0
  then show ?case by simp
next
  case (Suc n)
  show ?case
  proof (cases xs)
    case Nil
    with Suc.prems show ?thesis by simp
  next
    case (Cons x ys)
    with Suc.prems have "is_cstr (padv t) ys" by simp
    from Suc.IH [OF this] Cons Suc.prems show ?thesis by auto
  qed
qed

lemma safestrcpy_loop_length: "length (safestrcpy_loop t n) \<le> Suc n"
  by (induction t n rule: safestrcpy_loop.induct) auto

lemma strncmp_0_iff:
  assumes "is_cstr p xs" "is_cstr q ys"
  shows "strncmp p q n = 0 \<longleftrightarrow> take n xs = take n ys"
  using assms
proof (induction p q n arbitrary: xs ys rule: strncmp.induct)
  case (1 p q)
  then show ?case by simp
next
  case (2 p q n)
  show ?case
  proof (cases "xs = [] \<or> ys = []")
    case True
    with "2.prems" show ?thesis
      by (cases xs; cases ys) (auto simp: uint_0_iff)
  next
    case False
    then obtain x xs' y ys' where "xs = x # xs'" "ys = y # ys'"
      by (meson neq_Nil_conv)
    with 2 show ?thesis by (auto simp: word_uint_eq_iff)
  qed
qed

lemma strlen_from_cstr:
  assumes "p (n + length xs) = 0" "\<And>i. i < length xs \<Longrightarrow> p (n + i) \<noteq> 0"
  shows "strlen_from p n = Some (n + length xs)"
  using assms
proof (induction xs arbitrary: n)
  case Nil
  then show ?case by (simp add: strlen_from.simps)
next
  case (Cons x xs)
  have "p n \<noteq> 0" using Cons.prems(2) [of 0] by simp
  moreover have "strlen_from p (Suc n) = Some (Suc n + length xs)"
    by (rule Cons.IH) (use Cons.prems(1) Cons.prems(2) [of "Suc _"] in auto)
  ultimately show ?case by (simp add: strlen_from.simps [of p n])
qed

lemma strlen_cstr: "is_cstr p xs \<Longrightarrow> strlen p = Some (length xs)"
  using strlen_from_cstr [of p 0 xs] by (simp add: strlen_def is_cstr_def)


section \<open>Properties\<close>

text \<open>
  \<open>memmove\<close> copies as if through a temporary buffer.  Whichever direction its loop takes, and
  however the two ranges overlap, afterwards every byte of the destination range is the byte the
  source had at that offset before the call, and no other byte has changed.
\<close>

theorem memmove_simultaneous:
  assumes "unat src + unat n < 2 ^ 64" "unat dst + unat n < 2 ^ 64"
  shows "memmove dst src n m a = (if unat dst \<le> unat a \<and> unat a < unat dst + unat n then m (src + (a - dst)) else m a)"
  using memmove_copy [OF assms] by (simp add: mem_copy_def)

text \<open>
  \<open>safestrcpy\<close> never writes more than \<open>n\<close> bytes and always terminates the copy: it stores the
  longest prefix of the string that leaves room for a NUL, then the NUL.
\<close>

theorem safestrcpy_terminated:
  assumes "is_cstr t xs" "0 < n"
  shows "\<exists>zs. safestrcpy t n = take (nat n - 1) xs @ 0 # zs \<and> length (safestrcpy t n) \<le> nat n"
proof -
  have "nat (n - 1) = nat n - 1" by simp
  then show ?thesis
    using safestrcpy_loop_cstr [OF assms(1), of "nat n - 1"] safestrcpy_loop_length [of t "nat n - 1"] assms(2)
    by (auto simp: safestrcpy_def)
qed

theorem memmove_simultaneous_witness:
  "map (memmove 11 10 3 (\<lambda>a. ucast a)) [10, 11, 12, 13, 14] = [10, 10, 11, 12, 14]"
  using memmove_simultaneous [of 10 3 11 "\<lambda>a. ucast a"] by simp

theorem safestrcpy_terminated_witness:
  "\<exists>zs. safestrcpy (arr_ptr [97, 98, 99, 100]) 3 = [97, 98] @ 0 # zs"
proof -
  have "is_cstr (arr_ptr [97, 98, 99, 100]) [97, 98, 99, 100]"
    by (simp add: arr_ptr_def padv_def)
  from safestrcpy_terminated [OF this, of 3] show ?thesis by (auto simp: numeral_2_eq_2)
qed

end
