(* ===== verification/Xv6_Memory.thy ===== *)
theory Xv6_Memory
  imports Xv6_String
begin

unbundle bit_operations_syntax

text \<open>
  Physical memory and the page arithmetic of \<open>kernel/memlayout.h\<close> and \<open>kernel/riscv.h\<close>.
  Memory is a function from addresses to bytes; 64-bit loads and stores go through the
  little-endian encoding.
\<close>

section \<open>Layout\<close>

definition KERNBASE :: uint64 where "KERNBASE = 0x80000000"
definition PHYSTOP :: uint64 where "PHYSTOP = KERNBASE + 128 * 1024 * 1024"
definition PGSIZE :: "'a::len word" where "PGSIZE = 4096"

definition PGROUNDUP :: "uint64 \<Rightarrow> uint64" where
  "PGROUNDUP sz = (sz + PGSIZE - 1) AND NOT (PGSIZE - 1)"

definition PGROUNDDOWN :: "uint64 \<Rightarrow> uint64" where
  "PGROUNDDOWN a = a AND NOT (PGSIZE - 1)"

definition MAXVA :: uint64 where "MAXVA = push_bit (9 + 9 + 9 + 12 - 1) 1"
definition TRAMPOLINE :: uint64 where "TRAMPOLINE = MAXVA - PGSIZE"
definition TRAPFRAME :: uint64 where "TRAPFRAME = TRAMPOLINE - PGSIZE"

definition KSTACK :: "nat \<Rightarrow> uint64" where
  "KSTACK p = TRAMPOLINE - (of_nat p + 1) * 2 * PGSIZE"

section \<open>Loads and stores\<close>

definition mem_store :: "uint64 \<Rightarrow> byte list \<Rightarrow> mem \<Rightarrow> mem" where
  "mem_store a bs m = (\<lambda>x. if unat (x - a) < length bs then bs ! unat (x - a) else m x)"

definition mem_load :: "mem \<Rightarrow> uint64 \<Rightarrow> nat \<Rightarrow> byte list" where
  "mem_load m a n = map (\<lambda>i. m (a + of_nat i)) [0..<n]"

definition read64 :: "mem \<Rightarrow> uint64 \<Rightarrow> uint64" where
  "read64 m a = le_word (mem_load m a 8)"

definition write64 :: "uint64 \<Rightarrow> uint64 \<Rightarrow> mem \<Rightarrow> mem" where
  "write64 a v m = mem_store a (le_bytes 8 v) m"

lemma length_mem_load [simp]: "length (mem_load m a n) = n"
  by (simp add: mem_load_def)

lemma mem_load_store:
  assumes "length bs < 2 ^ 64"
  shows "mem_load (mem_store a bs m) a (length bs) = bs"
  by (rule nth_equalityI) (use assms in \<open>simp_all add: mem_load_def mem_store_def unat_of_nat\<close>)

lemma read64_write64 [simp]: "read64 (write64 a v m) a = v"
  using mem_load_store [of "le_bytes 8 v" a m]
  by (simp add: read64_def write64_def le_word_le_bytes)

text \<open>Loads only see the bytes they cover.\<close>

lemma mem_load_cong:
  "(\<And>i. i < n \<Longrightarrow> m (a + of_nat i) = m' (a + of_nat i)) \<Longrightarrow> mem_load m a n = mem_load m' a n"
  by (simp add: mem_load_def)

section \<open>Pages\<close>

definition page_aligned :: "uint64 \<Rightarrow> bool" where
  "page_aligned a \<longleftrightarrow> a mod PGSIZE = 0"

text \<open>The bytes of the page at \<open>p\<close>.\<close>

definition in_page :: "uint64 \<Rightarrow> uint64 \<Rightarrow> bool" where
  "in_page p a \<longleftrightarrow> unat (a - p) < 4096"

lemma page_aligned_nat: "page_aligned a \<longleftrightarrow> unat a mod 4096 = 0"
  by (simp add: page_aligned_def PGSIZE_def unat_eq_zero [symmetric] unat_mod_distrib)

lemma page_no_overflow: "page_aligned p \<Longrightarrow> unat p + 4096 \<le> 2 ^ 64"
proof -
  assume "page_aligned p"
  then have "4096 dvd unat p" by (simp add: page_aligned_nat mod_eq_0_iff_dvd)
  then obtain k where k: "unat p = 4096 * k" by (elim dvdE)
  have "unat p < 2 ^ 64" using unsigned_less [of p, where ?'a = nat] by simp
  then have "k < 4503599627370496" using k by simp
  then show ?thesis using k by simp
qed

lemma in_page_unat:
  assumes "page_aligned p"
  shows "in_page p a \<longleftrightarrow> unat p \<le> unat a \<and> unat a < unat p + 4096"
proof -
  have "unat p + 4096 \<le> 2 ^ 64" using assms by (rule page_no_overflow)
  moreover have "unat a < 2 ^ 64" using unsigned_less [of a, where ?'a = nat] by simp
  ultimately show ?thesis
    by (auto simp: in_page_def unat_sub_if')
qed

lemma in_page_div:
  assumes "page_aligned p"
  shows "in_page p a \<longleftrightarrow> unat a div 4096 = unat p div 4096"
  using assms unfolding in_page_unat [OF assms] page_aligned_nat
  by (auto simp: mod_eq_0_iff_dvd elim!: dvdE)

lemma in_page_unique:
  assumes "page_aligned p" "page_aligned q" "in_page p a" "in_page q a"
  shows "p = q"
proof -
  have "unat p div 4096 = unat q div 4096" using assms by (simp add: in_page_div)
  then have "unat p = unat q"
    using assms(1,2) unfolding page_aligned_nat by (metis mod_mult_div_eq add.left_neutral)
  then show ?thesis by (simp add: word_unat_eq_iff)
qed

text \<open>The 512 eight-byte slots of a page.\<close>

lemma in_page_slot:
  assumes "i < 512" "j < 8"
  shows "in_page p (p + of_nat (8 * i) + of_nat j)"
proof -
  have "p + of_nat (8 * i) + of_nat j - p = of_nat (8 * i + j)" by simp
  then show ?thesis using assms unfolding in_page_def by (simp add: unat_of_nat del: of_nat_add of_nat_mult)
qed

lemma read64_slot_cong:
  assumes "i < 512" "\<And>a. in_page p a \<Longrightarrow> m a = m' a"
  shows "read64 m (p + of_nat (8 * i)) = read64 m' (p + of_nat (8 * i))"
  unfolding read64_def using assms
  by (auto intro!: arg_cong [where f = le_word] mem_load_cong in_page_slot simp del: of_nat_mult)

lemma write64_outside:
  assumes "i < 512" "\<not> in_page p a"
  shows "write64 (p + of_nat (8 * i)) v m a = m a"
proof -
  have "\<not> unat (a - (p + of_nat (8 * i))) < 8"
  proof
    assume l: "unat (a - (p + of_nat (8 * i))) < 8"
    have "a = p + of_nat (8 * i) + of_nat (unat (a - (p + of_nat (8 * i))))" by simp
    then have "in_page p a" using in_page_slot [OF assms(1) l] by metis
    with assms(2) show False by simp
  qed
  then show ?thesis by (simp add: write64_def mem_store_def)
qed

lemma read64_write64_other_slot:
  assumes "i < 512" "j < 512" "i \<noteq> j"
  shows "read64 (write64 (p + of_nat (8 * i)) v m) (p + of_nat (8 * j)) = read64 m (p + of_nat (8 * j))"
  unfolding read64_def
proof (rule arg_cong [where f = le_word], rule mem_load_cong)
  fix k :: nat assume k: "k < 8"
  have d: "p + of_nat (8 * j) + of_nat k - (p + of_nat (8 * i)) =
      (of_nat (8 * j + k) - of_nat (8 * i) :: uint64)" by simp
  have u: "unat (of_nat (8 * j + k) :: uint64) = 8 * j + k" "unat (of_nat (8 * i) :: uint64) = 8 * i"
    using assms k by (simp_all add: unat_of_nat del: of_nat_add of_nat_mult)
  have "\<not> unat (p + of_nat (8 * j) + of_nat k - (p + of_nat (8 * i)) :: uint64) < 8"
    unfolding d unat_sub_if' u using assms k by auto
  then show "write64 (p + of_nat (8 * i)) v m (p + of_nat (8 * j) + of_nat k) = m (p + of_nat (8 * j) + of_nat k)"
    by (simp add: write64_def mem_store_def del: of_nat_mult)
qed

lemma PGROUNDDOWN_unat: "unat (PGROUNDDOWN a) = unat a div 4096 * 4096"
proof -
  have m: "PGSIZE - 1 = (mask 12 :: uint64)" by (simp add: PGSIZE_def mask_eq_exp_minus_1)
  have "PGROUNDDOWN a = push_bit 12 (drop_bit 12 a)"
    unfolding PGROUNDDOWN_def m by (rule bit_word_eqI) (auto simp: bit_simps)
  moreover have "unat (drop_bit 12 a) = unat a div 4096"
    by (simp add: drop_bit_eq_div unat_div_distrib)
  moreover have "unat a div 4096 * 4096 < 2 ^ 64"
    using unsigned_less [of a, where ?'a = nat] by (simp add: le_less_trans [OF div_times_less_eq_dividend])
  ultimately show ?thesis
    by (simp add: push_bit_eq_mult unat_word_ariths)
qed

lemma page_aligned_PGROUNDDOWN [simp]: "page_aligned (PGROUNDDOWN a)"
  by (simp add: page_aligned_nat PGROUNDDOWN_unat)

lemma PGROUNDUP_unat:
  assumes "unat a + 4095 < 2 ^ 64"
  shows "unat (PGROUNDUP a) = (unat a + 4095) div 4096 * 4096"
proof -
  have "PGROUNDUP a = PGROUNDDOWN (a + 4095)"
    by (simp add: PGROUNDUP_def PGROUNDDOWN_def PGSIZE_def add_diff_eq [symmetric])
  moreover have "unat (a + 4095) = unat a + 4095"
    using assms by (simp add: unat_word_ariths)
  ultimately show ?thesis by (simp add: PGROUNDDOWN_unat)
qed

lemma page_aligned_PGROUNDUP [simp]: "page_aligned (PGROUNDUP a)"
proof -
  have "PGROUNDUP a = PGROUNDDOWN (a + 4095)"
    by (simp add: PGROUNDUP_def PGROUNDDOWN_def PGSIZE_def add_diff_eq [symmetric])
  then show ?thesis by simp
qed

section \<open>Changes confined to a set of pages\<close>

text \<open>
  \<open>agree_on P\<close>: two memories have the same bytes in the pages \<open>P\<close>; \<open>frame_on P\<close>: they have
  the same bytes outside of them.
\<close>

definition agree_on :: "uint64 set \<Rightarrow> mem \<Rightarrow> mem \<Rightarrow> bool" where
  "agree_on P m m' \<longleftrightarrow> (\<forall>p \<in> P. \<forall>a. in_page p a \<longrightarrow> m' a = m a)"

lemma agree_on_mono: "agree_on P m m' \<Longrightarrow> Q \<subseteq> P \<Longrightarrow> agree_on Q m m'"
  by (auto simp: agree_on_def)

definition frame_on :: "uint64 set \<Rightarrow> mem \<Rightarrow> mem \<Rightarrow> bool" where
  "frame_on P m m' \<longleftrightarrow> (\<forall>a. (\<forall>p \<in> P. \<not> in_page p a) \<longrightarrow> m' a = m a)"

lemma frame_on_agree:
  assumes "frame_on P m m'" "\<forall>p \<in> P. page_aligned p" "\<forall>p \<in> Q. page_aligned p" "P \<inter> Q = {}"
  shows "agree_on Q m m'"
  using assms in_page_unique unfolding frame_on_def agree_on_def by (metis disjoint_iff)

lemma frame_on_mono: "frame_on P m m' \<Longrightarrow> P \<subseteq> Q \<Longrightarrow> frame_on Q m m'"
  unfolding frame_on_def by blast

lemma frame_on_write64: "i < 512 \<Longrightarrow> p \<in> P \<Longrightarrow> frame_on P m (write64 (p + of_nat (8 * i)) v m)"
  unfolding frame_on_def using write64_outside by blast

end
