(* ===== verification/Xv6_Spinlock.thy ===== *)
theory Xv6_Spinlock
  imports Xv6_Prelude
begin

unbundle bit_operations_syntax

text \<open>
  \<open>kernel/spinlock.c\<close>, with the parts of \<open>riscv.h\<close> and \<open>proc.h\<close> it uses.  The record
  \<open>machine\<close> is the state of the running hart (\<open>tp\<close>, \<open>sstatus\<close>), the array \<open>cpus\<close> and all
  spinlocks of the kernel; a \<open>struct spinlock\<close> is addressed by a \<open>lockid\<close>, one constructor
  per lock the sources declare.  Later theories extend the record with their own state, so
  every operation is typed over \<open>'z machine_scheme\<close>.

  Two views of the lock are given.  The sequential operations \<open>acquire\<close> and \<open>release\<close> run on
  one hart, where finding the lock held by another hart is \<open>Hang\<close>.  The step relation
  \<open>lock_step\<close> interleaves the atomic instructions of any number of harts and carries the
  mutual exclusion proof.
\<close>

section \<open>State\<close>

datatype lockid =
    KmemLock | PidLock | WaitLock | ProcLock nat
  | BcacheLock | BufLock nat | LogLock | ItableLock | InodeLock nat
  | FtableLock | PipeLock uint64 | TicksLock | ConsLock | UartLock | PrLock | VdiskLock

record spinlock =
  locked :: uint
  lname :: string
  lcpu :: "nat option"

record cpu =
  cproc :: "nat option"
  noff :: int
  intena :: bool

record machine =
  tp :: nat
  sstatus :: uint64
  cpus :: "nat \<Rightarrow> cpu"
  locks :: "lockid \<Rightarrow> spinlock"

section \<open>Operations\<close>

definition SSTATUS_SIE :: uint64 where
  "SSTATUS_SIE = push_bit 1 1"

definition intr_on :: "('z machine_scheme, unit) kmon" where
  "intr_on = modify (\<lambda>s. s\<lparr>sstatus := sstatus s OR SSTATUS_SIE\<rparr>)"

definition intr_off :: "('z machine_scheme, unit) kmon" where
  "intr_off = modify (\<lambda>s. s\<lparr>sstatus := sstatus s AND NOT SSTATUS_SIE\<rparr>)"

definition intr_get :: "('z machine_scheme, bool) kmon" where
  "intr_get = gets (\<lambda>s. sstatus s AND SSTATUS_SIE \<noteq> 0)"

definition cpuid :: "('z machine_scheme, nat) kmon" where
  "cpuid = gets tp"

definition mycpu :: "('z machine_scheme, cpu) kmon" where
  "mycpu = bind cpuid (\<lambda>id. gets (\<lambda>s. cpus s id))"

text \<open>An assignment through the pointer \<open>mycpu()\<close>.\<close>

definition upd_mycpu :: "(cpu \<Rightarrow> cpu) \<Rightarrow> ('z machine_scheme, unit) kmon" where
  "upd_mycpu f = bind cpuid (\<lambda>id. modify (\<lambda>s. s\<lparr>cpus := (cpus s)(id := f (cpus s id))\<rparr>))"

definition push_off :: "('z machine_scheme, unit) kmon" where
  "push_off =
     bind intr_get (\<lambda>old.
     seq intr_off (
     bind mycpu (\<lambda>c.
     seq (kwhen (noff c = 0) (upd_mycpu (\<lambda>c. c\<lparr>intena := old\<rparr>)))
         (upd_mycpu (\<lambda>c. c\<lparr>noff := noff c + 1\<rparr>)))))"

definition pop_off :: "('z machine_scheme, unit) kmon" where
  "pop_off =
     bind intr_get (\<lambda>on.
     if on then panic ''pop_off - interruptible''
     else bind mycpu (\<lambda>c.
     if noff c < 1 then panic ''pop_off''
     else seq (upd_mycpu (\<lambda>c. c\<lparr>noff := noff c - 1\<rparr>))
         (bind mycpu (\<lambda>c. kwhen (noff c = 0 \<and> intena c) intr_on))))"

definition initlock :: "lockid \<Rightarrow> string \<Rightarrow> ('z machine_scheme, unit) kmon" where
  "initlock l name =
     modify (\<lambda>s. s\<lparr>locks := (locks s)(l := \<lparr>locked = 0, lname = name, lcpu = None\<rparr>)\<rparr>)"

definition holding :: "lockid \<Rightarrow> ('z machine_scheme, bool) kmon" where
  "holding l =
     bind cpuid (\<lambda>id.
     gets (\<lambda>s. locked (locks s l) \<noteq> 0 \<and> lcpu (locks s l) = Some id))"

text \<open>\<open>__sync_lock_test_and_set(&lk->locked, 1)\<close>: store 1, return the old value.\<close>

definition test_and_set :: "lockid \<Rightarrow> ('z machine_scheme, uint) kmon" where
  "test_and_set l =
     bind (gets (\<lambda>s. locked (locks s l))) (\<lambda>old.
     seq (modify (\<lambda>s. s\<lparr>locks := (locks s)(l := (locks s l)\<lparr>locked := 1\<rparr>)\<rparr>))
         (return old))"

definition acquire :: "lockid \<Rightarrow> ('z machine_scheme, unit) kmon" where
  "acquire l =
     seq push_off (
     bind (holding l) (\<lambda>h.
     if h then panic ''acquire''
     else bind (test_and_set l) (\<lambda>old.
     if old \<noteq> 0 then hang
     else bind cpuid (\<lambda>id.
       modify (\<lambda>s. s\<lparr>locks := (locks s)(l := (locks s l)\<lparr>lcpu := Some id\<rparr>)\<rparr>)))))"

definition release :: "lockid \<Rightarrow> ('z machine_scheme, unit) kmon" where
  "release l =
     bind (holding l) (\<lambda>h.
     if \<not> h then panic ''release''
     else seq (modify (\<lambda>s. s\<lparr>locks := (locks s)(l := (locks s l)\<lparr>lcpu := None\<rparr>)\<rparr>)) (
     seq (modify (\<lambda>s. s\<lparr>locks := (locks s)(l := (locks s l)\<lparr>locked := 0\<rparr>)\<rparr>))
         pop_off))"

section \<open>Interrupt enable bit\<close>

lemmas intr_defs = intr_on_def intr_off_def intr_get_def
lemmas cpu_defs = cpuid_def mycpu_def upd_mycpu_def

definition intr_enabled :: "'z machine_scheme \<Rightarrow> bool" where
  "intr_enabled s \<longleftrightarrow> sstatus s AND SSTATUS_SIE \<noteq> 0"

lemma bit_SIE: "bit SSTATUS_SIE n \<longleftrightarrow> n = 1"
  by (auto simp: SSTATUS_SIE_def bit_2_iff)

lemma SIE_bit: "(x :: uint64) AND SSTATUS_SIE = 0 \<longleftrightarrow> \<not> bit x 1"
proof
  assume "x AND SSTATUS_SIE = 0"
  then have "\<not> bit (x AND SSTATUS_SIE) 1" by simp
  then show "\<not> bit x 1" by (simp add: bit_SIE bit_and_iff)
next
  assume "\<not> bit x 1"
  then show "x AND SSTATUS_SIE = 0"
    by (intro bit_eqI) (auto simp: bit_SIE bit_and_iff)
qed

lemma SIE_off_off [simp]: "(x AND NOT SSTATUS_SIE) AND SSTATUS_SIE = 0"
  unfolding SIE_bit by (simp add: bit_SIE bit_and_iff bit_not_iff del: One_nat_def)

lemma SIE_on: "x AND SSTATUS_SIE \<noteq> 0 \<Longrightarrow> (x AND NOT SSTATUS_SIE) OR SSTATUS_SIE = x"
  unfolding SIE_bit
  by (rule bit_eqI) (auto simp: bit_SIE bit_and_iff bit_or_iff bit_not_iff simp del: One_nat_def)

lemma SIE_off: "x AND SSTATUS_SIE = 0 \<Longrightarrow> x AND NOT SSTATUS_SIE = x"
  unfolding SIE_bit
  by (rule bit_eqI) (auto simp: bit_SIE bit_and_iff bit_not_iff simp del: One_nat_def)

section \<open>Acquire and release on one hart\<close>

text \<open>
  A hart is \<^emph>\<open>quiet\<close> when its nesting counter and its interrupt flag agree: outside all
  critical sections \<open>intena\<close> is the current flag (so a \<open>push_off\<close> saves what is already
  saved), inside them interrupts are off.  In a quiet state a critical section leaves the
  hart exactly as it found it.
\<close>

definition cpu_quiet :: "'z machine_scheme \<Rightarrow> bool" where
  "cpu_quiet s \<longleftrightarrow>
     (let c = cpus s (tp s) in
      0 \<le> noff c \<and> (if noff c = 0 then intena c = intr_enabled s else \<not> intr_enabled s))"

lemma cpu_quiet_locks [simp]: "cpu_quiet (s\<lparr>locks := f\<rparr>) = cpu_quiet s"
  by (simp add: cpu_quiet_def intr_enabled_def)

definition lock_free :: "lockid \<Rightarrow> 'z machine_scheme \<Rightarrow> bool" where
  "lock_free l s \<longleftrightarrow> locked (locks s l) = 0 \<and> lcpu (locks s l) = None"

definition lock_held :: "lockid \<Rightarrow> 'z machine_scheme \<Rightarrow> bool" where
  "lock_held l s \<longleftrightarrow> locked (locks s l) = 1 \<and> lcpu (locks s l) = Some (tp s)"

text \<open>The states after a successful \<open>acquire\<close> and after the matching \<open>release\<close>.\<close>

definition after_acquire :: "lockid \<Rightarrow> 'z machine_scheme \<Rightarrow> 'z machine_scheme" where
  "after_acquire l s = s\<lparr>
     sstatus := sstatus s AND NOT SSTATUS_SIE,
     cpus := (cpus s)(tp s := (cpus s (tp s))\<lparr>noff := noff (cpus s (tp s)) + 1\<rparr>),
     locks := (locks s)(l := (locks s l)\<lparr>locked := 1, lcpu := Some (tp s)\<rparr>)\<rparr>"

definition after_release :: "lockid \<Rightarrow> 'z machine_scheme \<Rightarrow> 'z machine_scheme" where
  "after_release l s = s\<lparr>
     locks := (locks s)(l := (locks s l)\<lparr>lcpu := None, locked := 0\<rparr>),
     cpus := (cpus s)(tp s := (cpus s (tp s))\<lparr>noff := noff (cpus s (tp s)) - 1\<rparr>),
     sstatus := (if noff (cpus s (tp s)) = 1 \<and> intena (cpus s (tp s))
                 then sstatus s OR SSTATUS_SIE else sstatus s)\<rparr>"

lemma cpu_intena_triv: "intena c = b \<Longrightarrow> c\<lparr>intena := b, noff := n\<rparr> = c\<lparr>noff := n\<rparr>"
  by (cases c) simp

lemma push_off_quiet:
  assumes "cpu_quiet s"
  shows "push_off s = Ok () (s\<lparr>
     sstatus := sstatus s AND NOT SSTATUS_SIE,
     cpus := (cpus s)(tp s := (cpus s (tp s))\<lparr>noff := noff (cpus s (tp s)) + 1\<rparr>)\<rparr>)"
  using assms
  by (simp add: push_off_def intr_defs cpu_defs kexec cpu_quiet_def intr_enabled_def Let_def
      cpu_intena_triv split: if_splits)

lemma acquire_free:
  assumes "cpu_quiet s" "lock_free l s"
  shows "acquire l s = Ok () (after_acquire l s)"
  using assms(2)
  by (simp add: acquire_def push_off_quiet [OF assms(1)] holding_def test_and_set_def cpu_defs
      kexec lock_free_def after_acquire_def)

lemma release_held:
  assumes "lock_held l s" "\<not> intr_enabled s" "1 \<le> noff (cpus s (tp s))"
  shows "release l s = Ok () (after_release l s)"
  using assms
  by (simp add: release_def pop_off_def intr_defs cpu_defs holding_def kexec lock_held_def
      intr_enabled_def after_release_def)


lemma lock_free_triv:
  "lock_free l s \<Longrightarrow> (locks s)(l := (locks s l)\<lparr>locked := 0, lcpu := None\<rparr>) = locks s"
  "lock_free l s \<Longrightarrow> (locks s)(l := (locks s l)\<lparr>lcpu := None, locked := 0\<rparr>) = locks s"
  unfolding lock_free_def by (cases "locks s l"; auto)+

text \<open>
  Bodies of critical sections change only the fields that later theories add.  \<open>same_machine\<close>
  says that two states agree on the hart and the locks, \<open>restore s t\<close> is \<open>t\<close> with the hart
  and the locks of \<open>s\<close>.
\<close>

definition same_machine :: "'y machine_scheme \<Rightarrow> 'z machine_scheme \<Rightarrow> bool" where
  "same_machine s t \<longleftrightarrow>
     tp t = tp s \<and> sstatus t = sstatus s \<and> cpus t = cpus s \<and> locks t = locks s"

definition restore :: "'y machine_scheme \<Rightarrow> 'z machine_scheme \<Rightarrow> 'z machine_scheme" where
  "restore s t = t\<lparr>tp := tp s, sstatus := sstatus s, cpus := cpus s, locks := locks s\<rparr>"

lemma same_machine_refl [simp]: "same_machine s s"
  by (simp add: same_machine_def)

lemma restore_self [simp]: "restore s s = s"
  by (simp add: restore_def)

lemma after_release_restore:
  assumes "cpu_quiet s" "lock_free l s" "same_machine (after_acquire l s) t"
  shows "after_release l t = restore s t"
proof (rule machine.equality)
  show "tp (after_release l t) = tp (restore s t)"
    using assms(3) by (simp add: after_release_def restore_def same_machine_def after_acquire_def)
  show "sstatus (after_release l t) = sstatus (restore s t)"
    using assms
    by (auto simp: after_release_def restore_def same_machine_def after_acquire_def cpu_quiet_def
        intr_enabled_def SIE_on SIE_off Let_def split: if_splits)
  show "cpus (after_release l t) = cpus (restore s t)"
    using assms(3) by (simp add: after_release_def restore_def same_machine_def after_acquire_def)
  show "locks (after_release l t) = locks (restore s t)"
    using assms(2,3) lock_free_triv [OF assms(2)]
    by (simp add: after_release_def restore_def same_machine_def after_acquire_def)
qed (simp add: after_release_def restore_def)

lemma release_restores:
  assumes "cpu_quiet s" "lock_free l s" "same_machine (after_acquire l s) t"
  shows "release l t = Ok () (restore s t)"
proof -
  have "release l t = Ok () (after_release l t)"
    using assms by (intro release_held)
      (auto simp: cpu_quiet_def lock_held_def same_machine_def after_acquire_def
        intr_enabled_def Let_def)
  then show ?thesis by (simp add: after_release_restore [OF assms])
qed
lemma cpu_quiet_same: "same_machine s t \<Longrightarrow> cpu_quiet t = cpu_quiet s"
  by (simp add: same_machine_def cpu_quiet_def intr_enabled_def)

lemma lock_free_same: "same_machine s t \<Longrightarrow> lock_free l t = lock_free l s"
  by (simp add: same_machine_def lock_free_def)

lemma after_acquire_quiet: "cpu_quiet s \<Longrightarrow> cpu_quiet (after_acquire l s)"
  by (auto simp: cpu_quiet_def after_acquire_def intr_enabled_def Let_def)

lemma after_acquire_lock_free:
  "lock_free k s \<Longrightarrow> k \<noteq> l \<Longrightarrow> lock_free k (after_acquire l s)"
  by (simp add: lock_free_def after_acquire_def)

lemma after_acquire_tp [simp]: "tp (after_acquire l s) = tp s"
  by (simp add: after_acquire_def)

text \<open>
  The collection \<open>crit\<close> moves the updates of a critical section's body past the restored hart
  and lock; each theory that adds fields to the state adds its rules.
\<close>

named_theorems crit \<open>state updates inside a critical section\<close>

lemma restore_acquired [crit]: "restore s (after_acquire l s) = s"
  by (simp add: restore_def after_acquire_def)

text \<open>Interrupts off and on again around the read of the current process.\<close>

lemma pop_off_push:
  assumes "cpu_quiet s"
  shows "pop_off (s\<lparr>sstatus := sstatus s AND NOT SSTATUS_SIE,
     cpus := (cpus s)(tp s := (cpus s (tp s))\<lparr>noff := noff (cpus s (tp s)) + 1\<rparr>)\<rparr>) = Ok () s"
  using assms
  by (auto simp: pop_off_def intr_defs cpu_defs kexec cpu_quiet_def Let_def intr_enabled_def
      SIE_on SIE_off split: if_splits)

text \<open>The rule for a critical section whose body leaves the machine part alone.\<close>

lemma critical_section:
  assumes "cpu_quiet s" "lock_free l s"
    and "body (after_acquire l s) = Ok r t" "same_machine (after_acquire l s) t"
  shows "bind (acquire l) (\<lambda>_. bind body (\<lambda>r. bind (release l) (\<lambda>_. k r))) s = k r (restore s t)"
  by (simp add: bind_apply acquire_free [OF assms(1,2)] assms(3)
      release_restores [OF assms(1,2,4)])

section \<open>Interleaved harts\<close>

text \<open>
  One lock, any number of harts.  A hart is outside, at the atomic swap of \<open>acquire\<close>, between
  the swap and the store of \<open>lk->cpu\<close>, in its critical section, or between the two stores
  of \<open>release\<close>; a hart whose check failed has panicked.
\<close>

datatype lock_pc = Outside | AtSwap | AtSetCpu | Critical | AtUnlock | Panicked

record lock_sys =
  lk :: spinlock
  pc :: "nat \<Rightarrow> lock_pc"

definition holds :: "lock_sys \<Rightarrow> nat \<Rightarrow> bool" where
  "holds s i \<longleftrightarrow> locked (lk s) \<noteq> 0 \<and> lcpu (lk s) = Some i"

inductive lock_step :: "lock_sys \<Rightarrow> lock_sys \<Rightarrow> bool" where
  check_ok: "pc s i = Outside \<Longrightarrow> \<not> holds s i \<Longrightarrow>
     lock_step s (s\<lparr>pc := (pc s)(i := AtSwap)\<rparr>)"
| check_panic: "pc s i = Outside \<Longrightarrow> holds s i \<Longrightarrow>
     lock_step s (s\<lparr>pc := (pc s)(i := Panicked)\<rparr>)"
| swap_won: "pc s i = AtSwap \<Longrightarrow> locked (lk s) = 0 \<Longrightarrow>
     lock_step s (s\<lparr>lk := (lk s)\<lparr>locked := 1\<rparr>, pc := (pc s)(i := AtSetCpu)\<rparr>)"
| swap_lost: "pc s i = AtSwap \<Longrightarrow> locked (lk s) \<noteq> 0 \<Longrightarrow>
     lock_step s (s\<lparr>lk := (lk s)\<lparr>locked := 1\<rparr>\<rparr>)"
| set_cpu: "pc s i = AtSetCpu \<Longrightarrow>
     lock_step s (s\<lparr>lk := (lk s)\<lparr>lcpu := Some i\<rparr>, pc := (pc s)(i := Critical)\<rparr>)"
| release_panic: "pc s i = Critical \<Longrightarrow> \<not> holds s i \<Longrightarrow>
     lock_step s (s\<lparr>pc := (pc s)(i := Panicked)\<rparr>)"
| clear_cpu: "pc s i = Critical \<Longrightarrow> holds s i \<Longrightarrow>
     lock_step s (s\<lparr>lk := (lk s)\<lparr>lcpu := None\<rparr>, pc := (pc s)(i := AtUnlock)\<rparr>)"
| unlock: "pc s i = AtUnlock \<Longrightarrow>
     lock_step s (s\<lparr>lk := (lk s)\<lparr>locked := 0\<rparr>, pc := (pc s)(i := Outside)\<rparr>)"

inductive lock_reachable :: "lock_sys \<Rightarrow> bool" where
  init: "lock_reachable \<lparr>lk = \<lparr>locked = 0, lname = n, lcpu = None\<rparr>, pc = (\<lambda>_. Outside)\<rparr>"
| step: "lock_reachable s \<Longrightarrow> lock_step s t \<Longrightarrow> lock_reachable t"

definition owner_pc :: "lock_pc \<Rightarrow> bool" where
  "owner_pc p \<longleftrightarrow> p \<in> {AtSetCpu, Critical, AtUnlock}"

text \<open>The invariant names the owner, if any.\<close>

definition lock_inv_at :: "nat option \<Rightarrow> lock_sys \<Rightarrow> bool" where
  "lock_inv_at ow s \<longleftrightarrow>
     (\<forall>i. owner_pc (pc s i) \<longleftrightarrow> ow = Some i) \<and>
     (locked (lk s) \<noteq> 0 \<longleftrightarrow> ow \<noteq> None) \<and>
     (\<forall>i. lcpu (lk s) = Some i \<longleftrightarrow> pc s i = Critical) \<and>
     (\<forall>i. pc s i \<noteq> Panicked)"

lemma lock_step_inv: "lock_step s t \<Longrightarrow> lock_inv_at ow s \<Longrightarrow> \<exists>ow'. lock_inv_at ow' t"
proof (induction rule: lock_step.induct)
  case (check_ok s i)
  then have "lock_inv_at ow (s\<lparr>pc := (pc s)(i := AtSwap)\<rparr>)"
    unfolding lock_inv_at_def owner_pc_def by (simp, metis lock_pc.distinct)
  then show ?case by blast
next
  case (check_panic s i)
  then show ?case unfolding lock_inv_at_def holds_def by simp
next
  case (swap_won s i)
  then have "ow = None" "\<And>j. \<not> owner_pc (pc s j)"
    "\<And>j. lcpu (lk s) \<noteq> Some j" "\<And>j. pc s j \<noteq> Panicked"
    by (auto simp: lock_inv_at_def owner_pc_def)
  then have "lock_inv_at (Some i) (s\<lparr>lk := (lk s)\<lparr>locked := 1\<rparr>,
      pc := (pc s)(i := AtSetCpu)\<rparr>)"
    by (auto simp: lock_inv_at_def owner_pc_def)
  then show ?case by blast
next
  case (swap_lost s i)
  then have "lock_inv_at ow (s\<lparr>lk := (lk s)\<lparr>locked := 1\<rparr>\<rparr>)" by (simp add: lock_inv_at_def)
  then show ?case by blast
next
  case (set_cpu s i)
  then have ow: "ow = Some i" by (auto simp: lock_inv_at_def owner_pc_def)
  with set_cpu have "lock_inv_at (Some i) (s\<lparr>lk := (lk s)\<lparr>lcpu := Some i\<rparr>,
      pc := (pc s)(i := Critical)\<rparr>)"
    unfolding lock_inv_at_def owner_pc_def by simp metis
  then show ?case by blast
next
  case (release_panic s i)
  then show ?case by (simp add: lock_inv_at_def holds_def owner_pc_def) (metis option.distinct(1))
next
  case (clear_cpu s i)
  then have ow: "ow = Some i" by (auto simp: lock_inv_at_def owner_pc_def)
  with clear_cpu have "lock_inv_at (Some i) (s\<lparr>lk := (lk s)\<lparr>lcpu := None\<rparr>,
      pc := (pc s)(i := AtUnlock)\<rparr>)"
    unfolding lock_inv_at_def owner_pc_def by simp metis
  then show ?case by blast
next
  case (unlock s i)
  then have ow: "ow = Some i" by (auto simp: lock_inv_at_def owner_pc_def)
  with unlock have "lock_inv_at None (s\<lparr>lk := (lk s)\<lparr>locked := 0\<rparr>, pc := (pc s)(i := Outside)\<rparr>)"
    unfolding lock_inv_at_def owner_pc_def by simp metis
  then show ?case by blast
qed
lemma lock_reachable_inv: "lock_reachable s \<Longrightarrow> \<exists>ow. lock_inv_at ow s"
proof (induction rule: lock_reachable.induct)
  case (init n)
  have "lock_inv_at None \<lparr>lk = \<lparr>locked = 0, lname = n, lcpu = None\<rparr>, pc = (\<lambda>_. Outside)\<rparr>"
    by (simp add: lock_inv_at_def owner_pc_def)
  then show ?case by blast
next
  case (step s t)
  then show ?case by (blast dest: lock_step_inv)
qed

section \<open>Properties\<close>

text \<open>
  C6: mutual exclusion.  In every state the harts can reach by interleaving the atomic steps
  of \<open>acquire\<close> and \<open>release\<close>, at most one hart owns the lock, the answer of \<open>holding\<close> is
  exact (a hart sees itself as the holder just when it is in its critical section), and no
  hart is in the panic of \<open>acquire\<close> or \<open>release\<close>.
\<close>

theorem spinlock_mutex:
  assumes "lock_reachable s"
  shows "(owner_pc (pc s i) \<and> owner_pc (pc s j) \<longrightarrow> i = j) \<and>
    (holds s i \<longleftrightarrow> pc s i = Critical) \<and> pc s i \<noteq> Panicked"
proof -
  from lock_reachable_inv [OF assms] obtain ow where inv: "lock_inv_at ow s" ..
  then have "holds s i \<longleftrightarrow> pc s i = Critical"
    by (auto simp: lock_inv_at_def holds_def owner_pc_def)
  with inv show ?thesis by (auto simp: lock_inv_at_def)
qed

definition lock_demo :: "uint \<Rightarrow> nat option \<Rightarrow> lock_pc \<Rightarrow> lock_sys" where
  "lock_demo v c p =
     \<lparr>lk = \<lparr>locked = v, lname = ''demo'', lcpu = c\<rparr>, pc = (\<lambda>_. Outside)(0 := p)\<rparr>"

lemma lock_demo_reachable: "lock_reachable (lock_demo 1 (Some 0) Critical)"
proof -
  have "lock_reachable (lock_demo 0 None Outside)"
    using lock_reachable.init [of "''demo''"] by (simp add: lock_demo_def fun_upd_idem)
  moreover have "lock_step (lock_demo 0 None Outside) (lock_demo 0 None AtSwap)"
    using lock_step.check_ok [of "lock_demo 0 None Outside" 0]
    by (simp add: lock_demo_def holds_def)
  moreover have "lock_step (lock_demo 0 None AtSwap) (lock_demo 1 None AtSetCpu)"
    using lock_step.swap_won [of "lock_demo 0 None AtSwap" 0] by (simp add: lock_demo_def)
  moreover have "lock_step (lock_demo 1 None AtSetCpu) (lock_demo 1 (Some 0) Critical)"
    using lock_step.set_cpu [of "lock_demo 1 None AtSetCpu" 0] by (simp add: lock_demo_def)
  ultimately show ?thesis by (meson lock_reachable.step)
qed

theorem spinlock_mutex_witness:
  "lock_reachable (lock_demo 1 (Some 0) Critical) \<and>
   holds (lock_demo 1 (Some 0) Critical) 0 \<and> \<not> holds (lock_demo 1 (Some 0) Critical) 1"
  using lock_demo_reachable spinlock_mutex [OF lock_demo_reachable, of 0 1]
    spinlock_mutex [OF lock_demo_reachable, of 1 0]
  by (simp add: lock_demo_def)

end
