(* ===== verification/Xv6_Kalloc.thy ===== *)
theory Xv6_Kalloc
  imports Xv6_Memory Xv6_Spinlock
begin

text \<open>
  \<open>kernel/kalloc.c\<close>.  The record \<open>kmem\<close> adds physical memory, the head of the free list and
  the linker symbol \<open>end\<close> (\<open>kend\<close>) to the machine.  As in the code, the free list is threaded
  through the free pages themselves: the first eight bytes of a free page hold \<open>r->next\<close>.
\<close>

section \<open>State and operations\<close>

record kmem = machine +
  phys :: mem
  freelist :: uint64
  kend :: uint64

definition upd_phys :: "(mem \<Rightarrow> mem) \<Rightarrow> ('z kmem_scheme, unit) kmon" where
  "upd_phys f = modify (\<lambda>s. s\<lparr>phys := f (phys s)\<rparr>)"

definition kfree :: "uint64 \<Rightarrow> ('z kmem_scheme, unit) kmon" where
  "kfree pa =
     bind (gets kend) (\<lambda>e.
     if pa mod PGSIZE \<noteq> 0 \<or> pa < e \<or> pa \<ge> PHYSTOP then panic ''kfree''
     else
     seq (upd_phys (memset pa 1 PGSIZE)) (
     seq (acquire KmemLock) (
     bind (gets freelist) (\<lambda>next.
     seq (upd_phys (write64 pa next)) (
     seq (modify (\<lambda>s. s\<lparr>freelist := pa\<rparr>))
         (release KmemLock))))))"

definition kalloc :: "('z kmem_scheme, uint64) kmon" where
  "kalloc =
     seq (acquire KmemLock) (
     bind (gets freelist) (\<lambda>r.
     seq (kwhen (r \<noteq> 0) (modify (\<lambda>s. s\<lparr>freelist := read64 (phys s) r\<rparr>))) (
     seq (release KmemLock) (
     seq (kwhen (r \<noteq> 0) (upd_phys (memset r 5 PGSIZE)))
         (return r)))))"

text \<open>
  The loop of \<open>freerange\<close>.  The counter bounds the number of pages below \<open>pa_end\<close>; running
  out of it means that the C loop wrapped around the address space and never ends.
\<close>

fun freerange_loop :: "nat \<Rightarrow> uint64 \<Rightarrow> uint64 \<Rightarrow> ('z kmem_scheme, unit) kmon" where
  "freerange_loop 0 p pa_end = hang"
| "freerange_loop (Suc n) p pa_end =
     (if p + PGSIZE \<le> pa_end
      then seq (kfree p) (freerange_loop n (p + PGSIZE) pa_end)
      else skip)"

definition freerange :: "uint64 \<Rightarrow> uint64 \<Rightarrow> ('z kmem_scheme, unit) kmon" where
  "freerange pa_start pa_end =
     freerange_loop (unat pa_end div 4096 + 1) (PGROUNDUP pa_start) pa_end"

definition kinit :: "('z kmem_scheme, unit) kmon" where
  "kinit =
     seq (initlock KmemLock ''kmem'') (
     bind (gets kend) (\<lambda>e. freerange e PHYSTOP))"

section \<open>The free list in memory\<close>

definition ram_page :: "uint64 \<Rightarrow> uint64 \<Rightarrow> bool" where
  "ram_page e p \<longleftrightarrow> page_aligned p \<and> e \<le> p \<and> p < PHYSTOP"

fun free_chain :: "mem \<Rightarrow> uint64 \<Rightarrow> uint64 list \<Rightarrow> bool" where
  "free_chain m h [] \<longleftrightarrow> h = 0"
| "free_chain m h (p # ps) \<longleftrightarrow> h = p \<and> free_chain m (read64 m p) ps"

text \<open>The allocator represents the stack \<open>ps\<close> of free pages.\<close>

definition kmem_rep :: "'z kmem_scheme \<Rightarrow> uint64 list \<Rightarrow> bool" where
  "kmem_rep s ps \<longleftrightarrow>
     free_chain (phys s) (freelist s) ps \<and> distinct ps \<and> 0 < kend s \<and>
     (\<forall>p \<in> set ps. ram_page (kend s) p) \<and> cpu_quiet s \<and> lock_free KmemLock s"

lemma ram_page_aligned: "ram_page e p \<Longrightarrow> page_aligned p"
  by (simp add: ram_page_def)

lemma ram_page_nonzero: "0 < e \<Longrightarrow> ram_page e p \<Longrightarrow> p \<noteq> 0"
  by (auto simp: ram_page_def word_gt_0)

lemma free_chain_cong:
  assumes "free_chain m h ps" "\<forall>p \<in> set ps. page_aligned p"
    and "\<forall>p \<in> set ps. \<forall>a. in_page p a \<longrightarrow> m' a = m a"
  shows "free_chain m' h ps"
  using assms
proof (induction ps arbitrary: h)
  case Nil
  then show ?case by simp
next
  case (Cons p ps)
  have "\<And>a. in_page p a \<Longrightarrow> m' a = m a" using Cons.prems(3) by simp
  then have "read64 m' p = read64 m p" using read64_slot_cong [of 0 p m' m] by simp
  with Cons show ?case by simp
qed

text \<open>Writing inside one page keeps the chains through other pages.\<close>

lemma free_chain_other_page:
  assumes "free_chain m h ps" "\<forall>q \<in> set ps. page_aligned q" "page_aligned p" "p \<notin> set ps"
    and "\<And>a. \<not> in_page p a \<Longrightarrow> m' a = m a"
  shows "free_chain m' h ps"
  by (rule free_chain_cong [OF assms(1,2)])
    (metis assms(2-5) in_page_unique)

lemma memset_page:
  "\<not> in_page p a \<Longrightarrow> memset p c PGSIZE m a = m a"
  "in_page p a \<Longrightarrow> memset p c PGSIZE m a = c"
  by (simp_all add: memset_apply in_page_def PGSIZE_def)

section \<open>Functional behaviour\<close>

lemma kmem_restore:
  fixes s :: "'z kmem_scheme"
  shows "restore s ((after_acquire l s)\<lparr>phys := m, freelist := f\<rparr>) = s\<lparr>phys := m, freelist := f\<rparr>"
    "restore s ((after_acquire l s)\<lparr>freelist := f\<rparr>) = s\<lparr>freelist := f\<rparr>"
    "restore s (after_acquire l s) = s"
  by (simp_all add: restore_def after_acquire_def)

lemma kmem_same_machine:
  "same_machine s (s\<lparr>phys := m\<rparr>)" "same_machine s (s\<lparr>freelist := f\<rparr>)"
  "same_machine s (s\<lparr>phys := m, freelist := f\<rparr>)"
  by (simp_all add: same_machine_def)

lemma kmem_quiet [simp]:
  "cpu_quiet (s\<lparr>phys := m\<rparr>) = cpu_quiet s" "cpu_quiet (s\<lparr>freelist := f\<rparr>) = cpu_quiet s"
  "lock_free l (s\<lparr>phys := m\<rparr>) = lock_free l s" "lock_free l (s\<lparr>freelist := f\<rparr>) = lock_free l s"
  by (simp_all add: cpu_quiet_same [OF kmem_same_machine(1)] cpu_quiet_same [OF kmem_same_machine(2)]
      lock_free_same [OF kmem_same_machine(1)] lock_free_same [OF kmem_same_machine(2)])

lemma after_acquire_kmem [simp]:
  "phys (after_acquire l s) = phys s" "freelist (after_acquire l s) = freelist s"
  "kend (after_acquire l s) = kend s"
  by (simp_all add: after_acquire_def)

lemma kalloc_eq:
  assumes "cpu_quiet s" "lock_free KmemLock s"
  shows "kalloc s =
    (let r = freelist s in
     if r = 0 then Ok 0 s
     else Ok r (s\<lparr>freelist := read64 (phys s) r, phys := memset r 5 PGSIZE (phys s)\<rparr>))"
  by (simp add: kalloc_def kexec acquire_free [OF assms] upd_phys_def Let_def
      release_restores [OF assms] kmem_same_machine kmem_restore)

lemma kfree_eq:
  assumes "cpu_quiet s" "lock_free KmemLock s" "ram_page (kend s) pa"
  shows "kfree pa s =
    Ok () (s\<lparr>phys := write64 pa (freelist s) (memset pa 1 PGSIZE (phys s)), freelist := pa\<rparr>)"
proof -
  let ?s = "s\<lparr>phys := memset pa 1 PGSIZE (phys s)\<rparr>"
  have q: "cpu_quiet ?s" "lock_free KmemLock ?s"
    using assms(1,2) by simp_all
  show ?thesis
    using assms(3)
    by (simp add: kfree_def kexec upd_phys_def acquire_free [OF q] release_restores [OF q]
        kmem_same_machine kmem_restore ram_page_def page_aligned_def [symmetric] not_le leD)
qed

lemma kfree_panic:
  "\<not> ram_page (kend s) pa \<Longrightarrow> kfree pa s = Panic ''kfree'' s"
  by (auto simp: kfree_def kexec ram_page_def page_aligned_def [symmetric] not_le)

lemma kalloc_Nil: "kmem_rep s [] \<Longrightarrow> kalloc s = Ok 0 s"
  by (simp add: kmem_rep_def kalloc_eq)

lemma kalloc_Cons:
  assumes "kmem_rep s (p # ps)"
  shows "\<exists>s'. kalloc s = Ok p s' \<and> kmem_rep s' ps \<and> kend s' = kend s \<and>
    (\<forall>a. in_page p a \<longrightarrow> phys s' a = 5) \<and> (\<forall>a. \<not> in_page p a \<longrightarrow> phys s' a = phys s a)"
proof -
  let ?s' = "s\<lparr>freelist := read64 (phys s) p, phys := memset p 5 PGSIZE (phys s)\<rparr>"
  have p: "freelist s = p" "page_aligned p" "p \<notin> set ps"
    and ps: "free_chain (phys s) (read64 (phys s) p) ps" "\<forall>q \<in> set ps. page_aligned q"
    using assms by (auto simp: kmem_rep_def ram_page_aligned)
  have "p \<noteq> 0" using assms by (intro ram_page_nonzero) (auto simp: kmem_rep_def)
  have "free_chain (memset p 5 PGSIZE (phys s)) (read64 (phys s) p) ps"
    by (rule free_chain_other_page [OF ps p(2,3)]) (rule memset_page)
  then have "kmem_rep ?s' ps"
    using assms by (simp add: kmem_rep_def)
  moreover have "kalloc s = Ok p ?s'"
    using assms p \<open>p \<noteq> 0\<close> by (simp add: kmem_rep_def kalloc_eq)
  ultimately show ?thesis
    by (intro exI [of _ ?s']) (simp add: memset_page)
qed

lemma kfree_Cons:
  assumes "kmem_rep s ps" "ram_page (kend s) p" "p \<notin> set ps"
  shows "\<exists>s'. kfree p s = Ok () s' \<and> kmem_rep s' (p # ps) \<and> kend s' = kend s \<and>
    (\<forall>a. \<not> in_page p a \<longrightarrow> phys s' a = phys s a)"
proof -
  let ?m = "write64 p (freelist s) (memset p 1 PGSIZE (phys s))"
  let ?s' = "s\<lparr>phys := ?m, freelist := p\<rparr>"
  have al: "page_aligned p" "\<forall>q \<in> set ps. page_aligned q"
    using assms by (auto simp: kmem_rep_def ram_page_aligned)
  have out: "\<not> in_page p a \<Longrightarrow> ?m a = phys s a" for a
    using write64_outside [of 0 p a] by (simp add: memset_page)
  have "free_chain ?m (freelist s) ps"
    by (rule free_chain_other_page [OF _ al(2,1) assms(3) out])
      (use assms(1) in \<open>simp_all add: kmem_rep_def\<close>)
  then have "kmem_rep ?s' (p # ps)"
    using assms by (simp add: kmem_rep_def)
  then show ?thesis
    using assms out by (intro exI [of _ ?s']) (simp add: kfree_eq kmem_rep_def)
qed

text \<open>Allocation and release change nothing but physical memory and the head of the list.\<close>

definition kmem_frame :: "'z kmem_scheme \<Rightarrow> 'z kmem_scheme \<Rightarrow> bool" where
  "kmem_frame s s' \<longleftrightarrow> s' = s\<lparr>phys := phys s', freelist := freelist s'\<rparr>"

lemma kmem_frame_refl [simp]: "kmem_frame s s"
  by (simp add: kmem_frame_def)

lemma kmem_frame_phys [simp]: "kmem_frame s (s\<lparr>phys := m\<rparr>)"
  by (simp add: kmem_frame_def)

lemma kmem_frame_kend: "kmem_frame s s' \<Longrightarrow> kend s' = kend s"
  unfolding kmem_frame_def by (metis kmem.select_convs(3) kmem.surjective kmem.update_convs(1,2))

lemma kmem_frame_trans:
  assumes "kmem_frame s t" "kmem_frame t u"
  shows "kmem_frame s u"
proof -
  have "u = s\<lparr>phys := phys t, freelist := freelist t\<rparr>\<lparr>phys := phys u, freelist := freelist u\<rparr>"
    using assms unfolding kmem_frame_def by metis
  then show ?thesis unfolding kmem_frame_def by simp
qed

lemma kalloc_frame:
  "kmem_rep s ps \<Longrightarrow> kalloc s = Ok r s' \<Longrightarrow> kmem_frame s s'"
  by (auto simp: kalloc_eq Let_def kmem_frame_def kmem_rep_def split: if_splits)

lemma kfree_frame:
  assumes "kmem_rep s ps" "kfree pa s = Ok u s'"
  shows "kmem_frame s s'"
  using assms kfree_panic [of s pa]
  by (cases "ram_page (kend s) pa") (auto simp: kfree_eq kmem_frame_def kmem_rep_def)

lemma kmem_rep_phys:
  assumes "kmem_rep s ps" "agree_on (set ps) (phys s) m"
  shows "kmem_rep (s\<lparr>phys := m\<rparr>) ps"
proof -
  have "free_chain m (freelist s) ps"
    by (rule free_chain_cong [of "phys s"])
      (use assms in \<open>auto simp: kmem_rep_def ram_page_aligned agree_on_def\<close>)
  then show ?thesis using assms(1) by (simp add: kmem_rep_def)
qed

lemma kmem_rep_aligned: "kmem_rep s ps \<Longrightarrow> \<forall>p \<in> set ps. page_aligned p"
  by (auto simp: kmem_rep_def ram_page_aligned)

section \<open>The allocator's contract\<close>

text \<open>
  What clients of the allocator may rely on: it behaves as a stack of pages.  Everything a
  client proves from the contract holds of \<open>kalloc\<close> and \<open>kfree\<close> by the interpretation below.
\<close>

locale page_allocator =
  fixes alloc :: "('s, 'p) kmon"
    and free :: "'p \<Rightarrow> ('s, unit) kmon"
    and null :: 'p
    and rep :: "'s \<Rightarrow> 'p list \<Rightarrow> bool"
    and page :: "'s \<Rightarrow> 'p \<Rightarrow> bool"
  assumes alloc_empty: "rep s [] \<Longrightarrow> alloc s = Ok null s"
    and alloc_page: "rep s (p # ps) \<Longrightarrow> \<exists>s'. alloc s = Ok p s' \<and> rep s' ps \<and> page s' = page s"
    and free_page: "rep s ps \<Longrightarrow> page s p \<Longrightarrow> p \<notin> set ps \<Longrightarrow>
      \<exists>s'. free p s = Ok () s' \<and> rep s' (p # ps) \<and> page s' = page s"
    and rep_distinct: "rep s ps \<Longrightarrow> distinct ps"
    and rep_pages: "rep s ps \<Longrightarrow> p \<in> set ps \<Longrightarrow> page s p"
begin

lemma collect_alloc:
  "rep s ps \<Longrightarrow> n \<le> length ps \<Longrightarrow>
   \<exists>s'. collect n alloc s = Ok (take n ps) s' \<and> rep s' (drop n ps) \<and> page s' = page s"
proof (induction n arbitrary: s ps)
  case 0
  then show ?case by simp
next
  case (Suc n)
  then obtain p qs where ps: "ps = p # qs" by (cases ps) auto
  with Suc.prems obtain s1 where s1: "alloc s = Ok p s1" "rep s1 qs" "page s1 = page s"
    using alloc_page by blast
  with Suc.prems ps obtain s2 where "collect n alloc s1 = Ok (take n qs) s2"
    "rep s2 (drop n qs)" "page s2 = page s1"
    using Suc.IH [of s1 qs] by auto
  with s1 ps show ?case by (auto simp: kexec)
qed

lemma free_then_alloc:
  assumes "rep s ps" "page s p" "p \<notin> set ps"
  shows "\<exists>s'. bind (free p) (\<lambda>_. alloc) s = Ok p s' \<and> rep s' ps"
proof -
  obtain s1 where "free p s = Ok () s1" "rep s1 (p # ps)"
    using free_page [OF assms] by blast
  then show ?thesis using alloc_page by (fastforce simp: kexec)
qed

lemma free_all:
  "rep s ps \<Longrightarrow> distinct (qs @ ps) \<Longrightarrow> (\<And>q. q \<in> set qs \<Longrightarrow> page s q) \<Longrightarrow>
   \<exists>s'. for_each qs free s = Ok () s' \<and> rep s' (rev qs @ ps) \<and> page s' = page s"
proof (induction qs arbitrary: s ps)
  case Nil
  then show ?case by simp
next
  case (Cons q qs)
  then obtain s1 where s1: "free q s = Ok () s1" "rep s1 (q # ps)" "page s1 = page s"
    using free_page [of s ps q] by auto
  with Cons.prems obtain s2 where "for_each qs free s1 = Ok () s2"
    "rep s2 (rev qs @ q # ps)" "page s2 = page s1"
    using Cons.IH [of s1 "q # ps"] by auto
  with s1 show ?case by (simp add: kexec)
qed

end

interpretation kmem: page_allocator kalloc kfree 0 kmem_rep "\<lambda>s. ram_page (kend s)"
proof unfold_locales
  fix s :: "'z kmem_scheme" and p ps
  show "kmem_rep s [] \<Longrightarrow> kalloc s = Ok 0 s" by (rule kalloc_Nil)
  show "\<exists>s'. kalloc s = Ok p s' \<and> kmem_rep s' ps \<and> ram_page (kend s') = ram_page (kend s)"
    if "kmem_rep s (p # ps)" using kalloc_Cons [OF that] by auto
  show "\<exists>s'. kfree p s = Ok () s' \<and> kmem_rep s' (p # ps) \<and> ram_page (kend s') = ram_page (kend s)"
    if "kmem_rep s ps" "ram_page (kend s) p" "p \<notin> set ps" using kfree_Cons [OF that] by auto
qed (auto simp: kmem_rep_def)

section \<open>Initialisation\<close>

text \<open>The pages that \<open>freerange\<close> frees, in the order of the loop.\<close>

definition page_range :: "uint64 \<Rightarrow> nat \<Rightarrow> uint64 list" where
  "page_range p k = map (\<lambda>i. p + of_nat (4096 * i)) [0..<k]"

lemma page_range_0 [simp]: "page_range p 0 = []"
  by (simp add: page_range_def)

lemma page_range_Suc: "page_range p (Suc k) = p # page_range (p + 4096) k"
  by (simp add: page_range_def upt_conv_Cons map_Suc_upt [symmetric] algebra_simps del: upt_Suc)

lemma unat_page_add:
  assumes "unat p + 4096 * i < 2 ^ 64"
  shows "unat ((p :: uint64) + of_nat (4096 * i)) = unat p + 4096 * i"
proof -
  have "unat (of_nat (4096 * i) :: uint64) = 4096 * i"
    using assms by (simp add: unat_of_nat del: of_nat_mult)
  then show ?thesis using assms by (simp add: unat_word_ariths del: of_nat_mult)
qed

lemma distinct_page_range:
  assumes "unat p + 4096 * k \<le> 2 ^ 64"
  shows "distinct (page_range p k)"
proof -
  have "inj_on (\<lambda>i. p + of_nat (4096 * i)) {0..<k}"
  proof (rule inj_onI)
    fix i j assume "i \<in> {0..<k}" "j \<in> {0..<k}" and eq: "p + of_nat (4096 * i) = p + of_nat (4096 * j)"
    then have "unat p + 4096 * i < 2 ^ 64" "unat p + 4096 * j < 2 ^ 64" using assms by auto
    then show "i = j"
      using eq unat_page_add [of p i] unat_page_add [of p j]
      by (metis add_left_cancel mult_left_cancel zero_neq_numeral)
  qed
  then show ?thesis by (simp add: page_range_def distinct_map)
qed

lemma freerange_loop_eq:
  fixes s :: "'z kmem_scheme"
  assumes "unat p + 4096 * k \<le> unat e" "unat e < unat p + 4096 * Suc k" "unat e + 4096 < 2 ^ 64" "k < n"
  shows "freerange_loop n p e s = for_each (page_range p k) kfree s"
  using assms
proof (induction k arbitrary: n p s)
  case 0
  then obtain m where n: "n = Suc m" by (cases n) auto
  have "unat (p + PGSIZE) = unat p + 4096"
    using 0 by (simp add: PGSIZE_def unat_word_ariths)
  with 0 show ?case by (simp add: n word_le_nat_alt kexec)
next
  case (Suc k)
  then obtain m where n: "n = Suc m" by (cases n) auto
  have u: "unat (p + PGSIZE) = unat p + 4096"
    using Suc.prems by (simp add: PGSIZE_def unat_word_ariths)
  have "freerange_loop m (p + PGSIZE) e t = for_each (page_range (p + PGSIZE) k) kfree t"
    for t :: "'z kmem_scheme"
    using Suc.prems u by (intro Suc.IH) (auto simp: n)
  then have eq: "(freerange_loop m (p + PGSIZE) e :: ('z kmem_scheme, unit) kmon) =
      for_each (page_range (p + PGSIZE) k) kfree" by (rule ext)
  have "p + PGSIZE \<le> e" using Suc.prems u by (simp add: word_le_nat_alt)
  then show ?case
    using eq by (simp add: n page_range_Suc PGSIZE_def seq_apply bind_apply)
qed

text \<open>The number of whole pages between the kernel image and the top of RAM.\<close>

definition ram_pages :: "uint64 \<Rightarrow> nat" where
  "ram_pages e = (unat PHYSTOP - unat (PGROUNDUP e)) div 4096"

lemma PHYSTOP_unat: "unat PHYSTOP = 0x88000000"
  by (simp add: PHYSTOP_def KERNBASE_def)

lemma ram_start:
  assumes "e \<le> PHYSTOP"
  obtains a where "unat (PGROUNDUP e) = 4096 * a" "unat e \<le> 4096 * a" "4096 * a < unat e + 4096"
    "a + ram_pages e = 557056"
proof -
  define a where "a = (unat e + 4095) div 4096"
  define r where "r = (unat e + 4095) mod 4096"
  have ar: "unat e + 4095 = 4096 * a + r" "r < 4096" by (simp_all add: a_def r_def)
  have e: "unat e \<le> 2281701376" using assms by (simp add: word_le_nat_alt PHYSTOP_unat)
  then have "unat e + 4095 < 2 ^ 64" by simp
  from PGROUNDUP_unat [OF this] have p: "unat (PGROUNDUP e) = 4096 * a" by (simp add: a_def)
  have le: "a \<le> 557056" using ar e by linarith
  have "2281701376 - 4096 * a = 4096 * (557056 - a)" using le by linarith
  then have "ram_pages e = 4096 * (557056 - a) div 4096"
    unfolding ram_pages_def PHYSTOP_unat p by (simp only:)
  then have "ram_pages e = 557056 - a" by (simp only: nonzero_mult_div_cancel_left) 
  then have "a + ram_pages e = 557056" using le by linarith
  moreover have "unat e \<le> 4096 * a" "4096 * a < unat e + 4096" using ar by linarith+
  ultimately show thesis using that p by blast
qed

lemma page_range_mem:
  assumes "e \<le> PHYSTOP" "ram_page e q"
  shows "q \<in> set (page_range (PGROUNDUP e) (ram_pages e))"
proof -
  obtain a where a: "unat (PGROUNDUP e) = 4096 * a" "4096 * a < unat e + 4096"
    "a + ram_pages e = 557056" using ram_start [OF assms(1)] by blast
  obtain b where b: "unat q = 4096 * b" "unat e \<le> 4096 * b" "b < 557056"
    using assms(2)
    by (auto simp: ram_page_def page_aligned_nat word_le_nat_alt word_less_nat_alt PHYSTOP_unat
        mod_eq_0_iff_dvd elim!: dvdE)
  have "a \<le> b" "b - a < ram_pages e" using a b by linarith+
  moreover have "unat (PGROUNDUP e) + 4096 * (b - a) < 2 ^ 64" using a b \<open>a \<le> b\<close> by simp
  then have "unat (PGROUNDUP e + of_nat (4096 * (b - a))) = 4096 * b"
    using a \<open>a \<le> b\<close> by (simp only: unat_page_add)
  then have "q = PGROUNDUP e + of_nat (4096 * (b - a))" using b by (simp only: word_unat_eq_iff)
  ultimately show ?thesis
    by (auto simp: page_range_def simp del: of_nat_mult intro!: image_eqI [of _ _ "b - a"])
qed

lemma page_range_ram:
  assumes "e \<le> PHYSTOP" "q \<in> set (page_range (PGROUNDUP e) (ram_pages e))"
  shows "ram_page e q"
proof -
  obtain a where a: "unat (PGROUNDUP e) = 4096 * a" "unat e \<le> 4096 * a"
    "a + ram_pages e = 557056" using ram_start [OF assms(1)] by blast
  from assms(2) obtain i where i: "i < ram_pages e" "q = PGROUNDUP e + of_nat (4096 * i)"
    by (auto simp: page_range_def)
  have "unat (PGROUNDUP e) + 4096 * i < 2 ^ 64" using a i by simp
  then have "unat q = 4096 * (a + i)" unfolding i(2) using a by (simp only: unat_page_add) simp
  then show ?thesis
    using a i by (simp add: ram_page_def page_aligned_nat word_le_nat_alt word_less_nat_alt PHYSTOP_unat)
qed

lemma kinit_pages:
  assumes "e \<le> PHYSTOP"
  shows "distinct (page_range (PGROUNDUP e) (ram_pages e))"
    and "set (page_range (PGROUNDUP e) (ram_pages e)) = {p. ram_page e p}"
    and "freerange e PHYSTOP s = for_each (page_range (PGROUNDUP e) (ram_pages e)) kfree s"
proof -
  obtain a where a: "unat (PGROUNDUP e) = 4096 * a" "a + ram_pages e = 557056"
    using ram_start [OF assms] by blast
  show "distinct (page_range (PGROUNDUP e) (ram_pages e))"
    using a by (intro distinct_page_range) simp
  show "set (page_range (PGROUNDUP e) (ram_pages e)) = {p. ram_page e p}"
    using page_range_mem [OF assms] page_range_ram [OF assms] by blast
  show "freerange e PHYSTOP s = for_each (page_range (PGROUNDUP e) (ram_pages e)) kfree s"
    unfolding freerange_def
    by (rule freerange_loop_eq) (use a in \<open>simp_all add: PHYSTOP_unat\<close>)
qed

section \<open>Properties\<close>

text \<open>
  C39: \<open>kinit\<close> on the zeroed \<open>kmem\<close> of a freshly loaded kernel returns with a free list that
  holds exactly the page-aligned pages between the end of the kernel image and \<open>PHYSTOP\<close>, each
  once, the highest first.
\<close>

theorem kinit_frees_ram:
  fixes s :: "'z kmem_scheme"
  assumes "0 < kend s" "kend s \<le> PHYSTOP" "freelist s = 0" "cpu_quiet s"
  shows "\<exists>s' ps. kinit s = Ok () s' \<and> kmem_rep s' ps \<and> set ps = {p. ram_page (kend s) p} \<and>
    ps = rev (page_range (PGROUNDUP (kend s)) (ram_pages (kend s)))"
proof -
  let ?s = "s\<lparr>locks := (locks s)(KmemLock := \<lparr>locked = 0, lname = ''kmem'', lcpu = None\<rparr>)\<rparr>"
  let ?ps = "page_range (PGROUNDUP (kend s)) (ram_pages (kend s))"
  note k = kinit_pages [OF assms(2)]
  have "kmem_rep ?s []"
    using assms by (simp add: kmem_rep_def lock_free_def)
  then obtain s' where "for_each ?ps kfree ?s = Ok () s'" "kmem_rep s' (rev ?ps)"
    using kmem.free_all [of ?s "[]" ?ps] k(1,2) by auto
  then show ?thesis
    using k(2) kinit_pages(3) [OF assms(2), of ?s]
    by (intro exI [of _ s'] exI [of _ "rev ?ps"]) (simp add: kinit_def initlock_def kexec)
qed


definition boot_kmem :: kmem where
  "boot_kmem = \<lparr>tp = 0, sstatus = 0, cpus = (\<lambda>_. \<lparr>cproc = None, noff = 0, intena = False\<rparr>),
     locks = (\<lambda>_. \<lparr>locked = 0, lname = [], lcpu = None\<rparr>),
     phys = (\<lambda>_. 0), freelist = 0, kend = PHYSTOP - 3 * PGSIZE + 1\<rparr>"

theorem kinit_frees_ram_witness:
  "\<exists>s' ps. kinit boot_kmem = Ok () s' \<and> kmem_rep s' ps \<and>
     PHYSTOP - PGSIZE \<in> set ps \<and> PHYSTOP - 3 * PGSIZE \<notin> set ps"
proof -
  have "0 < kend boot_kmem" "kend boot_kmem \<le> PHYSTOP" "freelist boot_kmem = 0" "cpu_quiet boot_kmem"
    by (simp_all add: boot_kmem_def PHYSTOP_def KERNBASE_def PGSIZE_def cpu_quiet_def intr_enabled_def)
  from kinit_frees_ram [OF this] obtain s' ps where "kinit boot_kmem = Ok () s'" "kmem_rep s' ps"
    and ps: "set ps = {p. ram_page (kend boot_kmem) p}" by blast
  moreover have "PHYSTOP - PGSIZE \<in> set ps" "PHYSTOP - 3 * PGSIZE \<notin> set ps"
    by (simp_all add: ps boot_kmem_def ram_page_def page_aligned_def PHYSTOP_def KERNBASE_def PGSIZE_def)
  ultimately show ?thesis by blast
qed

text \<open>
  The pages handed out by \<open>n\<close> successive calls of \<open>kalloc\<close> are pairwise different pages of
  RAM, none of them is on the free list afterwards, and freeing one of them makes the next
  \<open>kalloc\<close> return it with every byte set to 5.
\<close>

theorem kalloc_pages_distinct:
  assumes "kmem_rep s ps" "n \<le> length ps"
  shows "\<exists>qs s'. collect n kalloc s = Ok qs s' \<and> length qs = n \<and> distinct qs \<and>
    (\<forall>q \<in> set qs. ram_page (kend s) q) \<and> kmem_rep s' (drop n ps) \<and> set qs \<inter> set (drop n ps) = {} \<and>
    (\<forall>q \<in> set qs. \<exists>t. bind (kfree q) (\<lambda>_. kalloc) s' = Ok q t \<and> (\<forall>a. in_page q a \<longrightarrow> phys t a = 5))"
proof -
  obtain s' where s': "collect n kalloc s = Ok (take n ps) s'" "kmem_rep s' (drop n ps)"
    "ram_page (kend s') = ram_page (kend s)"
    using kmem.collect_alloc [OF assms] by blast
  have d: "distinct ps" "\<forall>p \<in> set ps. ram_page (kend s) p"
    using assms(1) by (auto simp: kmem_rep_def)
  have dis: "set (take n ps) \<inter> set (drop n ps) = {}"
    using d(1) by (metis append_take_drop_id distinct_append)
  have "\<exists>t. bind (kfree q) (\<lambda>_. kalloc) s' = Ok q t \<and> (\<forall>a. in_page q a \<longrightarrow> phys t a = 5)"
    if "q \<in> set (take n ps)" for q
  proof -
    have "ram_page (kend s') q" "q \<notin> set (drop n ps)"
      using that d s'(3) dis in_set_takeD [of q n ps] by auto
    then obtain s1 where s1: "kfree q s' = Ok () s1" "kmem_rep s1 (q # drop n ps)"
      using kfree_Cons [OF s'(2)] by blast
    from kalloc_Cons [OF s1(2)] s1(1) show ?thesis by (auto simp: kexec)
  qed
  then show ?thesis
    using s' d dis assms(2) by (intro exI [of _ "take n ps"] exI [of _ s']) (auto dest: in_set_takeD)
qed


text \<open>A memory that threads a given list of pages, for concrete states.\<close>

fun chain_mem :: "uint64 list \<Rightarrow> mem" where
  "chain_mem [] = (\<lambda>_. 0)"
| "chain_mem (p # ps) = write64 p (case ps of [] \<Rightarrow> 0 | q # _ \<Rightarrow> q) (chain_mem ps)"

lemma chain_mem_chain:
  assumes "distinct ps" "\<forall>p \<in> set ps. page_aligned p"
  shows "free_chain (chain_mem ps) (case ps of [] \<Rightarrow> 0 | q # _ \<Rightarrow> q) ps"
  using assms
proof (induction ps)
  case (Cons p ps)
  have "free_chain (chain_mem (p # ps)) (case ps of [] \<Rightarrow> 0 | q # _ \<Rightarrow> q) ps"
    by (rule free_chain_other_page [of "chain_mem ps" _ _ p])
      (use Cons write64_outside [of 0 p] in auto)
  then show ?case by simp
qed simp

definition two_pages :: kmem where
  "two_pages = boot_kmem\<lparr>freelist := 0x87fff000, kend := 0x80020000,
     phys := write64 0x87fff000 0x87ffe000 (\<lambda>_. 0)\<rparr>"

lemma two_pages_rep: "kmem_rep two_pages [0x87fff000, 0x87ffe000]"
proof -
  have "read64 (write64 0x87fff000 0x87ffe000 (\<lambda>_. 0)) 0x87ffe000 = 0"
    by (simp add: read64_def write64_def mem_load_def mem_store_def upt_rec)
  then show ?thesis
    by (simp add: kmem_rep_def two_pages_def boot_kmem_def ram_page_def page_aligned_def PGSIZE_def
        PHYSTOP_def KERNBASE_def lock_free_def cpu_quiet_def intr_enabled_def)
qed

theorem kalloc_pages_distinct_witness:
  "\<exists>qs s'. collect 2 kalloc two_pages = Ok qs s' \<and> length qs = 2 \<and> distinct qs"
  using kalloc_pages_distinct [OF two_pages_rep, of 2] by auto

end
