(* ===== verification/Xv6_Vm.thy ===== *)
theory Xv6_Vm
  imports Xv6_Kalloc
begin

unbundle bit_operations_syntax

text \<open>
  \<open>kernel/vm.c\<close>: Sv39 page tables.  A page table is the physical address of its root page;
  page-table entries live in physical memory and are read and written there.  Functions that
  return 0 or -1 return that \<open>int\<close>; \<open>copyin\<close> and \<open>copyinstr\<close> also return the bytes they stored
  at the destination, \<open>copyout\<close> takes the bytes at the source.  The linker symbols \<open>etext\<close>,
  \<open>trampoline\<close> are arguments.

  Loops with no structural bound carry a counter.  For \<open>mappages\<close>, \<open>uvmunmap\<close>, \<open>uvmalloc\<close> and
  \<open>uvmcopy\<close> it is the number of pages of the range, for the copy loops the number of bytes,
  for \<open>freewalk\<close> the number of pages of the address space: a recursion deeper than that has met
  a page twice and would never end.
\<close>

section \<open>Page-table entries\<close>

definition PTE_V :: uint64 where "PTE_V = push_bit 0 1"
definition PTE_R :: uint64 where "PTE_R = push_bit 1 1"
definition PTE_W :: uint64 where "PTE_W = push_bit 2 1"
definition PTE_X :: uint64 where "PTE_X = push_bit 3 1"
definition PTE_U :: uint64 where "PTE_U = push_bit 4 1"

definition PA2PTE :: "uint64 \<Rightarrow> uint64" where
  "PA2PTE pa = push_bit 10 (drop_bit 12 pa)"

definition PTE2PA :: "uint64 \<Rightarrow> uint64" where
  "PTE2PA pte = push_bit 12 (drop_bit 10 pte)"

definition PTE_FLAGS :: "uint64 \<Rightarrow> uint64" where
  "PTE_FLAGS pte = pte AND 0x3FF"

definition PXSHIFT :: "nat \<Rightarrow> nat" where
  "PXSHIFT level = 12 + 9 * level"

definition PX :: "nat \<Rightarrow> uint64 \<Rightarrow> uint64" where
  "PX level va = drop_bit (PXSHIFT level) va AND 0x1FF"

section \<open>Walking and mapping\<close>

definition load64 :: "uint64 \<Rightarrow> ('z kmem_scheme, uint64) kmon" where
  "load64 a = gets (\<lambda>s. read64 (phys s) a)"

definition store64 :: "uint64 \<Rightarrow> uint64 \<Rightarrow> ('z kmem_scheme, unit) kmon" where
  "store64 a v = upd_phys (write64 a v)"

text \<open>The loop of \<open>walk\<close> from a given level down; \<open>&pagetable[i]\<close> is \<open>pagetable + 8 * i\<close>.\<close>

primrec walk_level :: "nat \<Rightarrow> uint64 \<Rightarrow> uint64 \<Rightarrow> bool \<Rightarrow> ('z kmem_scheme, uint64) kmon" where
  "walk_level 0 pagetable va alloc = return (pagetable + 8 * PX 0 va)"
| "walk_level (Suc l) pagetable va alloc =
     (let pte = pagetable + 8 * PX (Suc l) va in
      bind (load64 pte) (\<lambda>v.
      if v AND PTE_V \<noteq> 0 then walk_level l (PTE2PA v) va alloc
      else if \<not> alloc then return 0
      else bind kalloc (\<lambda>pt.
      if pt = 0 then return 0
      else seq (upd_phys (memset pt 0 PGSIZE)) (
           seq (store64 pte (PA2PTE pt OR PTE_V)) (
           walk_level l pt va alloc)))))"

definition walk :: "uint64 \<Rightarrow> uint64 \<Rightarrow> bool \<Rightarrow> ('z kmem_scheme, uint64) kmon" where
  "walk pagetable va alloc =
     (if va \<ge> MAXVA then panic ''walk'' else walk_level 2 pagetable va alloc)"

definition walkaddr :: "uint64 \<Rightarrow> uint64 \<Rightarrow> ('z kmem_scheme, uint64) kmon" where
  "walkaddr pagetable va =
     (if va \<ge> MAXVA then return 0
      else bind (walk pagetable va False) (\<lambda>pte.
      if pte = 0 then return 0
      else bind (load64 pte) (\<lambda>v.
      if v AND PTE_V = 0 then return 0
      else if v AND PTE_U = 0 then return 0
      else return (PTE2PA v))))"

primrec mappages_loop ::
  "nat \<Rightarrow> uint64 \<Rightarrow> uint64 \<Rightarrow> uint64 \<Rightarrow> uint64 \<Rightarrow> uint64 \<Rightarrow> ('z kmem_scheme, int) kmon" where
  "mappages_loop 0 pagetable a la pa perm = hang"
| "mappages_loop (Suc n) pagetable a la pa perm =
     bind (walk pagetable a True) (\<lambda>pte.
     if pte = 0 then return (-1)
     else bind (load64 pte) (\<lambda>v.
     if v AND PTE_V \<noteq> 0 then panic ''mappages: remap''
     else seq (store64 pte (PA2PTE pa OR perm OR PTE_V)) (
     if a = la then return 0
     else mappages_loop n pagetable (a + PGSIZE) la (pa + PGSIZE) perm)))"

definition mappages ::
  "uint64 \<Rightarrow> uint64 \<Rightarrow> uint64 \<Rightarrow> uint64 \<Rightarrow> uint64 \<Rightarrow> ('z kmem_scheme, int) kmon" where
  "mappages pagetable va sz pa perm =
     (if va mod PGSIZE \<noteq> 0 then panic ''mappages: va not aligned''
      else if sz mod PGSIZE \<noteq> 0 then panic ''mappages: size not aligned''
      else if sz = 0 then panic ''mappages: size''
      else mappages_loop (unat sz div 4096) pagetable va (va + sz - PGSIZE) pa perm)"

definition kvmmap ::
  "uint64 \<Rightarrow> uint64 \<Rightarrow> uint64 \<Rightarrow> uint64 \<Rightarrow> uint64 \<Rightarrow> ('z kmem_scheme, unit) kmon" where
  "kvmmap kpgtbl va pa sz perm =
     bind (mappages kpgtbl va sz pa perm) (\<lambda>r. if r \<noteq> 0 then panic ''kvmmap'' else skip)"

section \<open>The kernel page table\<close>

definition UART0 :: uint64 where "UART0 = 0x10000000"
definition VIRTIO0 :: uint64 where "VIRTIO0 = 0x10001000"
definition PLIC :: uint64 where "PLIC = 0x0c000000"
definition NPROC :: nat where "NPROC = 64"

definition proc_mapstacks :: "uint64 \<Rightarrow> ('z kmem_scheme, unit) kmon" where
  "proc_mapstacks kpgtbl =
     for_each [0..<NPROC] (\<lambda>p.
       bind kalloc (\<lambda>pa.
       if pa = 0 then panic ''kalloc''
       else kvmmap kpgtbl (KSTACK p) pa PGSIZE (PTE_R OR PTE_W)))"

definition kvmmake :: "uint64 \<Rightarrow> uint64 \<Rightarrow> ('z kmem_scheme, uint64) kmon" where
  "kvmmake etext trampoline =
     bind kalloc (\<lambda>kpgtbl.
     seq (upd_phys (memset kpgtbl 0 PGSIZE)) (
     seq (kvmmap kpgtbl UART0 UART0 PGSIZE (PTE_R OR PTE_W)) (
     seq (kvmmap kpgtbl VIRTIO0 VIRTIO0 PGSIZE (PTE_R OR PTE_W)) (
     seq (kvmmap kpgtbl PLIC PLIC 0x4000000 (PTE_R OR PTE_W)) (
     seq (kvmmap kpgtbl KERNBASE KERNBASE (etext - KERNBASE) (PTE_R OR PTE_X)) (
     seq (kvmmap kpgtbl etext etext (PHYSTOP - etext) (PTE_R OR PTE_W)) (
     seq (kvmmap kpgtbl TRAMPOLINE trampoline PGSIZE (PTE_R OR PTE_X)) (
     seq (proc_mapstacks kpgtbl)
         (return kpgtbl)))))))))"

section \<open>User page tables\<close>

primrec uvmunmap_loop ::
  "nat \<Rightarrow> uint64 \<Rightarrow> uint64 \<Rightarrow> uint64 \<Rightarrow> bool \<Rightarrow> ('z kmem_scheme, unit) kmon" where
  "uvmunmap_loop 0 pagetable a lim do_free = (if a < lim then hang else skip)"
| "uvmunmap_loop (Suc n) pagetable a lim do_free =
     (if a < lim then
        bind (walk pagetable a False) (\<lambda>pte.
        if pte = 0 then panic ''uvmunmap: walk''
        else bind (load64 pte) (\<lambda>v.
        if v AND PTE_V = 0 then panic ''uvmunmap: not mapped''
        else if PTE_FLAGS v = PTE_V then panic ''uvmunmap: not a leaf''
        else seq (kwhen do_free (kfree (PTE2PA v))) (
        seq (store64 pte 0) (
        uvmunmap_loop n pagetable (a + PGSIZE) lim do_free))))
      else skip)"

definition uvmunmap :: "uint64 \<Rightarrow> uint64 \<Rightarrow> uint64 \<Rightarrow> bool \<Rightarrow> ('z kmem_scheme, unit) kmon" where
  "uvmunmap pagetable va npages do_free =
     (if va mod PGSIZE \<noteq> 0 then panic ''uvmunmap: not aligned''
      else uvmunmap_loop (unat npages) pagetable va (va + npages * PGSIZE) do_free)"

definition uvmcreate :: "('z kmem_scheme, uint64) kmon" where
  "uvmcreate =
     bind kalloc (\<lambda>pagetable.
     if pagetable = 0 then return 0
     else seq (upd_phys (memset pagetable 0 PGSIZE)) (return pagetable))"

definition uvmfirst :: "uint64 \<Rightarrow> byte list \<Rightarrow> ('z kmem_scheme, unit) kmon" where
  "uvmfirst pagetable src =
     (if length src \<ge> 4096 then panic ''uvmfirst: more than a page''
      else bind kalloc (\<lambda>m.
      seq (upd_phys (memset m 0 PGSIZE)) (
      bind (mappages pagetable 0 PGSIZE m (PTE_W OR PTE_R OR PTE_X OR PTE_U)) (\<lambda>_.
      upd_phys (mem_store m src)))))"

definition uvmdealloc :: "uint64 \<Rightarrow> uint64 \<Rightarrow> uint64 \<Rightarrow> ('z kmem_scheme, uint64) kmon" where
  "uvmdealloc pagetable oldsz newsz =
     (if newsz \<ge> oldsz then return oldsz
      else seq (kwhen (PGROUNDUP newsz < PGROUNDUP oldsz)
        (let npages = (PGROUNDUP oldsz - PGROUNDUP newsz) div PGSIZE in
         uvmunmap pagetable (PGROUNDUP newsz) (scast (ucast npages :: uint)) True))
        (return newsz))"

primrec uvmalloc_loop ::
  "nat \<Rightarrow> uint64 \<Rightarrow> uint64 \<Rightarrow> uint64 \<Rightarrow> uint64 \<Rightarrow> uint64 \<Rightarrow> ('z kmem_scheme, uint64) kmon" where
  "uvmalloc_loop 0 pagetable a oldsz newsz xperm = (if a < newsz then hang else return newsz)"
| "uvmalloc_loop (Suc n) pagetable a oldsz newsz xperm =
     (if a < newsz then
        bind kalloc (\<lambda>m.
        if m = 0 then bind (uvmdealloc pagetable a oldsz) (\<lambda>_. return 0)
        else seq (upd_phys (memset m 0 PGSIZE)) (
        bind (mappages pagetable a PGSIZE m (PTE_R OR PTE_U OR xperm)) (\<lambda>r.
        if r \<noteq> 0 then seq (kfree m) (bind (uvmdealloc pagetable a oldsz) (\<lambda>_. return 0))
        else uvmalloc_loop n pagetable (a + PGSIZE) oldsz newsz xperm)))
      else return newsz)"

definition uvmalloc ::
  "uint64 \<Rightarrow> uint64 \<Rightarrow> uint64 \<Rightarrow> uint64 \<Rightarrow> ('z kmem_scheme, uint64) kmon" where
  "uvmalloc pagetable oldsz newsz xperm =
     (if newsz < oldsz then return oldsz
      else let oldsz' = PGROUNDUP oldsz in
        uvmalloc_loop (unat (newsz - oldsz') div 4096 + 1) pagetable oldsz' oldsz' newsz xperm)"

primrec freewalk_depth :: "nat \<Rightarrow> uint64 \<Rightarrow> ('z kmem_scheme, unit) kmon" where
  "freewalk_depth 0 pagetable = hang"
| "freewalk_depth (Suc d) pagetable =
     seq (for_each [0..<512] (\<lambda>i.
       let slot = pagetable + 8 * of_nat i in
       bind (load64 slot) (\<lambda>pte.
       if pte AND PTE_V \<noteq> 0 \<and> pte AND (PTE_R OR PTE_W OR PTE_X) = 0 then
         seq (freewalk_depth d (PTE2PA pte)) (store64 slot 0)
       else if pte AND PTE_V \<noteq> 0 then panic ''freewalk: leaf''
       else skip)))
     (kfree pagetable)"

definition freewalk :: "uint64 \<Rightarrow> ('z kmem_scheme, unit) kmon" where
  "freewalk pagetable = freewalk_depth (2 ^ 52) pagetable"

definition uvmfree :: "uint64 \<Rightarrow> uint64 \<Rightarrow> ('z kmem_scheme, unit) kmon" where
  "uvmfree pagetable sz =
     seq (kwhen (sz > 0) (uvmunmap pagetable 0 (PGROUNDUP sz div PGSIZE) True))
         (freewalk pagetable)"

primrec uvmcopy_loop ::
  "nat \<Rightarrow> uint64 \<Rightarrow> uint64 \<Rightarrow> uint64 \<Rightarrow> uint64 \<Rightarrow> ('z kmem_scheme, int) kmon" where
  "uvmcopy_loop 0 old new i sz = (if i < sz then hang else return 0)"
| "uvmcopy_loop (Suc n) old new i sz =
     (if i < sz then
        bind (walk old i False) (\<lambda>pte.
        if pte = 0 then panic ''uvmcopy: pte should exist''
        else bind (load64 pte) (\<lambda>v.
        if v AND PTE_V = 0 then panic ''uvmcopy: page not present''
        else bind kalloc (\<lambda>m.
        if m = 0 then seq (uvmunmap new 0 (i div PGSIZE) True) (return (-1))
        else seq (upd_phys (memmove m (PTE2PA v) PGSIZE)) (
        bind (mappages new i PGSIZE m (PTE_FLAGS v)) (\<lambda>r.
        if r \<noteq> 0 then seq (kfree m) (seq (uvmunmap new 0 (i div PGSIZE) True) (return (-1)))
        else uvmcopy_loop n old new (i + PGSIZE) sz)))))
      else return 0)"

definition uvmcopy :: "uint64 \<Rightarrow> uint64 \<Rightarrow> uint64 \<Rightarrow> ('z kmem_scheme, int) kmon" where
  "uvmcopy old new sz = uvmcopy_loop (unat sz div 4096 + 1) old new 0 sz"

definition uvmclear :: "uint64 \<Rightarrow> uint64 \<Rightarrow> ('z kmem_scheme, unit) kmon" where
  "uvmclear pagetable va =
     bind (walk pagetable va False) (\<lambda>pte.
     if pte = 0 then panic ''uvmclear''
     else bind (load64 pte) (\<lambda>v. store64 pte (v AND NOT PTE_U)))"

section \<open>Copying between user and kernel\<close>

primrec copyout_loop :: "nat \<Rightarrow> uint64 \<Rightarrow> uint64 \<Rightarrow> byte list \<Rightarrow> ('z kmem_scheme, int) kmon" where
  "copyout_loop 0 pagetable dstva src = (if src = [] then return 0 else hang)"
| "copyout_loop (Suc k) pagetable dstva src =
     (if src = [] then return 0
      else let va0 = PGROUNDDOWN dstva in
        if va0 \<ge> MAXVA then return (-1)
        else bind (walk pagetable va0 False) (\<lambda>pte.
        if pte = 0 then return (-1)
        else bind (load64 pte) (\<lambda>v.
        if v AND PTE_V = 0 \<or> v AND PTE_U = 0 \<or> v AND PTE_W = 0 then return (-1)
        else let n = min (unat (PGSIZE - (dstva - va0))) (length src) in
          seq (upd_phys (mem_store (PTE2PA v + (dstva - va0)) (take n src)))
              (copyout_loop k pagetable (va0 + PGSIZE) (drop n src)))))"

definition copyout :: "uint64 \<Rightarrow> uint64 \<Rightarrow> byte list \<Rightarrow> ('z kmem_scheme, int) kmon" where
  "copyout pagetable dstva src = copyout_loop (length src) pagetable dstva src"

primrec copyin_loop ::
  "nat \<Rightarrow> uint64 \<Rightarrow> uint64 \<Rightarrow> nat \<Rightarrow> ('z kmem_scheme, int \<times> byte list) kmon" where
  "copyin_loop 0 pagetable srcva len = (if len = 0 then return (0, []) else hang)"
| "copyin_loop (Suc k) pagetable srcva len =
     (if len = 0 then return (0, [])
      else let va0 = PGROUNDDOWN srcva in
        bind (walkaddr pagetable va0) (\<lambda>pa0.
        if pa0 = 0 then return (-1, [])
        else let n = min (unat (PGSIZE - (srcva - va0))) len in
          bind (gets (\<lambda>s. mem_load (phys s) (pa0 + (srcva - va0)) n)) (\<lambda>bs.
          bind (copyin_loop k pagetable (va0 + PGSIZE) (len - n)) (\<lambda>(r, rest).
          return (r, bs @ rest)))))"

definition copyin :: "uint64 \<Rightarrow> uint64 \<Rightarrow> nat \<Rightarrow> ('z kmem_scheme, int \<times> byte list) kmon" where
  "copyin pagetable srcva len = copyin_loop len pagetable srcva len"

text \<open>
  The inner loop of \<open>copyinstr\<close>: at most \<open>n\<close> bytes from physical address \<open>p\<close>, up to and
  including a NUL; the flag is \<open>got_null\<close>.
\<close>

primrec copystr_page :: "mem \<Rightarrow> uint64 \<Rightarrow> nat \<Rightarrow> bool \<times> byte list" where
  "copystr_page m p 0 = (False, [])"
| "copystr_page m p (Suc n) =
     (if m p = 0 then (True, [0])
      else let (g, bs) = copystr_page m (p + 1) n in (g, m p # bs))"

primrec copyinstr_loop ::
  "nat \<Rightarrow> uint64 \<Rightarrow> uint64 \<Rightarrow> nat \<Rightarrow> ('z kmem_scheme, int \<times> byte list) kmon" where
  "copyinstr_loop 0 pagetable srcva mx = (if mx = 0 then return (-1, []) else hang)"
| "copyinstr_loop (Suc k) pagetable srcva mx =
     (if mx = 0 then return (-1, [])
      else let va0 = PGROUNDDOWN srcva in
        bind (walkaddr pagetable va0) (\<lambda>pa0.
        if pa0 = 0 then return (-1, [])
        else let n = min (unat (PGSIZE - (srcva - va0))) mx in
          bind (gets (\<lambda>s. copystr_page (phys s) (pa0 + (srcva - va0)) n)) (\<lambda>(got_null, bs).
          if got_null then return (0, bs)
          else bind (copyinstr_loop k pagetable (va0 + PGSIZE) (mx - n)) (\<lambda>(r, rest).
          return (r, bs @ rest)))))"

definition copyinstr :: "uint64 \<Rightarrow> uint64 \<Rightarrow> nat \<Rightarrow> ('z kmem_scheme, int \<times> byte list) kmon" where
  "copyinstr pagetable srcva mx = copyinstr_loop mx pagetable srcva mx"

end
