(* ===== verification/Xv6_Pagetable.thy ===== *)
theory Xv6_Pagetable
  imports Xv6_Vm
begin

unbundle bit_operations_syntax

text \<open>
  Page tables as trees in physical memory.  \<open>pt_wf\<close> says that the pages of a table of a given
  depth form a tree: no page is reached twice.  \<open>pt_look\<close> is the leaf entry a walk finds for a
  virtual address.  \<open>walk\<close> with allocation grows the tree by free pages without changing any
  lookup, a store to a leaf slot changes the lookups of one virtual page, and so \<open>mappages\<close>
  updates the lookup function on exactly the range it is given, or stops early when the
  allocator is empty.
\<close>

section \<open>Entries\<close>

lemma mask_consts: "(0x3FF :: uint64) = mask 10" "(0x1FF :: uint64) = mask 9"
  by (simp_all add: mask_eq_exp_minus_1)

lemma page_aligned_bits: "page_aligned pa \<Longrightarrow> n < 12 \<Longrightarrow> \<not> bit pa n"
proof -
  assume "page_aligned pa" "n < 12"
  have "(PGSIZE :: uint64) = 2 ^ 12" by (simp add: PGSIZE_def)
  then have "take_bit 12 pa = 0"
    using \<open>page_aligned pa\<close> by (simp add: page_aligned_def take_bit_eq_mod)
  then have "\<not> bit (take_bit 12 pa) n" by simp
  then show ?thesis using \<open>n < 12\<close> by (simp add: bit_take_bit_iff)
qed

lemma PTE2PA_PA2PTE:
  assumes "page_aligned pa" "flags AND NOT 0x3FF = 0"
  shows "PTE2PA (PA2PTE pa OR flags) = pa"
proof (rule bit_word_eqI)
  fix n assume n: "n < LENGTH(64)"
  have f: "\<not> bit flags k" if "10 \<le> k" for k
  proof -
    have "\<not> bit (flags AND NOT (mask 10)) k" using assms(2) by (simp add: mask_consts)
    then show ?thesis using that bit_imp_le_length [of flags k] by (auto simp: bit_and_iff bit_not_iff bit_mask_iff)
  qed
  show "bit (PTE2PA (PA2PTE pa OR flags)) n = bit pa n"
  proof (cases "12 \<le> n")
    case True
    then show ?thesis using f [of "n - 12 + 10"] n
      by (auto simp: PTE2PA_def PA2PTE_def bit_push_bit_iff bit_drop_bit_eq bit_or_iff)
  next
    case False
    then show ?thesis using page_aligned_bits [OF assms(1)] by (simp add: PTE2PA_def bit_push_bit_iff del: push_bit_or)
  qed
qed

lemma PTE_FLAGS_PA2PTE:
  assumes "flags AND NOT 0x3FF = 0"
  shows "PTE_FLAGS (PA2PTE pa OR flags) = flags"
proof (rule bit_word_eqI)
  fix n assume n: "n < LENGTH(64)"
  have "\<not> bit (flags AND NOT (mask 10)) n" using assms by (simp add: mask_consts)
  then show "bit (PTE_FLAGS (PA2PTE pa OR flags)) n = bit flags n"
    using n by (auto simp: PTE_FLAGS_def mask_consts PA2PTE_def bit_simps)
qed

definition pte_valid :: "uint64 \<Rightarrow> bool" where
  "pte_valid v \<longleftrightarrow> v AND PTE_V \<noteq> 0"

lemma pte_valid_bit: "pte_valid v \<longleftrightarrow> bit v 0"
proof -
  have "v AND 1 = of_bool (odd v)" by (simp add: and_one_eq mod_2_eq_odd)
  then show ?thesis by (simp add: pte_valid_def PTE_V_def bit_0)
qed

lemma pte_valid_OR [simp]: "pte_valid (x OR PTE_V)"
  by (simp add: pte_valid_bit PTE_V_def bit_or_iff)

section \<open>Trees\<close>

text \<open>
  \<open>pt_child\<close> is the next-level table in slot \<open>i\<close>, \<open>pt_leaf\<close> the level-0 table a walk ends in,
  \<open>pt_pages\<close> the pages of the whole tree.
\<close>

definition pidx :: "nat \<Rightarrow> uint64 \<Rightarrow> nat" where
  "pidx l va = unat (PX l va)"

lemma pidx_less: "pidx l va < 512"
proof -
  have "PX l va \<le> mask 9" unfolding PX_def mask_consts by (metis and.commute word_and_le1)
  then show ?thesis by (simp add: pidx_def word_le_nat_alt mask_eq_exp_minus_1)
qed

lemma slot_pidx: "pt + 8 * PX l va = pt + of_nat (8 * pidx l va)"
  by (simp add: pidx_def)

definition pt_entry :: "mem \<Rightarrow> uint64 \<Rightarrow> nat \<Rightarrow> uint64" where
  "pt_entry m pt i = read64 m (pt + of_nat (8 * i))"

definition pt_child :: "mem \<Rightarrow> uint64 \<Rightarrow> nat \<Rightarrow> uint64 option" where
  "pt_child m pt i = (let v = pt_entry m pt i in if pte_valid v then Some (PTE2PA v) else None)"

primrec pt_leaf :: "nat \<Rightarrow> mem \<Rightarrow> uint64 \<Rightarrow> uint64 \<Rightarrow> uint64 option" where
  "pt_leaf 0 m pt va = Some pt"
| "pt_leaf (Suc l) m pt va =
     (case pt_child m pt (pidx (Suc l) va) of None \<Rightarrow> None | Some t \<Rightarrow> pt_leaf l m t va)"

definition pt_look :: "nat \<Rightarrow> mem \<Rightarrow> uint64 \<Rightarrow> uint64 \<Rightarrow> uint64" where
  "pt_look l m pt va = (case pt_leaf l m pt va of None \<Rightarrow> 0 | Some t \<Rightarrow> pt_entry m t (pidx 0 va))"

lemma pt_look_0 [simp]: "pt_look 0 m pt va = pt_entry m pt (pidx 0 va)"
  by (simp add: pt_look_def)

lemma pt_look_Suc [simp]: "pt_look (Suc l) m pt va =
     (case pt_child m pt (pidx (Suc l) va) of None \<Rightarrow> 0 | Some t \<Rightarrow> pt_look l m t va)"
  by (simp add: pt_look_def split: option.splits)

primrec pt_pages :: "nat \<Rightarrow> mem \<Rightarrow> uint64 \<Rightarrow> uint64 set" where
  "pt_pages 0 m pt = {pt}"
| "pt_pages (Suc l) m pt = insert pt (\<Union>i \<in> {..<512}. case pt_child m pt i of None \<Rightarrow> {} | Some t \<Rightarrow> pt_pages l m t)"

primrec pt_wf :: "nat \<Rightarrow> mem \<Rightarrow> uint64 \<Rightarrow> bool" where
  "pt_wf 0 m pt \<longleftrightarrow> page_aligned pt"
| "pt_wf (Suc l) m pt \<longleftrightarrow> page_aligned pt \<and>
     (\<forall>i < 512. \<forall>t. pt_child m pt i = Some t \<longrightarrow> pt_wf l m t \<and> pt \<notin> pt_pages l m t) \<and>
     (\<forall>i < 512. \<forall>j < 512. \<forall>t u. i \<noteq> j \<longrightarrow> pt_child m pt i = Some t \<longrightarrow> pt_child m pt j = Some u \<longrightarrow>
        pt_pages l m t \<inter> pt_pages l m u = {})"

lemma pt_entry_cong:
  "(\<And>a. in_page pt a \<Longrightarrow> m' a = m a) \<Longrightarrow> i < 512 \<Longrightarrow> pt_entry m' pt i = pt_entry m pt i"
  unfolding pt_entry_def by (rule read64_slot_cong)

lemma pt_root_in_pages [simp]: "pt \<in> pt_pages l m pt"
  by (cases l) simp_all

lemma pt_pages_aligned: "pt_wf l m pt \<Longrightarrow> p \<in> pt_pages l m pt \<Longrightarrow> page_aligned p"
proof (induction l arbitrary: pt)
  case (Suc l)
  then show ?case by (fastforce split: option.splits)
qed simp

lemma pt_child_agree:
  assumes "agree_on P m m'" "pt \<in> P" "i < 512"
  shows "pt_child m' pt i = pt_child m pt i"
proof -
  have "pt_entry m' pt i = pt_entry m pt i"
    by (rule pt_entry_cong) (use assms in \<open>auto simp: agree_on_def\<close>)
  then show ?thesis by (simp add: pt_child_def)
qed

lemma pt_child_pages: "pt_child m pt i = Some t \<Longrightarrow> i < 512 \<Longrightarrow> pt_pages l m t \<subseteq> pt_pages (Suc l) m pt"
  by force

lemma pt_frame:
  assumes "agree_on (pt_pages l m pt) m m'"
  shows "pt_pages l m' pt = pt_pages l m pt \<and> pt_wf l m' pt = pt_wf l m pt \<and>
    (\<forall>va. pt_look l m' pt va = pt_look l m pt va)"
  using assms
proof (induction l arbitrary: pt)
  case 0
  have "pt_entry m' pt (pidx 0 va) = pt_entry m pt (pidx 0 va)" for va
    by (rule pt_entry_cong) (use 0 pidx_less in \<open>auto simp: agree_on_def\<close>)
  then show ?case by simp
next
  case (Suc l)
  have c: "pt_child m' pt i = pt_child m pt i" if "i < 512" for i
    by (rule pt_child_agree [OF Suc.prems]) (use that in simp_all)
  have IH: "pt_pages l m' t = pt_pages l m t \<and> pt_wf l m' t = pt_wf l m t \<and>
      (\<forall>va. pt_look l m' t va = pt_look l m t va)" if "i < 512" "pt_child m pt i = Some t" for i t
    by (rule Suc.IH, rule agree_on_mono [OF Suc.prems pt_child_pages [OF that(2,1)]])
  have "pt_pages (Suc l) m' pt = pt_pages (Suc l) m pt"
    using c IH by (auto split: option.splits)
  moreover have "pt_wf (Suc l) m' pt = pt_wf (Suc l) m pt"
    using c IH by (simp cong: conj_cong)
  moreover have "pt_look (Suc l) m' pt va = pt_look (Suc l) m pt va" for va
    using c [OF pidx_less] IH [OF pidx_less] by (auto split: option.splits)
  ultimately show ?case by blast
qed


lemma pt_wf_child:
  assumes "pt_wf (Suc l) m pt" "i < 512" "pt_child m pt i = Some t"
  shows "pt_wf l m t" "pt \<notin> pt_pages l m t"
  using assms by auto

lemma pt_wf_disjoint:
  assumes "pt_wf (Suc l) m pt" "i < 512" "pt_child m pt i = Some t"
    "j < 512" "pt_child m pt j = Some u" "i \<noteq> j"
  shows "pt_pages l m t \<inter> pt_pages l m u = {}"
  using assms by auto

lemma pt_pages_Suc_iff:
  "p \<in> pt_pages (Suc l) m pt \<longleftrightarrow>
     p = pt \<or> (\<exists>j u. j < 512 \<and> pt_child m pt j = Some u \<and> p \<in> pt_pages l m u)"
  by (force split: option.splits)

lemma pt_wf_SucI:
  assumes "page_aligned pt"
    and "\<And>j u. j < 512 \<Longrightarrow> pt_child m pt j = Some u \<Longrightarrow> pt_wf l m u \<and> pt \<notin> pt_pages l m u"
    and "\<And>j k u v. j < 512 \<Longrightarrow> k < 512 \<Longrightarrow> j \<noteq> k \<Longrightarrow> pt_child m pt j = Some u \<Longrightarrow>
      pt_child m pt k = Some v \<Longrightarrow> pt_pages l m u \<inter> pt_pages l m v = {}"
  shows "pt_wf (Suc l) m pt"
  using assms by simp

lemma subtree_update:
  assumes wf: "pt_wf (Suc l) m pt" and i: "i < 512" "pt_child m pt i = Some t"
    and F: "pt_pages (Suc l) m pt \<inter> F = {}" "\<forall>q \<in> F. page_aligned q"
    and new: "pt_wf l m' t" "pt_pages l m' t \<subseteq> pt_pages l m t \<union> F"
    and fr: "frame_on (pt_pages l m t \<union> F) m m'"
  shows "pt_wf (Suc l) m' pt"
    and "pt_pages (Suc l) m' pt = (pt_pages (Suc l) m pt - pt_pages l m t) \<union> pt_pages l m' t"
    and "j < 512 \<Longrightarrow> pt_child m' pt j = pt_child m pt j"
    and "j < 512 \<Longrightarrow> j \<noteq> i \<Longrightarrow> pt_child m pt j = Some u \<Longrightarrow> pt_look l m' u va = pt_look l m u va"
proof -
  let ?P = "pt_pages l m t \<union> F"
  note t = pt_wf_child [OF wf i]
  have pt: "pt \<notin> ?P" "page_aligned pt" using t(2) F(1) wf by auto
  have al: "\<forall>p \<in> ?P. page_aligned p"
    using pt_pages_aligned [OF t(1)] F(2) by blast
  have agree: "agree_on Q m m'" if "\<forall>p \<in> Q. page_aligned p" "?P \<inter> Q = {}" for Q
    using frame_on_agree [OF fr al that] .
  have "agree_on {pt} m m'" by (rule agree) (use pt in auto)
  then have c: "pt_child m' pt j = pt_child m pt j" if "j < 512" for j
    using that by (simp add: pt_child_agree [of "{pt}"])
  then show "j < 512 \<Longrightarrow> pt_child m' pt j = pt_child m pt j" .
  have dis: "pt_pages l m u \<inter> ?P = {}" if "j < 512" "j \<noteq> i" "pt_child m pt j = Some u" for j u
    using pt_wf_disjoint [OF wf that(1,3) i that(2)] pt_child_pages [OF that(3,1), of l] F(1) by blast
  have other: "pt_pages l m' u = pt_pages l m u" "pt_wf l m' u = pt_wf l m u"
      "pt_look l m' u va = pt_look l m u va"
    if "j < 512" "j \<noteq> i" "pt_child m pt j = Some u" for j u va
  proof -
    have "agree_on (pt_pages l m u) m m'"
      using dis [OF that] pt_pages_aligned [OF pt_wf_child(1) [OF wf that(1,3)]]
      by (intro agree) auto
    from pt_frame [OF this] show "pt_pages l m' u = pt_pages l m u" "pt_wf l m' u = pt_wf l m u"
      "pt_look l m' u va = pt_look l m u va" by blast+
  qed
  show "j < 512 \<Longrightarrow> j \<noteq> i \<Longrightarrow> pt_child m pt j = Some u \<Longrightarrow> pt_look l m' u va = pt_look l m u va"
    by (rule other(3))
  have pts: "pt \<notin> pt_pages l m' t" using new(2) pt(1) by blast
  show "pt_wf (Suc l) m' pt"
  proof (rule pt_wf_SucI [OF pt(2)])
    fix j u assume "j < 512" "pt_child m' pt j = Some u"
    then show "pt_wf l m' u \<and> pt \<notin> pt_pages l m' u"
      using other(1,2) [of j u] c [of j] pt_wf_child [OF wf, of j u] i new(1) pts
      by (cases "j = i") simp_all
  next
    fix j k u v
    assume a: "j < 512" "k < 512" "j \<noteq> k" "pt_child m' pt j = Some u" "pt_child m' pt k = Some v"
    then have x: "pt_child m pt j = Some u" "pt_child m pt k = Some v" using c by simp_all
    consider "j = i" | "k = i" | "j \<noteq> i" "k \<noteq> i" by blast
    then show "pt_pages l m' u \<inter> pt_pages l m' v = {}"
    proof cases
      case 1
      then have "u = t" "k \<noteq> i" using x i a by simp_all
      then show ?thesis using other(1) [OF a(2) _ x(2)] dis [OF a(2) _ x(2)] new(2) by auto
    next
      case 2
      then have "v = t" "j \<noteq> i" using x i a by simp_all
      then show ?thesis using other(1) [OF a(1) _ x(1)] dis [OF a(1) _ x(1)] new(2) by auto
    next
      case 3
      then show ?thesis
        using other(1) [OF a(1) _ x(1)] other(1) [OF a(2) _ x(2)] pt_wf_disjoint [OF wf a(1) x(1) a(2) x(2) a(3)]
        by simp
    qed
  qed
  have "p \<in> pt_pages (Suc l) m' pt \<longleftrightarrow> p \<in> (pt_pages (Suc l) m pt - pt_pages l m t) \<union> pt_pages l m' t" for p
  proof -
    have "p \<in> pt_pages (Suc l) m' pt \<longleftrightarrow> p = pt \<or> p \<in> pt_pages l m' t \<or>
        (\<exists>j u. j < 512 \<and> j \<noteq> i \<and> pt_child m pt j = Some u \<and> p \<in> pt_pages l m u)"
      unfolding pt_pages_Suc_iff using c i other(1) by (metis option.inject)
    moreover have "p \<in> pt_pages (Suc l) m pt - pt_pages l m t \<longleftrightarrow> p = pt \<or>
        (\<exists>j u. j < 512 \<and> j \<noteq> i \<and> pt_child m pt j = Some u \<and> p \<in> pt_pages l m u)"
      unfolding Diff_iff pt_pages_Suc_iff using pt(1) dis i by (metis UnCI disjoint_iff option.inject)
    ultimately show ?thesis by blast
  qed
  then show "pt_pages (Suc l) m' pt = (pt_pages (Suc l) m pt - pt_pages l m t) \<union> pt_pages l m' t"
    by blast
qed


declare pt_wf.simps(2) [simp del] pt_pages.simps(2) [simp del]

section \<open>Changing one entry\<close>

definition same_idx :: "nat \<Rightarrow> uint64 \<Rightarrow> uint64 \<Rightarrow> bool" where
  "same_idx l va va' \<longleftrightarrow> (\<forall>j \<le> l. pidx j va' = pidx j va)"

lemma same_idx_Suc: "same_idx (Suc l) va va' \<longleftrightarrow> same_idx l va va' \<and> pidx (Suc l) va' = pidx (Suc l) va"
  by (auto simp: same_idx_def le_Suc_eq)

lemma pt_leaf_in_pages: "pt_leaf l m pt va = Some t \<Longrightarrow> t \<in> pt_pages l m pt"
proof (induction l arbitrary: pt)
  case (Suc l)
  then show ?case using pidx_less [of "Suc l" va]
    by (auto simp: pt_pages_Suc_iff split: option.splits)
qed simp

lemma pt_entry_write64:
  "i < 512 \<Longrightarrow> j < 512 \<Longrightarrow>
   pt_entry (write64 (p + of_nat (8 * i)) v m) p j = (if j = i then v else pt_entry m p j)"
  unfolding pt_entry_def using read64_write64_other_slot [of i j] by (auto simp del: of_nat_mult)

lemma leaf_write:
  fixes v :: uint64
  assumes "pt_wf l m pt" "pt_leaf l m pt va = Some t"
  defines "m' \<equiv> write64 (t + of_nat (8 * pidx 0 va)) v m"
  shows "pt_wf l m' pt \<and> pt_pages l m' pt = pt_pages l m pt \<and>
    (\<forall>va'. pt_look l m' pt va' = (if same_idx l va va' then v else pt_look l m pt va'))"
  using assms(1,2)
proof (induction l arbitrary: pt)
  case 0
  then show ?case
    by (auto simp: m'_def pt_entry_write64 pidx_less same_idx_def simp del: of_nat_mult)
next
  case (Suc l)
  let ?i = "pidx (Suc l) va"
  obtain c where c: "pt_child m pt ?i = Some c" "pt_leaf l m c va = Some t"
    using Suc.prems(2) by (auto split: option.splits)
  note i = pidx_less [of "Suc l" va]
  have IH: "pt_wf l m' c" "pt_pages l m' c = pt_pages l m c"
    "\<And>va'. pt_look l m' c va' = (if same_idx l va va' then v else pt_look l m c va')"
    using Suc.IH [OF pt_wf_child(1) [OF Suc.prems(1) i c(1)] c(2)] by blast+
  have fr: "frame_on (pt_pages l m c \<union> {}) m m'"
    unfolding m'_def by (rule frame_on_write64) (use pidx_less pt_leaf_in_pages [OF c(2)] in auto)
  note up = subtree_update [OF Suc.prems(1) i c(1) _ _ IH(1) _ fr, simplified IH(2), simplified]
  have "pt_look (Suc l) m' pt va' = (if same_idx (Suc l) va va' then v else pt_look (Suc l) m pt va')" for va'
  proof (cases "pidx (Suc l) va' = ?i")
    case True
    then show ?thesis using up(3) [OF i] c(1) IH(3) by (simp add: same_idx_Suc)
  next
    case False
    then show ?thesis using up(3) [OF pidx_less] up(4) [OF pidx_less False]
      by (auto simp: same_idx_Suc split: option.splits)
  qed
  moreover have "pt_pages l m c \<subseteq> pt_pages (Suc l) m pt" using pt_child_pages [OF c(1) i] .
  ultimately show ?case using up(1,2) by (simp del: pt_look_Suc) blast
qed

lemma zero_page_entries:
  assumes "\<forall>a. in_page p a \<longrightarrow> m a = 0" "i < 512"
  shows "pt_entry m p i = 0"
proof -
  have "pt_entry m p i = pt_entry (\<lambda>_. 0) p i" by (rule pt_entry_cong) (use assms in auto)
  also have "mem_load (\<lambda>_. 0) a n = replicate n 0" for a n
    by (simp add: mem_load_def map_replicate_trivial map_replicate_const)
  then have "pt_entry (\<lambda>_. 0) p i = 0" by (simp add: pt_entry_def read64_def numeral_eq_Suc)
  finally show ?thesis .
qed

lemma zero_page_tree:
  assumes "\<forall>a. in_page p a \<longrightarrow> m a = 0"
  shows "pt_pages l m p = {p}" "page_aligned p \<Longrightarrow> pt_wf l m p" "pt_look l m p va = 0"
proof -
  note z = zero_page_entries [OF assms]
  then have c: "pt_child m p i = None" if "i < 512" for i
    using that by (simp add: pt_child_def pte_valid_def)
  show "pt_pages l m p = {p}" using c by (cases l) (auto simp: pt_pages.simps)
  show "page_aligned p \<Longrightarrow> pt_wf l m p" using c by (cases l) (auto simp: pt_wf.simps)
  show "pt_look l m p va = 0" using c [OF pidx_less] z [OF pidx_less] by (cases l) auto
qed

lemma attach_page:
  assumes wf: "pt_wf (Suc l) m pt" and i: "i < 512" "pt_child m pt i = None"
    and p: "page_aligned p" "p \<notin> pt_pages (Suc l) m pt"
    and z: "\<And>a. in_page p a \<Longrightarrow> m1 a = 0" and m1: "\<And>a. \<not> in_page p a \<Longrightarrow> m1 a = m a"
  defines "m' \<equiv> write64 (pt + of_nat (8 * i)) (PA2PTE p OR PTE_V) m1"
  shows "pt_wf (Suc l) m' pt" "pt_pages (Suc l) m' pt = insert p (pt_pages (Suc l) m pt)"
    "pt_child m' pt i = Some p" "pt_look (Suc l) m' pt va = pt_look (Suc l) m pt va"
    "pt_wf l m' p" "pt_pages l m' p = {p}" "pt_look l m' p va = 0"
proof -
  have ptal: "page_aligned pt" "pt \<noteq> p" using wf p by (auto simp: pt_wf.simps)
  have zp: "\<forall>a. in_page p a \<longrightarrow> m' a = 0"
    unfolding m'_def using write64_outside [OF i(1)] z in_page_unique [OF p(1) ptal(1)] ptal(2) by metis
  note tree = zero_page_tree [OF zp]
  show 1: "pt_wf l m' p" "pt_pages l m' p = {p}" "pt_look l m' p va = 0"
    using tree(2) [OF p(1)] tree(1,3) by blast+
  have e1: "pt_entry m1 pt j = pt_entry m pt j" if "j < 512" for j
    by (rule pt_entry_cong [OF _ that]) (use m1 ptal p in_page_unique in metis)
  have e: "pt_entry m' pt j = (if j = i then PA2PTE p OR PTE_V else pt_entry m pt j)" if "j < 512" for j
    using e1 [OF that] pt_entry_write64 [OF i(1) that] by (simp add: m'_def del: of_nat_mult)
  have "PTE2PA (PA2PTE p OR PTE_V) = p" by (rule PTE2PA_PA2PTE [OF p(1)]) (simp add: PTE_V_def)
  then have c: "pt_child m' pt j = (if j = i then Some p else pt_child m pt j)" if "j < 512" for j
    using e [OF that] by (simp add: pt_child_def)
  then show ci: "pt_child m' pt i = Some p" using i by simp
  have ag: "pt_pages l m' u = pt_pages l m u" "pt_wf l m' u = pt_wf l m u" "pt_look l m' u va = pt_look l m u va"
    if "j < 512" "pt_child m pt j = Some u" for j u va
  proof -
    have sub: "p \<notin> pt_pages l m u" "pt \<notin> pt_pages l m u" "\<forall>q \<in> pt_pages l m u. page_aligned q"
      using p(2) pt_child_pages [OF that(2,1)] pt_wf_child [OF wf that] pt_pages_aligned by blast+
    have "m' a = m a" if "q \<in> pt_pages l m u" "in_page q a" for q a
    proof -
      have "\<not> in_page p a" "\<not> in_page pt a"
        using that sub in_page_unique [OF _ p(1) that(2)] in_page_unique [OF _ ptal(1) that(2)] by auto
      then show ?thesis using m1 write64_outside [OF i(1)] by (simp add: m'_def del: of_nat_mult)
    qed
    then have "agree_on (pt_pages l m u) m m'" by (simp add: agree_on_def)
    from pt_frame [OF this] show "pt_pages l m' u = pt_pages l m u" "pt_wf l m' u = pt_wf l m u"
      "pt_look l m' u va = pt_look l m u va" by blast+
  qed
  have new: "p \<notin> pt_pages l m u" if "j < 512" "pt_child m pt j = Some u" for j u
    using p(2) pt_child_pages [OF that(2,1)] by blast
  show "pt_wf (Suc l) m' pt"
  proof (rule pt_wf_SucI [OF ptal(1)])
    fix j u assume "j < 512" "pt_child m' pt j = Some u"
    then show "pt_wf l m' u \<and> pt \<notin> pt_pages l m' u"
      using c [of j] ag(1,2) [of j u] pt_wf_child [OF wf, of j u] 1 ptal by (auto split: if_splits)
  next
    fix j k u v
    assume a: "j < 512" "k < 512" "j \<noteq> k" "pt_child m' pt j = Some u" "pt_child m' pt k = Some v"
    then consider "u = p" "pt_child m pt k = Some v"
      | "v = p" "pt_child m pt j = Some u"
      | "pt_child m pt k = Some v" "pt_child m pt j = Some u"
      using c [of j] c [of k] by (cases "j = i"; cases "k = i") simp_all
    then show "pt_pages l m' u \<inter> pt_pages l m' v = {}"
    proof cases
      case 1
      then show ?thesis using tree(1) [of l] ag(1) [of k v] new [of k v] a(2) by simp
    next
      case 2
      then show ?thesis using tree(1) [of l] ag(1) [of j u] new [of j u] a(1) by simp
    next
      case 3
      then show ?thesis
        using ag(1) [of k v] ag(1) [of j u] pt_wf_disjoint [OF wf a(1) _ a(2) _ a(3)] a(1,2) by simp
    qed
  qed
  have "q \<in> pt_pages (Suc l) m' pt \<longleftrightarrow> q = p \<or> q \<in> pt_pages (Suc l) m pt" for q
  proof -
    have "q \<in> pt_pages (Suc l) m' pt \<longleftrightarrow> q = pt \<or> q \<in> pt_pages l m' p \<or>
      (\<exists>j u. j < 512 \<and> j \<noteq> i \<and> pt_child m pt j = Some u \<and> q \<in> pt_pages l m' u)"
      unfolding pt_pages_Suc_iff using c i by (metis option.inject)
    moreover have "(\<exists>j u. j < 512 \<and> j \<noteq> i \<and> pt_child m pt j = Some u \<and> q \<in> pt_pages l m' u) \<longleftrightarrow>
      (\<exists>j u. j < 512 \<and> pt_child m pt j = Some u \<and> q \<in> pt_pages l m u)"
      using ag(1) i by (metis option.distinct(1))
    ultimately show ?thesis unfolding pt_pages_Suc_iff tree(1) by blast
  qed
  then show "pt_pages (Suc l) m' pt = insert p (pt_pages (Suc l) m pt)" by blast
  show "pt_look (Suc l) m' pt va = pt_look (Suc l) m pt va"
    using c [OF pidx_less] ag(3) [OF pidx_less] 1(3) i
    by (auto split: option.splits)
qed


section \<open>Walking\<close>

text \<open>
  \<open>vm_rep s l pt ps\<close>: a well-formed table of depth \<open>l\<close> at \<open>pt\<close> beside the free pages \<open>ps\<close>.
  \<open>grown\<close>: free pages moved from the allocator into the table, all lookups kept.
\<close>

definition vm_rep :: "'z kmem_scheme \<Rightarrow> nat \<Rightarrow> uint64 \<Rightarrow> uint64 list \<Rightarrow> bool" where
  "vm_rep s l pt ps \<longleftrightarrow> kmem_rep s ps \<and> pt_wf l (phys s) pt \<and>
     pt_pages l (phys s) pt \<inter> set ps = {} \<and> (\<forall>p \<in> pt_pages l (phys s) pt. ram_page (kend s) p)"

definition grown :: "nat \<Rightarrow> uint64 \<Rightarrow> uint64 list \<Rightarrow> 'z kmem_scheme \<Rightarrow> uint64 list \<Rightarrow> 'z kmem_scheme \<Rightarrow> bool" where
  "grown l pt ps s ps' s' \<longleftrightarrow> vm_rep s' l pt ps' \<and> kmem_frame s s' \<and>
     (\<forall>va. pt_look l (phys s') pt va = pt_look l (phys s) pt va) \<and>
     pt_pages l (phys s') pt \<union> set ps' = pt_pages l (phys s) pt \<union> set ps \<and>
     frame_on (pt_pages l (phys s) pt \<union> set ps) (phys s) (phys s')"

lemma grown_trans: "grown l pt ps s ps' s' \<Longrightarrow> grown l pt ps' s' ps'' s'' \<Longrightarrow> grown l pt ps s ps'' s''"
  unfolding grown_def frame_on_def using kmem_frame_trans by metis

lemma grown_refl: "vm_rep s l pt ps \<Longrightarrow> grown l pt ps s ps s"
  by (simp add: grown_def frame_on_def)

lemma vm_rep_child:
  assumes "vm_rep s (Suc l) pt ps" "i < 512" "pt_child (phys s) pt i = Some t"
  shows "vm_rep s l t ps"
  using assms pt_child_pages [OF assms(3,2), of l] pt_wf_child [of l "phys s" pt i t]
  unfolding vm_rep_def by blast

lemma grown_child:
  assumes rep: "vm_rep s (Suc l) pt ps" and i: "i < 512" "pt_child (phys s) pt i = Some t"
    and g: "grown l t ps s ps' s'"
  shows "grown (Suc l) pt ps s ps' s'" "pt_child (phys s') pt i = Some t"
proof -
  have rep': "pt_wf (Suc l) (phys s) pt" "pt_pages (Suc l) (phys s) pt \<inter> set ps = {}"
    "\<forall>q \<in> set ps. page_aligned q" "\<forall>p \<in> pt_pages (Suc l) (phys s) pt. ram_page (kend s) p"
    using rep kmem_rep_aligned unfolding vm_rep_def by blast+
  have t: "pt_wf l (phys s') t" "pt_pages l (phys s') t \<union> set ps' = pt_pages l (phys s) t \<union> set ps"
    "kmem_rep s' ps'" "pt_pages l (phys s') t \<inter> set ps' = {}" "kmem_frame s s'"
    "frame_on (pt_pages l (phys s) t \<union> set ps) (phys s) (phys s')"
    "\<And>va. pt_look l (phys s') t va = pt_look l (phys s) t va"
    "\<forall>p \<in> pt_pages l (phys s') t. ram_page (kend s') p"
    using g unfolding grown_def vm_rep_def by blast+
  have "pt_pages l (phys s') t \<subseteq> pt_pages l (phys s) t \<union> set ps" using t(2) by blast
  note up = subtree_update [OF rep'(1) i rep'(2,3) t(1) this t(6)]
  have sub: "pt_pages l (phys s) t \<subseteq> pt_pages (Suc l) (phys s) pt" using pt_child_pages [OF i(2,1)] .
  have pages: "pt_pages (Suc l) (phys s') pt \<union> set ps' = pt_pages (Suc l) (phys s) pt \<union> set ps"
    "pt_pages (Suc l) (phys s') pt \<inter> set ps' = {}"
    unfolding up(2) using t(2,4) sub rep'(2) by blast+
  show c: "pt_child (phys s') pt i = Some t" using up(3) i by simp
  have "pt_look (Suc l) (phys s') pt va = pt_look (Suc l) (phys s) pt va" for va
    using up(3) [OF pidx_less] up(4) [OF pidx_less, of "Suc l" va] i t(7)
    by (cases "pidx (Suc l) va = i") (auto split: option.splits)
  moreover have "\<forall>p \<in> pt_pages (Suc l) (phys s') pt. ram_page (kend s') p"
    unfolding up(2) kmem_frame_kend [OF t(5)] using t(8) rep'(4) kmem_frame_kend [OF t(5)] by auto
  moreover have "frame_on (pt_pages (Suc l) (phys s) pt \<union> set ps) (phys s) (phys s')"
    by (rule frame_on_mono [OF t(6)]) (use sub in blast)
  ultimately show "grown (Suc l) pt ps s ps' s'"
    unfolding grown_def vm_rep_def using up(1) pages t(3,5) by blast
qed

lemma grown_attach:
  assumes rep: "vm_rep s (Suc l) pt (p # ps)" and i: "i < 512" "pt_child (phys s) pt i = None"
    and s1: "kmem_rep s1 ps" "kmem_frame s s1" "\<forall>a. \<not> in_page p a \<longrightarrow> phys s1 a = phys s a"
  defines "s' \<equiv> s1\<lparr>phys := write64 (pt + of_nat (8 * i)) (PA2PTE p OR PTE_V) (memset p 0 PGSIZE (phys s1))\<rparr>"
  shows "grown (Suc l) pt (p # ps) s ps s'" "pt_child (phys s') pt i = Some p"
    "vm_rep s' l p ps"
proof -
  have r: "pt_wf (Suc l) (phys s) pt" "p \<notin> pt_pages (Suc l) (phys s) pt" "page_aligned p" "p \<notin> set ps"
    "\<forall>q \<in> pt_pages (Suc l) (phys s) pt. ram_page (kend s) q" "ram_page (kend s) p"
    "pt_pages (Suc l) (phys s) pt \<inter> set ps = {}"
    using rep by (auto simp: vm_rep_def kmem_rep_def ram_page_aligned)
  let ?m1 = "memset p 0 PGSIZE (phys s1)"
  have m1: "\<And>a. in_page p a \<Longrightarrow> ?m1 a = 0" "\<And>a. \<not> in_page p a \<Longrightarrow> ?m1 a = phys s a"
    using s1(3) by (simp_all add: memset_page)
  have ph: "phys s' = write64 (pt + of_nat (8 * i)) (PA2PTE p OR PTE_V) ?m1" by (simp add: s'_def)
  note at = attach_page [OF r(1) i r(3,2) m1, folded ph]
  have al: "\<forall>q \<in> set ps. page_aligned q" using kmem_rep_aligned [OF s1(1)] .
  have ptal: "page_aligned pt" "pt \<notin> set ps" using r(1,7) pt_root_in_pages [of pt "Suc l" "phys s"] pt_pages_aligned [OF r(1)] by blast+
  have fr: "frame_on {pt, p} (phys s1) (phys s')"
    unfolding frame_on_def ph using write64_outside [OF i(1)] by (simp add: memset_page del: of_nat_mult)
  have "agree_on (set ps) (phys s1) (phys s')"
    by (rule frame_on_agree [OF fr]) (use al ptal r in auto)
  then have k: "kmem_rep s' ps" using kmem_rep_phys [OF s1(1)] by (simp add: ph s'_def)
  have fr': "kmem_frame s s'" unfolding s'_def by (rule kmem_frame_trans [OF s1(2)]) simp
  have ke: "kend s' = kend s" using kmem_frame_kend [OF fr'] .
  show "pt_child (phys s') pt i = Some p" by (rule at(3))
  show "vm_rep s' l p ps"
    unfolding vm_rep_def ke using k at(5,6) r by simp
  have "frame_on (pt_pages (Suc l) (phys s) pt \<union> set (p # ps)) (phys s) (phys s')"
    using fr s1(3) unfolding frame_on_def by auto
  then show "grown (Suc l) pt (p # ps) s ps s'"
    unfolding grown_def vm_rep_def ke using at(1) r k fr'
    by (auto simp: at(2,4) simp del: pt_look_Suc)
qed

lemma walk_level_alloc:
  assumes "vm_rep s l pt ps"
  shows "\<exists>a s' ps'. walk_level l pt va True s = Ok a s' \<and> grown l pt ps s ps' s' \<and>
    length ps \<le> length ps' + l \<and>
    (case pt_leaf l (phys s') pt va of None \<Rightarrow> a = 0 \<and> ps' = [] \<and> length ps < l | Some t \<Rightarrow> a = t + of_nat (8 * pidx 0 va))"
  using assms
proof (induction l arbitrary: s pt ps)
  case 0
  then show ?case by (auto intro: grown_refl simp: pidx_def)
next
  case (Suc l)
  let ?i = "pidx (Suc l) va"
  note i = pidx_less [of "Suc l" va]
  have entry: "read64 (phys s) (pt + 8 * PX (Suc l) va) = pt_entry (phys s) pt ?i"
    by (simp add: pt_entry_def pidx_def)
  show ?case
  proof (cases "pt_child (phys s) pt ?i")
    case (Some t)
    then have v: "pte_valid (pt_entry (phys s) pt ?i)" "PTE2PA (pt_entry (phys s) pt ?i) = t"
      by (auto simp: pt_child_def Let_def split: if_splits)
    obtain a s' ps' where w: "walk_level l t va True s = Ok a s'" "grown l t ps s ps' s'"
      "length ps \<le> length ps' + l"
      "case pt_leaf l (phys s') t va of None \<Rightarrow> a = 0 \<and> ps' = [] \<and> length ps < l | Some t \<Rightarrow> a = t + of_nat (8 * pidx 0 va)"
      using Suc.IH [OF vm_rep_child [OF Suc.prems i Some]] by blast
    have "walk_level (Suc l) pt va True s = Ok a s'"
      using v w(1) by (simp add: load64_def kexec Let_def entry pte_valid_def)
    then show ?thesis
      using grown_child [OF Suc.prems i Some w(2)] w(3,4)
      by (intro exI [of _ a] exI [of _ s'] exI [of _ ps']) (auto split: option.splits)
  next
    case None
    then have v: "\<not> pte_valid (pt_entry (phys s) pt ?i)" by (auto simp: pt_child_def Let_def split: if_splits)
    show ?thesis
    proof (cases ps)
      case Nil
      then have "kalloc s = Ok 0 s" using Suc.prems by (simp add: vm_rep_def kalloc_Nil)
      then have "walk_level (Suc l) pt va True s = Ok 0 s"
        using v by (simp add: load64_def kexec Let_def entry pte_valid_def)
      then show ?thesis using None Nil grown_refl [OF Suc.prems] by (intro exI [of _ 0] exI [of _ s] exI [of _ ps]) simp
    next
      case (Cons p qs)
      have k: "kmem_rep s (p # qs)" using Suc.prems Cons by (simp add: vm_rep_def)
      then have "p \<noteq> 0" by (intro ram_page_nonzero) (auto simp: kmem_rep_def)
      obtain s1 where s1: "kalloc s = Ok p s1" "kmem_rep s1 qs" "\<forall>a. \<not> in_page p a \<longrightarrow> phys s1 a = phys s a"
        using kalloc_Cons [OF k] by blast
      define s3 where "s3 = s1\<lparr>phys := write64 (pt + of_nat (8 * ?i)) (PA2PTE p OR PTE_V) (memset p 0 PGSIZE (phys s1))\<rparr>"
      note at = grown_attach [OF Suc.prems [unfolded Cons] i None s1(2) kalloc_frame [OF k s1(1)] s1(3), folded s3_def]
      obtain a s' ps' where w: "walk_level l p va True s3 = Ok a s'" "grown l p qs s3 ps' s'"
        "length qs \<le> length ps' + l"
        "case pt_leaf l (phys s') p va of None \<Rightarrow> a = 0 \<and> ps' = [] \<and> length qs < l | Some t \<Rightarrow> a = t + of_nat (8 * pidx 0 va)"
        using Suc.IH [OF at(3)] by blast
      have "vm_rep s3 (Suc l) pt qs" using at(1) by (simp add: grown_def)
      note g = grown_child [OF this i at(2) w(2)]
      have "walk_level (Suc l) pt va True s = Ok a s'"
        using v w(1) \<open>p \<noteq> 0\<close>
        by (simp add: load64_def store64_def upd_phys_def kexec Let_def entry pte_valid_def s1(1) s3_def pidx_def)
      then show ?thesis
        using grown_trans [OF at(1) g(1)] g(2) w(3,4) Cons
        by (intro exI [of _ a] exI [of _ s'] exI [of _ ps']) (auto split: option.splits)
    qed
  qed
qed

lemma walk_level_lookup:
  "walk_level l pt va False s =
     Ok (case pt_leaf l (phys s) pt va of None \<Rightarrow> 0 | Some t \<Rightarrow> t + of_nat (8 * pidx 0 va)) s"
  by (induction l arbitrary: pt)
    (auto simp: load64_def kexec pidx_def pt_child_def pt_entry_def pte_valid_def Let_def)


section \<open>Pages of the virtual address space\<close>

lemma bit_PX: "bit (PX j va) k \<longleftrightarrow> k < 9 \<and> bit va (12 + 9 * j + k)"
  by (auto simp: PX_def PXSHIFT_def mask_consts bit_simps ac_simps)

lemma bit_PGROUNDDOWN: "bit (PGROUNDDOWN va) k \<longleftrightarrow> 12 \<le> k \<and> bit va k"
proof -
  have m: "PGSIZE - 1 = (mask 12 :: uint64)" by (simp add: PGSIZE_def mask_eq_exp_minus_1)
  show ?thesis unfolding PGROUNDDOWN_def m
    using bit_imp_le_length [of va k] by (auto simp: bit_simps)
qed

lemma below_MAXVA_bits: "va < MAXVA \<Longrightarrow> 38 \<le> k \<Longrightarrow> \<not> bit va k"
proof -
  assume va: "va < MAXVA" and k: "38 \<le> k"
  have "unat va < 2 ^ 38" using va by (simp add: MAXVA_def word_less_nat_alt)
  also have "(2 :: nat) ^ 38 \<le> 2 ^ k" by (rule power_increasing [OF k]) simp
  finally have "\<not> bit (unat va) k" by (simp add: bit_iff_odd)
  moreover have "bit va k \<Longrightarrow> bit (unat va) k"
    using bit_imp_le_length [of va k] by (simp add: bit_unsigned_iff)
  ultimately show ?thesis by blast
qed

lemma same_idx_page:
  assumes "a < MAXVA" "va < MAXVA"
  shows "same_idx 2 a va \<longleftrightarrow> PGROUNDDOWN va = PGROUNDDOWN a"
proof
  assume r: "PGROUNDDOWN va = PGROUNDDOWN a"
  have "bit va k = bit a k" if "12 \<le> k" for k
    using that bit_PGROUNDDOWN [of va k] bit_PGROUNDDOWN [of a k] r by simp
  then have "PX j va = PX j a" for j by (intro bit_eqI) (simp add: bit_PX)
  then show "same_idx 2 a va" by (simp add: same_idx_def pidx_def)
next
  assume "same_idx 2 a va"
  then have px: "PX j va = PX j a" if "j \<le> 2" for j
    using that by (simp add: same_idx_def pidx_def word_unat_eq_iff)
  show "PGROUNDDOWN va = PGROUNDDOWN a"
  proof (rule bit_eqI)
    fix k
    have "bit va k = bit a k" if k: "12 \<le> k" "k < 38"
    proof -
      let ?j = "(k - 12) div 9" and ?r = "(k - 12) mod 9"
      have "?j \<le> 2" "12 + 9 * ?j + ?r = k" using k by auto
      then show ?thesis using px [of ?j] bit_PX [of ?j va ?r] bit_PX [of ?j a ?r] by simp
    qed
    moreover have "bit va k = bit a k" if "38 \<le> k" using assms below_MAXVA_bits that by blast
    ultimately show "bit (PGROUNDDOWN va) k = bit (PGROUNDDOWN a) k"
      using bit_PGROUNDDOWN by (cases "k < 38") auto
  qed
qed

lemma PGROUNDDOWN_aligned [simp]: "page_aligned a \<Longrightarrow> PGROUNDDOWN a = a"
  by (simp add: word_unat_eq_iff PGROUNDDOWN_unat page_aligned_nat div_mult_mod_eq mod_eq_0_iff_dvd)

section \<open>Lookups as a function of the virtual address\<close>

text \<open>What the range \<open>[a, a + k pages)\<close> maps to after \<open>mappages\<close>.\<close>

primrec map_range :: "nat \<Rightarrow> uint64 \<Rightarrow> uint64 \<Rightarrow> uint64 \<Rightarrow> (uint64 \<Rightarrow> uint64) \<Rightarrow> uint64 \<Rightarrow> uint64" where
  "map_range 0 a pa perm f = f"
| "map_range (Suc k) a pa perm f =
     map_range k (a + PGSIZE) (pa + PGSIZE) perm
       (\<lambda>va. if PGROUNDDOWN va = a then PA2PTE pa OR perm OR PTE_V else f va)"

definition mapped :: "uint64 \<Rightarrow> uint64 list \<Rightarrow> 'z kmem_scheme \<Rightarrow> uint64 list \<Rightarrow> 'z kmem_scheme \<Rightarrow>
    (uint64 \<Rightarrow> uint64) \<Rightarrow> bool" where
  "mapped pt ps s ps' s' g \<longleftrightarrow> vm_rep s' 2 pt ps' \<and> kmem_frame s s' \<and>
     (\<forall>va < MAXVA. pt_look 2 (phys s') pt va = g va) \<and>
     pt_pages 2 (phys s') pt \<union> set ps' = pt_pages 2 (phys s) pt \<union> set ps \<and>
     frame_on (pt_pages 2 (phys s) pt \<union> set ps) (phys s) (phys s')"

lemma grown_mapped: "grown 2 pt ps s ps' s' \<Longrightarrow> mapped pt ps s ps' s' (pt_look 2 (phys s) pt)"
  by (simp add: grown_def mapped_def)

lemma mapped_trans:
  "mapped pt ps s ps' s' g \<Longrightarrow> mapped pt ps' s' ps'' s'' h \<Longrightarrow> mapped pt ps s ps'' s'' h"
  unfolding mapped_def frame_on_def using kmem_frame_trans by metis

lemma mapped_write:
  fixes v :: uint64
  assumes "mapped pt ps s ps' s' g" "pt_leaf 2 (phys s') pt a = Some t" "a < MAXVA"
  defines "s'' \<equiv> s'\<lparr>phys := write64 (t + of_nat (8 * pidx 0 a)) v (phys s')\<rparr>"
  shows "mapped pt ps s ps' s'' (\<lambda>va. if PGROUNDDOWN va = PGROUNDDOWN a then v else g va)"
proof -
  have r: "pt_wf 2 (phys s') pt" "kmem_rep s' ps'" "pt_pages 2 (phys s') pt \<inter> set ps' = {}"
    "\<forall>p \<in> pt_pages 2 (phys s') pt. ram_page (kend s') p"
    using assms(1) by (simp_all add: mapped_def vm_rep_def)
  have t: "t \<in> pt_pages 2 (phys s') pt" using assms(2) by (rule pt_leaf_in_pages)
  have ph: "phys s'' = write64 (t + of_nat (8 * pidx 0 a)) v (phys s')" by (simp add: s''_def)
  note lw = leaf_write [OF r(1) assms(2), of v, folded ph]
  have fr: "frame_on {t} (phys s') (phys s'')"
    unfolding ph by (rule frame_on_write64 [OF pidx_less]) simp
  have "agree_on (set ps') (phys s') (phys s'')"
    by (rule frame_on_agree [OF fr]) (use t r pt_pages_aligned [OF r(1)] kmem_rep_aligned [OF r(2)] in auto)
  from kmem_rep_phys [OF r(2) this] have k: "kmem_rep s'' ps'" by (simp add: s''_def)
  have f: "kmem_frame s' s''" by (simp add: s''_def)
  have "frame_on (pt_pages 2 (phys s) pt \<union> set ps) (phys s) (phys s'')"
    using assms(1) fr t unfolding mapped_def frame_on_def by (metis UnCI singletonD)
  moreover have "kend s'' = kend s'" using kmem_frame_kend [OF f] .
  ultimately show ?thesis
    using assms(1,3) lw k r kmem_frame_trans [OF _ f] same_idx_page [OF assms(3)]
    unfolding mapped_def vm_rep_def by simp
qed

lemma leaf_slot_nonzero:
  assumes "vm_rep s l pt ps" "pt_leaf l (phys s) pt va = Some t"
  shows "t + of_nat (8 * pidx 0 va) \<noteq> 0"
proof -
  have "t \<in> pt_pages l (phys s) pt" using assms(2) by (rule pt_leaf_in_pages)
  then have "ram_page (kend s) t" "0 < kend s" using assms(1) by (auto simp: vm_rep_def kmem_rep_def)
  then have "page_aligned t" "t \<noteq> 0" using ram_page_nonzero ram_page_aligned by blast+
  then have "unat t + 8 * pidx 0 va < 2 ^ 64"
    using page_no_overflow [of t] pidx_less [of 0 va] by simp
  then have "unat (t + of_nat (8 * pidx 0 va)) = unat t + 8 * pidx 0 va"
    by (simp add: unat_word_ariths unat_of_nat del: of_nat_mult)
  then show ?thesis using \<open>t \<noteq> 0\<close> by (metis add_is_0 unat_eq_zero)
qed

lemma walk_alloc:
  assumes "vm_rep s 2 pt ps" "va < MAXVA"
  shows "\<exists>a s' ps'. walk pt va True s = Ok a s' \<and> grown 2 pt ps s ps' s' \<and>
    length ps \<le> length ps' + 2 \<and>
    (case pt_leaf 2 (phys s') pt va of None \<Rightarrow> a = 0 \<and> ps' = [] \<and> length ps < 2
     | Some t \<Rightarrow> a = t + of_nat (8 * pidx 0 va) \<and> a \<noteq> 0)"
proof -
  obtain a s' ps' where w: "walk_level 2 pt va True s = Ok a s'" "grown 2 pt ps s ps' s'" "length ps \<le> length ps' + 2"
    "case pt_leaf 2 (phys s') pt va of None \<Rightarrow> a = 0 \<and> ps' = [] \<and> length ps < 2 | Some t \<Rightarrow> a = t + of_nat (8 * pidx 0 va)"
    using walk_level_alloc [OF assms(1), of va] by blast
  have "vm_rep s' 2 pt ps'" using w(2) by (simp add: grown_def)
  then show ?thesis using w assms(2) leaf_slot_nonzero [of s' 2 pt ps' va] unfolding walk_def
    by (intro exI [of _ a] exI [of _ s'] exI [of _ ps']) (auto simp: not_le simp del: of_nat_mult split: option.splits)
qed


lemma mapped_cong:
  "mapped pt ps s ps' s' g \<Longrightarrow> (\<And>va. va < MAXVA \<Longrightarrow> g va = h va) \<Longrightarrow> mapped pt ps s ps' s' h"
  by (simp add: mapped_def)

lemma map_range_cong: "f va = g va \<Longrightarrow> map_range k a pa perm f va = map_range k a pa perm g va"
proof (induction k arbitrary: a pa f g)
  case (Suc k)
  show ?case unfolding map_range.simps by (rule Suc.IH) (use Suc.prems in simp)
qed simp

lemma page_offset_unat:
  assumes "unat (a :: uint64) + 4096 * i < 2 ^ 64"
  shows "unat (a + of_nat (4096 * i)) = unat a + 4096 * i"
  using assms by (simp add: unat_word_ariths unat_of_nat del: of_nat_mult)

lemma page_offset_aligned:
  assumes "page_aligned a" "unat a + 4096 * i < 2 ^ 64"
  shows "page_aligned (a + of_nat (4096 * i))"
  using assms unfolding page_aligned_nat page_offset_unat [OF assms(2)] by simp

lemma mappages_loop_step:
  assumes rep: "vm_rep s 2 pt ps" and a: "a < MAXVA" and free: "\<not> pte_valid (pt_look 2 (phys s) pt a)"
  obtains (full) s' where "mappages_loop (Suc n) pt a la pa perm s = Ok (-1) s'"
      "mapped pt ps s [] s' (pt_look 2 (phys s) pt)" "length ps < 2"
    | (mapped) s' ps' where "mappages_loop (Suc n) pt a la pa perm s =
        (if a = la then Ok 0 s' else mappages_loop n pt (a + PGSIZE) la (pa + PGSIZE) perm s')"
      "mapped pt ps s ps' s' (\<lambda>va. if PGROUNDDOWN va = PGROUNDDOWN a then PA2PTE pa OR perm OR PTE_V
         else pt_look 2 (phys s) pt va)" "length ps \<le> length ps' + 2"
proof -
  obtain x s1 ps1 where w: "walk pt a True s = Ok x s1" "grown 2 pt ps s ps1 s1"
    and len: "length ps \<le> length ps1 + 2"
    and c: "case pt_leaf 2 (phys s1) pt a of None \<Rightarrow> x = 0 \<and> ps1 = [] \<and> length ps < 2
       | Some t \<Rightarrow> x = t + of_nat (8 * pidx 0 a) \<and> x \<noteq> 0"
    using walk_alloc [OF rep a] by blast
  note m = grown_mapped [OF w(2)]
  show thesis
  proof (cases "pt_leaf 2 (phys s1) pt a")
    case None
    then show thesis using c w(1) m by (intro full [of s1]) (simp_all add: kexec)
  next
    case (Some t)
    then have x: "x = t + of_nat (8 * pidx 0 a)" "x \<noteq> 0" using c by auto
    have "read64 (phys s1) x = pt_look 2 (phys s1) pt a"
      using Some x(1) by (simp add: pt_look_def pt_entry_def)
    also have "\<dots> = pt_look 2 (phys s) pt a" using w(2) by (simp add: grown_def)
    finally have v: "read64 (phys s1) x AND PTE_V = 0" using free by (simp add: pte_valid_def)
    show thesis
      using w(1) x v len mapped_write [OF m Some a, of "PA2PTE pa OR perm OR PTE_V"]
      by (intro mapped [of "s1\<lparr>phys := write64 x (PA2PTE pa OR perm OR PTE_V) (phys s1)\<rparr>" ps1])
        (simp_all add: kexec load64_def store64_def upd_phys_def)
  qed
qed

lemma mappages_loop_mapped:
  assumes "vm_rep s 2 pt ps" "page_aligned a" "unat a + 4096 * Suc n \<le> 2 ^ 38"
    and "\<And>i. i \<le> n \<Longrightarrow> \<not> pte_valid (pt_look 2 (phys s) pt (a + of_nat (4096 * i)))"
  shows "\<exists>k s' ps' r. mappages_loop (Suc n) pt a (a + of_nat (4096 * n)) pa perm s = Ok r s' \<and>
    mapped pt ps s ps' s' (map_range k a pa perm (pt_look 2 (phys s) pt)) \<and>
    (r = 0 \<and> k = Suc n \<and> length ps \<le> length ps' + 2 * k \<or> r = -1 \<and> k \<le> n \<and> ps' = [] \<and> length ps < 2 * k + 2)"
  using assms
proof (induction n arbitrary: s ps a pa)
  case 0
  have a: "a < MAXVA" using 0 by (simp add: MAXVA_def word_less_nat_alt)
  have "\<not> pte_valid (pt_look 2 (phys s) pt a)" using 0(4) [of 0] by simp
  from 0(1) a this show ?case
  proof (cases rule: mappages_loop_step [where n = 0 and la = a and pa = pa and perm = perm])
    case (full s')
    then show ?thesis by (intro exI [of _ 0] exI [of _ s'] exI [of _ "[]"] exI [of _ "-1"]) simp
  next
    case (mapped s' ps')
    then show ?thesis using 0(2) by (intro exI [of _ 1] exI [of _ s'] exI [of _ ps'] exI [of _ 0]) simp
  qed
next
  case (Suc n)
  let ?la = "a + of_nat (4096 * Suc n)" and ?f = "pt_look 2 (phys s) pt"
  have a: "a < MAXVA" using Suc.prems(3) by (simp add: MAXVA_def word_less_nat_alt)
  have off: "unat (a + of_nat (4096 * i)) = unat a + 4096 * i" if "i \<le> Suc n" for i
    using Suc.prems(3) that by (intro page_offset_unat) simp
  have a1: "a + PGSIZE = a + of_nat (4096 * 1)" by (simp add: PGSIZE_def)
  have al: "page_aligned (a + of_nat (4096 * i))" if "i \<le> Suc n" for i
    using off [OF that] Suc.prems(2) by (simp add: page_aligned_nat del: of_nat_mult)
  have ne: "a \<noteq> ?la" using off [of "Suc n"] by (metis add_cancel_left_right le_refl mult_is_0 nat.distinct(1) zero_neq_numeral)
  have "\<not> pte_valid (?f a)" using Suc.prems(4) [of 0] by simp
  from Suc.prems(1) a this show ?case
  proof (cases rule: mappages_loop_step [where n = "Suc n" and la = ?la and pa = pa and perm = perm])
    case (full s')
    then show ?thesis by (intro exI [of _ 0] exI [of _ s'] exI [of _ "[]"] exI [of _ "-1"]) simp
  next
    case (mapped s1 ps1)
    let ?g = "\<lambda>va. if PGROUNDDOWN va = a then PA2PTE pa OR perm OR PTE_V else ?f va"
    have m: "mapped pt ps s ps1 s1 ?g" using mapped(2) Suc.prems(2) by simp
    then have lk: "pt_look 2 (phys s1) pt va = ?g va" if "va < MAXVA" for va
      using that by (simp add: mapped_def)
    have "\<not> pte_valid (pt_look 2 (phys s1) pt (a + PGSIZE + of_nat (4096 * i)))" if "i \<le> n" for i
    proof -
      have e: "a + PGSIZE + of_nat (4096 * i) = a + of_nat (4096 * Suc i)" by (simp add: PGSIZE_def)
      have u: "unat (a + of_nat (4096 * Suc i)) = unat a + 4096 * Suc i" using that by (intro off) simp
      then have "a + of_nat (4096 * Suc i) < MAXVA" "a + of_nat (4096 * Suc i) \<noteq> a"
        using Suc.prems(3) that by (simp_all add: MAXVA_def word_less_nat_alt del: of_nat_mult) auto
      then show ?thesis unfolding e using lk al [of "Suc i"] Suc.prems(4) [of "Suc i"] that by simp
    qed
    moreover have "page_aligned (a + PGSIZE)" "unat (a + PGSIZE) + 4096 * Suc n \<le> 2 ^ 38"
      using al [of 1] off [of 1] Suc.prems(3) unfolding a1 by simp_all
    moreover have "vm_rep s1 2 pt ps1" using m by (simp add: mapped_def)
    ultimately obtain k s' ps' r where IH:
      "mappages_loop (Suc n) pt (a + PGSIZE) (a + PGSIZE + of_nat (4096 * n)) (pa + PGSIZE) perm s1 = Ok r s'"
      "mapped pt ps1 s1 ps' s' (map_range k (a + PGSIZE) (pa + PGSIZE) perm (pt_look 2 (phys s1) pt))"
      "r = 0 \<and> k = Suc n \<and> length ps1 \<le> length ps' + 2 * k \<or> r = -1 \<and> k \<le> n \<and> ps' = [] \<and> length ps1 < 2 * k + 2"
      using Suc.IH [of s1 ps1 "a + PGSIZE" "pa + PGSIZE"] by blast
    have "mapped pt ps s ps' s' (map_range (Suc k) a pa perm ?f)"
      by (rule mapped_cong [OF mapped_trans [OF m IH(2)]]) (simp, rule map_range_cong, simp add: lk)
    moreover have la: "a + PGSIZE + of_nat (4096 * n) = ?la" by (simp add: PGSIZE_def)
    have "mappages_loop (Suc (Suc n)) pt a ?la pa perm s = Ok r s'"
      unfolding mapped(1) if_not_P [OF ne] using IH(1) unfolding la .
    moreover have "r = 0 \<and> Suc k = Suc (Suc n) \<and> length ps \<le> length ps' + 2 * Suc k \<or> r = -1 \<and> Suc k \<le> Suc n \<and> ps' = [] \<and> length ps < 2 * Suc k + 2"
      using IH(3) mapped(3) by auto
    ultimately show ?thesis by blast
  qed
qed

lemma mappages_mapped:
  assumes "vm_rep s 2 pt ps" "page_aligned a" "0 < n" "unat a + 4096 * n \<le> 2 ^ 38"
    and "\<And>i. i < n \<Longrightarrow> \<not> pte_valid (pt_look 2 (phys s) pt (a + of_nat (4096 * i)))"
  shows "\<exists>k s' ps' r. mappages pt a (of_nat (4096 * n)) pa perm s = Ok r s' \<and>
    mapped pt ps s ps' s' (map_range k a pa perm (pt_look 2 (phys s) pt)) \<and>
    (r = 0 \<and> k = n \<or> r = -1 \<and> k < n \<and> ps' = [] \<and> length ps < 2 * n)"
proof -
  obtain j where j: "n = Suc j" using assms(3) by (cases n) auto
  have u: "unat (of_nat (4096 * n) :: uint64) = 4096 * n"
    using assms(4) by (simp add: unat_of_nat del: of_nat_mult)
  have sz: "(of_nat (4096 * n) :: uint64) mod PGSIZE = 0" "(of_nat (4096 * n) :: uint64) \<noteq> 0"
    "unat (of_nat (4096 * n) :: uint64) div 4096 = n"
    using u assms(3) unfolding page_aligned_def [symmetric] page_aligned_nat
    by (simp_all add: word_unat_eq_iff del: of_nat_mult)
  have la: "a + of_nat (4096 * n) - PGSIZE = a + of_nat (4096 * j)" by (simp add: j PGSIZE_def)
  have "mappages pt a (of_nat (4096 * n)) pa perm s =
      mappages_loop (Suc j) pt a (a + of_nat (4096 * j)) pa perm s"
    unfolding mappages_def la sz(3) using sz assms(2) j by (simp add: page_aligned_def del: of_nat_mult mappages_loop.simps)
  moreover have "\<not> pte_valid (pt_look 2 (phys s) pt (a + of_nat (4096 * i)))" if "i \<le> j" for i
    using assms(5) that j by simp
  ultimately show ?thesis
    using mappages_loop_mapped [OF assms(1,2), of j pa perm] assms(4) j by (fastforce simp: less_Suc_eq_le)
qed

section \<open>Properties\<close>

text \<open>
  C5: \<open>mappages\<close> on an unmapped, page-aligned range below \<open>MAXVA\<close> never panics.  It returns 0
  and then exactly the pages of the range translate to the consecutive physical pages from \<open>pa\<close>
  with the given permissions, or it returns -1 because the allocator ran dry, with a proper
  prefix of the range mapped; every other virtual page keeps its entry, the table stays a tree,
  and no memory outside the table and the free list changes.  Two free pages per mapped page
  are always enough for it to succeed.
\<close>

theorem mappages_maps_range:
  assumes "vm_rep s 2 pt ps" "page_aligned va" "unat sz = 4096 * n" "0 < n" "unat va + unat sz \<le> 2 ^ 38"
    and "\<forall>i < n. \<not> pte_valid (pt_look 2 (phys s) pt (va + of_nat (4096 * i)))"
  shows "\<exists>k s' ps' r. mappages pt va sz pa perm s = Ok r s' \<and>
    mapped pt ps s ps' s' (map_range k va pa perm (pt_look 2 (phys s) pt)) \<and>
    (r = 0 \<and> k = n \<or> r = -1 \<and> k < n \<and> ps' = [] \<and> length ps < 2 * n)"
proof -
  have "(of_nat (4096 * n) :: uint64) = of_nat (unat sz)" by (simp only: assms(3))
  then have "of_nat (4096 * n) = sz" by simp
  then show ?thesis using mappages_mapped [OF assms(1,2,4), of pa perm] assms(3,5,6) by simp
qed

definition empty_table :: kmem where
  "empty_table = two_pages"

lemma empty_table_zero: "in_page 0x87ffd000 a \<Longrightarrow> phys empty_table a = 0"
proof -
  assume a: "in_page 0x87ffd000 a"
  have "\<not> in_page 0x87fff000 a"
    using in_page_unique [of "0x87fff000" "0x87ffd000" a] a by (auto simp: page_aligned_def PGSIZE_def)
  then show ?thesis
    using write64_outside [of 0 "0x87fff000" a] by (simp add: empty_table_def two_pages_def)
qed

lemma empty_table_rep: "vm_rep empty_table 2 0x87ffd000 [0x87fff000, 0x87ffe000]"
proof -
  have z: "\<forall>a. in_page 0x87ffd000 a \<longrightarrow> phys empty_table a = 0" using empty_table_zero by blast
  have "ram_page (kend empty_table) 0x87ffd000"
    by (simp add: empty_table_def two_pages_def boot_kmem_def ram_page_def page_aligned_def PGSIZE_def
        PHYSTOP_def KERNBASE_def)
  then show ?thesis
    using two_pages_rep zero_page_tree(2) [OF z, of 2] zero_page_tree(1) [OF z, of 2]
    by (simp add: vm_rep_def empty_table_def [symmetric] ram_page_aligned)
qed

lemma empty_table_look: "pt_look 2 (phys empty_table) 0x87ffd000 va = 0"
  using zero_page_tree(3) [of "0x87ffd000" "phys empty_table"] empty_table_zero by blast

theorem mappages_maps_range_witness:
  "\<exists>s' ps'. mappages 0x87ffd000 0x1000 PGSIZE 0x87000000 (PTE_R OR PTE_U) empty_table = Ok 0 s' \<and>
     vm_rep s' 2 0x87ffd000 ps' \<and>
     pt_look 2 (phys s') 0x87ffd000 0x1234 = PA2PTE 0x87000000 OR (PTE_R OR PTE_U) OR PTE_V"
proof -
  have h: "page_aligned 0x1000" "unat (PGSIZE :: uint64) = 4096 * 1" "(0 :: nat) < 1"
    "unat (0x1000 :: uint64) + unat (PGSIZE :: uint64) \<le> 2 ^ 38"
    "\<forall>i < 1. \<not> pte_valid (pt_look 2 (phys empty_table) 0x87ffd000 (0x1000 + of_nat (4096 * i)))"
    by (simp_all add: page_aligned_def PGSIZE_def empty_table_look pte_valid_def)
  from mappages_maps_range [OF empty_table_rep h, of "0x87000000" "PTE_R OR PTE_U"]
  obtain s' ps' where m: "mappages 0x87ffd000 0x1000 PGSIZE 0x87000000 (PTE_R OR PTE_U) empty_table = Ok 0 s'"
    "mapped 0x87ffd000 [0x87fff000, 0x87ffe000] empty_table ps' s'
      (map_range 1 0x1000 0x87000000 (PTE_R OR PTE_U) (pt_look 2 (phys empty_table) 0x87ffd000))"
    by auto
  have "PGROUNDDOWN 0x1234 = 0x1000" "(0x1234 :: uint64) < MAXVA"
    by (simp_all add: PGROUNDDOWN_def PGSIZE_def MAXVA_def)
  then show ?thesis using m by (auto simp: mapped_def)
qed

end
