(* ===== verification/Xv6_Usercopy.thy ===== *)
theory Xv6_Usercopy
  imports Xv6_Pagetable
begin

unbundle bit_operations_syntax

text \<open>
  Copies between the kernel and user memory (\<open>walkaddr\<close>, \<open>copyin\<close>, \<open>copyout\<close> of \<open>vm.c\<close>)
  against the address space the page table describes: \<open>udata\<close> gives the byte at each mapped
  user address.  \<open>copyout\<close> writes the longest writable prefix of its range, \<open>copyin\<close> reads the
  longest readable one, both page by page, and a range that was written reads back.
\<close>

section \<open>Address translation\<close>

lemma walk_lookup:
  assumes "va < MAXVA"
  shows "walk pt va False s =
     Ok (case pt_leaf 2 (phys s) pt va of None \<Rightarrow> 0 | Some t \<Rightarrow> t + of_nat (8 * pidx 0 va)) s"
  using assms by (simp add: walk_def walk_level_lookup)


lemma walk_look:
  assumes "vm_rep s 2 pt ps" "va < MAXVA"
  shows "\<exists>x. walk pt va False s = Ok x s \<and> (x = 0 \<longrightarrow> pt_look 2 (phys s) pt va = 0) \<and>
    (x \<noteq> 0 \<longrightarrow> read64 (phys s) x = pt_look 2 (phys s) pt va)"
  using leaf_slot_nonzero [OF assms(1), of va] assms(2)
  by (auto simp: walk_lookup pt_look_def pt_entry_def simp del: of_nat_mult split: option.split)

lemma pt_look_page:
  assumes "PGROUNDDOWN va = PGROUNDDOWN va'"
  shows "pt_look l m pt va = pt_look l m pt va'"
proof -
  have "bit va k = bit va' k" if "12 \<le> k" for k
    using that bit_PGROUNDDOWN [of va k] bit_PGROUNDDOWN [of va' k] assms by simp
  then have "PX j va = PX j va'" for j by (intro bit_eqI) (simp add: bit_PX)
  then have p: "pidx j va = pidx j va'" for j by (simp add: pidx_def)
  show ?thesis by (induction l arbitrary: pt) (simp_all add: p split: option.split)
qed

definition user_pte :: "uint64 \<Rightarrow> bool" where
  "user_pte v \<longleftrightarrow> v AND PTE_V \<noteq> 0 \<and> v AND PTE_U \<noteq> 0"

definition upte :: "'z kmem_scheme \<Rightarrow> uint64 \<Rightarrow> uint64 \<Rightarrow> uint64" where
  "upte s pt va = (if va < MAXVA then pt_look 2 (phys s) pt va else 0)"

text \<open>The user address space as the hardware would see it: a byte per mapped user address.\<close>

definition udata :: "'z kmem_scheme \<Rightarrow> uint64 \<Rightarrow> uint64 \<Rightarrow> byte option" where
  "udata s pt va = (if user_pte (upte s pt va)
     then Some (phys s (PTE2PA (upte s pt va) + (va - PGROUNDDOWN va))) else None)"

definition uwritable :: "'z kmem_scheme \<Rightarrow> uint64 \<Rightarrow> uint64 \<Rightarrow> bool" where
  "uwritable s pt va \<longleftrightarrow> user_pte (upte s pt va) \<and> upte s pt va AND PTE_W \<noteq> 0"

text \<open>
  The pages of user memory are neither page-table pages nor free, not at address 0, and no two
  virtual pages share one.
\<close>

definition user_sep :: "'z kmem_scheme \<Rightarrow> uint64 \<Rightarrow> uint64 list \<Rightarrow> bool" where
  "user_sep s pt ps \<longleftrightarrow>
     (\<forall>va. user_pte (upte s pt va) \<longrightarrow> PTE2PA (upte s pt va) \<noteq> 0 \<and>
        PTE2PA (upte s pt va) \<notin> pt_pages 2 (phys s) pt \<union> set ps) \<and>
     (\<forall>va va'. user_pte (upte s pt va) \<longrightarrow> user_pte (upte s pt va') \<longrightarrow>
        PTE2PA (upte s pt va) = PTE2PA (upte s pt va') \<longrightarrow> PGROUNDDOWN va = PGROUNDDOWN va')"

lemma user_pte_0 [simp]: "\<not> user_pte 0"
  by (simp add: user_pte_def)

lemma PGROUNDDOWN_MAXVA: "PGROUNDDOWN va < MAXVA \<longleftrightarrow> va < MAXVA"
proof -
  have e: "unat va div 4096 * 4096 + unat va mod 4096 = unat va" "unat va mod 4096 < 4096" by simp_all
  have "unat va div 4096 * 4096 < 274877906944 \<longleftrightarrow> unat va < 274877906944"
  proof
    assume "unat va div 4096 * 4096 < 274877906944"
    then have "unat va div 4096 < 67108864" by simp
    then show "unat va < 274877906944" using e by linarith
  qed (use e in linarith)
  then show ?thesis by (simp add: MAXVA_def word_less_nat_alt PGROUNDDOWN_unat)
qed

lemma upte_page: "PGROUNDDOWN va = PGROUNDDOWN va' \<Longrightarrow> upte s pt va = upte s pt va'"
  unfolding upte_def using pt_look_page PGROUNDDOWN_MAXVA by metis

lemma PTE2PA_aligned [simp]: "page_aligned (PTE2PA v)"
proof -
  have "take_bit 12 (PTE2PA v) = 0" by (simp add: PTE2PA_def take_bit_push_bit)
  then show ?thesis by (simp add: page_aligned_def PGSIZE_def take_bit_eq_mod)
qed

lemma page_off: "unat (va - PGROUNDDOWN va) = unat va mod 4096"
proof -
  have "PGROUNDDOWN va \<le> va" by (simp add: word_le_nat_alt PGROUNDDOWN_unat)
  then show ?thesis
    by (simp add: unat_sub PGROUNDDOWN_unat minus_div_mult_eq_mod)
qed

lemma in_page_off [simp]: "in_page p (p + (va - PGROUNDDOWN va))"
  by (simp add: in_page_def page_off)

text \<open>Addresses near \<open>va\<close> in its page.\<close>

lemma same_page_near:
  assumes "unat (x - va) < 4096 - unat va mod 4096"
  shows "PGROUNDDOWN x = PGROUNDDOWN va" "x - PGROUNDDOWN x = (va - PGROUNDDOWN va) + (x - va)"
proof -
  have lt: "unat va < 2 ^ 64" using unsigned_less [of va, where ?'a = nat] by simp
  have e: "unat va = unat va div 4096 * 4096 + unat va mod 4096" by simp
  have "unat va div 4096 < 4503599627370496" using lt by (simp add: div_less_iff_less_mult)
  then have "unat va + unat (x - va) < 18446744073709551616" using e assms by linarith
  then have "unat (va + (x - va)) = unat va + unat (x - va)" by (subst unat_word_ariths) simp
  then have u: "unat x = unat va + unat (x - va)" by simp
  have "unat x = unat va div 4096 * 4096 + (unat va mod 4096 + unat (x - va))" using e u by linarith
  moreover have "unat va mod 4096 + unat (x - va) < 4096" using assms by linarith
  ultimately have "unat x div 4096 = unat va div 4096" by (metis add.commute div_mult_self3 div_less add.right_neutral add_cancel_right_right zero_neq_numeral)
  then show "PGROUNDDOWN x = PGROUNDDOWN va" by (simp add: word_unat_eq_iff PGROUNDDOWN_unat)
  then show "x - PGROUNDDOWN x = (va - PGROUNDDOWN va) + (x - va)" by simp
qed

lemma same_page_near_iff:
  assumes "PGROUNDDOWN x = PGROUNDDOWN va" "n \<le> 4096 - unat va mod 4096"
  shows "unat (x - va) < n \<longleftrightarrow> unat ((x - PGROUNDDOWN x) - (va - PGROUNDDOWN va)) < n"
  using assms(1) by simp


lemma walkaddr_eq:
  assumes "vm_rep s 2 pt ps"
  shows "walkaddr pt va s = Ok (if user_pte (upte s pt va) then PTE2PA (upte s pt va) else 0) s"
proof (cases "va < MAXVA")
  case True
  from walk_look [OF assms True] obtain x where "walk pt va False s = Ok x s"
    "x = 0 \<longrightarrow> pt_look 2 (phys s) pt va = 0" "x \<noteq> 0 \<longrightarrow> read64 (phys s) x = pt_look 2 (phys s) pt va" by blast
  then show ?thesis using True
    by (auto simp: walkaddr_def kexec load64_def upte_def user_pte_def)
next
  case False
  then show ?thesis by (auto simp: walkaddr_def upte_def not_less)
qed

lemma udata_page_cong:
  assumes "upte s' pt = upte s pt" "user_pte (upte s pt va) \<Longrightarrow> phys s' (PTE2PA (upte s pt va) + (va - PGROUNDDOWN va)) =
     phys s (PTE2PA (upte s pt va) + (va - PGROUNDDOWN va))"
  shows "udata s' pt va = udata s pt va"
  using assms by (simp add: udata_def)

lemma unat_add_le: "unat (a + b :: uint64) \<le> unat a + unat b"
  by (simp add: unat_word_ariths)

lemma user_store:
  assumes rep: "vm_rep s 2 pt ps" and sep: "user_sep s pt ps" and u: "user_pte (upte s pt va)"
    and n: "length bs \<le> 4096 - unat va mod 4096"
  defines "s' \<equiv> s\<lparr>phys := mem_store (PTE2PA (upte s pt va) + (va - PGROUNDDOWN va)) bs (phys s)\<rparr>"
  shows "vm_rep s' 2 pt ps" "upte s' pt = upte s pt" "user_sep s' pt ps"
    "udata s' pt x = (if unat (x - va) < length bs then Some (bs ! unat (x - va)) else udata s pt x)"
proof -
  let ?p = "PTE2PA (upte s pt va)" and ?o = "va - PGROUNDDOWN va"
  have ph: "phys s' = mem_store (?p + ?o) bs (phys s)" by (simp add: s'_def)
  have p: "?p \<notin> pt_pages 2 (phys s) pt \<union> set ps" using sep u by (auto simp: user_sep_def)
  have inp: "in_page ?p y" if "unat (y - (?p + ?o)) < length bs" for y
  proof -
    have e: "(y - (?p + ?o)) + ?o = y - ?p" by simp
    have "unat (y - ?p) \<le> unat (y - (?p + ?o)) + unat ?o"
      using unat_add_le [of "y - (?p + ?o)" ?o] unfolding e .
    also have "\<dots> < 4096" using that n unfolding page_off by linarith
    finally show ?thesis unfolding in_page_def .
  qed
  have fr: "frame_on {?p} (phys s) (phys s')"
    unfolding frame_on_def ph using inp by (auto simp: mem_store_def)
  have al: "\<forall>q \<in> pt_pages 2 (phys s) pt \<union> set ps. page_aligned q"
    using rep pt_pages_aligned kmem_rep_aligned unfolding vm_rep_def by blast
  have ag: "agree_on (pt_pages 2 (phys s) pt \<union> set ps) (phys s) (phys s')"
    by (rule frame_on_agree [OF fr]) (use al p in auto)
  note t = pt_frame [OF agree_on_mono [OF ag Un_upper1]]
  have k: "kmem_rep s' ps"
    using kmem_rep_phys [OF _ agree_on_mono [OF ag Un_upper2]] rep by (simp add: vm_rep_def s'_def ph)
  have ke: "kend s' = kend s" by (simp add: s'_def)
  show "vm_rep s' 2 pt ps" using rep t k by (simp add: vm_rep_def ke)
  show up: "upte s' pt = upte s pt" using t by (auto simp: upte_def)
  have pg: "pt_pages 2 (phys s') pt = pt_pages 2 (phys s) pt" using t by blast
  show "user_sep s' pt ps" using sep unfolding user_sep_def up pg .
  show "udata s' pt x = (if unat (x - va) < length bs then Some (bs ! unat (x - va)) else udata s pt x)"
  proof (cases "PGROUNDDOWN x = PGROUNDDOWN va")
    case True
    then have "upte s pt x = upte s pt va" by (rule upte_page)
    moreover have "?p + (x - PGROUNDDOWN x) - (?p + ?o) = x - va" using True by simp
    ultimately show ?thesis using u unfolding udata_def up ph mem_store_def by simp
  next
    case False
    then have "\<not> unat (x - va) < length bs" using same_page_near(1) [of x va] n by fastforce
    moreover have "udata s' pt x = udata s pt x"
    proof (rule udata_page_cong [OF up])
      assume ux: "user_pte (upte s pt x)"
      then have "?p \<noteq> PTE2PA (upte s pt x)" using sep u False unfolding user_sep_def by metis
      then have "\<not> in_page ?p (PTE2PA (upte s pt x) + (x - PGROUNDDOWN x))"
        using in_page_unique [OF PTE2PA_aligned PTE2PA_aligned _ in_page_off] by blast
      then show "phys s' (PTE2PA (upte s pt x) + (x - PGROUNDDOWN x)) =
        phys s (PTE2PA (upte s pt x) + (x - PGROUNDDOWN x))"
        using fr by (simp add: frame_on_def)
    qed
    ultimately show ?thesis by simp
  qed
qed

text \<open>The part of a copy that falls in the page of \<open>va\<close>.\<close>

lemma chunk_end:
  assumes "va < MAXVA"
  shows "unat (PGSIZE - (va - PGROUNDDOWN va)) = 4096 - unat va mod 4096"
    "PGROUNDDOWN va + PGSIZE = va + of_nat (4096 - unat va mod 4096)"
proof -
  have o: "unat (va - PGROUNDDOWN va) = unat va mod 4096" by (rule page_off)
  have m: "unat va mod 4096 < 4096" by simp
  have le: "va - PGROUNDDOWN va \<le> PGSIZE" using m by (simp add: word_le_nat_alt o PGSIZE_def del: page_off)
  show e: "unat (PGSIZE - (va - PGROUNDDOWN va)) = 4096 - unat va mod 4096"
    using unat_sub [OF le] o by (simp add: PGSIZE_def)
  have "of_nat (unat (PGSIZE - (va - PGROUNDDOWN va))) = PGSIZE - (va - PGROUNDDOWN va)" by simp
  then have "of_nat (4096 - unat va mod 4096) = PGSIZE - (va - PGROUNDDOWN va)"
    unfolding e .
  then show "PGROUNDDOWN va + PGSIZE = va + of_nat (4096 - unat va mod 4096)" by simp
qed

lemma off_unat:
  assumes "unat va + i < 2 ^ 64"
  shows "unat (va + of_nat i - va :: uint64) = i"
  using assms by (simp add: unat_of_nat)


lemma PGROUNDDOWN_idem [simp]: "PGROUNDDOWN (PGROUNDDOWN va) = PGROUNDDOWN va"
  by simp

lemma unat_shift:
  assumes "n + k < 2 ^ 64"
  shows "unat (x - (va + of_nat n) :: uint64) < k \<longleftrightarrow> n \<le> unat (x - va) \<and> unat (x - va) < n + k"
    and "n \<le> unat (x - va) \<Longrightarrow> unat (x - (va + of_nat n)) = unat (x - va) - n"
proof -
  let ?d = "x - va"
  have e: "x - (va + of_nat n) = ?d - of_nat n" by simp
  have n: "unat (of_nat n :: uint64) = n" using assms by (simp add: unat_of_nat)
  have s: "unat (?d - of_nat n) = (if n \<le> unat ?d then unat ?d - n else unat ?d + 2 ^ 64 - n)"
    by (simp add: unat_sub_if' n)
  show "unat (x - (va + of_nat n) :: uint64) < k \<longleftrightarrow> n \<le> unat ?d \<and> unat ?d < n + k"
    unfolding e s using assms by auto
  show "n \<le> unat ?d \<Longrightarrow> unat (x - (va + of_nat n)) = unat ?d - n" unfolding e s by simp
qed

lemma copyout_chunk:
  fixes s :: "'z kmem_scheme"
  assumes "vm_rep s 2 pt ps" "src \<noteq> []"
  shows "copyout_loop (Suc fuel) pt dst src s =
    (if uwritable s pt dst then
       let n = min (4096 - unat dst mod 4096) (length src) in
       copyout_loop fuel pt (dst + of_nat (4096 - unat dst mod 4096)) (drop n src)
         (s\<lparr>phys := mem_store (PTE2PA (upte s pt dst) + (dst - PGROUNDDOWN dst)) (take n src) (phys s)\<rparr>)
     else Ok (-1) s)"
proof (cases "dst < MAXVA")
  case True
  then have va0: "PGROUNDDOWN dst < MAXVA" by (simp add: PGROUNDDOWN_MAXVA)
  from walk_look [OF assms(1) va0] obtain x where x: "walk pt (PGROUNDDOWN dst) False s = Ok x s"
    "x = 0 \<longrightarrow> pt_look 2 (phys s) pt (PGROUNDDOWN dst) = 0"
    "x \<noteq> 0 \<longrightarrow> read64 (phys s) x = pt_look 2 (phys s) pt (PGROUNDDOWN dst)" by blast
  have u: "upte s pt dst = pt_look 2 (phys s) pt (PGROUNDDOWN dst)"
    using upte_page [of dst "PGROUNDDOWN dst" s pt] va0 by (simp add: upte_def)
  show ?thesis
  proof (cases "x = 0")
    case True
    then show ?thesis using x va0 assms(2) u by (simp add: kexec Let_def uwritable_def)
  next
    case False
    then show ?thesis
      using x va0 assms(2) u chunk_end [OF \<open>dst < MAXVA\<close>]
      by (simp add: kexec Let_def uwritable_def user_pte_def load64_def upd_phys_def not_le [symmetric])
  qed
next
  case False
  then have "\<not> uwritable s pt dst" by (simp add: uwritable_def upte_def)
  moreover have "MAXVA \<le> PGROUNDDOWN dst" using False PGROUNDDOWN_MAXVA [of dst] by simp
  ultimately show ?thesis using assms(2) by (simp add: Let_def)
qed

definition copied :: "nat \<Rightarrow> uint64 \<Rightarrow> byte list \<Rightarrow> uint64 \<Rightarrow> uint64 list \<Rightarrow> 'z kmem_scheme \<Rightarrow> 'z kmem_scheme \<Rightarrow> bool" where
  "copied k dst src pt ps s s' \<longleftrightarrow> vm_rep s' 2 pt ps \<and> user_sep s' pt ps \<and> upte s' pt = upte s pt \<and>
     kmem_frame s s' \<and> k \<le> length src \<and> (\<forall>i < k. uwritable s pt (dst + of_nat i)) \<and>
     (\<forall>x. udata s' pt x = (if unat (x - dst) < k then Some (src ! unat (x - dst)) else udata s pt x))"

lemma copied_0: "vm_rep s 2 pt ps \<Longrightarrow> user_sep s pt ps \<Longrightarrow> copied 0 dst src pt ps s s"
  by (simp add: copied_def)

lemma uwritable_cong: "upte s' pt = upte s pt \<Longrightarrow> uwritable s' pt = uwritable s pt"
  by (auto simp: uwritable_def)

lemma uwritable_near:
  assumes "uwritable s pt dst" "i < 4096 - unat dst mod 4096"
  shows "uwritable s pt (dst + of_nat i)"
proof -
  have "i < 2 ^ 64" using assms(2) by simp
  then have "unat (dst + of_nat i - dst) = i" by (simp add: unat_of_nat)
  then have "PGROUNDDOWN (dst + of_nat i) = PGROUNDDOWN dst" using assms(2) by (intro same_page_near) simp
  from upte_page [OF this, of s pt] assms(1) show ?thesis by (simp add: uwritable_def)
qed

lemma copied_append:
  assumes w: "uwritable s pt dst"
    and s1: "kmem_frame s s1" "upte s1 pt = upte s pt"
      "\<And>x. udata s1 pt x = (if unat (x - dst) < n then Some (take n src ! unat (x - dst)) else udata s pt x)"
    and k: "copied k (dst + of_nat c) (drop n src) pt ps s1 s'"
    and n: "n = min c (length src)" "c = 4096 - unat dst mod 4096" "length src < 2 ^ 64"
  shows "copied (n + k) dst src pt ps s s'"
proof -
  have kn: "k = 0 \<or> n = c" using k by (auto simp: copied_def n(1))
  have kl: "k \<le> length src - n" "n \<le> length src" using k n(1) by (simp_all add: copied_def)
  have sz: "n + k < 2 ^ 64" using kl n(3) by linarith
  have ud: "\<And>x. udata s' pt x = (if unat (x - (dst + of_nat c)) < k
      then Some (drop n src ! unat (x - (dst + of_nat c))) else udata s1 pt x)"
    using k by (simp add: copied_def)
  have "udata s' pt x = (if unat (x - dst) < n + k then Some (src ! unat (x - dst)) else udata s pt x)" for x
  proof (cases "k = 0")
    case True
    then show ?thesis using ud [of x] s1(3) [of x] by simp
  next
    case False
    then have "c = n" using kn by simp
    then show ?thesis using ud [of x] s1(3) [of x] kl unat_shift [OF sz, of x dst] by auto
  qed
  moreover have "uwritable s pt (dst + of_nat i)" if "i < n + k" for i
  proof (cases "i < n")
    case True
    then show ?thesis using uwritable_near [OF w] n by simp
  next
    case False
    then have i: "i - n < k" "n = c" using that kn by auto
    then have "uwritable s pt (dst + of_nat c + of_nat (i - n))"
      using k uwritable_cong [OF s1(2)] by (simp add: copied_def)
    then show ?thesis using False i(2) by (simp add: of_nat_diff)
  qed
  moreover have "kmem_frame s s'" using k kmem_frame_trans [OF s1(1)] by (simp add: copied_def)
  ultimately show ?thesis using k kl s1(2) by (simp add: copied_def)
qed

lemma copyout_loop_spec:
  fixes s :: "'z kmem_scheme"
  assumes "vm_rep s 2 pt ps" "user_sep s pt ps" "length src \<le> fuel" "length src < 2 ^ 64"
  shows "\<exists>r k s'. copyout_loop fuel pt dst src s = Ok r s' \<and> copied k dst src pt ps s s' \<and>
    (r = 0 \<and> k = length src \<or> r = -1 \<and> k < length src \<and> \<not> uwritable s pt (dst + of_nat k))"
  using assms
proof (induction fuel arbitrary: s dst src)
  case 0
  then show ?case by (simp add: copied_0)
next
  case (Suc fuel)
  define c where "c = 4096 - unat dst mod 4096"
  have c: "0 < c" by (simp add: c_def)
  consider "src = []" | "src \<noteq> []" "\<not> uwritable s pt dst" | "src \<noteq> []" "uwritable s pt dst" by blast
  then show ?case
  proof cases
    case 1
    then show ?thesis using Suc.prems by (simp add: copied_0)
  next
    case 2
    then show ?thesis using Suc.prems
      by (intro exI [of _ "-1"] exI [of _ 0] exI [of _ s]) (simp add: copyout_chunk copied_0 del: copyout_loop.simps)
  next
    case 3
    define n where "n = min c (length src)"
    define s1 where "s1 = s\<lparr>phys := mem_store (PTE2PA (upte s pt dst) + (dst - PGROUNDDOWN dst)) (take n src) (phys s)\<rparr>"
    have n: "0 < n" "n \<le> length src" "n \<le> c" "length (take n src) = n" using c 3 by (auto simp: n_def)
    have u: "user_pte (upte s pt dst)" using 3 by (simp add: uwritable_def)
    have "length (take n src) \<le> 4096 - unat dst mod 4096" using n by (simp add: c_def)
    note st = user_store [OF Suc.prems(1,2) u this, folded s1_def, unfolded n(4)]
    have eq: "copyout_loop (Suc fuel) pt dst src s = copyout_loop fuel pt (dst + of_nat c) (drop n src) s1"
      using copyout_chunk [OF Suc.prems(1) 3(1)] 3(2)
      by (simp add: n_def c_def s1_def Let_def del: copyout_loop.simps)
    have fuel: "length (drop n src) \<le> fuel" "length (drop n src) < 2 ^ 64" using Suc.prems(3,4) n by auto
    obtain r k s' where IH: "copyout_loop fuel pt (dst + of_nat c) (drop n src) s1 = Ok r s'"
      "copied k (dst + of_nat c) (drop n src) pt ps s1 s'"
      "r = 0 \<and> k = length (drop n src) \<or> r = -1 \<and> k < length (drop n src) \<and> \<not> uwritable s1 pt (dst + of_nat c + of_nat k)"
      using Suc.IH [OF st(1,3) fuel] by blast
    have "copied (n + k) dst src pt ps s s'"
      by (rule copied_append [OF 3(2) _ _ _ IH(2)]) (use st n Suc.prems(4) in \<open>auto simp: n_def c_def s1_def\<close>)
    moreover have "r = 0 \<and> n + k = length src \<or> r = -1 \<and> n + k < length src \<and> \<not> uwritable s pt (dst + of_nat (n + k))"
    proof (cases "n = c")
      case True
      then show ?thesis using IH(3) uwritable_cong [OF st(2)] n by (auto simp: add.assoc)
    next
      case False
      then have "length (drop n src) = 0" by (simp add: n_def)
      then show ?thesis using IH(3) n by auto
    qed
    ultimately show ?thesis using trans [OF eq IH(1)] by blast
  qed
qed


text \<open>Reading: the bytes that \<open>copyin\<close> returns are those of the user address space.\<close>

definition loaded :: "nat \<Rightarrow> uint64 \<Rightarrow> byte list \<Rightarrow> uint64 \<Rightarrow> 'z kmem_scheme \<Rightarrow> bool" where
  "loaded k va bs pt s \<longleftrightarrow> length bs = k \<and> (\<forall>i < k. udata s pt (va + of_nat i) = Some (bs ! i))"

lemma user_load:
  assumes "user_pte (upte s pt va)" "n \<le> 4096 - unat va mod 4096"
  shows "loaded n va (mem_load (phys s) (PTE2PA (upte s pt va) + (va - PGROUNDDOWN va)) n) pt s"
  unfolding loaded_def
proof (intro conjI allI impI)
  fix i assume i: "i < n"
  have "unat (va + of_nat i - va) = i" using i assms(2) by (simp add: unat_of_nat)
  then have p: "PGROUNDDOWN (va + of_nat i) = PGROUNDDOWN va" using i assms(2) by (intro same_page_near) simp
  show "udata s pt (va + of_nat i) =
      Some (mem_load (phys s) (PTE2PA (upte s pt va) + (va - PGROUNDDOWN va)) n ! i)"
    unfolding udata_def upte_page [OF p, of s pt] p using assms(1) i by (simp add: mem_load_def algebra_simps)
qed simp

lemma loaded_append:
  assumes "loaded n va bs pt s" "loaded k (va + of_nat n) cs pt s"
  shows "loaded (n + k) va (bs @ cs) pt s"
  unfolding loaded_def
proof (intro conjI allI impI)
  fix i assume i: "i < n + k"
  show "udata s pt (va + of_nat i) = Some ((bs @ cs) ! i)"
  proof (cases "i < n")
    case True
    then show ?thesis using assms(1) by (simp add: loaded_def nth_append)
  next
    case False
    then have e: "va + of_nat n + of_nat (i - n) = va + of_nat i" by (simp add: of_nat_diff)
    have "i - n < k" using False i by simp
    then have "udata s pt (va + of_nat n + of_nat (i - n)) = Some (cs ! (i - n))"
      using assms(2) unfolding loaded_def by blast
    then show ?thesis unfolding e using False assms(1) by (simp add: loaded_def nth_append)
  qed
qed (use assms in \<open>simp add: loaded_def\<close>)

lemma udata_Some_iff: "(\<exists>b. udata s pt va = Some b) \<longleftrightarrow> user_pte (upte s pt va)"
  by (simp add: udata_def)

lemma copyin_chunk:
  fixes s :: "'z kmem_scheme"
  assumes "vm_rep s 2 pt ps" "user_sep s pt ps" "0 < len"
  shows "copyin_loop (Suc fuel) pt va len s =
    (if user_pte (upte s pt va) then
       let n = min (4096 - unat va mod 4096) len in
       bind (copyin_loop fuel pt (va + of_nat (4096 - unat va mod 4096)) (len - n)) (\<lambda>(r, rest).
         return (r, mem_load (phys s) (PTE2PA (upte s pt va) + (va - PGROUNDDOWN va)) n @ rest)) s
     else Ok (-1, []) s)"
proof -
  have u: "upte s pt (PGROUNDDOWN va) = upte s pt va" by (rule upte_page) simp
  have z: "user_pte (upte s pt va) \<Longrightarrow> PTE2PA (upte s pt va) \<noteq> 0" using assms(2) by (simp add: user_sep_def)
  have "user_pte (upte s pt va) \<Longrightarrow> va < MAXVA" by (cases "va < MAXVA") (simp_all add: upte_def)
  note ce = chunk_end [OF this]
  show ?thesis
    using assms(3) z ce by (auto simp: walkaddr_eq [OF assms(1)] u kexec Let_def)
qed

lemma copyin_loop_spec:
  fixes s :: "'z kmem_scheme"
  assumes "vm_rep s 2 pt ps" "user_sep s pt ps" "len \<le> fuel"
  shows "\<exists>r k bs. copyin_loop fuel pt va len s = Ok (r, bs) s \<and> loaded k va bs pt s \<and>
    (r = 0 \<and> k = len \<or> r = -1 \<and> k < len \<and> udata s pt (va + of_nat k) = None)"
  using assms(3)
proof (induction fuel arbitrary: va len)
  case 0
  then show ?case by (simp add: loaded_def)
next
  case (Suc fuel)
  define c where "c = 4096 - unat va mod 4096"
  have c: "0 < c" by (simp add: c_def)
  consider "len = 0" | "0 < len" "\<not> user_pte (upte s pt va)" | "0 < len" "user_pte (upte s pt va)" by blast
  then show ?case
  proof cases
    case 1
    then show ?thesis by (simp add: loaded_def)
  next
    case 2
    then show ?thesis using copyin_chunk [OF assms(1,2) 2(1), of fuel va]
      by (intro exI [of _ "-1"] exI [of _ 0] exI [of _ "[]"]) (simp add: loaded_def udata_def)
  next
    case 3
    define n where "n = min c len"
    define bs where "bs = mem_load (phys s) (PTE2PA (upte s pt va) + (va - PGROUNDDOWN va)) n"
    have n: "0 < n" "n \<le> len" "n \<le> c" using c 3 by (auto simp: n_def)
    have l: "loaded n va bs pt s" unfolding bs_def by (rule user_load [OF 3(2)]) (use n in \<open>simp add: c_def\<close>)
    obtain r k cs where IH: "copyin_loop fuel pt (va + of_nat c) (len - n) s = Ok (r, cs) s"
      "loaded k (va + of_nat c) cs pt s"
      "r = 0 \<and> k = len - n \<or> r = -1 \<and> k < len - n \<and> udata s pt (va + of_nat c + of_nat k) = None"
      using Suc.IH [of "len - n" "va + of_nat c"] Suc.prems n by fastforce
    have eq: "copyin_loop (Suc fuel) pt va len s = Ok (r, bs @ cs) s"
      using copyin_chunk [OF assms(1,2) 3(1), of fuel va, folded c_def, folded n_def] 3(2) IH(1)
      by (simp add: Let_def kexec n_def [symmetric] bs_def del: copyin_loop.simps)
    have cn: "n = c \<or> len - n = 0" by (auto simp: n_def)
    have "loaded (n + k) va (bs @ cs) pt s"
    proof (cases "n = c")
      case True
      then show ?thesis using loaded_append [OF l] IH(2) by simp
    next
      case False
      then have "k = 0" "cs = []" using cn IH by (auto simp: loaded_def)
      then show ?thesis using l by simp
    qed
    moreover have "r = 0 \<and> n + k = len \<or> r = -1 \<and> n + k < len \<and> udata s pt (va + of_nat (n + k)) = None"
      using IH(3) cn n by (auto simp: add.assoc)
    ultimately show ?thesis using eq by blast
  qed
qed

lemma copyout_spec:
  assumes "vm_rep s 2 pt ps" "user_sep s pt ps" "length src < 2 ^ 64"
  shows "\<exists>r k s'. copyout pt dst src s = Ok r s' \<and> copied k dst src pt ps s s' \<and>
    (r = 0 \<and> k = length src \<or> r = -1 \<and> k < length src \<and> \<not> uwritable s pt (dst + of_nat k))"
  unfolding copyout_def using copyout_loop_spec [OF assms(1,2) order.refl assms(3)] .

lemma copyin_spec:
  assumes "vm_rep s 2 pt ps" "user_sep s pt ps"
  shows "\<exists>r k bs. copyin pt va len s = Ok (r, bs) s \<and> loaded k va bs pt s \<and>
    (r = 0 \<and> k = len \<or> r = -1 \<and> k < len \<and> udata s pt (va + of_nat k) = None)"
  unfolding copyin_def using copyin_loop_spec [OF assms order.refl] .

section \<open>Properties\<close>

text \<open>
  C11: \<open>copyout\<close> always returns.  It returns 0 exactly when every byte of the destination is a
  mapped, writable user address, and then the user address space changes at that range only,
  to the source bytes; otherwise it returns -1 and has written the bytes before the first
  address that is not writable.  The page table and the free list are untouched.
\<close>

theorem copyout_writes_user:
  assumes "vm_rep s 2 pt ps" "user_sep s pt ps" "length src < 2 ^ 64"
  shows "\<exists>r k s'. copyout pt dst src s = Ok r s' \<and> copied k dst src pt ps s s' \<and>
    (r = 0 \<and> k = length src \<or> r = -1 \<and> k < length src \<and> \<not> uwritable s pt (dst + of_nat k))"
  using copyout_spec [OF assms] .

text \<open>
  C14: what a successful \<open>copyout\<close> stored at a user address is what \<open>copyin\<close> of that range
  returns afterwards.
\<close>

theorem copyout_copyin_roundtrip:
  assumes rep: "vm_rep s 2 pt ps" "user_sep s pt ps" "length src < 2 ^ 64"
    and out: "copyout pt va src s = Ok 0 s'"
  shows "copyin pt va (length src) s' = Ok (0, src) s'"
proof -
  have c: "copied (length src) va src pt ps s s'"
    using copyout_spec [OF rep, of va] out by auto
  then have r: "vm_rep s' 2 pt ps" "user_sep s' pt ps" by (simp_all add: copied_def)
  have u: "udata s' pt (va + of_nat i) = Some (src ! i)" if "i < length src" for i
  proof -
    have "unat (va + of_nat i - va) = i" using that rep(3) by (simp add: unat_of_nat)
    then show ?thesis using c that by (simp add: copied_def)
  qed
  from copyin_spec [OF r, of va "length src"] obtain q k bs where
    q: "copyin pt va (length src) s' = Ok (q, bs) s'" "loaded k va bs pt s'"
      "q = 0 \<and> k = length src \<or> q = -1 \<and> k < length src \<and> udata s' pt (va + of_nat k) = None" by blast
  then have "q = 0" "k = length src" using u by auto
  then have "bs = src" using q(2) u by (auto simp: loaded_def intro!: nth_equalityI)
  then show ?thesis using q(1) \<open>q = 0\<close> by simp
qed

lemma one_user_page:
  "\<exists>s ps. vm_rep s 2 0x87ffd000 ps \<and> user_sep s 0x87ffd000 ps \<and> uwritable (s :: kmem) 0x87ffd000 0x1ffe"
proof -
  let ?perm = "PTE_R OR PTE_W OR PTE_U" and ?pt = "0x87ffd000 :: uint64"
  obtain s ps where m: "mapped ?pt [0x87fff000, 0x87ffe000] empty_table ps s
      (map_range 1 0x1000 0x87000000 ?perm (pt_look 2 (phys empty_table) ?pt))"
    using mappages_mapped [OF empty_table_rep, of "0x1000" 1 "0x87000000" ?perm]
    by (auto simp: page_aligned_def PGSIZE_def empty_table_look pte_valid_def)
  have up: "upte s ?pt va = (if va < MAXVA \<and> PGROUNDDOWN va = 0x1000 then PA2PTE 0x87000000 OR ?perm OR PTE_V else 0)" for va
    using m by (simp add: mapped_def upte_def empty_table_look)
  have "PTE2PA (PA2PTE 0x87000000 OR ?perm OR PTE_V) = 0x87000000"
    by (rule PTE2PA_PA2PTE) (simp_all add: page_aligned_def PGSIZE_def PTE_R_def PTE_W_def PTE_U_def PTE_V_def)
  moreover have "0x87000000 \<notin> pt_pages 2 (phys s) ?pt \<union> set ps"
  proof -
    have "pt_pages 2 (phys empty_table) ?pt = {?pt}"
      using zero_page_tree(1) [of ?pt "phys empty_table"] empty_table_zero by blast
    then have "pt_pages 2 (phys s) ?pt \<union> set ps = {?pt, 0x87fff000, 0x87ffe000}"
      using m by (auto simp: mapped_def)
    then show ?thesis by simp
  qed
  ultimately have "user_sep s ?pt ps" unfolding user_sep_def up by simp
  moreover have "user_pte (PA2PTE 0x87000000 OR ?perm OR PTE_V)" "(PA2PTE 0x87000000 OR ?perm OR PTE_V) AND PTE_W \<noteq> 0"
    by (simp_all add: user_pte_def PTE_R_def PTE_W_def PTE_U_def PTE_V_def PA2PTE_def)
  moreover have "(0x1ffe :: uint64) < MAXVA" "PGROUNDDOWN 0x1ffe = 0x1000"
    by (simp_all add: MAXVA_def PGROUNDDOWN_def PGSIZE_def)
  ultimately have "user_sep s ?pt ps" "uwritable s ?pt 0x1ffe" unfolding uwritable_def up by simp_all
  moreover have "vm_rep s 2 ?pt ps" using m by (simp add: mapped_def)
  ultimately show ?thesis by blast
qed

theorem copyout_writes_user_witness:
  "\<exists>s s' :: kmem. \<exists>r. copyout 0x87ffd000 0x1ffe [1, 2] s = Ok r s' \<and> uwritable s 0x87ffd000 0x1ffe"
proof -
  obtain s :: kmem and ps where s: "vm_rep s 2 0x87ffd000 ps" "user_sep s 0x87ffd000 ps"
    "uwritable s 0x87ffd000 0x1ffe" using one_user_page by blast
  from copyout_writes_user [OF s(1,2), of "[1, 2]" "0x1ffe"] s(3) show ?thesis by auto
qed

theorem copyout_copyin_roundtrip_witness:
  "\<exists>s s' :: kmem. copyout 0x87ffd000 0x1ffe [7, 9] s = Ok 0 s' \<and> copyin 0x87ffd000 0x1ffe 2 s' = Ok (0, [7, 9]) s'"
proof -
  obtain s :: kmem and ps where s: "vm_rep s 2 0x87ffd000 ps" "user_sep s 0x87ffd000 ps"
    "uwritable s 0x87ffd000 0x1ffe" using one_user_page by blast
  have near: "uwritable s 0x87ffd000 (0x1ffe + of_nat i)" if "i < 2" for i
    using uwritable_near [OF s(3)] that by simp
  obtain r k s' where c: "copyout 0x87ffd000 0x1ffe [7, 9] s = Ok r s'"
    "r = 0 \<or> k < length [7, 9 :: byte] \<and> \<not> uwritable s 0x87ffd000 (0x1ffe + of_nat k)"
    using copyout_spec [OF s(1,2), of "[7, 9]" "0x1ffe"] by fastforce
  then have "r = 0" using near by (auto simp: numeral_2_eq_2)
  with c(1) have o: "copyout 0x87ffd000 0x1ffe [7, 9] s = Ok 0 s'" by simp
  have "copyin 0x87ffd000 0x1ffe (length [7, 9 :: byte]) s' = Ok (0, [7, 9]) s'"
    by (rule copyout_copyin_roundtrip [OF s(1,2) _ o]) simp
  moreover have "length [7, 9 :: byte] = 2" by simp
  ultimately have "copyin 0x87ffd000 0x1ffe 2 s' = Ok (0, [7, 9]) s'" by metis
  then show ?thesis using o by blast
qed

end
