(* ===== verification/Xv6_Proc.thy ===== *)
theory Xv6_Proc
  imports Xv6_Usercopy
begin

unbundle bit_operations_syntax

text \<open>
  \<open>kernel/proc.h\<close> and the part of \<open>kernel/proc.c\<close> below the file system: the process table,
  allocation and release of processes, sleeping and waking, the scheduler, \<open>wait\<close>, \<open>kill\<close> and
  the copies to and from user memory.  (\<open>fork\<close>, \<open>exit\<close>, \<open>userinit\<close> and \<open>forkret\<close> call the file
  system and are in \<open>Xv6_Exec\<close> and \<open>Xv6_Trap\<close>.)

  A \<open>struct proc *\<close> is an index into the table, a null pointer is \<open>None\<close>.  Using a null
  process makes the kernel fault, which \<open>kerneltrap\<close> turns into a panic.  The wait channels,
  which the code identifies by addresses, are the constructors of \<open>chan\<close>.  The registers that
  \<open>swtch\<close> saves belong to the continuation of a \<open>Swtch\<close> outcome; the record \<open>context\<close> holds
  what \<open>allocproc\<close> prepares for the first run.  The linker symbols \<open>trampoline\<close> and \<open>forkret\<close>
  are fields of the state, like \<open>kend\<close>.
\<close>

section \<open>State\<close>

datatype procstate = UNUSED | USED | SLEEPING | RUNNABLE | RUNNING | ZOMBIE

datatype chan =
    ChanProc nat | ChanTicks | ChanSleeplock lockid | ChanLog
  | ChanPipeRead uint64 | ChanPipeWrite uint64 | ChanCons | ChanUart
  | ChanDiskFree | ChanDiskBuf nat

record pcontext =
  ctx_ra :: uint64
  ctx_sp :: uint64
  ctx_s :: "uint64 list"

record proc =
  state :: procstate
  chan :: "chan option"
  killed_flag :: int
  xstate :: int
  pid :: int
  parent :: "nat option"
  kstack :: uint64
  sz :: uint64
  pagetable :: uint64
  trapframe :: uint64
  pctx :: pcontext
  ofile :: "nat \<Rightarrow> nat option"
  cwd :: "nat option"
  pname :: "byte list"
  syscall_count :: uint64

record ptable = kmem +
  procs :: "nat \<Rightarrow> proc"
  nextpid :: int
  initproc :: "nat option"
  trampoline :: uint64
  forkret_pc :: uint64

definition NOFILE :: nat where "NOFILE = 16"

definition get_proc :: "nat \<Rightarrow> ('z ptable_scheme, proc) kmon" where
  "get_proc p = gets (\<lambda>s. procs s p)"

definition upd_proc :: "nat \<Rightarrow> (proc \<Rightarrow> proc) \<Rightarrow> ('z ptable_scheme, unit) kmon" where
  "upd_proc p f = modify (\<lambda>s. s\<lparr>procs := (procs s)(p := f (procs s p))\<rparr>)"

section \<open>Initialisation and the current process\<close>

definition procinit :: "('z ptable_scheme, unit) kmon" where
  "procinit =
     seq (initlock PidLock ''nextpid'') (
     seq (initlock WaitLock ''wait_lock'') (
     for_each [0..<NPROC] (\<lambda>p.
       seq (initlock (ProcLock p) ''proc'') (
       seq (upd_proc p (\<lambda>q. q\<lparr>state := UNUSED\<rparr>))
           (upd_proc p (\<lambda>q. q\<lparr>kstack := KSTACK p\<rparr>))))))"

definition myproc :: "('z machine_scheme, nat option) kmon" where
  "myproc =
     seq push_off (
     bind mycpu (\<lambda>c.
     seq pop_off
         (return (cproc c))))"

text \<open>\<open>myproc()\<close> where the result is dereferenced.\<close>

definition curproc :: "('z machine_scheme, nat) kmon" where
  "curproc = bind myproc (\<lambda>r. case r of None \<Rightarrow> panic ''kerneltrap'' | Some p \<Rightarrow> return p)"

definition allocpid :: "('z ptable_scheme, int) kmon" where
  "allocpid =
     seq (acquire PidLock) (
     bind (gets nextpid) (\<lambda>n.
     seq (modify (\<lambda>s. s\<lparr>nextpid := n + 1\<rparr>)) (
     seq (release PidLock)
         (return n))))"

section \<open>Page tables of processes\<close>

definition proc_pagetable :: "nat \<Rightarrow> ('z ptable_scheme, uint64) kmon" where
  "proc_pagetable p =
     bind uvmcreate (\<lambda>pt.
     if pt = 0 then return 0
     else bind (gets trampoline) (\<lambda>tramp.
     bind (mappages pt TRAMPOLINE PGSIZE tramp (PTE_R OR PTE_X)) (\<lambda>r.
     if r < 0 then seq (uvmfree pt 0) (return 0)
     else bind (get_proc p) (\<lambda>q.
     bind (mappages pt TRAPFRAME PGSIZE (trapframe q) (PTE_R OR PTE_W)) (\<lambda>r.
     if r < 0 then
       seq (uvmunmap pt TRAMPOLINE 1 False) (
       seq (uvmfree pt 0)
           (return 0))
     else return pt)))))"

definition proc_freepagetable :: "uint64 \<Rightarrow> uint64 \<Rightarrow> ('z kmem_scheme, unit) kmon" where
  "proc_freepagetable pt psz =
     seq (uvmunmap pt TRAMPOLINE 1 False) (
     seq (uvmunmap pt TRAPFRAME 1 False)
         (uvmfree pt psz))"

section \<open>Allocating and freeing processes\<close>

definition freeproc :: "nat \<Rightarrow> ('z ptable_scheme, unit) kmon" where
  "freeproc p =
     bind (get_proc p) (\<lambda>q.
     seq (kwhen (trapframe q \<noteq> 0) (kfree (trapframe q))) (
     seq (upd_proc p (\<lambda>q. q\<lparr>trapframe := 0\<rparr>)) (
     seq (kwhen (pagetable q \<noteq> 0) (proc_freepagetable (pagetable q) (sz q))) (
     upd_proc p (\<lambda>q. q\<lparr>pagetable := 0, sz := 0, pid := 0, parent := None,
       pname := list_update (pname q) 0 0, chan := None, killed_flag := 0, xstate := 0,
       state := UNUSED\<rparr>)))))"

text \<open>The search of \<open>allocproc\<close> for an unused slot, whose lock it keeps.\<close>

definition find_unused :: "('z ptable_scheme, nat option) kmon" where
  "find_unused =
     for_find [0..<NPROC] (\<lambda>p.
       seq (acquire (ProcLock p)) (
       bind (get_proc p) (\<lambda>q.
       if state q = UNUSED then return (Some p)
       else seq (release (ProcLock p)) (return None))))"

definition allocproc :: "('z ptable_scheme, nat option) kmon" where
  "allocproc =
     bind find_unused (\<lambda>r. case r of
       None \<Rightarrow> return None
     | Some p \<Rightarrow>
         bind allocpid (\<lambda>i.
         seq (upd_proc p (\<lambda>q. q\<lparr>pid := i\<rparr>)) (
         seq (upd_proc p (\<lambda>q. q\<lparr>state := USED\<rparr>)) (
         bind kalloc (\<lambda>tf.
         seq (upd_proc p (\<lambda>q. q\<lparr>trapframe := tf\<rparr>)) (
         if tf = 0 then
           seq (freeproc p) (
           seq (release (ProcLock p))
               (return None))
         else
         bind (proc_pagetable p) (\<lambda>pt.
         seq (upd_proc p (\<lambda>q. q\<lparr>pagetable := pt\<rparr>)) (
         if pt = 0 then
           seq (freeproc p) (
           seq (release (ProcLock p))
               (return None))
         else
         bind (gets forkret_pc) (\<lambda>ra.
         seq (upd_proc p (\<lambda>q. q\<lparr>pctx := \<lparr>ctx_ra = 0, ctx_sp = 0, ctx_s = replicate 12 0\<rparr>\<rparr>)) (
         seq (upd_proc p (\<lambda>q. q\<lparr>pctx := (pctx q)\<lparr>ctx_ra := ra\<rparr>\<rparr>)) (
         seq (upd_proc p (\<lambda>q. q\<lparr>pctx := (pctx q)\<lparr>ctx_sp := kstack q + PGSIZE\<rparr>\<rparr>))
             (return (Some p)))))))))))))"

definition growproc :: "int \<Rightarrow> ('z ptable_scheme, int) kmon" where
  "growproc n =
     bind curproc (\<lambda>p.
     bind (get_proc p) (\<lambda>q.
     if n > 0 then
       bind (uvmalloc (pagetable q) (sz q) (sz q + word_of_int n) PTE_W) (\<lambda>r.
       if r = 0 then return (-1)
       else seq (upd_proc p (\<lambda>q. q\<lparr>sz := r\<rparr>)) (return 0))
     else if n < 0 then
       bind (uvmdealloc (pagetable q) (sz q) (sz q + word_of_int n)) (\<lambda>r.
       seq (upd_proc p (\<lambda>q. q\<lparr>sz := r\<rparr>)) (return 0))
     else seq (upd_proc p (\<lambda>p. p\<lparr>sz := sz q\<rparr>)) (return 0)))"

section \<open>Scheduling\<close>

definition sched :: "('z ptable_scheme, unit) kmon" where
  "sched =
     bind curproc (\<lambda>p.
     bind (holding (ProcLock p)) (\<lambda>h.
     if \<not> h then panic ''sched p->lock''
     else bind mycpu (\<lambda>c.
     if noff c \<noteq> 1 then panic ''sched locks''
     else bind (get_proc p) (\<lambda>q.
     if state q = RUNNING then panic ''sched running''
     else bind intr_get (\<lambda>i.
     if i then panic ''sched interruptible''
     else bind mycpu (\<lambda>c.
     let ie = intena c in
     seq swtch
         (upd_mycpu (\<lambda>c. c\<lparr>intena := ie\<rparr>))))))))"

definition yield :: "('z ptable_scheme, unit) kmon" where
  "yield =
     bind curproc (\<lambda>p.
     seq (acquire (ProcLock p)) (
     seq (upd_proc p (\<lambda>q. q\<lparr>state := RUNNABLE\<rparr>)) (
     seq sched
         (release (ProcLock p)))))"

definition sleep :: "chan \<Rightarrow> lockid \<Rightarrow> ('z ptable_scheme, unit) kmon" where
  "sleep ch l =
     bind curproc (\<lambda>p.
     seq (acquire (ProcLock p)) (
     seq (release l) (
     seq (upd_proc p (\<lambda>q. q\<lparr>chan := Some ch\<rparr>)) (
     seq (upd_proc p (\<lambda>q. q\<lparr>state := SLEEPING\<rparr>)) (
     seq sched (
     seq (upd_proc p (\<lambda>q. q\<lparr>chan := None\<rparr>)) (
     seq (release (ProcLock p))
         (acquire l))))))))"

definition wakeup :: "chan option \<Rightarrow> ('z ptable_scheme, unit) kmon" where
  "wakeup ch =
     for_each [0..<NPROC] (\<lambda>p.
       bind myproc (\<lambda>me.
       kwhen (Some p \<noteq> me) (
         seq (acquire (ProcLock p)) (
         bind (get_proc p) (\<lambda>q.
         seq (kwhen (state q = SLEEPING \<and> chan q = ch) (upd_proc p (\<lambda>q. q\<lparr>state := RUNNABLE\<rparr>)))
             (release (ProcLock p)))))))"

text \<open>One pass of the scheduler over the table; the result is the flag \<open>found\<close>.\<close>

primrec scheduler_scan :: "nat list \<Rightarrow> bool \<Rightarrow> ('z ptable_scheme, bool) kmon" where
  "scheduler_scan [] found = return found"
| "scheduler_scan (p # ps) found =
     seq (acquire (ProcLock p)) (
     bind (get_proc p) (\<lambda>q.
     if state q = RUNNABLE then
       seq (upd_proc p (\<lambda>q. q\<lparr>state := RUNNING\<rparr>)) (
       seq (upd_mycpu (\<lambda>c. c\<lparr>cproc := Some p\<rparr>)) (
       seq swtch (
       seq (upd_mycpu (\<lambda>c. c\<lparr>cproc := None\<rparr>)) (
       seq (release (ProcLock p))
           (scheduler_scan ps True)))))
     else
       seq (release (ProcLock p))
           (scheduler_scan ps found)))"

primrec scheduler_loop :: "nat \<Rightarrow> ('z ptable_scheme, unit) kmon" where
  "scheduler_loop 0 = hang"
| "scheduler_loop (Suc n) =
     seq intr_on (
     bind (scheduler_scan [0..<NPROC] False) (\<lambda>found.
     seq (kwhen (\<not> found) intr_on)
         (scheduler_loop n)))"

definition scheduler :: "('z ptable_scheme, unit) kmon" where
  "scheduler = seq (upd_mycpu (\<lambda>c. c\<lparr>cproc := None\<rparr>)) (scheduler_loop ROUNDS)"

section \<open>Killing\<close>

definition kill :: "int \<Rightarrow> ('z ptable_scheme, int) kmon" where
  "kill i =
     bind (for_find [0..<NPROC] (\<lambda>p.
       seq (acquire (ProcLock p)) (
       bind (get_proc p) (\<lambda>q.
       if pid q = i then
         seq (upd_proc p (\<lambda>q. q\<lparr>killed_flag := 1\<rparr>)) (
         seq (kwhen (state q = SLEEPING) (upd_proc p (\<lambda>q. q\<lparr>state := RUNNABLE\<rparr>))) (
         seq (release (ProcLock p))
             (return (Some 0))))
       else seq (release (ProcLock p)) (return None)))))
     (\<lambda>r. case r of Some v \<Rightarrow> return v | None \<Rightarrow> return (-1))"

definition setkilled :: "nat \<Rightarrow> ('z ptable_scheme, unit) kmon" where
  "setkilled p =
     seq (acquire (ProcLock p)) (
     seq (upd_proc p (\<lambda>q. q\<lparr>killed_flag := 1\<rparr>))
         (release (ProcLock p)))"

definition killed :: "nat \<Rightarrow> ('z ptable_scheme, int) kmon" where
  "killed p =
     seq (acquire (ProcLock p)) (
     bind (get_proc p) (\<lambda>q.
     seq (release (ProcLock p))
         (return (killed_flag q))))"

section \<open>Children\<close>

definition reparent :: "nat \<Rightarrow> ('z ptable_scheme, unit) kmon" where
  "reparent p =
     for_each [0..<NPROC] (\<lambda>pp.
       bind (get_proc pp) (\<lambda>q.
       kwhen (parent q = Some p) (
         bind (gets initproc) (\<lambda>ip.
         seq (upd_proc pp (\<lambda>q. q\<lparr>parent := ip\<rparr>))
             (wakeup (map_option ChanProc ip))))))"

text \<open>
  The scan of \<open>wait\<close>.  The result is the value to return, if the scan returns from \<open>wait\<close>, and
  the flag \<open>havekids\<close>.
\<close>

primrec wait_scan ::
  "nat list \<Rightarrow> nat \<Rightarrow> uint64 \<Rightarrow> bool \<Rightarrow> ('z ptable_scheme, int option \<times> bool) kmon" where
  "wait_scan [] p addr havekids = return (None, havekids)"
| "wait_scan (pp # pps) p addr havekids =
     bind (get_proc pp) (\<lambda>q.
     if parent q = Some p then
       seq (acquire (ProcLock pp)) (
       bind (get_proc pp) (\<lambda>q.
       if state q = ZOMBIE then
         bind (get_proc p) (\<lambda>me.
         bind (if addr \<noteq> 0 then copyout (pagetable me) addr (le_bytes 4 (word_of_int (xstate q) :: uint))
               else return 0) (\<lambda>r.
         if r < 0 then
           seq (release (ProcLock pp)) (
           seq (release WaitLock)
               (return (Some (-1), True)))
         else
           seq (freeproc pp) (
           seq (release (ProcLock pp)) (
           seq (release WaitLock)
               (return (Some (pid q), True))))))
       else
         seq (release (ProcLock pp))
             (wait_scan pps p addr True)))
     else wait_scan pps p addr havekids)"

primrec wait_loop :: "nat \<Rightarrow> nat \<Rightarrow> uint64 \<Rightarrow> ('z ptable_scheme, int) kmon" where
  "wait_loop 0 p addr = hang"
| "wait_loop (Suc n) p addr =
     bind (wait_scan [0..<NPROC] p addr False) (\<lambda>(r, havekids).
     case r of
       Some v \<Rightarrow> return v
     | None \<Rightarrow>
         bind (if havekids then killed p else return 1) (\<lambda>k.
         if k \<noteq> 0 then
           seq (release WaitLock)
               (return (-1))
         else
           seq (sleep (ChanProc p) WaitLock)
               (wait_loop n p addr)))"

definition wait :: "uint64 \<Rightarrow> ('z ptable_scheme, int) kmon" where
  "wait addr =
     bind curproc (\<lambda>p.
     seq (acquire WaitLock)
         (wait_loop ROUNDS p addr))"

section \<open>Copies to or from user or kernel memory\<close>

text \<open>
  The address arguments of \<open>either_copyout\<close> and \<open>either_copyin\<close>, with the flag \<open>user_dst\<close> or
  \<open>user_src\<close> made the constructor.  A kernel address is either one in physical memory or a
  local variable of the caller, given by its bytes; what is copied to a local is in the result
  of the function that copies.
\<close>

datatype xaddr = UserAddr uint64 | KernAddr uint64 | Local "byte list"

primrec xadvance :: "nat \<Rightarrow> xaddr \<Rightarrow> xaddr" where
  "xadvance n (UserAddr a) = UserAddr (a + of_nat n)"
| "xadvance n (KernAddr a) = KernAddr (a + of_nat n)"
| "xadvance n (Local bs) = Local (drop n bs)"

definition either_copyout :: "xaddr \<Rightarrow> byte list \<Rightarrow> ('z ptable_scheme, int) kmon" where
  "either_copyout dst src =
     bind curproc (\<lambda>p.
     case dst of
       UserAddr a \<Rightarrow> bind (get_proc p) (\<lambda>q. copyout (pagetable q) a src)
     | KernAddr a \<Rightarrow> seq (upd_phys (mem_store a src)) (return 0)
     | Local _ \<Rightarrow> return 0)"

definition either_copyin :: "xaddr \<Rightarrow> nat \<Rightarrow> ('z ptable_scheme, int \<times> byte list) kmon" where
  "either_copyin src n =
     bind curproc (\<lambda>p.
     case src of
       UserAddr a \<Rightarrow> bind (get_proc p) (\<lambda>q. copyin (pagetable q) a n)
     | KernAddr a \<Rightarrow> gets (\<lambda>s. (0, mem_load (phys s) a n))
     | Local bs \<Rightarrow> return (0, take n bs))"

section \<open>Behaviour\<close>

lemma myproc_quiet: "cpu_quiet s \<Longrightarrow> myproc s = Ok (cproc (cpus s (tp s))) s"
  by (simp add: myproc_def kexec push_off_quiet cpu_defs pop_off_push)

lemma procs_commute [crit]:
  "restore s (t\<lparr>procs := f\<rparr>) = (restore s t)\<lparr>procs := f\<rparr>"
  "same_machine s (t\<lparr>procs := f\<rparr>) = same_machine s t"
  "restore s (t\<lparr>nextpid := n\<rparr>) = (restore s t)\<lparr>nextpid := n\<rparr>"
  "same_machine s (t\<lparr>nextpid := n\<rparr>) = same_machine s t"
  by (simp_all add: restore_def same_machine_def)

lemma after_acquire_ptable [simp]:
  "procs (after_acquire l s) = procs s" "nextpid (after_acquire l s) = nextpid s"
  "initproc (after_acquire l s) = initproc s" "trampoline (after_acquire l s) = trampoline s"
  "forkret_pc (after_acquire l s) = forkret_pc s"
  by (simp_all add: after_acquire_def)

lemma ptable_quiet [simp]:
  "cpu_quiet (s\<lparr>procs := f\<rparr>) = cpu_quiet s" "cpu_quiet (s\<lparr>nextpid := n\<rparr>) = cpu_quiet s"
  "lock_free l (s\<lparr>procs := f\<rparr>) = lock_free l s" "lock_free l (s\<lparr>nextpid := n\<rparr>) = lock_free l s"
  by (simp_all add: cpu_quiet_def lock_free_def intr_enabled_def)

lemmas proc_exec = kexec get_proc_def upd_proc_def

definition cur :: "'z machine_scheme \<Rightarrow> nat option" where
  "cur s = cproc (cpus s (tp s))"

lemma cur_upd [simp]: "cur (s\<lparr>procs := f\<rparr>) = cur s" "cur (s\<lparr>nextpid := n\<rparr>) = cur s"
  by (simp_all add: cur_def)

lemma myproc_cur: "cpu_quiet s \<Longrightarrow> myproc s = Ok (cur s) s"
  by (simp add: myproc_quiet cur_def)

definition woken :: "nat set \<Rightarrow> chan option \<Rightarrow> 'z ptable_scheme \<Rightarrow> nat \<Rightarrow> proc" where
  "woken P ch s = (\<lambda>p. if p \<in> P \<and> Some p \<noteq> cur s \<and> state (procs s p) = SLEEPING \<and> chan (procs s p) = ch
     then (procs s p)\<lparr>state := RUNNABLE\<rparr> else procs s p)"

lemma wakeup_body:
  fixes s :: "'z ptable_scheme"
  assumes "cpu_quiet s" "lock_free (ProcLock p) s"
  shows "bind myproc (\<lambda>me.
       kwhen (Some p \<noteq> me) (
         seq (acquire (ProcLock p)) (
         bind (get_proc p) (\<lambda>q.
         seq (kwhen (state q = SLEEPING \<and> chan q = ch) (upd_proc p (\<lambda>q. q\<lparr>state := RUNNABLE\<rparr>)))
             (release (ProcLock p)))))) s = Ok () (s\<lparr>procs := woken {p} ch s\<rparr>)"
proof -
  have "woken {p} ch s = (if Some p \<noteq> cur s \<and> state (procs s p) = SLEEPING \<and> chan (procs s p) = ch
    then (procs s)(p := (procs s p)\<lparr>state := RUNNABLE\<rparr>) else procs s)"
    by (auto simp: woken_def)
  then show ?thesis
    by (simp add: proc_exec myproc_cur assms acquire_free release_restores [OF assms] crit)
qed


definition proc_locks_free :: "'z machine_scheme \<Rightarrow> bool" where
  "proc_locks_free s \<longleftrightarrow> (\<forall>p < NPROC. lock_free (ProcLock p) s)"

lemma proc_locks_free_upd [simp]:
  "proc_locks_free (s\<lparr>procs := f\<rparr>) = proc_locks_free s"
  by (simp add: proc_locks_free_def)

lemma woken_woken:
  "woken Q ch (s\<lparr>procs := woken P ch s\<rparr>) = woken (P \<union> Q) ch s"
  by (rule ext) (auto simp: woken_def)

lemma woken_same [simp]: "woken {} ch s = procs s"
  by (simp add: woken_def)

lemma wakeup_eq:
  assumes "cpu_quiet s" "proc_locks_free s"
  shows "wakeup ch s = Ok () (s\<lparr>procs := woken {..<NPROC} ch s\<rparr>)"
proof -
  let ?body = "\<lambda>p. bind myproc (\<lambda>me.
       kwhen (Some p \<noteq> me) (
         seq (acquire (ProcLock p)) (
         bind (get_proc p) (\<lambda>q.
         seq (kwhen (state q = SLEEPING \<and> chan q = ch) (upd_proc p (\<lambda>q. q\<lparr>state := RUNNABLE\<rparr>)))
             (release (ProcLock p))))))"
  have "for_each ps ?body s = Ok () (s\<lparr>procs := woken (set ps) ch s\<rparr>)"
    if "cpu_quiet s" "proc_locks_free s" "set ps \<subseteq> {..<NPROC}" for ps and s :: "'a ptable_scheme"
    using that
  proof (induction ps arbitrary: s)
    case Nil
    then show ?case by simp
  next
    case (Cons p ps)
    then have "?body p s = Ok () (s\<lparr>procs := woken {p} ch s\<rparr>)"
      by (intro wakeup_body) (auto simp: proc_locks_free_def)
    moreover have "for_each ps ?body (s\<lparr>procs := woken {p} ch s\<rparr>) =
        Ok () (s\<lparr>procs := woken (set (p # ps)) ch s\<rparr>)"
      using Cons.IH [of "s\<lparr>procs := woken {p} ch s\<rparr>"] Cons.prems by (simp add: woken_woken)
    ultimately show ?case by (simp only: for_each.simps bind_Ok)
  qed
  from this [OF assms, of "[0..<NPROC]"] show ?thesis
    by (simp add: wakeup_def atLeast0LessThan)
qed

lemma curproc_quiet: "cpu_quiet s \<Longrightarrow> cur s = Some p \<Longrightarrow> curproc s = Ok p s"
  by (simp add: curproc_def kexec myproc_cur)

lemma setkilled_eq:
  assumes "cpu_quiet s" "lock_free (ProcLock p) s"
  shows "setkilled p s = Ok () (s\<lparr>procs := (procs s)(p := (procs s p)\<lparr>killed_flag := 1\<rparr>)\<rparr>)"
  by (simp add: setkilled_def proc_exec acquire_free assms release_restores [OF assms] crit)

lemma killed_eq:
  assumes "cpu_quiet s" "lock_free (ProcLock p) s"
  shows "killed p s = Ok (killed_flag (procs s p)) s"
  by (simp add: killed_def proc_exec acquire_free assms release_restores [OF assms] crit)

lemma allocpid_eq:
  assumes "cpu_quiet s" "lock_free PidLock s"
  shows "allocpid s = Ok (nextpid s) (s\<lparr>nextpid := nextpid s + 1\<rparr>)"
  by (simp add: allocpid_def proc_exec acquire_free assms release_restores [OF assms] crit)

definition kill_effect :: "proc \<Rightarrow> proc" where
  "kill_effect q = (if state q = SLEEPING then q\<lparr>killed_flag := 1, state := RUNNABLE\<rparr>
     else q\<lparr>killed_flag := 1\<rparr>)"

lemma kill_eq:
  assumes "cpu_quiet s" "proc_locks_free s"
  shows "kill i s = (case find (\<lambda>p. pid (procs s p) = i) [0..<NPROC] of
      None \<Rightarrow> Ok (-1) s
    | Some p \<Rightarrow> Ok 0 (s\<lparr>procs := (procs s)(p := kill_effect (procs s p))\<rparr>))"
proof -
  let ?body = "\<lambda>p. seq (acquire (ProcLock p)) (
       bind (get_proc p) (\<lambda>q.
       if pid q = i then
         seq (upd_proc p (\<lambda>q. q\<lparr>killed_flag := 1\<rparr>)) (
         seq (kwhen (state q = SLEEPING) (upd_proc p (\<lambda>q. q\<lparr>state := RUNNABLE\<rparr>))) (
         seq (release (ProcLock p))
             (return (Some 0))))
       else seq (release (ProcLock p)) (return None)))"
  have "for_find [0..<NPROC] ?body s = (case find (\<lambda>p. pid (procs s p) = i) [0..<NPROC] of
      None \<Rightarrow> Ok None s
    | Some p \<Rightarrow> Ok (Some (0 :: int)) (s\<lparr>procs := (procs s)(p := kill_effect (procs s p))\<rparr>))"
  proof (rule for_find_first)
    fix p assume "p \<in> set [0..<NPROC]"
    then have l: "lock_free (ProcLock p) s" using assms(2) by (simp add: proc_locks_free_def)
    show "?body p s = (if pid (procs s p) = i
        then Ok (Some 0) (s\<lparr>procs := (procs s)(p := kill_effect (procs s p))\<rparr>) else Ok None s)"
      by (simp add: proc_exec acquire_free assms(1) l release_restores [OF assms(1) l] crit kill_effect_def)
  qed
  then show ?thesis
    by (auto simp: kill_def bind_apply split: option.split)
qed


section \<open>Sleeping\<close>

lemma after_acquire_swap:
  assumes "k \<noteq> l" "cpu_quiet s" "lock_free l s" "lock_free k s"
  shows "release l (after_acquire k (after_acquire l s)) = Ok () (after_acquire k s)"
proof -
  let ?t = "after_acquire k (after_acquire l s)"
  have "release l ?t = Ok () (after_release l ?t)"
    using assms by (intro release_held) (auto simp: lock_held_def after_acquire_def intr_enabled_def cpu_quiet_def Let_def)
  moreover have "after_release l ?t = after_acquire k s"
  proof (rule machine.equality)
    show "locks (after_release l ?t) = locks (after_acquire k s)"
      using assms(1) lock_free_triv [OF assms(3)]
      by (auto simp: after_release_def after_acquire_def fun_upd_twist)
  next
    show "sstatus (after_release l ?t) = sstatus (after_acquire k s)"
      using assms(2) by (auto simp: after_release_def after_acquire_def cpu_quiet_def Let_def)
  qed (simp_all add: after_release_def after_acquire_def add.commute)
  ultimately show ?thesis by simp
qed

lemma intena_triv:
  assumes "intena (cpus t (tp t)) = b"
  shows "t\<lparr>cpus := (cpus t)(tp t := (cpus t (tp t))\<lparr>intena := b\<rparr>)\<rparr> = t"
proof -
  have "(cpus t (tp t))\<lparr>intena := b\<rparr> = cpus t (tp t)" using assms by (cases "cpus t (tp t)") simp
  then show ?thesis by simp
qed

lemma after_acquire_cur [simp]: "cur (after_acquire l s) = cur s"
  by (simp add: cur_def after_acquire_def)

text \<open>A process \<open>p\<close> outside all critical sections.\<close>

definition running :: "nat \<Rightarrow> 'z machine_scheme \<Rightarrow> bool" where
  "running p s \<longleftrightarrow> cpu_quiet s \<and> noff (cpus s (tp s)) = 0 \<and> cur s = Some p \<and> lock_free (ProcLock p) s"

definition asleep :: "nat \<Rightarrow> chan \<Rightarrow> 'z ptable_scheme \<Rightarrow> 'z ptable_scheme" where
  "asleep p ch s = s\<lparr>procs := (procs s)(p := (procs s p)\<lparr>chan := Some ch, state := SLEEPING\<rparr>)\<rparr>"

lemma sched_swtch:
  assumes "holding (ProcLock p) s = Ok True s" "noff (cpus s (tp s)) = 1" "cpu_quiet s" "cur s = Some p"
    "state (procs s p) \<noteq> RUNNING"
  shows "sched s = Swtch s (\<lambda>t. Ok () (t\<lparr>cpus := (cpus t)(tp t := (cpus t (tp t))\<lparr>intena := intena (cpus s (tp s))\<rparr>)\<rparr>))"
proof -
  have "\<not> intr_enabled s" using assms by (auto simp: cpu_quiet_def Let_def)
  then show ?thesis
    using assms by (simp add: sched_def proc_exec curproc_quiet intr_get_def intr_enabled_def cpu_defs Let_def)
qed

lemma holding_acquired: "holding l (after_acquire l s) = Ok True (after_acquire l s)"
  by (simp add: holding_def kexec cpu_defs after_acquire_def)

lemma sleep_swtch:
  assumes "running p s" "lock_free l s" "l \<noteq> ProcLock p"
  shows "\<exists>k. sleep ch l (after_acquire l s) = Swtch (after_acquire (ProcLock p) (asleep p ch s)) k \<and>
    (\<forall>t. running p t \<longrightarrow> lock_free l t \<longrightarrow> intr_enabled t = intr_enabled s \<longrightarrow>
       k (after_acquire (ProcLock p) t) = Ok () (after_acquire l
         (t\<lparr>procs := (procs t)(p := (procs t p)\<lparr>chan := None\<rparr>)\<rparr>)))"
proof -
  have r: "cpu_quiet s" "noff (cpus s (tp s)) = 0" "cur s = Some p" "lock_free (ProcLock p) s"
    using assms(1) by (simp_all add: running_def)
  let ?a = "after_acquire l s" and ?b = "after_acquire (ProcLock p) s"
  let ?c = "after_acquire (ProcLock p) (asleep p ch s)"
  have q: "cpu_quiet ?a" "lock_free (ProcLock p) ?a"
    using r assms by (auto intro: after_acquire_quiet after_acquire_lock_free)
  have c: "?b\<lparr>procs := (procs s)(p := (procs s p)\<lparr>chan := Some ch, state := SLEEPING\<rparr>)\<rparr> = ?c"
    by (simp add: after_acquire_def asleep_def)
  have sc: "sched ?c = Swtch ?c (\<lambda>t. Ok () (t\<lparr>cpus := (cpus t)(tp t := (cpus t (tp t))\<lparr>intena := intena (cpus ?c (tp ?c))\<rparr>)\<rparr>))"
    by (rule sched_swtch [OF holding_acquired])
      (use r in \<open>auto intro: after_acquire_quiet simp: asleep_def, simp add: after_acquire_def\<close>)
  have ie: "intena (cpus ?c (tp ?c)) = intr_enabled s"
    using r(1,2) by (simp add: after_acquire_def asleep_def cpu_quiet_def Let_def)
  have "sleep ch l ?a = Swtch ?c (\<lambda>t. continue (Ok () (t\<lparr>cpus := (cpus t)(tp t := (cpus t (tp t))\<lparr>intena := intr_enabled s\<rparr>)\<rparr>))
    (\<lambda>_. seq (upd_proc p (\<lambda>q. q\<lparr>chan := None\<rparr>)) (seq (release (ProcLock p)) (acquire l))))"
    using r q sc assms(2,3) c ie
    by (simp add: sleep_def kexec curproc_quiet acquire_free after_acquire_swap upd_proc_def)
  moreover have "continue (Ok () (t'\<lparr>cpus := (cpus t')(tp t' := (cpus t' (tp t'))\<lparr>intena := intr_enabled s\<rparr>)\<rparr>))
    (\<lambda>_. seq (upd_proc p (\<lambda>q. q\<lparr>chan := None\<rparr>)) (seq (release (ProcLock p)) (acquire l))) =
    Ok () (after_acquire l (t\<lparr>procs := (procs t)(p := (procs t p)\<lparr>chan := None\<rparr>)\<rparr>))"
    if t: "running p t" "lock_free l t" "intr_enabled t = intr_enabled s" and t': "t' = after_acquire (ProcLock p) t" for t t'
  proof -
    have "intena (cpus t (tp t)) = intr_enabled t" "cpu_quiet t" "lock_free (ProcLock p) t"
      using t(1) by (auto simp: running_def cpu_quiet_def Let_def)
    then have "t'\<lparr>cpus := (cpus t')(tp t' := (cpus t' (tp t'))\<lparr>intena := intr_enabled s\<rparr>)\<rparr> = t'"
      using t(3) by (intro intena_triv) (simp add: t' after_acquire_def)
    then show ?thesis
      using t \<open>cpu_quiet t\<close> \<open>lock_free (ProcLock p) t\<close>
      by (simp add: kexec upd_proc_def t' release_restores crit acquire_free)
  qed
  ultimately show ?thesis by (intro exI [of _ _]) auto
qed


section \<open>Allocating a process\<close>

lemma kmem_rep_ptable [simp]:
  "kmem_rep (s\<lparr>procs := f\<rparr>) ps = kmem_rep s ps" "kmem_rep (s\<lparr>nextpid := n\<rparr>) ps = kmem_rep s ps"
  "vm_rep (s\<lparr>procs := f\<rparr>) l pt ps = vm_rep s l pt ps"
  by (simp_all add: kmem_rep_def vm_rep_def)

lemma kmem_rep_acquired:
  assumes "kmem_rep s ps" "l \<noteq> KmemLock"
  shows "kmem_rep (after_acquire l s) ps"
  using assms after_acquire_quiet [of s l] after_acquire_lock_free [of KmemLock s l]
  by (simp add: kmem_rep_def)

lemma kmem_frame_ptable:
  assumes "kmem_frame s s'"
  shows "procs s' = procs s" "nextpid s' = nextpid s" "trampoline s' = trampoline s"
    "forkret_pc s' = forkret_pc s" "initproc s' = initproc s"
    "cpus s' = cpus s" "tp s' = tp s" "sstatus s' = sstatus s" "locks s' = locks s"
proof -
  note e = assms [unfolded kmem_frame_def]
  show "procs s' = procs s" "nextpid s' = nextpid s" "trampoline s' = trampoline s"
    "forkret_pc s' = forkret_pc s" "initproc s' = initproc s"
    "cpus s' = cpus s" "tp s' = tp s" "sstatus s' = sstatus s" "locks s' = locks s"
    using arg_cong [OF e, of procs] arg_cong [OF e, of nextpid] arg_cong [OF e, of trampoline]
      arg_cong [OF e, of forkret_pc] arg_cong [OF e, of initproc] arg_cong [OF e, of cpus]
      arg_cong [OF e, of tp] arg_cong [OF e, of sstatus] arg_cong [OF e, of locks] by simp_all
qed

lemma uvmcreate_spec:
  assumes "kmem_rep s (q # ps)"
  shows "\<exists>s'. uvmcreate s = Ok q s' \<and> vm_rep s' 2 q ps \<and> kmem_frame s s' \<and>
    (\<forall>va. pt_look 2 (phys s') q va = 0) \<and> frame_on {q} (phys s) (phys s') \<and> pt_pages 2 (phys s') q = {q}"
proof -
  obtain s1 where s1: "kalloc s = Ok q s1" "kmem_rep s1 ps" "\<forall>a. \<not> in_page q a \<longrightarrow> phys s1 a = phys s a"
    using kalloc_Cons [OF assms] by blast
  note fr = kalloc_frame [OF assms s1(1)]
  have q: "ram_page (kend s) q" "q \<noteq> 0" "q \<notin> set ps"
    using assms ram_page_nonzero by (auto simp: kmem_rep_def)
  let ?m = "memset q 0 PGSIZE (phys s1)"
  let ?s' = "s1\<lparr>phys := ?m\<rparr>"
  have z: "\<forall>a. in_page q a \<longrightarrow> ?m a = 0" by (simp add: memset_page)
  have f: "frame_on {q} (phys s1) ?m" by (auto simp: frame_on_def memset_page)
  have "agree_on (set ps) (phys s1) ?m"
    by (rule frame_on_agree [OF f]) (use q kmem_rep_aligned [OF s1(2)] ram_page_aligned in auto)
  then have "kmem_rep ?s' ps" by (rule kmem_rep_phys [OF s1(2)])
  then have "vm_rep ?s' 2 q ps"
    using zero_page_tree(1,2) [OF z, of 2] q kmem_frame_kend [OF fr] ram_page_aligned by (simp add: vm_rep_def)
  moreover have "kmem_frame s ?s'" by (rule kmem_frame_trans [OF fr]) simp
  moreover have "uvmcreate s = Ok q ?s'" using q by (simp add: uvmcreate_def kexec s1(1) upd_phys_def)
  moreover have "frame_on {q} (phys s) ?m" using f s1(3) by (simp add: frame_on_def)
  ultimately show ?thesis
    using zero_page_tree(1,3) [OF z, of 2] by (intro exI [of _ ?s']) simp
qed

lemma TRAMP_facts:
  "page_aligned TRAMPOLINE" "page_aligned TRAPFRAME" "unat TRAMPOLINE + unat (PGSIZE :: uint64) \<le> 2 ^ 38"
  "unat TRAPFRAME + unat (PGSIZE :: uint64) \<le> 2 ^ 38" "TRAMPOLINE < MAXVA" "TRAPFRAME < MAXVA" "TRAPFRAME \<noteq> TRAMPOLINE"
  by (simp_all add: page_aligned_def TRAMPOLINE_def TRAPFRAME_def MAXVA_def PGSIZE_def)

lemma mappages_one:
  assumes "vm_rep s 2 pt ps" "page_aligned va" "unat va + unat (PGSIZE :: uint64) \<le> 2 ^ 38"
    "\<not> pte_valid (pt_look 2 (phys s) pt va)" "2 \<le> length ps"
  shows "\<exists>s' ps'. mappages pt va PGSIZE pa perm s = Ok 0 s' \<and> length ps \<le> length ps' + 2 \<and>
    mapped pt ps s ps' s' (\<lambda>x. if PGROUNDDOWN x = va then PA2PTE pa OR perm OR PTE_V else pt_look 2 (phys s) pt x)"
proof -
  have p: "(PGSIZE :: uint64) = of_nat (4096 * 1)" "unat (PGSIZE :: uint64) = 4096" by (simp_all add: PGSIZE_def)
  obtain k s' ps' r where m: "mappages_loop 1 pt va va pa perm s = Ok r s'"
    "mapped pt ps s ps' s' (map_range k va pa perm (pt_look 2 (phys s) pt))"
    "r = 0 \<and> k = 1 \<and> length ps \<le> length ps' + 2 * k \<or> r = -1 \<and> k \<le> 0 \<and> ps' = [] \<and> length ps < 2 * k + 2"
    using mappages_loop_mapped [OF assms(1,2), of 0 pa perm] assms(3,4) p(2) by auto
  then have "r = 0" "k = 1" "length ps \<le> length ps' + 2" using assms(5) by auto
  moreover have "mappages pt va PGSIZE pa perm s = mappages_loop 1 pt va va pa perm s"
    using assms(2) by (simp add: mappages_def page_aligned_def PGSIZE_def)
  ultimately show ?thesis using m by (intro exI [of _ s'] exI [of _ ps']) simp
qed

lemma find_unused_eq:
  assumes "cpu_quiet s" "proc_locks_free s"
  shows "find_unused s = (case find (\<lambda>p. state (procs s p) = UNUSED) [0..<NPROC] of
      None \<Rightarrow> Ok None s | Some p \<Rightarrow> Ok (Some p) (after_acquire (ProcLock p) s))"
  unfolding find_unused_def
proof (rule for_find_first)
  fix p assume "p \<in> set [0..<NPROC]"
  then have l: "lock_free (ProcLock p) s" using assms(2) by (simp add: proc_locks_free_def)
  show "seq (acquire (ProcLock p)) (bind (get_proc p) (\<lambda>q. if state q = UNUSED then return (Some p)
       else seq (release (ProcLock p)) (return None))) s =
    (if state (procs s p) = UNUSED then Ok (Some p) (after_acquire (ProcLock p) s) else Ok None s)"
    by (simp add: proc_exec acquire_free assms(1) l release_restores [OF assms(1) l] crit)
qed


text \<open>The address space of a new process: trampoline and trapframe only.\<close>

definition fresh_space :: "uint64 \<Rightarrow> uint64 \<Rightarrow> uint64 \<Rightarrow> uint64" where
  "fresh_space tramp tf va =
     (if PGROUNDDOWN va = TRAPFRAME then PA2PTE tf OR (PTE_R OR PTE_W) OR PTE_V
      else if PGROUNDDOWN va = TRAMPOLINE then PA2PTE tramp OR (PTE_R OR PTE_X) OR PTE_V
      else 0)"

lemma proc_pagetable_spec:
  fixes s :: "'z ptable_scheme"
  assumes "kmem_rep s ps" "5 \<le> length ps"
  shows "\<exists>pt s' ps'. proc_pagetable p s = Ok pt s' \<and> pt \<noteq> 0 \<and> vm_rep s' 2 pt ps' \<and> kmem_frame s s' \<and>
    (\<forall>va < MAXVA. pt_look 2 (phys s') pt va = fresh_space (trampoline s) (trapframe (procs s p)) va) \<and>
    pt_pages 2 (phys s') pt \<subseteq> set ps"
proof -
  obtain q qs where ps: "ps = q # qs" "4 \<le> length qs" using assms(2) by (cases ps) auto
  obtain s1 where s1: "uvmcreate s = Ok q s1" "vm_rep s1 2 q qs" "kmem_frame s s1"
    "\<And>va. pt_look 2 (phys s1) q va = 0" "pt_pages 2 (phys s1) q = {q}"
    using uvmcreate_spec assms(1) ps(1) by blast
  have q: "q \<noteq> 0" using assms(1) ps(1) ram_page_nonzero by (auto simp: kmem_rep_def)
  have free: "\<not> pte_valid (pt_look 2 (phys s1) q TRAMPOLINE)" by (simp add: s1(4) pte_valid_def)
  have "2 \<le> length qs" using ps(2) by simp
  from mappages_one [OF s1(2) TRAMP_facts(1,3) free this, of "trampoline s" "PTE_R OR PTE_X"]
  obtain s2 ps2 where s2: "mappages q TRAMPOLINE PGSIZE (trampoline s) (PTE_R OR PTE_X) s1 = Ok 0 s2"
    "length qs \<le> length ps2 + 2"
    "mapped q qs s1 ps2 s2 (\<lambda>x. if PGROUNDDOWN x = TRAMPOLINE then PA2PTE (trampoline s) OR (PTE_R OR PTE_X) OR PTE_V
       else pt_look 2 (phys s1) q x)" by blast
  have v2: "vm_rep s2 2 q ps2" "kmem_frame s1 s2" and l2: "\<And>x. x < MAXVA \<Longrightarrow> pt_look 2 (phys s2) q x =
      (if PGROUNDDOWN x = TRAMPOLINE then PA2PTE (trampoline s) OR (PTE_R OR PTE_X) OR PTE_V else 0)"
    using s2(3) s1(4) by (simp_all add: mapped_def)
  have free2: "\<not> pte_valid (pt_look 2 (phys s2) q TRAPFRAME)" "2 \<le> length ps2"
    using l2 [OF TRAMP_facts(6)] TRAMP_facts(2,7) s2(2) ps(2) by (simp_all add: pte_valid_def)
  from mappages_one [OF v2(1) TRAMP_facts(2,4) free2, of "trapframe (procs s p)" "PTE_R OR PTE_W"]
  obtain s3 ps3 where s3: "mappages q TRAPFRAME PGSIZE (trapframe (procs s p)) (PTE_R OR PTE_W) s2 = Ok 0 s3"
    "mapped q ps2 s2 ps3 s3 (\<lambda>x. if PGROUNDDOWN x = TRAPFRAME then PA2PTE (trapframe (procs s p)) OR (PTE_R OR PTE_W) OR PTE_V
       else pt_look 2 (phys s2) q x)" by blast
  have fr: "kmem_frame s s2" using kmem_frame_trans [OF s1(3) v2(2)] .
  have "proc_pagetable p s = Ok q s3"
    using s1(1) s2(1) s3(1) q kmem_frame_ptable(1) [OF fr] kmem_frame_ptable(3) [OF s1(3)]
    by (simp add: proc_pagetable_def proc_exec)
  moreover have "pt_pages 2 (phys s3) q \<subseteq> set ps"
    using s3(2) s2(3) s1(5) by (auto simp: mapped_def ps(1))
  moreover have "kmem_frame s s3" "vm_rep s3 2 q ps3" using s3(2) kmem_frame_trans [OF fr] by (simp_all add: mapped_def)
  moreover have "pt_look 2 (phys s3) q va = fresh_space (trampoline s) (trapframe (procs s p)) va" if "va < MAXVA" for va
    using s3(2) l2 that by (simp add: mapped_def fresh_space_def)
  ultimately show ?thesis using q by blast
qed

lemma allocproc_spec:
  fixes s :: "'z ptable_scheme"
  assumes rep: "kmem_rep s ps" "6 \<le> length ps" and l: "proc_locks_free s" "lock_free PidLock s"
    and p: "find (\<lambda>p. state (procs s p) = UNUSED) [0..<NPROC] = Some p"
  shows "\<exists>s' ps' tf pt. allocproc s = Ok (Some p) s' \<and> lock_held (ProcLock p) s' \<and> vm_rep s' 2 pt ps' \<and>
    nextpid s' = nextpid s + 1 \<and>
    procs s' = (procs s)(p := (procs s p)\<lparr>pid := nextpid s, state := USED, trapframe := tf, pagetable := pt,
      pctx := \<lparr>ctx_ra = forkret_pc s, ctx_sp = kstack (procs s p) + PGSIZE, ctx_s = replicate 12 0\<rparr>\<rparr>) \<and>
    tf \<in> set ps \<and> tf \<notin> pt_pages 2 (phys s') pt \<and>
    (\<forall>va < MAXVA. pt_look 2 (phys s') pt va = fresh_space (trampoline s) tf va)"
proof -
  obtain tf qs where ps: "ps = tf # qs" "5 \<le> length qs" using rep(2) by (cases ps) auto
  have q: "cpu_quiet s" using rep(1) by (simp add: kmem_rep_def)
  let ?a = "after_acquire (ProcLock p) s"
  have aq: "cpu_quiet ?a" "lock_free PidLock ?a"
    using q l(2) by (auto intro: after_acquire_quiet after_acquire_lock_free)
  let ?b = "?a\<lparr>nextpid := nextpid s + 1, procs := (procs s)(p := (procs s p)\<lparr>pid := nextpid s, state := USED\<rparr>)\<rparr>"
  have "kmem_rep ?b (tf # qs)" using kmem_rep_acquired [OF rep(1), of "ProcLock p"] ps by simp
  from kalloc_Cons [OF this] kalloc_frame [OF this] obtain s1 where s1: "kalloc ?b = Ok tf s1" "kmem_rep s1 qs" "kmem_frame ?b s1"
    by blast
  have tf: "tf \<noteq> 0" "tf \<notin> set qs" using rep(1) ps ram_page_nonzero by (auto simp: kmem_rep_def)
  let ?c = "s1\<lparr>procs := (procs s1)(p := (procs s1 p)\<lparr>trapframe := tf\<rparr>)\<rparr>"
  have "kmem_rep ?c qs" using s1(2) by simp
  from proc_pagetable_spec [OF this ps(2), of p] obtain pt s2 ps2 where
    s2: "proc_pagetable p ?c = Ok pt s2" "pt \<noteq> 0" "vm_rep s2 2 pt ps2" "kmem_frame ?c s2"
      "\<And>va. va < MAXVA \<Longrightarrow> pt_look 2 (phys s2) pt va = fresh_space (trampoline s1) tf va"
      "pt_pages 2 (phys s2) pt \<subseteq> set qs" by auto
  note f1 = kmem_frame_ptable [OF s1(3)] and f2 = kmem_frame_ptable [OF s2(4)]
  define s3 where "s3 = s2\<lparr>procs := (procs s)(p := (procs s p)\<lparr>pid := nextpid s, state := USED, trapframe := tf, pagetable := pt,
      pctx := \<lparr>ctx_ra = forkret_pc s, ctx_sp = kstack (procs s p) + PGSIZE, ctx_s = replicate 12 0\<rparr>\<rparr>)\<rparr>"
  have "allocproc s = Ok (Some p) s3"
    using p tf(1) s2(1,2) aq
    by (simp add: allocproc_def kexec upd_proc_def find_unused_eq q l allocpid_eq s1(1) f1 f2 s3_def)
  moreover have "lock_held (ProcLock p) s3"
    using f1 f2 by (simp add: s3_def lock_held_def after_acquire_def)
  moreover have "nextpid s3 = nextpid s + 1" "vm_rep s3 2 pt ps2" "phys s3 = phys s2" using f1 f2 s2(3) by (simp_all add: s3_def)
  moreover have "procs s3 = (procs s)(p := (procs s p)\<lparr>pid := nextpid s, state := USED, trapframe := tf, pagetable := pt,
      pctx := \<lparr>ctx_ra = forkret_pc s, ctx_sp = kstack (procs s p) + PGSIZE, ctx_s = replicate 12 0\<rparr>\<rparr>)"
    by (simp add: s3_def)
  moreover have "trampoline s1 = trampoline s" using f1 by simp
  ultimately show ?thesis using s2(5,6) ps(1) tf(2)
    by (intro exI [of _ s3] exI [of _ ps2] exI [of _ tf] exI [of _ pt]) auto
qed

section \<open>Properties\<close>

definition pids_ok :: "'z ptable_scheme \<Rightarrow> bool" where
  "pids_ok s \<longleftrightarrow> (\<forall>p < NPROC. pid (procs s p) < nextpid s) \<and>
     (\<forall>p < NPROC. \<forall>q < NPROC. pid (procs s p) = pid (procs s q) \<longrightarrow> pid (procs s p) \<noteq> 0 \<longrightarrow> p = q)"

lemma pids_ok_alloc:
  assumes "pids_ok s" "procs s' = (procs s)(p := q)" "pid q = nextpid s" "nextpid s' = nextpid s + 1"
  shows "pids_ok s'"
proof -
  have lt: "pid (procs s r) < nextpid s" if "r < NPROC" for r
    using assms(1) that by (simp add: pids_ok_def)
  have inj: "a = b" if "a < NPROC" "b < NPROC" "pid (procs s a) = pid (procs s b)" "pid (procs s a) \<noteq> 0" for a b
    using assms(1) that by (auto simp: pids_ok_def)
  have pr: "pid (procs s' r) = (if r = p then nextpid s else pid (procs s r))" for r
    by (simp add: assms(2,3))
  have "pid (procs s' r) < nextpid s'" if "r < NPROC" for r
    using lt [OF that] by (simp add: pr assms(4))
  moreover have "a = b" if "a < NPROC" "b < NPROC" "pid (procs s' a) = pid (procs s' b)" "pid (procs s' a) \<noteq> 0" for a b
    using that inj [of a b] lt [of a] lt [of b] by (auto simp: pr split: if_splits)
  ultimately show ?thesis by (simp add: pids_ok_def)
qed


text \<open>
  \<open>wakeup(ch)\<close> changes exactly the processes, other than the caller, that sleep on \<open>ch\<close>: they
  become runnable; nothing else of the state changes.
\<close>

theorem wakeup_wakes_sleepers:
  assumes "cpu_quiet s" "proc_locks_free s"
  shows "\<exists>f. wakeup ch s = Ok () (s\<lparr>procs := f\<rparr>) \<and>
    (\<forall>p. f p = (if p < NPROC \<and> cur s \<noteq> Some p \<and> state (procs s p) = SLEEPING \<and> chan (procs s p) = ch
       then (procs s p)\<lparr>state := RUNNABLE\<rparr> else procs s p))"
  using wakeup_eq [OF assms] by (intro exI [of _ "woken {..<NPROC} ch s"]) (auto simp: woken_def)


text \<open>
  Neither \<open>freeproc\<close> nor \<open>allocproc\<close> resets \<open>syscall_count\<close>: a process created in a recycled
  slot starts with the system calls that the previous owner of the slot had made.
\<close>

theorem recycled_slot_keeps_count:
  fixes s :: "'z ptable_scheme"
  assumes "kmem_rep s ps" "6 \<le> length ps" "proc_locks_free s" "lock_free PidLock s"
    and "find (\<lambda>p. state (procs s p) = UNUSED) [0..<NPROC] = Some p"
  shows "\<exists>s'. allocproc s = Ok (Some p) s' \<and> syscall_count (procs s' p) = syscall_count (procs s p)"
  using allocproc_spec [OF assms] by fastforce

section \<open>Concrete states\<close>

definition no_proc :: proc where
  "no_proc = \<lparr>state = UNUSED, chan = None, killed_flag = 0, xstate = 0, pid = 0, parent = None, kstack = 0,
     sz = 0, pagetable = 0, trapframe = 0, pctx = \<lparr>ctx_ra = 0, ctx_sp = 0, ctx_s = []\<rparr>, ofile = (\<lambda>_. None),
     cwd = None, pname = replicate 16 0, syscall_count = 0\<rparr>"

definition six_pages :: "uint64 list" where
  "six_pages = [0x87fff000, 0x87ffe000, 0x87ffd000, 0x87ffc000, 0x87ffb000, 0x87ffa000]"

text \<open>Process 0 runs; slot 1 was used by a process that had made 7 system calls.\<close>

definition demo_procs :: ptable where
  "demo_procs = \<lparr>tp = 0, sstatus = 0, cpus = (\<lambda>_. \<lparr>cproc = Some 0, noff = 0, intena = False\<rparr>),
     locks = (\<lambda>_. \<lparr>locked = 0, lname = [], lcpu = None\<rparr>),
     phys = chain_mem six_pages, freelist = 0x87fff000, kend = 0x80020000,
     procs = (\<lambda>_. no_proc)(0 := no_proc\<lparr>state := RUNNING, pid := 1\<rparr>, 1 := no_proc\<lparr>syscall_count := 7\<rparr>,
       2 := no_proc\<lparr>state := SLEEPING, pid := 2, chan := Some ChanTicks\<rparr>),
     nextpid = 3, initproc = Some 0, trampoline = 0x80007000, forkret_pc = 0x80001a00\<rparr>"

lemma demo_procs_quiet: "cpu_quiet demo_procs" "lock_free l demo_procs" "proc_locks_free demo_procs"
  by (simp_all add: demo_procs_def cpu_quiet_def intr_enabled_def lock_free_def proc_locks_free_def)

lemma demo_procs_rep: "kmem_rep demo_procs six_pages"
proof -
  have "distinct six_pages" "\<forall>p \<in> set six_pages. ram_page 0x80020000 p"
    by (simp_all add: six_pages_def ram_page_def page_aligned_def PGSIZE_def PHYSTOP_def KERNBASE_def)
  then have "free_chain (chain_mem six_pages) 0x87fff000 six_pages"
    using chain_mem_chain [of six_pages] by (auto simp: six_pages_def ram_page_aligned)
  then show ?thesis
    using \<open>distinct six_pages\<close> \<open>\<forall>p \<in> set six_pages. ram_page 0x80020000 p\<close> demo_procs_quiet
    by (simp add: kmem_rep_def demo_procs_def)
qed

lemma demo_procs_unused: "find (\<lambda>p. state (procs demo_procs p) = UNUSED) [0..<NPROC] = Some 1"
  by (simp add: NPROC_def demo_procs_def no_proc_def upt_rec)

lemma demo_procs_pids: "pids_ok demo_procs"
  by (auto simp: pids_ok_def demo_procs_def no_proc_def)


theorem wakeup_wakes_sleepers_witness:
  "\<exists>s'. wakeup (Some ChanTicks) demo_procs = Ok () s' \<and> state (procs s' 2) = RUNNABLE"
  using wakeup_wakes_sleepers [OF demo_procs_quiet(1,3), of "Some ChanTicks"]
  by (auto simp: NPROC_def cur_def demo_procs_def)


theorem recycled_slot_keeps_count_witness:
  "\<exists>s'. allocproc demo_procs = Ok (Some 1) s' \<and> syscall_count (procs s' 1) = 7"
  using recycled_slot_keeps_count [OF demo_procs_rep _ demo_procs_quiet(3,2) demo_procs_unused]
  by (auto simp: six_pages_def demo_procs_def)

end
