(* ===== verification/Xv6_Sleeplock.thy ===== *)
theory Xv6_Sleeplock
  imports Xv6_Proc
begin

text \<open>
  \<open>kernel/sleeplock.c\<close>.  A \<open>struct sleeplock\<close> is addressed by the \<open>lockid\<close> of the spinlock inside
  it; the record \<open>slocks\<close> adds the other fields of all sleeplocks to the state.
\<close>

record sleeplock =
  slocked :: uint
  sname :: string
  spid :: int

record slocks = ptable +
  sleeplocks :: "lockid \<Rightarrow> sleeplock"

definition upd_sleeplock :: "lockid \<Rightarrow> (sleeplock \<Rightarrow> sleeplock) \<Rightarrow> ('z slocks_scheme, unit) kmon" where
  "upd_sleeplock l f = modify (\<lambda>s. s\<lparr>sleeplocks := (sleeplocks s)(l := f (sleeplocks s l))\<rparr>)"

definition initsleeplock :: "lockid \<Rightarrow> string \<Rightarrow> ('z slocks_scheme, unit) kmon" where
  "initsleeplock l name =
     seq (initlock l ''sleep lock'') (
     seq (upd_sleeplock l (\<lambda>k. k\<lparr>sname := name\<rparr>)) (
     seq (upd_sleeplock l (\<lambda>k. k\<lparr>slocked := 0\<rparr>))
         (upd_sleeplock l (\<lambda>k. k\<lparr>spid := 0\<rparr>))))"

definition acquiresleep :: "lockid \<Rightarrow> ('z slocks_scheme, unit) kmon" where
  "acquiresleep l =
     seq (acquire l) (
     seq (while_rounds ROUNDS (gets (\<lambda>s. slocked (sleeplocks s l) \<noteq> 0)) (sleep (ChanSleeplock l) l)) (
     seq (upd_sleeplock l (\<lambda>k. k\<lparr>slocked := 1\<rparr>)) (
     bind curproc (\<lambda>p.
     bind (get_proc p) (\<lambda>q.
     seq (upd_sleeplock l (\<lambda>k. k\<lparr>spid := pid q\<rparr>))
         (release l))))))"

definition releasesleep :: "lockid \<Rightarrow> ('z slocks_scheme, unit) kmon" where
  "releasesleep l =
     seq (acquire l) (
     seq (upd_sleeplock l (\<lambda>k. k\<lparr>slocked := 0\<rparr>)) (
     seq (upd_sleeplock l (\<lambda>k. k\<lparr>spid := 0\<rparr>)) (
     seq (wakeup (Some (ChanSleeplock l)))
         (release l))))"

definition holdingsleep :: "lockid \<Rightarrow> ('z slocks_scheme, bool) kmon" where
  "holdingsleep l =
     seq (acquire l) (
     bind (gets (\<lambda>s. sleeplocks s l)) (\<lambda>k.
     bind (if slocked k \<noteq> 0 then bind curproc (\<lambda>p. bind (get_proc p) (\<lambda>q. return (spid k = pid q)))
           else return False) (\<lambda>r.
     seq (release l)
         (return r))))"

section \<open>Uncontended use\<close>

text \<open>
  \<open>calm p s\<close>: process \<open>p\<close> runs in the kernel, every spinlock is free and nobody sleeps.  In such a
  state the sleeplock operations return at once.
\<close>

definition calm :: "nat \<Rightarrow> 'z ptable_scheme \<Rightarrow> bool" where
  "calm p s \<longleftrightarrow> cpu_quiet s \<and> (\<forall>l. lock_free l s) \<and> cur s = Some p \<and> (\<forall>q. state (procs s q) \<noteq> SLEEPING)"

lemma calmD:
  assumes "calm p s"
  shows "cpu_quiet s" "lock_free l s" "cur s = Some p" "proc_locks_free s" "state (procs s q) \<noteq> SLEEPING"
  using assms by (simp_all add: calm_def proc_locks_free_def)

lemma calm_acquired:
  assumes "calm p s" "\<And>q. l \<noteq> ProcLock q"
  shows "cpu_quiet (after_acquire l s)" "proc_locks_free (after_acquire l s)"
proof -
  show "cpu_quiet (after_acquire l s)" using assms(1) by (simp add: calm_def after_acquire_quiet)
  show "proc_locks_free (after_acquire l s)"
    unfolding proc_locks_free_def
  proof (intro allI impI after_acquire_lock_free)
    show "lock_free (ProcLock q) s" for q using assms(1) by (simp add: calm_def)
    show "ProcLock q \<noteq> l" for q using assms(2) [of q] by blast
  qed
qed

lemma slocks_commute [crit]:
  "restore s (t\<lparr>sleeplocks := f\<rparr>) = (restore s t)\<lparr>sleeplocks := f\<rparr>"
  "same_machine s (t\<lparr>sleeplocks := f\<rparr>) = same_machine s t"
  by (simp_all add: restore_def same_machine_def)

lemma slocks_upd [simp]:
  "cpu_quiet (s\<lparr>sleeplocks := f\<rparr>) = cpu_quiet s" "lock_free l (s\<lparr>sleeplocks := f\<rparr>) = lock_free l s"
  "cur (s\<lparr>sleeplocks := f\<rparr>) = cur s" "calm p (s\<lparr>sleeplocks := f\<rparr>) = calm p s"
  "proc_locks_free (s\<lparr>sleeplocks := f\<rparr>) = proc_locks_free s"
  "sleeplocks (after_acquire l s) = sleeplocks s"
  by (simp_all add: cpu_quiet_def lock_free_def intr_enabled_def cur_def calm_def proc_locks_free_def after_acquire_def)

lemma wakeup_nobody:
  assumes "cpu_quiet s" "proc_locks_free s" "\<And>q. state (procs s q) \<noteq> SLEEPING"
  shows "wakeup ch s = Ok () s"
proof -
  have "woken {..<NPROC} ch s = procs s" using assms(3) by (auto simp: woken_def)
  then show ?thesis by (simp add: wakeup_eq [OF assms(1,2)])
qed

lemma acquiresleep_free:
  assumes "calm p s" "slocked (sleeplocks s l) = 0"
  shows "acquiresleep l s =
    Ok () (s\<lparr>sleeplocks := (sleeplocks s)(l := (sleeplocks s l)\<lparr>slocked := 1, spid := pid (procs s p)\<rparr>)\<rparr>)"
proof -
  note c = calmD [OF assms(1)]
  have "while_rounds ROUNDS (gets (\<lambda>s. slocked (sleeplocks s l) \<noteq> 0)) (sleep (ChanSleeplock l) l) (after_acquire l s) =
      Ok () (after_acquire l s)"
    by (rule while_rounds_done) (simp add: assms(2))
  then show ?thesis
    using after_acquire_quiet [OF c(1), of l] c
    by (simp add: acquiresleep_def kexec acquire_free upd_sleeplock_def curproc_quiet get_proc_def
        release_restores [OF c(1,2)] crit)
qed

lemma releasesleep_calm:
  assumes "calm p s" "\<And>q. l \<noteq> ProcLock q"
  shows "releasesleep l s =
    Ok () (s\<lparr>sleeplocks := (sleeplocks s)(l := (sleeplocks s l)\<lparr>slocked := 0, spid := 0\<rparr>)\<rparr>)"
  using calmD [OF assms(1)] calm_acquired [OF assms]
  by (simp add: releasesleep_def kexec acquire_free upd_sleeplock_def wakeup_nobody
      release_restores crit)

lemma holdingsleep_calm:
  assumes "calm p s"
  shows "holdingsleep l s = Ok (slocked (sleeplocks s l) \<noteq> 0 \<and> spid (sleeplocks s l) = pid (procs s p)) s"
  using calmD [OF assms] after_acquire_quiet [of s l]
  by (auto simp: holdingsleep_def kexec acquire_free curproc_quiet get_proc_def release_restores crit)

end
