(* ===== verification/Xv6_Bio.thy ===== *)
theory Xv6_Bio
  imports Xv6_Sleeplock
begin

text \<open>
  \<open>kernel/bio.c\<close>: the buffer cache.  Buffers are the nodes \<open>0..<NBUF\<close> of a circular doubly linked
  list through \<open>bprev\<close> and \<open>bnext\<close> whose head \<open>bcache.head\<close> is node \<open>NBUF\<close>.  The disk behind the
  cache is an image, a block of bytes for each block number, together with the list of all block
  writes the device has completed; \<open>disk_rw\<close> is the contract of \<open>virtio_disk_rw\<close> (the driver
  passes the block number and the buffer to the device and returns when the transfer is done).
\<close>

section \<open>State and operations\<close>

definition BSIZE :: nat where "BSIZE = 1024"
definition MAXOPBLOCKS :: nat where "MAXOPBLOCKS = 10"
definition NBUF :: nat where "NBUF = MAXOPBLOCKS * 3"

record buf =
  valid :: bool
  bdev :: uint
  blockno :: uint
  refcnt :: uint
  bprev :: nat
  bnext :: nat
  bdata :: "byte list"

record bcache = slocks +
  bufs :: "nat \<Rightarrow> buf"
  disk :: "uint \<Rightarrow> byte list"
  dwrites :: "(uint \<times> byte list) list"

definition get_buf :: "nat \<Rightarrow> ('z bcache_scheme, buf) kmon" where
  "get_buf b = gets (\<lambda>s. bufs s b)"

definition upd_buf :: "nat \<Rightarrow> (buf \<Rightarrow> buf) \<Rightarrow> ('z bcache_scheme, unit) kmon" where
  "upd_buf b f = modify (\<lambda>s. s\<lparr>bufs := (bufs s)(b := f (bufs s b))\<rparr>)"

definition disk_rw :: "nat \<Rightarrow> bool \<Rightarrow> ('z bcache_scheme, unit) kmon" where
  "disk_rw b write =
     bind (get_buf b) (\<lambda>x.
     if write then modify (\<lambda>s. s\<lparr>disk := (disk s)(blockno x := bdata x),
                                 dwrites := dwrites s @ [(blockno x, bdata x)]\<rparr>)
     else bind (gets (\<lambda>s. disk s (blockno x))) (\<lambda>d. upd_buf b (\<lambda>x. x\<lparr>bdata := d\<rparr>)))"

definition bhead :: nat where "bhead = NBUF"

definition binit_body :: "nat \<Rightarrow> ('z bcache_scheme, unit) kmon" where
  "binit_body b = bind (get_buf bhead) (\<lambda>h.
       seq (upd_buf b (\<lambda>x. x\<lparr>bnext := bnext h\<rparr>)) (
       seq (upd_buf b (\<lambda>x. x\<lparr>bprev := bhead\<rparr>)) (
       seq (initsleeplock (BufLock b) ''buffer'') (
       bind (get_buf bhead) (\<lambda>h.
       seq (upd_buf (bnext h) (\<lambda>x. x\<lparr>bprev := b\<rparr>))
           (upd_buf bhead (\<lambda>h. h\<lparr>bnext := b\<rparr>)))))))"

definition binit :: "('z bcache_scheme, unit) kmon" where
  "binit =
     seq (initlock BcacheLock ''bcache'') (
     seq (upd_buf bhead (\<lambda>h. h\<lparr>bprev := bhead\<rparr>)) (
     seq (upd_buf bhead (\<lambda>h. h\<lparr>bnext := bhead\<rparr>))
         (for_each [0..<NBUF] binit_body)))"

text \<open>
  The two traversals of \<open>bget\<close>, forward from \<open>head.next\<close> and backward from \<open>head.prev\<close>.  The
  counter is the number of nodes of the list: a longer walk has left the circle.
\<close>

primrec bget_cached :: "nat \<Rightarrow> nat \<Rightarrow> uint \<Rightarrow> uint \<Rightarrow> ('z bcache_scheme, nat option) kmon" where
  "bget_cached 0 b dev bno = (if b = bhead then return None else hang)"
| "bget_cached (Suc n) b dev bno =
     (if b = bhead then return None
      else bind (get_buf b) (\<lambda>x.
      if bdev x = dev \<and> blockno x = bno then return (Some b)
      else bget_cached n (bnext x) dev bno))"

primrec bget_unused :: "nat \<Rightarrow> nat \<Rightarrow> ('z bcache_scheme, nat option) kmon" where
  "bget_unused 0 b = (if b = bhead then return None else hang)"
| "bget_unused (Suc n) b =
     (if b = bhead then return None
      else bind (get_buf b) (\<lambda>x.
      if refcnt x = 0 then return (Some b)
      else bget_unused n (bprev x)))"

definition bget :: "uint \<Rightarrow> uint \<Rightarrow> ('z bcache_scheme, nat) kmon" where
  "bget dev bno =
     seq (acquire BcacheLock) (
     bind (get_buf bhead) (\<lambda>h.
     bind (bget_cached NBUF (bnext h) dev bno) (\<lambda>r. case r of
       Some b \<Rightarrow>
         seq (upd_buf b (\<lambda>x. x\<lparr>refcnt := refcnt x + 1\<rparr>)) (
         seq (release BcacheLock) (
         seq (acquiresleep (BufLock b))
             (return b)))
     | None \<Rightarrow>
         bind (bget_unused NBUF (bprev h)) (\<lambda>r. case r of
           Some b \<Rightarrow>
             seq (upd_buf b (\<lambda>x. x\<lparr>bdev := dev, blockno := bno, valid := False, refcnt := 1\<rparr>)) (
             seq (release BcacheLock) (
             seq (acquiresleep (BufLock b))
                 (return b)))
         | None \<Rightarrow> panic ''bget: no buffers''))))"

definition bread :: "uint \<Rightarrow> uint \<Rightarrow> ('z bcache_scheme, nat) kmon" where
  "bread dev bno =
     bind (bget dev bno) (\<lambda>b.
     bind (get_buf b) (\<lambda>x.
     seq (kwhen (\<not> valid x) (
       seq (disk_rw b False)
           (upd_buf b (\<lambda>x. x\<lparr>valid := True\<rparr>))))
         (return b)))"

definition bwrite :: "nat \<Rightarrow> ('z bcache_scheme, unit) kmon" where
  "bwrite b =
     bind (holdingsleep (BufLock b)) (\<lambda>h.
     if \<not> h then panic ''bwrite''
     else disk_rw b True)"

definition brelse :: "nat \<Rightarrow> ('z bcache_scheme, unit) kmon" where
  "brelse b =
     bind (holdingsleep (BufLock b)) (\<lambda>h.
     if \<not> h then panic ''brelse''
     else
     seq (releasesleep (BufLock b)) (
     seq (acquire BcacheLock) (
     seq (upd_buf b (\<lambda>x. x\<lparr>refcnt := refcnt x - 1\<rparr>)) (
     bind (get_buf b) (\<lambda>x.
     seq (kwhen (refcnt x = 0) (
       seq (upd_buf (bnext x) (\<lambda>y. y\<lparr>bprev := bprev x\<rparr>)) (
       seq (upd_buf (bprev x) (\<lambda>y. y\<lparr>bnext := bnext x\<rparr>)) (
       bind (get_buf bhead) (\<lambda>h.
       seq (upd_buf b (\<lambda>x. x\<lparr>bnext := bnext h\<rparr>)) (
       seq (upd_buf b (\<lambda>x. x\<lparr>bprev := bhead\<rparr>)) (
       bind (get_buf bhead) (\<lambda>h.
       seq (upd_buf (bnext h) (\<lambda>y. y\<lparr>bprev := b\<rparr>))
           (upd_buf bhead (\<lambda>h. h\<lparr>bnext := b\<rparr>))))))))))
         (release BcacheLock))))))"

definition bpin :: "nat \<Rightarrow> ('z bcache_scheme, unit) kmon" where
  "bpin b =
     seq (acquire BcacheLock) (
     seq (upd_buf b (\<lambda>x. x\<lparr>refcnt := refcnt x + 1\<rparr>))
         (release BcacheLock))"

definition bunpin :: "nat \<Rightarrow> ('z bcache_scheme, unit) kmon" where
  "bunpin b =
     seq (acquire BcacheLock) (
     seq (upd_buf b (\<lambda>x. x\<lparr>refcnt := refcnt x - 1\<rparr>))
         (release BcacheLock))"

section \<open>The list of buffers\<close>

fun links :: "(nat \<Rightarrow> buf) \<Rightarrow> nat \<Rightarrow> nat list \<Rightarrow> nat \<Rightarrow> bool" where
  "links B a [] z \<longleftrightarrow> bnext (B a) = z \<and> bprev (B z) = a"
| "links B a (x # xs) z \<longleftrightarrow> bnext (B a) = x \<and> bprev (B x) = a \<and> links B x xs z"

lemma links_append: "links B a (xs @ b # ys) z \<longleftrightarrow> links B a xs b \<and> links B b ys z"
  by (induction xs arbitrary: a) auto

lemma links_next: "links B a xs z \<Longrightarrow> bnext (B a) = hd (xs @ [z])"
  by (cases xs) auto

lemma links_prev: "links B a xs z \<Longrightarrow> bprev (B z) = last (a # xs)"
  by (induction xs arbitrary: a) auto

text \<open>Only the \<open>bnext\<close> of the nodes before the end and the \<open>bprev\<close> of those after the start matter.\<close>

lemma links_cong:
  assumes "links B a xs z" "\<And>i. i \<in> set (a # xs) \<Longrightarrow> bnext (B' i) = bnext (B i)"
    "\<And>i. i \<in> set (xs @ [z]) \<Longrightarrow> bprev (B' i) = bprev (B i)"
  shows "links B' a xs z"
  using assms by (induction xs arbitrary: a) auto

definition set_bprev :: "nat \<Rightarrow> nat \<Rightarrow> (nat \<Rightarrow> buf) \<Rightarrow> (nat \<Rightarrow> buf)" where
  "set_bprev i v B = B(i := (B i)\<lparr>bprev := v\<rparr>)"

definition set_bnext :: "nat \<Rightarrow> nat \<Rightarrow> (nat \<Rightarrow> buf) \<Rightarrow> (nat \<Rightarrow> buf)" where
  "set_bnext i v B = B(i := (B i)\<lparr>bnext := v\<rparr>)"

lemma set_link_sel [simp]:
  "bnext (set_bprev i v B j) = bnext (B j)" "bprev (set_bnext i v B j) = bprev (B j)"
  "bprev (set_bprev i v B j) = (if j = i then v else bprev (B j))"
  "bnext (set_bnext i v B j) = (if j = i then v else bnext (B j))"
  by (simp_all add: set_bprev_def set_bnext_def)

definition unlink :: "nat \<Rightarrow> (nat \<Rightarrow> buf) \<Rightarrow> (nat \<Rightarrow> buf)" where
  "unlink b B = set_bnext (bprev (B b)) (bnext (B b)) (set_bprev (bnext (B b)) (bprev (B b)) B)"

definition push_front :: "nat \<Rightarrow> nat \<Rightarrow> (nat \<Rightarrow> buf) \<Rightarrow> (nat \<Rightarrow> buf)" where
  "push_front h b B =
     (let B' = set_bprev b h (set_bnext b (bnext (B h)) B) in set_bnext h b (set_bprev (bnext (B' h)) b B'))"

lemma links_unlink:
  assumes "links B a (xs @ b # ys) z" "distinct (a # xs @ b # ys)" "z \<notin> set (xs @ b # ys)"
  shows "links (unlink b B) a (xs @ ys) z"
  using assms
proof (induction xs arbitrary: a)
  case Nil
  then have ab: "bnext (B a) = b" "bprev (B b) = a" and l: "links B b ys z" by auto
  note n = links_next [OF l]
  show ?case
  proof (cases ys)
    case Nil
    then show ?thesis using ab n by (simp add: unlink_def)
  next
    case (Cons y ys')
    have "links (unlink b B) y ys' z"
      by (rule links_cong [of B]) (use l Nil.prems Cons ab n in \<open>auto simp: unlink_def\<close>)
    then show ?thesis using ab n Cons by (simp add: unlink_def)
  qed
next
  case (Cons x xs)
  then have l: "bnext (B a) = x" "bprev (B x) = a" "links B x (xs @ b # ys) z" by auto
  have IH: "links (unlink b B) x (xs @ ys) z" by (rule Cons.IH) (use Cons.prems l in auto)
  have bx: "links B x xs b" "links B b ys z" using l(3) by (simp_all add: links_append)
  have p: "bprev (B b) \<in> set (x # xs)" using links_prev [OF bx(1)] by simp
  have n: "bnext (B b) \<in> set (ys @ [z])" using links_next [OF bx(2)] by (cases ys) auto
  have "bprev (B b) \<noteq> a" "bnext (B b) \<noteq> x" using p n Cons.prems(2,3) by auto
  then show ?case using IH l by (simp add: unlink_def)
qed

lemma links_push:
  assumes "links B h zs h" "b \<noteq> h" "b \<notin> set zs" "h \<notin> set zs" "distinct zs"
  shows "links (push_front h b B) h (b # zs) h"
proof (cases zs)
  case Nil
  then show ?thesis using assms by (simp add: push_front_def Let_def)
next
  case (Cons y ys)
  have "links (push_front h b B) y ys h"
    by (rule links_cong [of B]) (use assms Cons in \<open>auto simp: push_front_def Let_def\<close>)
  then show ?thesis using assms Cons by (auto simp: push_front_def Let_def)
qed

section \<open>Traversals\<close>

lemma bget_cached_find:
  assumes "links (bufs s) a xs bhead" "bhead \<notin> set xs" "length xs \<le> n"
  shows "bget_cached n (bnext (bufs s a)) dev bno s =
    Ok (find (\<lambda>b. bdev (bufs s b) = dev \<and> blockno (bufs s b) = bno) xs) s"
  using assms
proof (induction xs arbitrary: a n)
  case Nil
  then show ?case by (cases n) auto
next
  case (Cons x xs)
  then obtain m where n: "n = Suc m" by (cases n) auto
  then show ?case using Cons by (auto simp: kexec get_buf_def)
qed

lemma bget_unused_find:
  assumes "links (bufs s) bhead xs z" "bhead \<notin> set xs" "length xs \<le> n"
  shows "bget_unused n (bprev (bufs s z)) s = Ok (find (\<lambda>b. refcnt (bufs s b) = 0) (rev xs)) s"
  using assms
proof (induction xs arbitrary: z n rule: rev_induct)
  case Nil
  then show ?case by (cases n) auto
next
  case (snoc x xs)
  then obtain m where n: "n = Suc m" by (cases n) auto
  have l: "links (bufs s) bhead xs x" "bprev (bufs s z) = x" using snoc.prems(1) by (auto simp: links_append)
  show ?case using snoc.IH [OF l(1)] snoc.prems l(2) by (auto simp: n kexec get_buf_def)
qed


section \<open>Representation\<close>

text \<open>
  \<open>bcache_rep p dv held P s\<close>: the cache holds blocks of device \<open>dv\<close>; process \<open>p\<close> has locked the
  buffers \<open>held\<close>, the buffers \<open>P\<close> are pinned.  A buffer that is neither held nor pinned agrees with
  the disk, so that it may be recycled.
\<close>

definition buf_ok :: "nat \<Rightarrow> uint \<Rightarrow> nat set \<Rightarrow> nat set \<Rightarrow> 'z bcache_scheme \<Rightarrow> nat \<Rightarrow> bool" where
  "buf_ok p dv held P s i \<longleftrightarrow> (let x = bufs s i; k = sleeplocks s (BufLock i) in
     (bdev x = dv \<or> \<not> valid x) \<and>
     refcnt x = of_bool (i \<in> held) + of_bool (i \<in> P) \<and>
     slocked k = of_bool (i \<in> held) \<and> (i \<in> held \<longrightarrow> spid k = pid (procs s p)) \<and>
     (i \<in> held \<union> P \<longrightarrow> valid x) \<and> (valid x \<longrightarrow> length (bdata x) = BSIZE) \<and>
     (valid x \<longrightarrow> i \<notin> held \<union> P \<longrightarrow> bdata x = disk s (blockno x)))"

definition lru_ok :: "(nat \<Rightarrow> buf) \<Rightarrow> bool" where
  "lru_ok B \<longleftrightarrow> (\<exists>xs. links B bhead xs bhead \<and> distinct xs \<and> set xs = {..<NBUF})"

definition bcache_rep :: "nat \<Rightarrow> uint \<Rightarrow> nat set \<Rightarrow> nat set \<Rightarrow> 'z bcache_scheme \<Rightarrow> bool" where
  "bcache_rep p dv held P s \<longleftrightarrow> lru_ok (bufs s) \<and> held \<subseteq> {..<NBUF} \<and> P \<subseteq> {..<NBUF} \<and> dv \<noteq> 0 \<and>
     (\<forall>i < NBUF. buf_ok p dv held P s i) \<and>
     (\<forall>i < NBUF. \<forall>j < NBUF. bdev (bufs s i) = dv \<longrightarrow> bdev (bufs s j) = dv \<longrightarrow>
        blockno (bufs s i) = blockno (bufs s j) \<longrightarrow> i = j) \<and>
     (\<forall>b. length (disk s b) = BSIZE)"

lemma bcache_repI:
  assumes "lru_ok (bufs s)" "held \<subseteq> {..<NBUF}" "P \<subseteq> {..<NBUF}" "dv \<noteq> 0"
    and "\<And>i. i < NBUF \<Longrightarrow> buf_ok p dv held P s i"
    and "\<And>i j. i < NBUF \<Longrightarrow> j < NBUF \<Longrightarrow> bdev (bufs s i) = dv \<Longrightarrow> bdev (bufs s j) = dv \<Longrightarrow>
        blockno (bufs s i) = blockno (bufs s j) \<Longrightarrow> i = j"
    and "\<And>b. length (disk s b) = BSIZE"
  shows "bcache_rep p dv held P s"
  unfolding bcache_rep_def
  by (intro conjI assms(1-4) allI impI) (simp add: assms(5), rule assms(6), assumption+, rule assms(7))

lemma bcache_repD:
  assumes "bcache_rep p dv held P s"
  shows "lru_ok (bufs s)" "held \<subseteq> {..<NBUF}" "P \<subseteq> {..<NBUF}" "dv \<noteq> 0"
    and "i < NBUF \<Longrightarrow> buf_ok p dv held P s i"
    and "i < NBUF \<Longrightarrow> j < NBUF \<Longrightarrow> bdev (bufs s i) = dv \<Longrightarrow> bdev (bufs s j) = dv \<Longrightarrow>
        blockno (bufs s i) = blockno (bufs s j) \<Longrightarrow> i = j"
    and "length (disk s b) = BSIZE"
  using assms unfolding bcache_rep_def by (simp, simp, simp, simp, simp, blast, simp)

definition caches :: "uint \<Rightarrow> uint \<Rightarrow> 'z bcache_scheme \<Rightarrow> nat \<Rightarrow> bool" where
  "caches dv b s i \<longleftrightarrow> bdev (bufs s i) = dv \<and> blockno (bufs s i) = b \<and> valid (bufs s i)"

text \<open>The contents of the disk as readers of the cache see it.\<close>

definition cdata :: "uint \<Rightarrow> 'z bcache_scheme \<Rightarrow> uint \<Rightarrow> byte list" where
  "cdata dv s b = (case find (caches dv b s) [0..<NBUF] of Some i \<Rightarrow> bdata (bufs s i) | None \<Rightarrow> disk s b)"

lemma cdata_cached:
  assumes "bcache_rep p dv held P s" "i < NBUF" "caches dv b s i"
  shows "cdata dv s b = bdata (bufs s i)"
proof -
  obtain j where j: "find (caches dv b s) [0..<NBUF] = Some j"
    using assms(2,3) by (cases "find (caches dv b s) [0..<NBUF]") (auto simp: find_None_iff)
  then have "caches dv b s j" "j < NBUF" by (auto simp: find_Some_iff)
  then have "j = i" using assms by (auto simp: bcache_rep_def caches_def)
  then show ?thesis using j by (simp add: cdata_def)
qed

lemma cdata_uncached: "(\<And>i. i < NBUF \<Longrightarrow> \<not> caches dv b s i) \<Longrightarrow> cdata dv s b = disk s b"
proof -
  assume "\<And>i. i < NBUF \<Longrightarrow> \<not> caches dv b s i"
  then have "find (caches dv b s) [0..<NBUF] = None" by (auto simp: find_None_iff)
  then show ?thesis by (simp add: cdata_def)
qed

lemma bcache_commute [crit]:
  "restore s (t\<lparr>bufs := f\<rparr>) = (restore s t)\<lparr>bufs := f\<rparr>"
  "same_machine s (t\<lparr>bufs := f\<rparr>) = same_machine s t"
  by (simp_all add: restore_def same_machine_def)

lemma bcache_upd [simp]:
  "cpu_quiet (s\<lparr>bufs := f\<rparr>) = cpu_quiet s" "lock_free l (s\<lparr>bufs := f\<rparr>) = lock_free l s"
  "calm p (s\<lparr>bufs := f\<rparr>) = calm p s" "calm p (s\<lparr>disk := d\<rparr>) = calm p s" "calm p (s\<lparr>dwrites := w\<rparr>) = calm p s"
  "cur (s\<lparr>bufs := f\<rparr>) = cur s"
  "bufs (after_acquire l s) = bufs s" "disk (after_acquire l s) = disk s" "dwrites (after_acquire l s) = dwrites s"
  by (simp_all add: cpu_quiet_def lock_free_def intr_enabled_def calm_def after_acquire_def cur_def)

lemma lru_find:
  assumes "lru_ok (bufs s)"
  shows "\<exists>xs. distinct xs \<and> set xs = {..<NBUF} \<and>
    bget_cached NBUF (bnext (bufs s bhead)) dev bno s =
      Ok (find (\<lambda>b. bdev (bufs s b) = dev \<and> blockno (bufs s b) = bno) xs) s \<and>
    bget_unused NBUF (bprev (bufs s bhead)) s = Ok (find (\<lambda>b. refcnt (bufs s b) = 0) (rev xs)) s"
proof -
  obtain xs where xs: "links (bufs s) bhead xs bhead" "distinct xs" "set xs = {..<NBUF}"
    using assms by (auto simp: lru_ok_def)
  have "length xs = NBUF" using xs(2,3) distinct_card [of xs] by simp
  moreover have "bhead \<notin> set xs" using xs(3) by (simp add: bhead_def)
  ultimately show ?thesis using bget_cached_find [OF xs(1)] bget_unused_find [OF xs(1)] xs by auto
qed

text \<open>The state after process \<open>p\<close> has got buffer \<open>i\<close>.\<close>

definition lock_buf :: "nat \<Rightarrow> nat \<Rightarrow> buf \<Rightarrow> 'z bcache_scheme \<Rightarrow> 'z bcache_scheme" where
  "lock_buf p i y s = s\<lparr>bufs := (bufs s)(i := y),
     sleeplocks := (sleeplocks s)(BufLock i := (sleeplocks s (BufLock i))\<lparr>slocked := 1, spid := pid (procs s p)\<rparr>)\<rparr>"

lemma bget_cached_eq:
  assumes "calm p s" "bcache_rep p dv held P s" "i < NBUF" "i \<notin> held" "bdev (bufs s i) = dv" "blockno (bufs s i) = b"
  shows "bget dv b s = Ok i (lock_buf p i ((bufs s i)\<lparr>refcnt := refcnt (bufs s i) + 1\<rparr>) s)"
proof -
  note c = calmD [OF assms(1)]
  let ?a = "after_acquire BcacheLock s"
  have "lru_ok (bufs ?a)" using assms(2) by (simp add: bcache_rep_def)
  from lru_find [OF this, of dv b] obtain xs where xs: "set xs = {..<NBUF}"
    "bget_cached NBUF (bnext (bufs s bhead)) dv b ?a =
      Ok (find (\<lambda>b'. bdev (bufs s b') = dv \<and> blockno (bufs s b') = b) xs) ?a" by auto
  obtain j where j: "find (\<lambda>b'. bdev (bufs s b') = dv \<and> blockno (bufs s b') = b) xs = Some j"
    using xs(1) assms(3,5,6) by (cases "find (\<lambda>b'. bdev (bufs s b') = dv \<and> blockno (bufs s b') = b) xs") (auto simp: find_None_iff)
  then have "j \<in> set xs" "bdev (bufs s j) = dv" "blockno (bufs s j) = b"
    by (auto simp: find_Some_iff)
  then have "j = i" using assms xs(1) by (auto simp: bcache_rep_def)
  moreover have "slocked (sleeplocks s (BufLock i)) = 0"
    using assms(2-4) by (simp add: bcache_rep_def buf_ok_def Let_def)
  ultimately show ?thesis
    using xs(2) j c assms(1)
    by (simp add: bget_def kexec acquire_free get_buf_def upd_buf_def release_restores crit acquiresleep_free lock_buf_def)
qed

lemma bget_recycle:
  assumes "calm p s" "bcache_rep p dv held P s" "\<And>i. i < NBUF \<Longrightarrow> \<not> (bdev (bufs s i) = dv \<and> blockno (bufs s i) = b)"
    "j < NBUF" "j \<notin> held \<union> P"
  shows "\<exists>i. i < NBUF \<and> i \<notin> held \<union> P \<and>
    bget dv b s = Ok i (lock_buf p i ((bufs s i)\<lparr>bdev := dv, blockno := b, valid := False, refcnt := 1\<rparr>) s)"
proof -
  note c = calmD [OF assms(1)]
  let ?a = "after_acquire BcacheLock s"
  have ok: "buf_ok p dv held P s i" if "i < NBUF" for i using assms(2) that by (simp add: bcache_rep_def)
  have "lru_ok (bufs ?a)" using assms(2) by (simp add: bcache_rep_def)
  from lru_find [OF this, of dv b] obtain xs where xs: "set xs = {..<NBUF}"
    "bget_cached NBUF (bnext (bufs s bhead)) dv b ?a =
      Ok (find (\<lambda>b'. bdev (bufs s b') = dv \<and> blockno (bufs s b') = b) xs) ?a"
    "bget_unused NBUF (bprev (bufs s bhead)) ?a = Ok (find (\<lambda>b. refcnt (bufs s b) = 0) (rev xs)) ?a" by auto
  have none: "find (\<lambda>b'. bdev (bufs s b') = dv \<and> blockno (bufs s b') = b) xs = None"
    using assms(3) xs(1) by (auto simp: find_None_iff)
  have "refcnt (bufs s j) = 0" using ok [OF assms(4)] assms(5) by (simp add: buf_ok_def Let_def)
  then obtain i where i: "find (\<lambda>b. refcnt (bufs s b) = 0) (rev xs) = Some i"
    using xs(1) assms(4) by (cases "find (\<lambda>b. refcnt (bufs s b) = 0) (rev xs)") (auto simp: find_None_iff)
  then have i': "i < NBUF" "refcnt (bufs s i) = 0"
    using xs(1) by (auto simp: find_Some_iff) (metis lessThan_iff nth_mem set_rev length_rev)
  then have free: "i \<notin> held \<union> P" "slocked (sleeplocks s (BufLock i)) = 0"
    using ok [OF i'(1)] by (auto simp: buf_ok_def Let_def of_bool_def split: if_splits)
  then have "bget dv b s = Ok i (lock_buf p i ((bufs s i)\<lparr>bdev := dv, blockno := b, valid := False, refcnt := 1\<rparr>) s)"
    using xs(2,3) none i c assms(1)
    by (simp add: bget_def kexec acquire_free get_buf_def upd_buf_def release_restores crit acquiresleep_free lock_buf_def)
  then show ?thesis using i'(1) free(1) by blast
qed


definition got :: "uint \<Rightarrow> uint \<Rightarrow> nat set \<Rightarrow> 'z bcache_scheme \<Rightarrow> nat \<Rightarrow> buf" where
  "got dv b P s i = (bufs s i)\<lparr>bdev := dv, blockno := b, valid := True,
     refcnt := 1 + of_bool (i \<in> P), bdata := cdata dv s b\<rparr>"

lemma buf_eta: "x\<lparr>bdev := bdev x, blockno := blockno x, valid := valid x, refcnt := r, bdata := bdata x\<rparr> = x\<lparr>refcnt := r\<rparr>"
  by (cases x) simp

lemma bread_eq:
  assumes "calm p s" "bcache_rep p dv held P s" "\<And>i. i \<in> held \<Longrightarrow> blockno (bufs s i) \<noteq> b"
    "(\<exists>i < NBUF. bdev (bufs s i) = dv \<and> blockno (bufs s i) = b) \<or> (\<exists>j < NBUF. j \<notin> held \<union> P)"
  shows "\<exists>i. i < NBUF \<and> i \<notin> held \<and> bread dv b s = Ok i (lock_buf p i (got dv b P s i) s) \<and>
    (bdev (bufs s i) = dv \<and> blockno (bufs s i) = b \<or>
     i \<notin> P \<and> (\<forall>k < NBUF. \<not> (bdev (bufs s k) = dv \<and> blockno (bufs s k) = b)))"
proof (cases "\<exists>i < NBUF. bdev (bufs s i) = dv \<and> blockno (bufs s i) = b")
  case True
  then obtain i where i: "i < NBUF" "bdev (bufs s i) = dv" "blockno (bufs s i) = b" by blast
  have nh: "i \<notin> held" using assms(3) i(3) by blast
  note g = bget_cached_eq [OF assms(1,2) i(1) nh i(2,3)]
  have ok: "refcnt (bufs s i) = of_bool (i \<in> P)"
    using assms(2) i(1) nh by (simp add: bcache_rep_def buf_ok_def Let_def)
  have "bread dv b s = Ok i (lock_buf p i (got dv b P s i) s)"
  proof (cases "valid (bufs s i)")
    case True
    then have "cdata dv s b = bdata (bufs s i)"
      using cdata_cached [OF assms(2) i(1)] i by (simp add: caches_def)
    then have "got dv b P s i = (bufs s i)\<lparr>refcnt := refcnt (bufs s i) + 1\<rparr>"
      unfolding got_def ok using i True by (cases "bufs s i") simp
    then show ?thesis using g True by (simp add: bread_def kexec get_buf_def lock_buf_def)
  next
    case False
    have "cdata dv s b = disk s b"
    proof (rule cdata_uncached)
      fix k assume "k < NBUF"
      show "\<not> caches dv b s k"
      proof
        assume "caches dv b s k"
        then have "k = i" using assms(2) i \<open>k < NBUF\<close> by (auto simp: bcache_rep_def caches_def)
        then show False using \<open>caches dv b s k\<close> False by (simp add: caches_def)
      qed
    qed
    then have "got dv b P s i = (bufs s i)\<lparr>refcnt := refcnt (bufs s i) + 1, bdata := disk s b, valid := True\<rparr>"
      unfolding got_def ok using i by (cases "bufs s i") simp
    then show ?thesis using g False i
      by (simp add: bread_def kexec get_buf_def lock_buf_def disk_rw_def upd_buf_def)
  qed
  then show ?thesis using i nh by blast
next
  case False
  then have none: "\<And>i. i < NBUF \<Longrightarrow> \<not> (bdev (bufs s i) = dv \<and> blockno (bufs s i) = b)" by blast
  from assms(4) False obtain j where j: "j < NBUF" "j \<notin> held \<union> P" by blast
  from bget_recycle [OF assms(1,2) none j] obtain i where i: "i < NBUF" "i \<notin> held \<union> P"
    "bget dv b s = Ok i (lock_buf p i ((bufs s i)\<lparr>bdev := dv, blockno := b, valid := False, refcnt := 1\<rparr>) s)" by blast
  have "cdata dv s b = disk s b" using none by (intro cdata_uncached) (auto simp: caches_def)
  then have "got dv b P s i = (bufs s i)\<lparr>bdev := dv, blockno := b, refcnt := 1, bdata := disk s b, valid := True\<rparr>"
    using i(2) by (cases "bufs s i") (simp add: got_def)
  then have "bread dv b s = Ok i (lock_buf p i (got dv b P s i) s)"
    using i by (simp add: bread_def kexec get_buf_def lock_buf_def disk_rw_def upd_buf_def)
  then show ?thesis using i none by blast
qed

lemma lru_ok_same_links:
  assumes "lru_ok B" "\<And>i. bnext (B' i) = bnext (B i)" "\<And>i. bprev (B' i) = bprev (B i)"
  shows "lru_ok B'"
  using assms links_cong [of B _ _ _ B'] unfolding lru_ok_def by metis

lemma bread_rep:
  assumes rep: "bcache_rep p dv held P s" and i: "i < NBUF" "i \<notin> held"
    and c: "bdev (bufs s i) = dv \<and> blockno (bufs s i) = b \<or>
     i \<notin> P \<and> (\<forall>k < NBUF. \<not> (bdev (bufs s k) = dv \<and> blockno (bufs s k) = b))"
  defines "s' \<equiv> lock_buf p i (got dv b P s i) s"
  shows "bcache_rep p dv (insert i held) P s'" "cdata dv s' = cdata dv s"
proof -
  have ok: "buf_ok p dv held P s j" if "j < NBUF" for j using rep that by (simp add: bcache_rep_def)
  have uniq: "j = k" if "j < NBUF" "k < NBUF" "bdev (bufs s j) = dv" "bdev (bufs s k) = dv"
    "blockno (bufs s j) = blockno (bufs s k)" for j k
    using rep that unfolding bcache_rep_def by blast
  have len: "length (disk s b') = BSIZE" for b' using rep by (simp add: bcache_rep_def)
  have clen: "length (cdata dv s b') = BSIZE" for b'
  proof (cases "\<exists>k < NBUF. caches dv b' s k")
    case True
    then obtain k where k: "k < NBUF" "caches dv b' s k" by blast
    then show ?thesis using cdata_cached [OF rep k] ok [OF k(1)] by (simp add: caches_def buf_ok_def Let_def)
  next
    case False
    then show ?thesis using cdata_uncached [of dv b' s] len by auto
  qed
  have bs: "bufs s' j = (if j = i then got dv b P s i else bufs s j)" for j by (simp add: s'_def lock_buf_def)
  have other: "buf_ok p dv (insert i held) P s' j" if "j < NBUF" "j \<noteq> i" for j
    using ok [OF that(1)] that(2) by (simp add: buf_ok_def Let_def s'_def lock_buf_def)
  have self: "buf_ok p dv (insert i held) P s' i"
    using clen by (simp add: buf_ok_def Let_def s'_def lock_buf_def got_def)
  have "lru_ok (bufs s')"
    by (rule lru_ok_same_links [of "bufs s"]) (use rep in \<open>auto simp: bcache_rep_def bs got_def\<close>)
  moreover have key: "k = i" if "bdev (bufs s k) = dv" "blockno (bufs s k) = b" "k < NBUF" for k
  proof (cases "bdev (bufs s i) = dv \<and> blockno (bufs s i) = b")
    case True
    then show ?thesis using uniq [OF that(3) i(1)] that by simp
  next
    case False
    then show ?thesis using c that by blast
  qed
  have si: "bdev (bufs s' i) = dv" "blockno (bufs s' i) = b" by (simp_all add: bs got_def)
  have so: "bufs s' k = bufs s k" if "k \<noteq> i" for k using that by (simp add: bs)
  have ki: "k = i" if "k < NBUF" "bdev (bufs s' k) = dv" "blockno (bufs s' k) = b" for k
    using key [of k] so [of k] that by (cases "k = i") simp_all
  have "j = k" if a: "j < NBUF" "k < NBUF" "bdev (bufs s' j) = dv" "bdev (bufs s' k) = dv"
    "blockno (bufs s' j) = blockno (bufs s' k)" for j k
  proof (cases "j = i \<or> k = i")
    case True
    then have "blockno (bufs s' j) = b" "blockno (bufs s' k) = b" using si(2) a(5) by auto
    then show ?thesis using ki a by blast
  next
    case False
    then show ?thesis using uniq [OF a(1,2)] so [of j] so [of k] a(3-5) by simp
  qed
  moreover have "buf_ok p dv (insert i held) P s' j" if "j < NBUF" for j
    using other self that by (cases "j = i") auto
  moreover have "insert i held \<subseteq> {..<NBUF}" "P \<subseteq> {..<NBUF}" "dv \<noteq> 0"
    using rep i(1) by (simp_all add: bcache_rep_def)
  moreover have "length (disk s' b') = BSIZE" for b' using len by (simp add: s'_def lock_buf_def)
  ultimately show rep': "bcache_rep p dv (insert i held) P s'"
    unfolding bcache_rep_def by blast
  show "cdata dv s' = cdata dv s"
  proof
    fix b'
    have ci: "caches dv b s' i" by (simp add: caches_def bs got_def)
    have ds: "disk s' = disk s" by (simp add: s'_def lock_buf_def)
    consider "b' = b" | j where "b' \<noteq> b" "j < NBUF" "caches dv b' s' j" | "b' \<noteq> b" "\<forall>j < NBUF. \<not> caches dv b' s' j" by blast
    then show "cdata dv s' b' = cdata dv s b'"
    proof cases
      case 1
      then show ?thesis using cdata_cached [OF rep' i(1) ci] by (simp add: bs got_def)
    next
      case 2
      then have "j \<noteq> i" by (auto simp: caches_def bs got_def)
      then have "caches dv b' s j" using 2 by (simp add: caches_def bs)
      then show ?thesis using cdata_cached [OF rep' 2(2,3)] cdata_cached [OF rep 2(2)] \<open>j \<noteq> i\<close> by (simp add: bs)
    next
      case 3
      have d': "cdata dv s' b' = disk s b'" using cdata_uncached [of dv b' s'] 3 ds by auto
      show ?thesis
      proof (cases "caches dv b' s i")
        case True
        then have "i \<notin> P" using c 3(1) by (auto simp: caches_def)
        then have "bdata (bufs s i) = disk s b'" using ok [OF i(1)] True i(2) by (auto simp: buf_ok_def Let_def caches_def)
        then show ?thesis using cdata_cached [OF rep i(1) True] d' by simp
      next
        case False
        have "\<not> caches dv b' s k" if "k < NBUF" for k
          using 3(2) that False by (cases "k = i") (auto simp: caches_def bs)
        then show ?thesis using cdata_uncached [of dv b' s] d' by auto
      qed
    qed
  qed
qed


lemma set_link_core [simp]:
  "valid (set_bprev i v B j) = valid (B j)" "bdev (set_bprev i v B j) = bdev (B j)"
  "blockno (set_bprev i v B j) = blockno (B j)" "refcnt (set_bprev i v B j) = refcnt (B j)"
  "bdata (set_bprev i v B j) = bdata (B j)"
  "valid (set_bnext i v B j) = valid (B j)" "bdev (set_bnext i v B j) = bdev (B j)"
  "blockno (set_bnext i v B j) = blockno (B j)" "refcnt (set_bnext i v B j) = refcnt (B j)"
  "bdata (set_bnext i v B j) = bdata (B j)"
  by (simp_all add: set_bprev_def set_bnext_def)

definition move_front :: "nat \<Rightarrow> (nat \<Rightarrow> buf) \<Rightarrow> (nat \<Rightarrow> buf)" where
  "move_front i B = push_front bhead i (unlink i B)"

lemma move_front_core [simp]:
  "valid (move_front i B j) = valid (B j)" "bdev (move_front i B j) = bdev (B j)"
  "blockno (move_front i B j) = blockno (B j)" "refcnt (move_front i B j) = refcnt (B j)"
  "bdata (move_front i B j) = bdata (B j)"
  by (simp_all add: move_front_def push_front_def unlink_def Let_def)

lemma lru_ok_move_front:
  assumes "lru_ok B" "i < NBUF"
  shows "lru_ok (move_front i B)"
proof -
  obtain xs where xs: "links B bhead xs bhead" "distinct xs" "set xs = {..<NBUF}"
    using assms(1) by (auto simp: lru_ok_def)
  then have "i \<in> set xs" using assms(2) by simp
  then obtain us vs where uv: "xs = us @ i # vs" by (meson split_list)
  have h: "bhead \<notin> set xs" using xs(3) by (simp add: bhead_def)
  have "links (unlink i B) bhead (us @ vs) bhead"
    by (rule links_unlink) (use xs h uv in auto)
  then have "links (move_front i B) bhead (i # us @ vs) bhead"
    unfolding move_front_def by (rule links_push) (use xs h uv in auto)
  moreover have "distinct (i # us @ vs)" "set (i # us @ vs) = {..<NBUF}" using xs(2,3) uv by auto
  ultimately show ?thesis unfolding lru_ok_def by blast
qed

definition unlock_buf :: "nat \<Rightarrow> 'z bcache_scheme \<Rightarrow> 'z bcache_scheme" where
  "unlock_buf i s =
     (let B = (bufs s)(i := (bufs s i)\<lparr>refcnt := refcnt (bufs s i) - 1\<rparr>) in
      s\<lparr>sleeplocks := (sleeplocks s)(BufLock i := (sleeplocks s (BufLock i))\<lparr>slocked := 0, spid := 0\<rparr>),
        bufs := (if refcnt (B i) = 0 then move_front i B else B)\<rparr>)"

lemma brelse_eq:
  assumes "calm p s" "bcache_rep p dv held P s" "i \<in> held"
  shows "brelse i s = Ok () (unlock_buf i s)"
proof -
  note c = calmD [OF assms(1)]
  have "i < NBUF" using assms(2,3) by (auto simp: bcache_rep_def)
  then have ok: "slocked (sleeplocks s (BufLock i)) = 1" "spid (sleeplocks s (BufLock i)) = pid (procs s p)"
    using assms(2,3) by (auto simp: bcache_rep_def buf_ok_def Let_def)
  let ?s1 = "s\<lparr>sleeplocks := (sleeplocks s)(BufLock i := (sleeplocks s (BufLock i))\<lparr>slocked := 0, spid := 0\<rparr>)\<rparr>"
  have c1: "cpu_quiet ?s1" "lock_free BcacheLock ?s1" using c by simp_all
  show ?thesis
    using ok
    by (simp add: brelse_def kexec holdingsleep_calm [OF assms(1)] releasesleep_calm [OF assms(1)]
        acquire_free [OF c1] get_buf_def upd_buf_def release_restores [OF c1] crit unlock_buf_def Let_def
        move_front_def unlink_def push_front_def set_bprev_def set_bnext_def)
qed

lemma brelse_rep:
  assumes rep: "bcache_rep p dv held P s" and i: "i \<in> held"
    and clean: "i \<notin> P \<Longrightarrow> bdata (bufs s i) = disk s (blockno (bufs s i))"
  shows "bcache_rep p dv (held - {i}) P (unlock_buf i s)" "cdata dv (unlock_buf i s) = cdata dv s"
proof -
  let ?s' = "unlock_buf i s"
  have iN: "i < NBUF" using rep i by (auto simp: bcache_rep_def)
  have core: "valid (bufs ?s' j) = valid (bufs s j)" "bdev (bufs ?s' j) = bdev (bufs s j)"
    "blockno (bufs ?s' j) = blockno (bufs s j)" "bdata (bufs ?s' j) = bdata (bufs s j)"
    "refcnt (bufs ?s' j) = (if j = i then refcnt (bufs s i) - 1 else refcnt (bufs s j))"
    "disk ?s' = disk s" "procs ?s' = procs s" for j
    by (simp_all add: unlock_buf_def Let_def)
  have sl: "sleeplocks ?s' = (sleeplocks s)(BufLock i := (sleeplocks s (BufLock i))\<lparr>slocked := 0, spid := 0\<rparr>)"
    by (simp add: unlock_buf_def Let_def)
  have B: "lru_ok ((bufs s)(i := (bufs s i)\<lparr>refcnt := r\<rparr>))" for r
    by (rule lru_ok_same_links [of "bufs s"]) (use rep in \<open>auto simp: bcache_rep_def\<close>)
  have lru: "lru_ok (bufs ?s')"
    using B lru_ok_move_front [OF B iN] by (simp add: unlock_buf_def Let_def)
  have ok: "buf_ok p dv held P s j" if "j < NBUF" for j using rep that by (simp add: bcache_rep_def)
  have "buf_ok p dv (held - {i}) P ?s' j" if "j < NBUF" for j
  proof (cases "j = i")
    case True
    then show ?thesis using ok [OF iN] clean i
      by (auto simp: buf_ok_def Let_def core sl)
  next
    case False
    then show ?thesis using ok [OF that] by (simp add: buf_ok_def Let_def core sl)
  qed
  note ok' = this
  show "bcache_rep p dv (held - {i}) P ?s'"
    by (rule bcache_repI)
      (use lru ok' bcache_repD(2-4) [OF rep] bcache_repD(6,7) [OF rep] in \<open>auto simp: core\<close>)
  have "caches dv b ?s' = caches dv b s" for b by (rule ext) (simp add: caches_def core)
  then show "cdata dv ?s' = cdata dv s" by (rule_tac ext) (simp add: cdata_def core split: option.split)
qed

lemma bwrite_eq:
  assumes "calm p s" "bcache_rep p dv held P s" "i \<in> held"
  shows "bwrite i s = Ok () (s\<lparr>disk := (disk s)(blockno (bufs s i) := bdata (bufs s i)),
     dwrites := dwrites s @ [(blockno (bufs s i), bdata (bufs s i))]\<rparr>)"
proof -
  have "i < NBUF" using assms(2,3) by (auto simp: bcache_rep_def)
  then have ok: "slocked (sleeplocks s (BufLock i)) = 1" "spid (sleeplocks s (BufLock i)) = pid (procs s p)"
    using assms(2,3) by (auto simp: bcache_rep_def buf_ok_def Let_def)
  then show ?thesis
    by (simp add: bwrite_def kexec holdingsleep_calm [OF assms(1)] disk_rw_def get_buf_def)
qed

lemma held_buf:
  assumes "bcache_rep p dv held P s" "i \<in> held"
  shows "i < NBUF" "valid (bufs s i)" "bdev (bufs s i) = dv" "length (bdata (bufs s i)) = BSIZE"
    "caches dv (blockno (bufs s i)) s i"
proof -
  show iN: "i < NBUF" using assms by (auto simp: bcache_rep_def)
  have "buf_ok p dv held P s i" using assms iN by (simp add: bcache_rep_def)
  then show "valid (bufs s i)" "bdev (bufs s i) = dv" "length (bdata (bufs s i)) = BSIZE"
    "caches dv (blockno (bufs s i)) s i"
    using assms(2) by (auto simp: buf_ok_def Let_def caches_def)
qed

lemma bwrite_rep:
  fixes w :: "(uint \<times> byte list) list"
  assumes rep: "bcache_rep p dv held P s" and i: "i \<in> held"
  defines "s' \<equiv> s\<lparr>disk := (disk s)(blockno (bufs s i) := bdata (bufs s i)), dwrites := w\<rparr>"
  shows "bcache_rep p dv held P s'" "cdata dv s' = cdata dv s"
proof -
  note h = held_buf [OF rep i]
  have f: "bufs s' = bufs s" "sleeplocks s' = sleeplocks s" "procs s' = procs s"
    "disk s' = (disk s)(blockno (bufs s i) := bdata (bufs s i))" by (simp_all add: s'_def)
  have ok: "buf_ok p dv held P s j" if "j < NBUF" for j using rep that by (simp add: bcache_rep_def)
  have uniq: "j = k" if "j < NBUF" "k < NBUF" "bdev (bufs s j) = dv" "bdev (bufs s k) = dv"
    "blockno (bufs s j) = blockno (bufs s k)" for j k
    using rep that unfolding bcache_rep_def by blast
  have "buf_ok p dv held P s' j" if j: "j < NBUF" for j
  proof (cases "blockno (bufs s j) = blockno (bufs s i) \<and> valid (bufs s j)")
    case True
    then have "bdev (bufs s j) = dv" using ok [OF j] by (simp add: buf_ok_def Let_def)
    then have "j = i" using uniq [OF j h(1) _ h(3)] True by blast
    then show ?thesis using ok [OF j] i by (auto simp: buf_ok_def Let_def f)
  next
    case False
    then show ?thesis using ok [OF j] by (auto simp: buf_ok_def Let_def f)
  qed
  moreover have "length (disk s' b) = BSIZE" for b using rep h(4) by (simp add: f bcache_rep_def)
  ultimately show "bcache_rep p dv held P s'"
    by (intro bcache_repI) (use bcache_repD(1-4,6) [OF rep] in \<open>auto simp: f(1)\<close>)
  have ca: "caches dv b s' = caches dv b s" for b by (rule ext) (simp add: caches_def f)
  show "cdata dv s' = cdata dv s"
  proof
    fix b
    show "cdata dv s' b = cdata dv s b"
    proof (cases "find (caches dv b s) [0..<NBUF]")
      case None
      then have "b \<noteq> blockno (bufs s i)" using h(1,5) by (auto simp: find_None_iff)
      then show ?thesis using None by (simp add: cdata_def ca f)
    next
      case (Some a)
      then show ?thesis by (simp add: cdata_def ca f)
    qed
  qed
qed

text \<open>Changing the data of a held buffer changes what the cache shows for its block.\<close>

lemma set_data_rep:
  assumes rep: "bcache_rep p dv held P s" and i: "i \<in> held" and d: "length d = BSIZE"
  defines "s' \<equiv> s\<lparr>bufs := (bufs s)(i := (bufs s i)\<lparr>bdata := d\<rparr>)\<rparr>"
  shows "bcache_rep p dv held P s'" "cdata dv s' = (cdata dv s)(blockno (bufs s i) := d)"
proof -
  note h = held_buf [OF rep i]
  have f: "valid (bufs s' j) = valid (bufs s j)" "bdev (bufs s' j) = bdev (bufs s j)"
    "blockno (bufs s' j) = blockno (bufs s j)" "refcnt (bufs s' j) = refcnt (bufs s j)"
    "bdata (bufs s' j) = (if j = i then d else bdata (bufs s j))"
    "sleeplocks s' = sleeplocks s" "procs s' = procs s" "disk s' = disk s" for j by (simp_all add: s'_def)
  have "lru_ok (bufs s')"
    by (rule lru_ok_same_links [of "bufs s"]) (use rep in \<open>auto simp: bcache_rep_def s'_def\<close>)
  moreover have "buf_ok p dv held P s' j" if "j < NBUF" for j
  proof -
    have "buf_ok p dv held P s j" using rep that by (simp add: bcache_rep_def)
    then show ?thesis using i d by (cases "j = i") (auto simp: buf_ok_def Let_def f)
  qed
  ultimately show rep': "bcache_rep p dv held P s'"
    by (intro bcache_repI) (use bcache_repD(2-4,6,7) [OF rep] in \<open>auto simp: f\<close>)
  have ca: "caches dv b s' = caches dv b s" for b by (rule ext) (simp add: caches_def f)
  show "cdata dv s' = (cdata dv s)(blockno (bufs s i) := d)"
  proof
    fix b
    show "cdata dv s' b = ((cdata dv s)(blockno (bufs s i) := d)) b"
    proof (cases "b = blockno (bufs s i)")
      case True
      then show ?thesis using cdata_cached [OF rep' h(1)] h(5) by (simp add: ca f)
    next
      case False
      have "a \<noteq> i" if "find (caches dv b s) [0..<NBUF] = Some a" for a
        using that False by (auto simp: find_Some_iff caches_def)
      then show ?thesis using False by (auto simp: cdata_def ca f split: option.split)
    qed
  qed
qed

lemma bpin_eq:
  assumes "calm p s"
  shows "bpin i s = Ok () (s\<lparr>bufs := (bufs s)(i := (bufs s i)\<lparr>refcnt := refcnt (bufs s i) + 1\<rparr>)\<rparr>)"
    "bunpin i s = Ok () (s\<lparr>bufs := (bufs s)(i := (bufs s i)\<lparr>refcnt := refcnt (bufs s i) - 1\<rparr>)\<rparr>)"
  using calmD [OF assms]
  by (simp_all add: bpin_def bunpin_def kexec acquire_free upd_buf_def release_restores crit)

lemma refcnt_rep:
  assumes rep: "bcache_rep p dv held P s" and i: "i \<in> held" and P': "P' \<subseteq> {..<NBUF}" "P' - {i} = P - {i}"
    and r: "r = 1 + of_bool (i \<in> P')"
  defines "s' \<equiv> s\<lparr>bufs := (bufs s)(i := (bufs s i)\<lparr>refcnt := r\<rparr>)\<rparr>"
  shows "bcache_rep p dv held P' s'" "cdata dv s' = cdata dv s"
proof -
  have f: "valid (bufs s' j) = valid (bufs s j)" "bdev (bufs s' j) = bdev (bufs s j)"
    "blockno (bufs s' j) = blockno (bufs s j)" "refcnt (bufs s' j) = (if j = i then r else refcnt (bufs s j))"
    "bdata (bufs s' j) = bdata (bufs s j)"
    "sleeplocks s' = sleeplocks s" "procs s' = procs s" "disk s' = disk s" for j by (simp_all add: s'_def)
  have "lru_ok (bufs s')"
    by (rule lru_ok_same_links [of "bufs s"]) (use rep in \<open>auto simp: bcache_rep_def s'_def\<close>)
  moreover have "buf_ok p dv held P' s' j" if "j < NBUF" for j
  proof -
    have ok: "buf_ok p dv held P s j" using rep that by (simp add: bcache_rep_def)
    show ?thesis
    proof (cases "j = i")
      case True
      then show ?thesis using ok i r by (auto simp: buf_ok_def Let_def f)
    next
      case False
      then have "j \<in> P' \<longleftrightarrow> j \<in> P" using P'(2) by blast
      then show ?thesis using ok False by (simp add: buf_ok_def Let_def f)
    qed
  qed
  ultimately show "bcache_rep p dv held P' s'"
    by (intro bcache_repI) (use P'(1) bcache_repD(2-4,6,7) [OF rep] in \<open>auto simp: f\<close>)
  have "caches dv b s' = caches dv b s" for b by (rule ext) (simp add: caches_def f)
  then show "cdata dv s' = cdata dv s" by (rule_tac ext) (simp add: cdata_def f split: option.split)
qed


section \<open>Operations on the represented cache\<close>

text \<open>The cache operations change nothing outside the cache and the disk.\<close>

definition bio_frame :: "'z bcache_scheme \<Rightarrow> 'z bcache_scheme \<Rightarrow> bool" where
  "bio_frame s s' \<longleftrightarrow>
     s' = s\<lparr>sleeplocks := sleeplocks s', bufs := bufs s', disk := disk s', dwrites := dwrites s'\<rparr>"

lemma bio_frameI [simp]:
  "bio_frame s s" "bio_frame s (s\<lparr>bufs := B\<rparr>)" "bio_frame s (lock_buf p i y s)" "bio_frame s (unlock_buf i s)"
  "bio_frame s (s\<lparr>disk := d, dwrites := w\<rparr>)"
  by (simp_all add: bio_frame_def lock_buf_def unlock_buf_def Let_def)

lemma bio_frame_trans:
  assumes "bio_frame s t" "bio_frame t u"
  shows "bio_frame s u"
proof -
  have "u = s\<lparr>sleeplocks := sleeplocks t, bufs := bufs t, disk := disk t, dwrites := dwrites t\<rparr>
      \<lparr>sleeplocks := sleeplocks u, bufs := bufs u, disk := disk u, dwrites := dwrites u\<rparr>"
    using assms unfolding bio_frame_def by metis
  then show ?thesis unfolding bio_frame_def by simp
qed

lemma bio_frame_fields:
  assumes "bio_frame s s'"
  shows "procs s' = procs s" "cur s' = cur s" "calm p s' = calm p s" "phys s' = phys s" "freelist s' = freelist s"
    "kend s' = kend s"
proof -
  note e = assms [unfolded bio_frame_def]
  show "procs s' = procs s" "phys s' = phys s" "freelist s' = freelist s" "kend s' = kend s"
    using arg_cong [OF e, of procs] arg_cong [OF e, of phys] arg_cong [OF e, of freelist] arg_cong [OF e, of kend]
    by simp_all
  have "cur (s\<lparr>sleeplocks := a, bufs := b, disk := c, dwrites := d\<rparr>) = cur s"
    "calm p (s\<lparr>sleeplocks := a, bufs := b, disk := c, dwrites := d\<rparr>) = calm p s" for a b c d
    by (simp_all add: cur_def calm_def cpu_quiet_def lock_free_def intr_enabled_def)
  then show "cur s' = cur s" "calm p s' = calm p s" by (metis e)+
qed

definition room :: "uint \<Rightarrow> uint \<Rightarrow> nat set \<Rightarrow> 'z bcache_scheme \<Rightarrow> bool" where
  "room dv b U s \<longleftrightarrow> (\<exists>i < NBUF. bdev (bufs s i) = dv \<and> blockno (bufs s i) = b) \<or> (\<exists>j < NBUF. j \<notin> U)"

lemma room_card:
  assumes "finite U" "card U < NBUF"
  shows "room dv b U s"
proof -
  have "\<not> {..<NBUF} \<subseteq> U" using assms card_mono [of U "{..<NBUF}"] by auto
  then show ?thesis by (auto simp: room_def)
qed

lemma bread_spec:
  fixes s :: "'z bcache_scheme"
  assumes "calm p s" "bcache_rep p dv held P s" "\<And>i. i \<in> held \<Longrightarrow> blockno (bufs s i) \<noteq> b" "room dv b (held \<union> P) s"
  shows "\<exists>i s'. bread dv b s = Ok i s' \<and> i < NBUF \<and> i \<notin> held \<and> calm p s' \<and> bcache_rep p dv (insert i held) P s' \<and>
    cdata dv s' = cdata dv s \<and> disk s' = disk s \<and> dwrites s' = dwrites s \<and> bio_frame s s' \<and>
    blockno (bufs s' i) = b \<and> bdata (bufs s' i) = cdata dv s b \<and> (\<forall>j. j \<noteq> i \<longrightarrow> bufs s' j = bufs s j) \<and>
    (i \<in> P \<longrightarrow> bdev (bufs s i) = dv \<and> blockno (bufs s i) = b)"
proof -
  obtain i where i: "i < NBUF" "i \<notin> held" "bread dv b s = Ok i (lock_buf p i (got dv b P s i) s)"
    and c: "bdev (bufs s i) = dv \<and> blockno (bufs s i) = b \<or>
     i \<notin> P \<and> (\<forall>k < NBUF. \<not> (bdev (bufs s k) = dv \<and> blockno (bufs s k) = b))"
    using bread_eq [OF assms(1-3)] assms(4) unfolding room_def by blast
  let ?s' = "lock_buf p i (got dv b P s i) s"
  have f: "bio_frame s ?s'" by simp
  show ?thesis
    using i c bread_rep [OF assms(2) i(1,2) c] bio_frame_fields(3) [OF f] assms(1)
    by (intro exI [of _ i] exI [of _ ?s']) (auto simp: lock_buf_def got_def bio_frame_def)
qed

lemma brelse_spec:
  fixes s :: "'z bcache_scheme"
  assumes "calm p s" "bcache_rep p dv held P s" "i \<in> held"
    "i \<notin> P \<Longrightarrow> bdata (bufs s i) = disk s (blockno (bufs s i))"
  shows "\<exists>s'. brelse i s = Ok () s' \<and> calm p s' \<and> bcache_rep p dv (held - {i}) P s' \<and>
    cdata dv s' = cdata dv s \<and> disk s' = disk s \<and> dwrites s' = dwrites s \<and> bio_frame s s' \<and>
    (\<forall>j. blockno (bufs s' j) = blockno (bufs s j) \<and> bdata (bufs s' j) = bdata (bufs s j) \<and> bdev (bufs s' j) = bdev (bufs s j))"
proof -
  have f: "bio_frame s (unlock_buf i s)" by simp
  show ?thesis
    using brelse_eq [OF assms(1-3)] brelse_rep [OF assms(2-4)] bio_frame_fields(3) [OF f] assms(1)
    by (intro exI [of _ "unlock_buf i s"]) (auto simp: unlock_buf_def Let_def bio_frame_def)
qed

section \<open>Initialisation\<close>

lemma initsleeplock_eq:
  "initsleeplock l name s = Ok () (s\<lparr>locks := (locks s)(l := \<lparr>locked = 0, lname = ''sleep lock'', lcpu = None\<rparr>),
     sleeplocks := (sleeplocks s)(l := \<lparr>slocked = 0, sname = name, spid = 0, \<dots> = sleeplock.more (sleeplocks s l)\<rparr>)\<rparr>)"
  by (cases "sleeplocks s l") (simp add: initsleeplock_def initlock_def upd_sleeplock_def kexec)

lemma binit_body_push:
  assumes "b \<noteq> bhead"
  shows "\<exists>s'. binit_body b s = Ok () s' \<and> bufs s' = push_front bhead b (bufs s)"
  using assms
  by (simp add: binit_body_def kexec get_buf_def upd_buf_def initsleeplock_eq push_front_def Let_def
      set_bprev_def set_bnext_def)

lemma binit_loop:
  assumes "links (bufs s) bhead [] bhead" "k \<le> NBUF"
  shows "\<exists>s'. for_each [0..<k] binit_body s = Ok () s' \<and> links (bufs s') bhead (rev [0..<k]) bhead"
  using assms(2)
proof (induction k)
  case 0
  then show ?case using assms(1) by simp
next
  case (Suc k)
  then obtain s1 where s1: "for_each [0..<k] binit_body s = Ok () s1" "links (bufs s1) bhead (rev [0..<k]) bhead" by auto
  have k: "k \<noteq> bhead" "bhead \<notin> set [0..<k]" using Suc.prems by (auto simp: bhead_def)
  obtain s2 where s2: "binit_body k s1 = Ok () s2" "bufs s2 = push_front bhead k (bufs s1)"
    using binit_body_push [OF k(1)] by blast
  have "links (bufs s2) bhead (k # rev [0..<k]) bhead"
    unfolding s2(2) by (rule links_push [OF s1(2)]) (use k in auto)
  then show ?case using s1(1) s2(1) by (simp add: for_each_append bind_apply)
qed

lemma binit_spec: "\<exists>s'. binit s = Ok () s' \<and> links (bufs s') bhead (rev [0..<NBUF]) bhead"
proof -
  let ?s = "s\<lparr>locks := (locks s)(BcacheLock := \<lparr>locked = 0, lname = ''bcache'', lcpu = None\<rparr>),
    bufs := (bufs s)(bhead := (bufs s bhead)\<lparr>bprev := bhead, bnext := bhead\<rparr>)\<rparr>"
  have "links (bufs ?s) bhead [] bhead" by simp
  from binit_loop [OF this order.refl] show ?thesis
    by (simp add: binit_def kexec initlock_def upd_buf_def)
qed

section \<open>Properties\<close>

text \<open>
  After \<open>binit\<close> the buffers form one circular doubly linked list through the head, from the
  last buffer to the first.
\<close>

theorem binit_links_all: "\<exists>s'. binit s = Ok () s' \<and> links (bufs s') bhead (rev [0..<NBUF]) bhead"
  by (rule binit_spec)

text \<open>
  C15: \<open>bread\<close> of a block that the process does not hold returns a locked buffer with the contents
  that the cache shows for the block, its latest version.  It never changes the contents of any
  block nor the disk, keeps the cache consistent, and leaves every other buffer alone; it needs
  a buffer that is neither held nor pinned, unless the block is cached.
\<close>

theorem bread_returns_latest:
  fixes s :: "'z bcache_scheme"
  assumes "calm p s" "bcache_rep p dv held P s" "\<forall>i \<in> held. blockno (bufs s i) \<noteq> b" "room dv b (held \<union> P) s"
  shows "\<exists>i s'. bread dv b s = Ok i s' \<and> i < NBUF \<and> i \<notin> held \<and> bcache_rep p dv (insert i held) P s' \<and>
    blockno (bufs s' i) = b \<and> bdata (bufs s' i) = cdata dv s b \<and> cdata dv s' = cdata dv s \<and> disk s' = disk s \<and>
    (\<forall>j. j \<noteq> i \<longrightarrow> bufs s' j = bufs s j)"
  using bread_spec [OF assms(1,2) _ assms(4)] assms(3) by blast

text \<open>
  \<open>brelse\<close> of a held buffer that is pinned or agrees with the disk keeps the cache consistent
  and all contents; when the last reference goes, the buffer becomes the most recently used one
  and the order of the others is kept.
\<close>

theorem brelse_moves_to_front:
  assumes "calm p s" "bcache_rep p dv held P s" "i \<in> held"
    and "i \<notin> P \<longrightarrow> bdata (bufs s i) = disk s (blockno (bufs s i))"
    and "links (bufs s) bhead (us @ i # vs) bhead" "distinct (us @ i # vs)" "set (us @ i # vs) = {..<NBUF}"
  shows "\<exists>s'. brelse i s = Ok () s' \<and> bcache_rep p dv (held - {i}) P s' \<and> cdata dv s' = cdata dv s \<and>
    links (bufs s') bhead (if i \<in> P then us @ i # vs else i # us @ vs) bhead"
proof -
  have rep: "bcache_rep p dv (held - {i}) P (unlock_buf i s)" "cdata dv (unlock_buf i s) = cdata dv s"
    using brelse_rep [OF assms(2,3)] assms(4) by blast+
  have "i < NBUF" "bhead \<notin> set (us @ i # vs)" using assms(7) by (auto simp: bhead_def)
  then have r: "refcnt (bufs s i) = 1 + of_bool (i \<in> P)"
    using bcache_repD(5) [OF assms(2)] assms(3) by (simp add: buf_ok_def Let_def)
  let ?B = "(bufs s)(i := (bufs s i)\<lparr>refcnt := refcnt (bufs s i) - 1\<rparr>)"
  have B: "links ?B bhead (us @ i # vs) bhead" by (rule links_cong [OF assms(5)]) auto
  have "links (unlink i ?B) bhead (us @ vs) bhead"
    by (rule links_unlink [OF B]) (use assms(6) \<open>bhead \<notin> set (us @ i # vs)\<close> in auto)
  then have "links (move_front i ?B) bhead (i # us @ vs) bhead"
    unfolding move_front_def by (rule links_push) (use assms(6) \<open>bhead \<notin> set (us @ i # vs)\<close> in auto)
  then show ?thesis
    using brelse_eq [OF assms(1-3)] rep r B
    by (intro exI [of _ "unlock_buf i s"]) (auto simp: unlock_buf_def Let_def)
qed

section \<open>A concrete cache\<close>

text \<open>An empty cache in front of a zeroed disk; process 0 runs alone.\<close>

definition empty_buf :: "nat \<Rightarrow> buf" where
  "empty_buf i = \<lparr>valid = False, bdev = 0, blockno = 0, refcnt = 0,
     bprev = (if i = bhead then 0 else Suc i), bnext = (if i = 0 then bhead else i - 1), bdata = []\<rparr>"

definition demo_cache :: "(uint \<Rightarrow> byte list) \<Rightarrow> bcache" where
  "demo_cache d = \<lparr>tp = 0, sstatus = 0, cpus = (\<lambda>_. \<lparr>cproc = Some 0, noff = 0, intena = False\<rparr>),
     locks = (\<lambda>_. \<lparr>locked = 0, lname = [], lcpu = None\<rparr>),
     phys = chain_mem six_pages, freelist = 0x87fff000, kend = 0x80020000,
     procs = (\<lambda>_. no_proc)(0 := no_proc\<lparr>state := RUNNING, pid := 1\<rparr>),
     nextpid = 2, initproc = Some 0, trampoline = 0x80007000, forkret_pc = 0x80001a00,
     sleeplocks = (\<lambda>_. \<lparr>slocked = 0, sname = [], spid = 0\<rparr>),
     bufs = empty_buf, disk = d, dwrites = []\<rparr>"

lemma demo_cache_calm: "calm 0 (demo_cache d)"
  by (simp add: calm_def demo_cache_def cpu_quiet_def intr_enabled_def lock_free_def cur_def no_proc_def)

lemma links_empty_down: "k < NBUF \<Longrightarrow> links empty_buf (Suc k) (rev [0..<Suc k]) bhead"
  by (induction k) (auto simp: empty_buf_def bhead_def)

lemma links_empty: "links empty_buf bhead (rev [0..<NBUF]) bhead"
  using links_empty_down [of "NBUF - 1"] by (simp add: bhead_def NBUF_def MAXOPBLOCKS_def)

lemma demo_cache_rep:
  assumes "\<And>b. length (d b) = BSIZE"
  shows "bcache_rep 0 1 {} {} (demo_cache d)"
proof (rule bcache_repI)
  show "lru_ok (bufs (demo_cache d))"
    unfolding lru_ok_def using links_empty by (intro exI [of _ "rev [0..<NBUF]"]) (auto simp: demo_cache_def)
qed (use assms in \<open>auto simp: demo_cache_def buf_ok_def empty_buf_def\<close>)

definition zero_disk :: "uint \<Rightarrow> byte list" where
  "zero_disk b = replicate BSIZE 0"

theorem bread_returns_latest_witness:
  "\<exists>i s'. bread 1 7 (demo_cache zero_disk) = Ok i s' \<and> bdata (bufs s' i) = cdata 1 (demo_cache zero_disk) 7"
proof -
  have "bcache_rep 0 1 {} {} (demo_cache zero_disk)" by (rule demo_cache_rep) (simp add: zero_disk_def)
  from bread_returns_latest [OF demo_cache_calm this _ room_card, of 7] show ?thesis
    by (auto simp: NBUF_def MAXOPBLOCKS_def)
qed

theorem brelse_moves_to_front_witness:
  "\<exists>i s' s''. bread 1 7 (demo_cache zero_disk) = Ok i s' \<and> brelse i s' = Ok () s'' \<and>
     bcache_rep 0 1 {} {} s''"
proof -
  have rep: "bcache_rep 0 1 {} {} (demo_cache zero_disk)" by (rule demo_cache_rep) (simp add: zero_disk_def)
  obtain i s' where b: "bread 1 7 (demo_cache zero_disk) = Ok i s'" "calm 0 s'" "bcache_rep 0 1 {i} {} s'" "i < NBUF"
    "blockno (bufs s' i) = 7" "bdata (bufs s' i) = cdata 1 (demo_cache zero_disk) 7" "disk s' = zero_disk"
    using bread_spec [OF demo_cache_calm rep _ room_card, of 7]
    by (auto simp: NBUF_def MAXOPBLOCKS_def demo_cache_def)
  have "cdata 1 (demo_cache zero_disk) 7 = zero_disk 7"
    using cdata_uncached [of 1 7 "demo_cache zero_disk"] by (simp add: caches_def demo_cache_def empty_buf_def)
  then have clean: "i \<notin> {} \<longrightarrow> bdata (bufs s' i) = disk s' (blockno (bufs s' i))" using b by simp
  obtain xs where xs: "links (bufs s') bhead xs bhead" "distinct xs" "set xs = {..<NBUF}"
    using bcache_repD(1) [OF b(3)] by (auto simp: lru_ok_def)
  then have "i \<in> set xs" using b(4) by simp
  then obtain us vs where "xs = us @ i # vs" by (meson split_list)
  with brelse_moves_to_front [OF b(2,3) _ clean] xs b(1) show ?thesis by fastforce
qed

end
