(* ===== verification/Xv6_Log.thy ===== *)
theory Xv6_Log
  imports Xv6_Bio
begin

text \<open>
  \<open>kernel/log.c\<close>: the write-ahead log.  The record \<open>logst\<close> adds \<open>struct log\<close> and the in-memory
  header to the state; the on-disk header is the bytes of block \<open>log.start\<close>.  A crash leaves the
  disk image as some prefix of the completed block writes made it, and the next boot runs
  \<open>initlog\<close> on it.
\<close>

section \<open>State and operations\<close>

definition LOGSIZE :: nat where "LOGSIZE = MAXOPBLOCKS * 3"

record superblock =
  magic :: uint
  sb_size :: uint
  nblocks :: uint
  ninodes :: uint
  nlog :: uint
  logstart :: uint
  inodestart :: uint
  bmapstart :: uint

record logst = bcache +
  log_start :: int
  log_size :: int
  outstanding :: int
  committing :: bool
  log_dev :: uint
  lh_n :: int
  lh_block :: "nat \<Rightarrow> uint"

text \<open>Reading and writing a 32-bit field of a block.\<close>

definition get32 :: "nat \<Rightarrow> byte list \<Rightarrow> uint" where
  "get32 off bs = le_word (take 4 (drop off bs))"

definition put_bytes :: "nat \<Rightarrow> byte list \<Rightarrow> byte list \<Rightarrow> byte list" where
  "put_bytes off xs bs = take off bs @ xs @ drop (off + length xs) bs"

definition put32 :: "nat \<Rightarrow> uint \<Rightarrow> byte list \<Rightarrow> byte list" where
  "put32 off w bs = put_bytes off (le_bytes 4 w) bs"

definition log_blockno :: "nat \<Rightarrow> 'z logst_scheme \<Rightarrow> uint" where
  "log_blockno tail s = word_of_int (log_start s + int tail + 1)"

definition install_body :: "bool \<Rightarrow> nat \<Rightarrow> ('z logst_scheme, unit) kmon" where
  "install_body recovering tail =
       bind (gets log_dev) (\<lambda>dev.
       bind (gets (log_blockno tail)) (\<lambda>lb.
       bind (bread dev lb) (\<lambda>lbuf.
       bind (gets (\<lambda>s. lh_block s tail)) (\<lambda>db.
       bind (bread dev db) (\<lambda>dbuf.
       bind (get_buf lbuf) (\<lambda>l.
       seq (upd_buf dbuf (\<lambda>d. d\<lparr>bdata := bdata l\<rparr>)) (
       seq (bwrite dbuf) (
       seq (kwhen (\<not> recovering) (bunpin dbuf)) (
       seq (brelse lbuf)
           (brelse dbuf))))))))))"

definition install_trans :: "bool \<Rightarrow> ('z logst_scheme, unit) kmon" where
  "install_trans recovering =
     bind (gets lh_n) (\<lambda>n. for_each [0..<nat n] (install_body recovering))"

definition read_head :: "('z logst_scheme, unit) kmon" where
  "read_head =
     bind (gets log_dev) (\<lambda>dev.
     bind (gets (\<lambda>s. word_of_int (log_start s))) (\<lambda>hb.
     bind (bread dev hb) (\<lambda>b.
     bind (get_buf b) (\<lambda>x.
     seq (modify (\<lambda>s. s\<lparr>lh_n := sint (get32 0 (bdata x))\<rparr>)) (
     bind (gets lh_n) (\<lambda>n.
     seq (for_each [0..<nat n] (\<lambda>i.
       modify (\<lambda>s. s\<lparr>lh_block := (lh_block s)(i := get32 (4 + 4 * i) (bdata x))\<rparr>)))
         (brelse b)))))))"

definition put_entry :: "nat \<Rightarrow> nat \<Rightarrow> ('z logst_scheme, unit) kmon" where
  "put_entry b i = bind (gets (\<lambda>s. lh_block s i)) (\<lambda>v. upd_buf b (\<lambda>x. x\<lparr>bdata := put32 (4 + 4 * i) v (bdata x)\<rparr>))"

definition write_head :: "('z logst_scheme, unit) kmon" where
  "write_head =
     bind (gets log_dev) (\<lambda>dev.
     bind (gets (\<lambda>s. word_of_int (log_start s))) (\<lambda>hb.
     bind (bread dev hb) (\<lambda>b.
     bind (gets lh_n) (\<lambda>n.
     seq (upd_buf b (\<lambda>x. x\<lparr>bdata := put32 0 (word_of_int n) (bdata x)\<rparr>)) (
     seq (for_each [0..<nat n] (put_entry b)) (
     seq (bwrite b)
         (brelse b)))))))"

definition recover_from_log :: "('z logst_scheme, unit) kmon" where
  "recover_from_log =
     seq read_head (
     seq (install_trans True) (
     seq (modify (\<lambda>s. s\<lparr>lh_n := 0\<rparr>))
         write_head))"

text \<open>\<open>sizeof(struct logheader)\<close> is 4 + 4 * LOGSIZE.\<close>

definition initlog :: "uint \<Rightarrow> superblock \<Rightarrow> ('z logst_scheme, unit) kmon" where
  "initlog dev sb =
     (if 4 + 4 * LOGSIZE \<ge> BSIZE then panic ''initlog: too big logheader''
      else
      seq (initlock LogLock ''log'') (
      seq (modify (\<lambda>s. s\<lparr>log_start := sint (logstart sb)\<rparr>)) (
      seq (modify (\<lambda>s. s\<lparr>log_size := sint (nlog sb)\<rparr>)) (
      seq (modify (\<lambda>s. s\<lparr>log_dev := dev\<rparr>))
          recover_from_log))))"

definition begin_op :: "('z logst_scheme, unit) kmon" where
  "begin_op =
     seq (acquire LogLock) (
     seq (while_rounds ROUNDS
       (gets (\<lambda>s. committing s \<or> lh_n s + (outstanding s + 1) * int MAXOPBLOCKS > int LOGSIZE))
       (sleep ChanLog LogLock)) (
     seq (modify (\<lambda>s. s\<lparr>outstanding := outstanding s + 1\<rparr>))
         (release LogLock)))"

definition write_log_body :: "nat \<Rightarrow> ('z logst_scheme, unit) kmon" where
  "write_log_body tail =
       bind (gets log_dev) (\<lambda>dev.
       bind (gets (log_blockno tail)) (\<lambda>lb.
       bind (bread dev lb) (\<lambda>to.
       bind (gets (\<lambda>s. lh_block s tail)) (\<lambda>cb.
       bind (bread dev cb) (\<lambda>from.
       bind (get_buf from) (\<lambda>f.
       seq (upd_buf to (\<lambda>t. t\<lparr>bdata := bdata f\<rparr>)) (
       seq (bwrite to) (
       seq (brelse from)
           (brelse to)))))))))"

definition write_log :: "('z logst_scheme, unit) kmon" where
  "write_log = bind (gets lh_n) (\<lambda>n. for_each [0..<nat n] write_log_body)"

definition commit :: "('z logst_scheme, unit) kmon" where
  "commit =
     bind (gets lh_n) (\<lambda>n.
     kwhen (n > 0) (
       seq write_log (
       seq write_head (
       seq (install_trans False) (
       seq (modify (\<lambda>s. s\<lparr>lh_n := 0\<rparr>))
           write_head)))))"

definition end_op :: "('z logst_scheme, unit) kmon" where
  "end_op =
     seq (acquire LogLock) (
     seq (modify (\<lambda>s. s\<lparr>outstanding := outstanding s - 1\<rparr>)) (
     bind (gets committing) (\<lambda>c.
     if c then panic ''log.committing''
     else bind (gets outstanding) (\<lambda>k.
     let do_commit = (k = 0) in
     seq (if do_commit then modify (\<lambda>s. s\<lparr>committing := True\<rparr>) else wakeup (Some ChanLog)) (
     seq (release LogLock) (
     kwhen do_commit (
       seq commit (
       seq (acquire LogLock) (
       seq (modify (\<lambda>s. s\<lparr>committing := False\<rparr>)) (
       seq (wakeup (Some ChanLog))
           (release LogLock)))))))))))"

text \<open>The index of the loop over \<open>log.lh.block\<close> in \<open>log_write\<close> when it ends.\<close>

definition absorb_index :: "uint \<Rightarrow> 'z logst_scheme \<Rightarrow> nat" where
  "absorb_index bno s =
     (case find (\<lambda>i. lh_block s i = bno) [0..<nat (lh_n s)] of Some i \<Rightarrow> i | None \<Rightarrow> nat (lh_n s))"

definition log_write :: "nat \<Rightarrow> ('z logst_scheme, unit) kmon" where
  "log_write b =
     seq (acquire LogLock) (
     bind (gets (\<lambda>s. (lh_n s, log_size s, outstanding s))) (\<lambda>(n, lsz, k).
     if n \<ge> int LOGSIZE \<or> n \<ge> lsz - 1 then panic ''too big a transaction''
     else if k < 1 then panic ''log_write outside of trans''
     else bind (get_buf b) (\<lambda>x.
     bind (gets (absorb_index (blockno x))) (\<lambda>i.
     seq (modify (\<lambda>s. s\<lparr>lh_block := (lh_block s)(i := blockno x)\<rparr>)) (
     seq (kwhen (int i = n) (
       seq (bpin b)
           (modify (\<lambda>s. s\<lparr>lh_n := lh_n s + 1\<rparr>))))
         (release LogLock))))))"

section \<open>Header blocks\<close>

lemma length_put_bytes [simp]: "off + length xs \<le> length bs \<Longrightarrow> length (put_bytes off xs bs) = length bs"
  by (simp add: put_bytes_def)

lemma length_put32 [simp]: "off + 4 \<le> length bs \<Longrightarrow> length (put32 off w bs) = length bs"
  by (simp add: put32_def)

lemma get32_put32:
  assumes "off + 4 \<le> length bs"
  shows "get32 off (put32 off w bs) = w"
proof -
  have "take 4 (drop off (put32 off w bs)) = le_bytes 4 w"
    using assms by (simp add: put32_def put_bytes_def)
  then show ?thesis by (simp add: get32_def le_word_le_bytes)
qed

lemma get32_put32_other:
  assumes "off + 4 \<le> length bs" "off' + 4 \<le> length bs" "off + 4 \<le> off' \<or> off' + 4 \<le> off"
  shows "get32 off' (put32 off w bs) = get32 off' bs"
proof -
  have "take 4 (drop off' (put32 off w bs)) = take 4 (drop off' bs)"
  proof (rule nth_equalityI)
    show "length (take 4 (drop off' (put32 off w bs))) = length (take 4 (drop off' bs))"
      using assms by simp
    fix i assume "i < length (take 4 (drop off' (put32 off w bs)))"
    then have i: "i < 4" by simp
    have "put32 off w bs ! (off' + i) = bs ! (off' + i)"
      using assms i by (auto simp: put32_def put_bytes_def nth_append min_def)
    then show "take 4 (drop off' (put32 off w bs)) ! i = take 4 (drop off' bs) ! i"
      using i assms by simp
  qed
  then show ?thesis by (simp add: get32_def)
qed

definition put_blocks :: "(nat \<Rightarrow> uint) \<Rightarrow> nat \<Rightarrow> byte list \<Rightarrow> byte list" where
  "put_blocks blk n bs = fold (\<lambda>i. put32 (4 + 4 * i) (blk i)) [0..<n] bs"

lemma put_blocks_Suc [simp]: "put_blocks blk (Suc n) bs = put32 (4 + 4 * n) (blk n) (put_blocks blk n bs)"
  by (simp add: put_blocks_def)

lemma put_blocks_0 [simp]: "put_blocks blk 0 bs = bs"
  by (simp add: put_blocks_def)

lemma length_put_blocks [simp]: "4 + 4 * n \<le> length bs \<Longrightarrow> length (put_blocks blk n bs) = length bs"
  by (induction n) simp_all

lemma get32_put_blocks:
  assumes "4 + 4 * n \<le> length bs"
  shows "get32 0 (put_blocks blk n bs) = get32 0 bs"
    "i < n \<Longrightarrow> get32 (4 + 4 * i) (put_blocks blk n bs) = blk i"
proof -
  show "get32 0 (put_blocks blk n bs) = get32 0 bs"
    using assms by (induction n) (simp_all add: get32_put32_other)
  show "i < n \<Longrightarrow> get32 (4 + 4 * i) (put_blocks blk n bs) = blk i"
    using assms
  proof (induction n)
    case (Suc n)
    then have l: "length (put_blocks blk n bs) = length bs" by simp
    show ?case
    proof (cases "i = n")
      case True
      then show ?thesis using Suc.prems l get32_put32 [of "4 + 4 * n" "put_blocks blk n bs"] by simp
    next
      case False
      then have "i < n" using Suc.prems by simp
      then show ?thesis
        using Suc l get32_put32_other [of "4 + 4 * n" "put_blocks blk n bs" "4 + 4 * i"] by simp
    qed
  qed simp
qed

section \<open>Copying a block through the cache\<close>

text \<open>\<open>bstep\<close>: what a sequence of cache operations that ends with no buffer held has done.\<close>

definition bstep :: "nat \<Rightarrow> uint \<Rightarrow> nat set \<Rightarrow> 'z bcache_scheme \<Rightarrow> nat set \<Rightarrow> 'z bcache_scheme \<Rightarrow>
    (uint \<times> byte list) list \<Rightarrow> bool" where
  "bstep p dv P s P' s' W \<longleftrightarrow> calm p s' \<and> bcache_rep p dv {} P' s' \<and> bio_frame s s' \<and>
     dwrites s' = dwrites s @ W \<and> disk s' = fold (\<lambda>(b, d) D. D(b := d)) W (disk s) \<and>
     cdata dv s' = fold (\<lambda>(b, d) C. C(b := d)) W (cdata dv s) \<and>
     (\<forall>j \<in> P'. j \<in> P \<and> blockno (bufs s' j) = blockno (bufs s j))"

lemma bstep_trans:
  assumes "bstep p dv P s P' s' W" "bstep p dv P' s' P'' s'' V"
  shows "bstep p dv P s P'' s'' (W @ V)"
  using assms bio_frame_trans unfolding bstep_def by auto

lemma bstep_refl: "calm p s \<Longrightarrow> bcache_rep p dv {} P s \<Longrightarrow> bstep p dv P s P s []"
  by (simp add: bstep_def)

text \<open>Two different blocks are read; the second is pinned, or there is room for both.\<close>

lemma bread_two:
  fixes s :: "'z bcache_scheme"
  assumes "calm p s" "bcache_rep p dv {} P s" "a \<noteq> b" "card P < NBUF"
    "(\<exists>j \<in> P. blockno (bufs s j) = b) \<or> card P + 1 < NBUF"
  shows "\<exists>i k s'. bind (bread dv a) (\<lambda>i. bind (bread dv b) (\<lambda>k. f i k)) s = f i k s' \<and>
    i \<noteq> k \<and> calm p s' \<and> bcache_rep p dv {i, k} P s' \<and> cdata dv s' = cdata dv s \<and> disk s' = disk s \<and>
    dwrites s' = dwrites s \<and> bio_frame s s' \<and> blockno (bufs s' i) = a \<and> blockno (bufs s' k) = b \<and>
    bdata (bufs s' i) = cdata dv s a \<and> bdata (bufs s' k) = cdata dv s b \<and>
    (\<forall>j \<in> P. blockno (bufs s' j) = blockno (bufs s j))"
proof -
  have fin: "finite P" using bcache_repD(3) [OF assms(2)] finite_subset by blast
  obtain i s1 where i: "bread dv a s = Ok i s1" "i < NBUF" "calm p s1" "bcache_rep p dv {i} P s1" "cdata dv s1 = cdata dv s"
    "disk s1 = disk s" "dwrites s1 = dwrites s" "bio_frame s s1" "blockno (bufs s1 i) = a" "bdata (bufs s1 i) = cdata dv s a"
    "\<forall>j. j \<noteq> i \<longrightarrow> bufs s1 j = bufs s j" "i \<in> P \<longrightarrow> blockno (bufs s i) = a"
    using bread_spec [OF assms(1,2) _ room_card, of a] fin assms(4) by auto
  have pin1: "blockno (bufs s1 j) = blockno (bufs s j)" if "j \<in> P" for j
    using i(9,11,12) that by (cases "j = i") auto
  have "room dv b ({i} \<union> P) s1"
  proof (cases "\<exists>j \<in> P. blockno (bufs s j) = b")
    case True
    then obtain j where j: "j \<in> P" "blockno (bufs s j) = b" by blast
    then have "j < NBUF" "bdev (bufs s1 j) = dv"
      using bcache_repD(3) [OF assms(2)] bcache_repD(5) [OF i(4), of j] by (auto simp: buf_ok_def Let_def)
    then show ?thesis using j pin1 unfolding room_def by auto
  next
    case False
    then have "card P + 1 < NBUF" using assms(5) by blast
    then show ?thesis using fin by (intro room_card) (auto simp: card_insert_if)
  qed
  then obtain k s2 where k: "bread dv b s1 = Ok k s2" "k \<noteq> i" "calm p s2" "bcache_rep p dv {i, k} P s2" "cdata dv s2 = cdata dv s1"
    "disk s2 = disk s1" "dwrites s2 = dwrites s1" "bio_frame s1 s2" "blockno (bufs s2 k) = b" "bdata (bufs s2 k) = cdata dv s1 b"
    "\<forall>j. j \<noteq> k \<longrightarrow> bufs s2 j = bufs s1 j" "k \<in> P \<longrightarrow> blockno (bufs s1 k) = b"
    using bread_spec [OF i(3,4), of b] i(9) assms(3) by (auto simp: insert_commute)
  have "blockno (bufs s2 j) = blockno (bufs s j)" if "j \<in> P" for j
    using k(9,11,12) pin1 [OF that] that by (cases "j = k") auto
  then show ?thesis
    using i k bio_frame_trans [OF i(8) k(8)]
    by (intro exI [of _ i] exI [of _ k] exI [of _ s2]) (auto simp: bind_apply)
qed


lemma unpinned_clean:
  assumes "bcache_rep p dv {} P s" "\<And>j. j \<in> P \<Longrightarrow> blockno (bufs s j) \<noteq> b"
  shows "cdata dv s b = disk s b"
proof (cases "\<exists>j < NBUF. caches dv b s j")
  case True
  then obtain j where j: "j < NBUF" "caches dv b s j" by blast
  then have "j \<notin> P" using assms(2) by (auto simp: caches_def)
  then show ?thesis
    using cdata_cached [OF assms(1) j] bcache_repD(5) [OF assms(1) j(1)] j(2) by (simp add: buf_ok_def Let_def caches_def)
next
  case False
  then show ?thesis using cdata_uncached [of dv b s] by blast
qed

lemma pinned_same:
  assumes "bcache_rep p dv held P s" "i \<in> held" "j \<in> P" "blockno (bufs s j) = blockno (bufs s i)"
  shows "i = j"
proof -
  have "i < NBUF" "bdev (bufs s i) = dv" using held_buf [OF assms(1,2)] by blast+
  moreover have "j < NBUF" "bdev (bufs s j) = dv"
    using bcache_repD(3) [OF assms(1)] bcache_repD(5) [OF assms(1), of j] assms(3) by (auto simp: buf_ok_def Let_def)
  ultimately show ?thesis using bcache_repD(6) [OF assms(1), of i j] assms(4) by simp
qed

text \<open>
  The common tail of \<open>write_log\<close> and \<open>install_trans\<close>: copy the data of \<open>src\<close> to \<open>dst\<close>, write \<open>dst\<close>,
  possibly unpin it, and release both.
\<close>

definition copy_tail :: "bool \<Rightarrow> nat \<Rightarrow> nat \<Rightarrow> nat \<Rightarrow> nat \<Rightarrow> ('z bcache_scheme, unit) kmon" where
  "copy_tail unpin src dst x y =
     bind (get_buf src) (\<lambda>f.
     seq (upd_buf dst (\<lambda>t. t\<lparr>bdata := bdata f\<rparr>)) (
     seq (bwrite dst) (
     seq (kwhen unpin (bunpin dst)) (
     seq (brelse x)
         (brelse y)))))"

lemma copy_tail_spec:
  fixes s :: "'z bcache_scheme"
  assumes c: "calm p s" and rep: "bcache_rep p dv {src, dst} P s" and ne: "src \<noteq> dst"
    and xy: "x = src \<and> y = dst \<or> x = dst \<and> y = src"
    and clean: "src \<notin> P \<Longrightarrow> bdata (bufs s src) = disk s (blockno (bufs s src))"
    and up: "unpin \<Longrightarrow> dst \<in> P"
  defines "b \<equiv> blockno (bufs s dst)" and "d \<equiv> bdata (bufs s src)"
    and "P' \<equiv> if unpin then P - {dst} else P"
  shows "\<exists>s'. copy_tail unpin src dst x y s = Ok () s' \<and> calm p s' \<and> bcache_rep p dv {} P' s' \<and> bio_frame s s' \<and>
    dwrites s' = dwrites s @ [(b, d)] \<and> disk s' = (disk s)(b := d) \<and> cdata dv s' = (cdata dv s)(b := d) \<and>
    (\<forall>j \<in> P'. blockno (bufs s' j) = blockno (bufs s j))"
proof -
  have len: "length d = BSIZE" unfolding d_def using held_buf(4) [OF rep] by simp
  have sb: "blockno (bufs s src) \<noteq> b"
    using bcache_repD(6) [OF rep, of src dst] held_buf [OF rep] ne by (auto simp: b_def)
  define s1 where "s1 = s\<lparr>bufs := (bufs s)(dst := (bufs s dst)\<lparr>bdata := d\<rparr>)\<rparr>"
  have r1: "bcache_rep p dv {src, dst} P s1" "cdata dv s1 = (cdata dv s)(b := d)"
    using set_data_rep [OF rep _ len] by (simp_all add: s1_def b_def)
  have c1: "calm p s1" using c by (simp add: s1_def)
  define s2 where "s2 = s1\<lparr>disk := (disk s1)(b := d), dwrites := dwrites s1 @ [(b, d)]\<rparr>"
  have bd: "blockno (bufs s1 dst) = b" "bdata (bufs s1 dst) = d" by (simp_all add: s1_def b_def)
  have w: "bwrite dst s1 = Ok () s2" using bwrite_eq [OF c1 r1(1)] by (simp add: s2_def bd)
  have r2: "bcache_rep p dv {src, dst} P s2" "cdata dv s2 = cdata dv s1"
    using bwrite_rep [OF r1(1), of dst] by (simp_all add: s2_def bd)
  have c2: "calm p s2" using c1 by (simp add: s2_def)
  have B2: "bufs s2 = bufs s1" by (simp add: s2_def)
  have "\<exists>s3. kwhen unpin (bunpin dst) s2 = Ok () s3 \<and> calm p s3 \<and> bcache_rep p dv {src, dst} P' s3 \<and>
     cdata dv s3 = cdata dv s2 \<and> disk s3 = disk s2 \<and> dwrites s3 = dwrites s2 \<and> bio_frame s2 s3 \<and>
     (\<forall>j. blockno (bufs s3 j) = blockno (bufs s2 j) \<and> bdata (bufs s3 j) = bdata (bufs s2 j))"
  proof (cases unpin)
    case True
    have "refcnt (bufs s2 dst) - 1 = 1 + of_bool (dst \<in> P')"
      using bcache_repD(5) [OF r2(1), of dst] held_buf(1) [OF r2(1), of dst] up True
      by (simp add: buf_ok_def Let_def P'_def)
    from refcnt_rep [OF r2(1) _ _ _ this] show ?thesis
      using True c2 bcache_repD(3) [OF rep] by (auto simp: kexec bpin_eq [OF c2] P'_def)
  next
    case False
    then show ?thesis using c2 r2 by (auto simp: kexec P'_def)
  qed
  then obtain s3 where s3: "kwhen unpin (bunpin dst) s2 = Ok () s3" "calm p s3" "bcache_rep p dv {src, dst} P' s3"
     "cdata dv s3 = cdata dv s2" "disk s3 = disk s2" "dwrites s3 = dwrites s2" "bio_frame s2 s3"
     "\<And>j. blockno (bufs s3 j) = blockno (bufs s2 j)" "\<And>j. bdata (bufs s3 j) = bdata (bufs s2 j)" by blast
  have clean3: "j \<notin> P' \<Longrightarrow> bdata (bufs s3 j) = disk s3 (blockno (bufs s3 j))" if "j = src \<or> j = dst" for j
    using that clean sb bd ne
    by (auto simp: s3(5,8,9) B2 s1_def s2_def P'_def d_def split: if_splits)
  have x: "x \<in> {src, dst}" "y \<in> {src, dst} - {x}" "{src, dst} - {x} - {y} = {}" using xy ne by auto
  obtain s4 where s4: "brelse x s3 = Ok () s4" "calm p s4" "bcache_rep p dv ({src, dst} - {x}) P' s4"
     "cdata dv s4 = cdata dv s3" "disk s4 = disk s3" "dwrites s4 = dwrites s3" "bio_frame s3 s4"
     "\<And>j. blockno (bufs s4 j) = blockno (bufs s3 j)" "\<And>j. bdata (bufs s4 j) = bdata (bufs s3 j)"
    using brelse_spec [OF s3(2,3) x(1)] clean3 [of x] x(1) by blast
  obtain s5 where s5: "brelse y s4 = Ok () s5" "calm p s5" "bcache_rep p dv ({src, dst} - {x} - {y}) P' s5"
     "cdata dv s5 = cdata dv s4" "disk s5 = disk s4" "dwrites s5 = dwrites s4" "bio_frame s4 s5"
     "\<And>j. blockno (bufs s5 j) = blockno (bufs s4 j)"
    using brelse_spec [OF s4(2,3) x(2)] clean3 [of y] x(2) s4(5,8,9) by auto
  have "copy_tail unpin src dst x y s = Ok () s5"
    using w s3(1) s4(1) s5(1)
    by (simp add: copy_tail_def kexec get_buf_def upd_buf_def s1_def [symmetric] d_def [symmetric])
  moreover have "bio_frame s s5"
  proof -
    have "bio_frame s s1" "bio_frame s1 s2" by (simp_all add: s1_def s2_def)
    then show ?thesis using s3(7) s4(7) s5(7) bio_frame_trans by blast
  qed
  moreover have "blockno (bufs s5 j) = blockno (bufs s j)" for j
    by (simp add: s5(8) s4(8) s3(8) B2 s1_def)
  ultimately show ?thesis
    using s5 s4 s3 r2(2) r1(2) x(3) by (intro exI [of _ s5]) (simp add: s1_def s2_def)
qed


lemma copy_first:
  fixes s :: "'z bcache_scheme"
  assumes "calm p s" "bcache_rep p dv {} P s" "a \<noteq> b" "card P < NBUF" "\<exists>j \<in> P. blockno (bufs s j) = b"
  shows "\<exists>s'. bind (bread dv a) (\<lambda>t. bind (bread dv b) (\<lambda>f. copy_tail False f t f t)) s = Ok () s' \<and>
    bstep p dv P s P s' [(a, cdata dv s b)]"
proof -
  have pre: "(\<exists>j \<in> P. blockno (bufs s j) = b) \<or> card P + 1 < NBUF" using assms(5) by blast
  from bread_two [OF assms(1-4) pre, of "\<lambda>t f. copy_tail False f t f t"] obtain t f s1 where r:
    "bind (bread dv a) (\<lambda>t. bind (bread dv b) (\<lambda>f. copy_tail False f t f t)) s = copy_tail False f t f t s1"
    "t \<noteq> f" "calm p s1" "bcache_rep p dv {t, f} P s1" "cdata dv s1 = cdata dv s" "disk s1 = disk s"
    "dwrites s1 = dwrites s" "bio_frame s s1" "blockno (bufs s1 t) = a" "blockno (bufs s1 f) = b"
    "bdata (bufs s1 f) = cdata dv s b" "\<And>j. j \<in> P \<Longrightarrow> blockno (bufs s1 j) = blockno (bufs s j)" by blast
  obtain j where "j \<in> P" "blockno (bufs s j) = b" using assms(5) by blast
  then have fP: "f \<in> P" using pinned_same [OF r(4), of f j] r(10,12) by auto
  have rep: "bcache_rep p dv {f, t} P s1" using r(4) by (simp add: insert_commute)
  from copy_tail_spec [OF r(3) rep, of f t False] r fP obtain s' where
    "copy_tail False f t f t s1 = Ok () s'" "calm p s'" "bcache_rep p dv {} P s'" "bio_frame s1 s'"
    "dwrites s' = dwrites s @ [(a, cdata dv s b)]" "disk s' = (disk s)(a := cdata dv s b)"
    "cdata dv s' = (cdata dv s)(a := cdata dv s b)" "\<And>j. j \<in> P \<Longrightarrow> blockno (bufs s' j) = blockno (bufs s1 j)" by auto
  then show ?thesis
    using r bio_frame_trans [OF r(8)] by (intro exI [of _ s']) (auto simp: bstep_def)
qed

lemma copy_second:
  fixes s :: "'z bcache_scheme"
  assumes "calm p s" "bcache_rep p dv {} P s" "a \<noteq> b" "card P < NBUF"
    and pin: "unpin \<Longrightarrow> \<exists>j \<in> P. blockno (bufs s j) = b" "\<not> unpin \<Longrightarrow> P = {}" "\<And>j. j \<in> P \<Longrightarrow> blockno (bufs s j) \<noteq> a"
  shows "\<exists>s'. bind (bread dv a) (\<lambda>l. bind (bread dv b) (\<lambda>d. copy_tail unpin l d l d)) s = Ok () s' \<and>
    bstep p dv P s {j \<in> P. blockno (bufs s j) \<noteq> b} s' [(b, cdata dv s a)]"
proof -
  have pre: "(\<exists>j \<in> P. blockno (bufs s j) = b) \<or> card P + 1 < NBUF"
    using pin(1,2) by (cases unpin) (auto simp: NBUF_def MAXOPBLOCKS_def)
  from bread_two [OF assms(1-4) pre, of "\<lambda>l d. copy_tail unpin l d l d"] obtain l d s1 where r:
    "bind (bread dv a) (\<lambda>l. bind (bread dv b) (\<lambda>d. copy_tail unpin l d l d)) s = copy_tail unpin l d l d s1"
    "l \<noteq> d" "calm p s1" "bcache_rep p dv {l, d} P s1" "cdata dv s1 = cdata dv s" "disk s1 = disk s"
    "dwrites s1 = dwrites s" "bio_frame s s1" "blockno (bufs s1 l) = a" "blockno (bufs s1 d) = b"
    "bdata (bufs s1 l) = cdata dv s a" "\<And>j. j \<in> P \<Longrightarrow> blockno (bufs s1 j) = blockno (bufs s j)" by blast
  have dP: "d \<in> P" if u: unpin
  proof -
    obtain j where "j \<in> P" "blockno (bufs s j) = b" using pin(1) [OF u] by blast
    then show ?thesis using pinned_same [OF r(4), of d j] r(10,12) by auto
  qed
  have cl: "bdata (bufs s1 l) = disk s1 (blockno (bufs s1 l))"
    using unpinned_clean [OF assms(2), of a] pin(3) r(6,9,11) by metis
  have P': "(if unpin then P - {d} else P) = {j \<in> P. blockno (bufs s j) \<noteq> b}"
  proof (cases unpin)
    case True
    have "j = d" if "j \<in> P" "blockno (bufs s j) = b" for j
      using pinned_same [OF r(4), of d j] r(10,12) that by auto
    moreover have "blockno (bufs s d) = b" using r(10,12) dP [OF True] by metis
    ultimately show ?thesis using True by auto
  next
    case False
    then show ?thesis using pin(2) by auto
  qed
  from copy_tail_spec [OF r(3,4,2), of l d unpin] cl dP r obtain s' where
    "copy_tail unpin l d l d s1 = Ok () s'" "calm p s'" "bcache_rep p dv {} {j \<in> P. blockno (bufs s j) \<noteq> b} s'" "bio_frame s1 s'"
    "dwrites s' = dwrites s @ [(b, cdata dv s a)]" "disk s' = (disk s)(b := cdata dv s a)"
    "cdata dv s' = (cdata dv s)(b := cdata dv s a)"
    "\<And>j. j \<in> {j \<in> P. blockno (bufs s j) \<noteq> b} \<Longrightarrow> blockno (bufs s' j) = blockno (bufs s1 j)"
    unfolding P' by auto
  then show ?thesis
    using r bio_frame_trans [OF r(8)] by (intro exI [of _ s']) (auto simp: bstep_def)
qed

section \<open>Steps of the log\<close>

lemma bio_frame_log:
  fixes s :: "'z logst_scheme"
  assumes "bio_frame s s'"
  shows "log_start s' = log_start s" "log_size s' = log_size s" "outstanding s' = outstanding s"
    "committing s' = committing s" "log_dev s' = log_dev s" "lh_n s' = lh_n s" "lh_block s' = lh_block s"
proof -
  note e = assms [unfolded bio_frame_def]
  show "log_start s' = log_start s" "log_size s' = log_size s" "outstanding s' = outstanding s"
    "committing s' = committing s" "log_dev s' = log_dev s" "lh_n s' = lh_n s" "lh_block s' = lh_block s"
    using arg_cong [OF e, of log_start] arg_cong [OF e, of log_size] arg_cong [OF e, of outstanding]
      arg_cong [OF e, of committing] arg_cong [OF e, of log_dev] arg_cong [OF e, of lh_n]
      arg_cong [OF e, of lh_block] by simp_all
qed

lemma bread_log:
  fixes s :: "'z logst_scheme"
  assumes "calm p s" "bcache_rep p dv {} P s" "card P < NBUF"
  shows "bind (bread dv a) (\<lambda>i. bind (gets (\<lambda>s. lh_block s t)) (\<lambda>b. f i b)) s = bind (bread dv a) (\<lambda>i. f i (lh_block s t)) s"
proof -
  have "finite P" using bcache_repD(3) [OF assms(2)] finite_subset by blast
  then obtain i s' where "bread dv a s = Ok i s'" "bio_frame s s'"
    using bread_spec [OF assms(1,2) _ room_card, of a] assms(3) by auto
  then show ?thesis using bio_frame_log(7) by (fastforce simp: bind_apply)
qed

lemma skip_seq [simp]: "seq (kwhen False m) k = k"
  by (rule ext) (simp add: kexec)

lemma write_log_body_step:
  fixes s :: "'z logst_scheme"
  assumes "calm p s" "bcache_rep p (log_dev s) {} P s" "card P < NBUF" "log_blockno t s \<noteq> lh_block s t"
    "\<exists>j \<in> P. blockno (bufs s j) = lh_block s t"
  shows "\<exists>s'. write_log_body t s = Ok () s' \<and>
    bstep p (log_dev s) P s P s' [(log_blockno t s, cdata (log_dev s) s (lh_block s t))]"
proof -
  have "write_log_body t s = bind (bread (log_dev s) (log_blockno t s)) (\<lambda>i. bind (gets (\<lambda>s. lh_block s t)) (\<lambda>b.
      bind (bread (log_dev s) b) (\<lambda>f. copy_tail False f i f i))) s"
    by (simp add: write_log_body_def bind_apply [of "gets g" for g] copy_tail_def)
  then show ?thesis
    using copy_first [OF assms(1,2,4,3,5)] by (simp add: bread_log [OF assms(1-3)])
qed

lemma install_body_step:
  fixes s :: "'z logst_scheme"
  assumes "calm p s" "bcache_rep p (log_dev s) {} P s" "card P < NBUF" "log_blockno t s \<noteq> lh_block s t"
    "\<not> recovering \<Longrightarrow> \<exists>j \<in> P. blockno (bufs s j) = lh_block s t" "recovering \<Longrightarrow> P = {}"
    "\<And>j. j \<in> P \<Longrightarrow> blockno (bufs s j) \<noteq> log_blockno t s"
  shows "\<exists>s'. install_body recovering t s = Ok () s' \<and>
    bstep p (log_dev s) P s {j \<in> P. blockno (bufs s j) \<noteq> lh_block s t} s'
      [(lh_block s t, cdata (log_dev s) s (log_blockno t s))]"
proof -
  have "install_body recovering t s = bind (bread (log_dev s) (log_blockno t s)) (\<lambda>i. bind (gets (\<lambda>s. lh_block s t)) (\<lambda>b.
      bind (bread (log_dev s) b) (\<lambda>d. copy_tail (\<not> recovering) i d i d))) s"
    by (simp add: install_body_def bind_apply [of "gets g" for g] copy_tail_def)
  then show ?thesis
    using copy_second [OF assms(1,2,4,3), of "\<not> recovering"] assms(5-7) by (simp add: bread_log [OF assms(1-3)])
qed


lemma upd_buf_apply: "upd_buf b f s = Ok () (s\<lparr>bufs := (bufs s)(b := f (bufs s b))\<rparr>)"
  by (simp add: upd_buf_def)

lemma hdr_loop:
  fixes s :: "'a logst_scheme"
  shows "for_each [0..<k] (put_entry b) s =
   Ok () (s\<lparr>bufs := (bufs s)(b := (bufs s b)\<lparr>bdata := put_blocks (lh_block s) k (bdata (bufs s b))\<rparr>)\<rparr>)"
proof (induction k)
  case (Suc k)
  have "[0..<Suc k] = [0..<k] @ [k]" by simp
  then have "for_each [0..<Suc k] (put_entry b) s = for_each [k] (put_entry b)
      (s\<lparr>bufs := (bufs s)(b := (bufs s b)\<lparr>bdata := put_blocks (lh_block s) k (bdata (bufs s b))\<rparr>)\<rparr>)"
    by (simp only: for_each_append bind_apply Suc continue.simps)
  moreover have "put_entry b k t = Ok () (t\<lparr>bufs := (bufs t)(b := (bufs t b)\<lparr>bdata :=
      put32 (4 + 4 * k) (lh_block t k) (bdata (bufs t b))\<rparr>)\<rparr>)" for t :: "'a logst_scheme"
    by (simp add: put_entry_def bind_apply upd_buf_apply)
  ultimately show ?case by (simp add: bind_apply) (simp add: fun_upd_def)
qed simp

definition hdr_block :: "'z logst_scheme \<Rightarrow> uint" where
  "hdr_block s = word_of_int (log_start s)"

definition hdr_data :: "nat \<Rightarrow> (nat \<Rightarrow> uint) \<Rightarrow> byte list \<Rightarrow> byte list" where
  "hdr_data n blk bs = put_blocks blk n (put32 0 (of_nat n) bs)"

lemma write_head_step:
  fixes s :: "'z logst_scheme"
  assumes c: "calm p s" and rep: "bcache_rep p (log_dev s) {} P s" and "card P < NBUF"
    and np: "\<And>j. j \<in> P \<Longrightarrow> blockno (bufs s j) \<noteq> hdr_block s"
    and n: "lh_n s = int n" "n \<le> LOGSIZE"
  shows "\<exists>s'. write_head s = Ok () s' \<and>
    bstep p (log_dev s) P s P s' [(hdr_block s, hdr_data n (lh_block s) (cdata (log_dev s) s (hdr_block s)))]"
proof -
  let ?dv = "log_dev s" and ?h = "hdr_block s"
  have "finite P" using bcache_repD(3) [OF rep] finite_subset by blast
  then obtain i s1 where i: "bread ?dv ?h s = Ok i s1" "calm p s1" "bcache_rep p ?dv {i} P s1" "cdata ?dv s1 = cdata ?dv s"
    "disk s1 = disk s" "dwrites s1 = dwrites s" "bio_frame s s1" "blockno (bufs s1 i) = ?h"
    "bdata (bufs s1 i) = cdata ?dv s ?h" "\<forall>j. j \<noteq> i \<longrightarrow> bufs s1 j = bufs s j" "i \<in> P \<longrightarrow> blockno (bufs s i) = ?h"
    using bread_spec [OF c rep _ room_card, of ?h] assms(3) by auto
  have iP: "i \<notin> P" using i(11) np by blast
  note lf = bio_frame_log [OF i(7)]
  let ?d = "hdr_data n (lh_block s) (cdata ?dv s ?h)"
  have len: "length (cdata ?dv s ?h) = BSIZE" using held_buf(4) [OF i(3)] i(9) by simp
  then have dl: "length ?d = BSIZE" using n(2)
    by (simp add: hdr_data_def BSIZE_def LOGSIZE_def MAXOPBLOCKS_def)
  define s2 where "s2 = s1\<lparr>bufs := (bufs s1)(i := (bufs s1 i)\<lparr>bdata := ?d\<rparr>)\<rparr>"
  have r2: "bcache_rep p ?dv {i} P s2" "cdata ?dv s2 = (cdata ?dv s)(?h := ?d)"
    using set_data_rep [OF i(3) _ dl] i(4,8) by (simp_all add: s2_def)
  have c2: "calm p s2" using i(2) by (simp add: s2_def)
  define s3 where "s3 = s2\<lparr>disk := (disk s2)(?h := ?d), dwrites := dwrites s2 @ [(?h, ?d)]\<rparr>"
  have bd: "blockno (bufs s2 i) = ?h" "bdata (bufs s2 i) = ?d" using i(8) by (simp_all add: s2_def)
  have w: "bwrite i s2 = Ok () s3" using bwrite_eq [OF c2 r2(1)] by (simp add: s3_def bd)
  have r3: "bcache_rep p ?dv {i} P s3" "cdata ?dv s3 = cdata ?dv s2"
    using bwrite_rep [OF r2(1), of i] by (simp_all add: s3_def bd)
  have c3: "calm p s3" using c2 by (simp add: s3_def)
  have cl: "bdata (bufs s3 i) = disk s3 (blockno (bufs s3 i))" using bd by (simp add: s3_def)
  obtain s4 where s4: "brelse i s3 = Ok () s4" "calm p s4" "bcache_rep p ?dv {} P s4" "cdata ?dv s4 = cdata ?dv s3"
    "disk s4 = disk s3" "dwrites s4 = dwrites s3" "bio_frame s3 s4" "\<And>j. blockno (bufs s4 j) = blockno (bufs s3 j)"
    using brelse_spec [OF c3 r3(1)] cl by auto
  have "write_head s = Ok () s4"
    using i(1) w s4(1) lf n(1) i(9)
    by (simp add: write_head_def kexec hdr_block_def [symmetric] upd_buf_apply hdr_loop hdr_data_def s2_def)
  moreover have "bio_frame s s4"
  proof -
    have "bio_frame s1 s2" "bio_frame s2 s3" by (simp_all add: s2_def s3_def)
    then show ?thesis using i(7) s4(7) bio_frame_trans by blast
  qed
  moreover have "blockno (bufs s4 j) = blockno (bufs s j)" if "j \<in> P" for j
    using i(10) iP that s4(8) by (auto simp: s3_def s2_def)
  ultimately show ?thesis
    using s4 r3(2) r2(2) i(5,6) by (intro exI [of _ s4]) (simp add: bstep_def s3_def s2_def)
qed

section \<open>The log area\<close>

lemma LOGSIZE_pos: "0 < LOGSIZE"
  by (simp add: LOGSIZE_def MAXOPBLOCKS_def)

text \<open>The header and the blocks behind it; \<open>log_write\<close> lets a transaction have at most \<open>LOGSIZE - 1\<close> of them.\<close>

definition log_area :: "'z logst_scheme \<Rightarrow> uint set" where
  "log_area s = insert (hdr_block s) ((\<lambda>t. log_blockno t s) ` {..<LOGSIZE - 1})"

definition log_layout :: "'z logst_scheme \<Rightarrow> bool" where
  "log_layout s \<longleftrightarrow> 0 \<le> log_start s \<and> log_start s + int LOGSIZE < 2 ^ 31"

lemma word_of_int_inj32:
  "0 \<le> x \<Longrightarrow> x < 2 ^ 31 \<Longrightarrow> 0 \<le> y \<Longrightarrow> y < 2 ^ 31 \<Longrightarrow> (word_of_int x :: uint) = word_of_int y \<Longrightarrow> x = y"
  by (simp add: word_of_int_eq_iff take_bit_int_eq_self_iff take_bit_int_eq_self)

lemma log_area_distinct:
  assumes "log_layout s" "t < LOGSIZE"
  shows "log_blockno t s \<noteq> hdr_block s" "u < LOGSIZE \<Longrightarrow> log_blockno t s = log_blockno u s \<Longrightarrow> t = u"
proof -
  have b: "0 \<le> log_start s" "log_start s + int LOGSIZE < 2 ^ 31" using assms(1) by (simp_all add: log_layout_def)
  show "log_blockno t s \<noteq> hdr_block s"
    using word_of_int_inj32 [of "log_start s + int t + 1" "log_start s"] b assms(2)
    by (auto simp: log_blockno_def hdr_block_def)
  show "t = u" if "u < LOGSIZE" "log_blockno t s = log_blockno u s"
    using word_of_int_inj32 [of "log_start s + int t + 1" "log_start s + int u + 1"] b assms(2) that
    by (auto simp: log_blockno_def)
qed

definition logged :: "'z logst_scheme \<Rightarrow> uint list" where
  "logged s = map (lh_block s) [0..<nat (lh_n s)]"

text \<open>
  \<open>log_rep p s P\<close>: between operations, the pinned buffers are exactly those of the logged blocks,
  which lie outside the log area.
\<close>

definition log_rep :: "nat \<Rightarrow> 'z logst_scheme \<Rightarrow> nat set \<Rightarrow> bool" where
  "log_rep p s P \<longleftrightarrow> calm p s \<and> bcache_rep p (log_dev s) {} P s \<and> log_layout s \<and>
     0 \<le> lh_n s \<and> nat (lh_n s) < LOGSIZE \<and> distinct (logged s) \<and> set (logged s) \<inter> log_area s = {} \<and>
     (\<lambda>j. blockno (bufs s j)) ` P = set (logged s)"

lemma pinned_inj: "bcache_rep p dv held P s \<Longrightarrow> inj_on (\<lambda>j. blockno (bufs s j)) P"
proof (rule inj_onI)
  fix i j assume rep: "bcache_rep p dv held P s" and ij: "i \<in> P" "j \<in> P" "blockno (bufs s i) = blockno (bufs s j)"
  have "k < NBUF \<and> bdev (bufs s k) = dv" if "k \<in> P" for k
    using bcache_repD(3) [OF rep] bcache_repD(5) [OF rep, of k] that by (auto simp: buf_ok_def Let_def)
  then show "i = j" using bcache_repD(6) [OF rep] ij by blast
qed

lemma log_rep_card:
  assumes "log_rep p s P"
  shows "card P = nat (lh_n s)" "card P < NBUF"
proof -
  have inj: "inj_on (\<lambda>j. blockno (bufs s j)) P"
    by (rule pinned_inj [of p "log_dev s" "{}"]) (use assms in \<open>simp add: log_rep_def\<close>)
  have "card P = card (set (logged s))" using card_image [OF inj] assms by (simp add: log_rep_def)
  also have "\<dots> = length (logged s)" by (rule distinct_card) (use assms in \<open>simp add: log_rep_def\<close>)
  also have "\<dots> = nat (lh_n s)" by (simp add: logged_def)
  finally show "card P = nat (lh_n s)" .
  then show "card P < NBUF" using assms by (simp add: log_rep_def LOGSIZE_def NBUF_def)
qed


section \<open>Commit\<close>

abbreviation apply_writes :: "(uint \<times> byte list) list \<Rightarrow> (uint \<Rightarrow> byte list) \<Rightarrow> uint \<Rightarrow> byte list" where
  "apply_writes W D \<equiv> fold (\<lambda>(b, d) D. D(b := d)) W D"

lemma apply_writes_other: "x \<notin> fst ` set W \<Longrightarrow> apply_writes W D x = D x"
  by (induction W arbitrary: D) auto

lemma apply_writes_map:
  "distinct (map f [0..<n]) \<Longrightarrow> t < n \<Longrightarrow> apply_writes (map (\<lambda>t. (f t, g t)) [0..<n]) D (f t) = g t"
proof (induction n)
  case (Suc n)
  show ?case
  proof (cases "t = n")
    case False
    then have "t \<in> {0..<n}" using Suc.prems(2) by simp
    then have "f t \<noteq> f n" using Suc.prems(1) by (auto simp: rev_image_eqI)
    then show ?thesis using Suc False by simp
  qed simp
qed simp

lemma area_logged:
  assumes "log_layout s" "set (logged s) \<inter> log_area s = {}" "n = nat (lh_n s)" "n < LOGSIZE" "t < n" "u < n"
  shows "lh_block s t \<noteq> log_blockno u s" "lh_block s t \<noteq> hdr_block s" "log_blockno u s \<noteq> hdr_block s"
proof -
  have "lh_block s t \<in> set (logged s)" using assms(3,5) by (simp add: logged_def)
  moreover have "log_blockno u s \<in> log_area s" "hdr_block s \<in> log_area s" using assms(4,6) by (auto simp: log_area_def)
  ultimately show "lh_block s t \<noteq> log_blockno u s" "lh_block s t \<noteq> hdr_block s" using assms(2) by auto
  show "log_blockno u s \<noteq> hdr_block s" using log_area_distinct(1) [OF assms(1)] assms(4,6) by simp
qed

lemma log_fields_blockno:
  assumes "bio_frame s (s' :: 'z logst_scheme)"
  shows "log_blockno t s' = log_blockno t s" "hdr_block s' = hdr_block s" "log_layout s' = log_layout s"
    "log_area s' = log_area s" "logged s' = logged s"
  using bio_frame_log [OF assms]
  by (simp_all add: log_blockno_def hdr_block_def log_layout_def log_area_def logged_def)

lemma write_log_spec:
  fixes s :: "'z logst_scheme"
  assumes r: "log_rep p s P" and k: "k \<le> nat (lh_n s)"
  shows "\<exists>s'. for_each [0..<k] write_log_body s = Ok () s' \<and>
    bstep p (log_dev s) P s P s' (map (\<lambda>t. (log_blockno t s, cdata (log_dev s) s (lh_block s t))) [0..<k])"
  using k
proof (induction k)
  case 0
  then show ?case using r by (simp add: bstep_refl log_rep_def)
next
  case (Suc k)
  let ?dv = "log_dev s" and ?W = "map (\<lambda>t. (log_blockno t s, cdata (log_dev s) s (lh_block s t))) [0..<k]"
  from Suc obtain s1 where s1: "for_each [0..<k] write_log_body s = Ok () s1" "bstep p ?dv P s P s1 ?W" by auto
  then have b: "calm p s1" "bcache_rep p ?dv {} P s1" "bio_frame s s1" "cdata ?dv s1 = apply_writes ?W (cdata ?dv s)"
    "\<And>j. j \<in> P \<Longrightarrow> blockno (bufs s1 j) = blockno (bufs s j)" by (auto simp: bstep_def)
  have layout: "log_layout s" "set (logged s) \<inter> log_area s = {}" "nat (lh_n s) < LOGSIZE" using r by (auto simp: log_rep_def)
  note al = area_logged [OF layout(1,2) refl layout(3)]
  have kn: "k < nat (lh_n s)" using Suc.prems by simp
  have f: "log_dev s1 = ?dv" "lh_block s1 = lh_block s" "log_blockno k s1 = log_blockno k s"
    using bio_frame_log [OF b(3)] log_fields_blockno [OF b(3)] by auto
  have "lh_block s k \<in> set (logged s)" using kn by (simp add: logged_def)
  then obtain j where "j \<in> P" "blockno (bufs s j) = lh_block s k" using r by (force simp: log_rep_def)
  then have pj: "\<exists>j \<in> P. blockno (bufs s1 j) = lh_block s1 k" using b(5) f(2) by auto
  have ne: "log_blockno k s1 \<noteq> lh_block s1 k" using al(1) [OF kn kn] f by auto
  from write_log_body_step [OF b(1) _ log_rep_card(2) [OF r] ne pj] b(2) f obtain s2 where
    s2: "write_log_body k s1 = Ok () s2" "bstep p ?dv P s1 P s2 [(log_blockno k s, cdata ?dv s1 (lh_block s k))]" by auto
  have "lh_block s k \<notin> fst ` set ?W" using al(1) kn by force
  then have "cdata ?dv s1 (lh_block s k) = cdata ?dv s (lh_block s k)" by (simp add: b(4) apply_writes_other)
  then show ?case
    using s1(1) s2(1) bstep_trans [OF s1(2) s2(2)] by (simp add: for_each_append bind_apply)
qed

lemma notin_writes:
  assumes "\<And>t. t < k \<Longrightarrow> f t \<noteq> x"
  shows "x \<notin> fst ` set (map (\<lambda>t. (f t, g t)) [0..<k])"
proof
  assume "x \<in> fst ` set (map (\<lambda>t. (f t, g t)) [0..<k])"
  then obtain t where "t < k" "x = f t" by auto
  with assms [of t] show False by simp
qed

lemma bstepD:
  assumes "bstep p dv P s P' s' W"
  shows "calm p s'" "bcache_rep p dv {} P' s'" "bio_frame s s'" "cdata dv s' = apply_writes W (cdata dv s)"
    "disk s' = apply_writes W (disk s)" "dwrites s' = dwrites s @ W"
    "j \<in> P' \<Longrightarrow> j \<in> P" "j \<in> P' \<Longrightarrow> blockno (bufs s' j) = blockno (bufs s j)"
  using assms by (simp_all add: bstep_def)

lemma install_spec:
  fixes s :: "'z logst_scheme"
  assumes c: "calm p s" "bcache_rep p (log_dev s) {} P s" "card P < NBUF" "log_layout s" "nat (lh_n s) < LOGSIZE"
    "distinct (logged s)" "set (logged s) \<inter> log_area s = {}"
    and P: "\<not> recovering \<Longrightarrow> (\<lambda>j. blockno (bufs s j)) ` P = set (logged s)" "recovering \<Longrightarrow> P = {}"
    and k: "k \<le> nat (lh_n s)"
  shows "\<exists>s'. for_each [0..<k] (install_body recovering) s = Ok () s' \<and>
    bstep p (log_dev s) P s {j \<in> P. blockno (bufs s j) \<notin> lh_block s ` {..<k}} s'
      (map (\<lambda>t. (lh_block s t, cdata (log_dev s) s (log_blockno t s))) [0..<k])"
  using k
proof (induction k)
  case 0
  then show ?case using c by (simp add: bstep_refl)
next
  case (Suc k)
  let ?dv = "log_dev s" and ?W = "map (\<lambda>t. (lh_block s t, cdata (log_dev s) s (log_blockno t s))) [0..<k]"
  let ?Q = "\<lambda>k. {j \<in> P. blockno (bufs s j) \<notin> lh_block s ` {..<k}}"
  have "k \<le> nat (lh_n s)" using Suc.prems by simp
  from Suc.IH [OF this] obtain s1 where s1: "for_each [0..<k] (install_body recovering) s = Ok () s1" "bstep p ?dv P s (?Q k) s1 ?W" by blast
  note b = bstepD(1-4,8) [OF s1(2)]
  note al = area_logged [OF c(4,7) refl c(5)]
  have kn: "k < nat (lh_n s)" using Suc.prems by simp
  have f: "log_dev s1 = ?dv" "lh_block s1 = lh_block s" "log_blockno k s1 = log_blockno k s"
    using bio_frame_log [OF b(3)] log_fields_blockno [OF b(3)] by auto
  have fin: "finite P" using bcache_repD(3) [OF c(2)] finite_subset by blast
  have cardQ: "card (?Q k) < NBUF" using card_mono [OF fin, of "?Q k"] c(3) by auto
  have dis: "lh_block s k \<notin> lh_block s ` {..<k}"
  proof
    assume "lh_block s k \<in> lh_block s ` {..<k}"
    then obtain u where "u < k" "lh_block s u = lh_block s k" by auto
    then show False using c(6) kn nth_eq_iff_index_eq [of "logged s" u k] by (auto simp: logged_def)
  qed
  have pj: "\<exists>j \<in> ?Q k. blockno (bufs s1 j) = lh_block s1 k" if nr: "\<not> recovering"
  proof -
    have "lh_block s k \<in> set (logged s)" using kn by (simp add: logged_def)
    then have "lh_block s k \<in> (\<lambda>j. blockno (bufs s j)) ` P" using P(1) [OF nr] by simp
    then obtain j where j: "j \<in> P" "blockno (bufs s j) = lh_block s k" by auto
    then have "j \<in> ?Q k" using dis by auto
    then show ?thesis using b(5) [of j] f(2) j(2) by (intro bexI [of _ j]) simp_all
  qed
  have na: "blockno (bufs s1 j) \<noteq> log_blockno k s1" if "j \<in> ?Q k" for j
  proof (cases recovering)
    case True
    then show ?thesis using P(2) that by auto
  next
    case False
    then have "blockno (bufs s j) \<in> set (logged s)" using P(1) that by auto
    then obtain u where "u < nat (lh_n s)" "blockno (bufs s j) = lh_block s u" by (auto simp: logged_def)
    then show ?thesis using b(5) [OF that] f al(1) [OF _ kn, of u] by simp
  qed
  have ne: "log_blockno k s1 \<noteq> lh_block s1 k" using al(1) [OF kn kn] f by auto
  have b2: "bcache_rep p (log_dev s1) {} (?Q k) s1" using b(2) by (simp only: f(1))
  have Q0: "?Q k = {}" if recovering using P(2) [OF that] by simp
  from install_body_step [OF b(1) b2 cardQ ne pj Q0 na] obtain s2 where
    s2: "install_body recovering k s1 = Ok () s2"
      "bstep p ?dv (?Q k) s1 {j \<in> ?Q k. blockno (bufs s1 j) \<noteq> lh_block s k} s2 [(lh_block s k, cdata ?dv s1 (log_blockno k s))]"
    unfolding f by blast
  have Q: "{j \<in> ?Q k. blockno (bufs s1 j) \<noteq> lh_block s k} = ?Q (Suc k)"
    using b(5) by (auto simp: lessThan_Suc)
  have "log_blockno k s \<notin> fst ` set ?W" by (rule notin_writes) (rule al(1) [OF _ kn], use kn in simp)
  then have "cdata ?dv s1 (log_blockno k s) = cdata ?dv s (log_blockno k s)" by (simp add: b(4) apply_writes_other)
  then show ?case
    using s1(1) s2(1) bstep_trans [OF s1(2) s2(2) [unfolded Q]] by (simp add: for_each_append bind_apply)
qed


text \<open>The four groups of writes of a commit: the log blocks, the header, the home blocks, the header.\<close>

definition log_writes :: "'z logst_scheme \<Rightarrow> (uint \<times> byte list) list" where
  "log_writes s = map (\<lambda>t. (log_blockno t s, cdata (log_dev s) s (lh_block s t))) [0..<nat (lh_n s)]"

definition home_writes :: "'z logst_scheme \<Rightarrow> (uint \<times> byte list) list" where
  "home_writes s = map (\<lambda>t. (lh_block s t, cdata (log_dev s) s (lh_block s t))) [0..<nat (lh_n s)]"

definition commit_hdr :: "'z logst_scheme \<Rightarrow> byte list" where
  "commit_hdr s = hdr_data (nat (lh_n s)) (lh_block s) (disk s (hdr_block s))"

definition commit_writes :: "'z logst_scheme \<Rightarrow> (uint \<times> byte list) list" where
  "commit_writes s = log_writes s @ [(hdr_block s, commit_hdr s)] @ home_writes s @
     [(hdr_block s, hdr_data 0 (lh_block s) (commit_hdr s))]"

lemma apply_writes_append: "apply_writes (V @ W) D = apply_writes W (apply_writes V D)"
  by simp

lemma lh_n_upd [simp]:
  "calm p (s\<lparr>lh_n := n\<rparr>) = calm p s" "bcache_rep p dv held P (s\<lparr>lh_n := n\<rparr>) = bcache_rep p dv held P s"
  "cdata dv (s\<lparr>lh_n := n\<rparr>) = cdata dv s" "hdr_block (s\<lparr>lh_n := n\<rparr>) = hdr_block s"
proof -
  have "caches dv b (s\<lparr>lh_n := n\<rparr>) = caches dv b s" for b by (simp add: caches_def fun_eq_iff)
  then show "cdata dv (s\<lparr>lh_n := n\<rparr>) = cdata dv s" by (intro ext) (simp add: cdata_def split: option.split)
qed (simp_all add: calm_def cpu_quiet_def lock_free_def intr_enabled_def cur_def bcache_rep_def buf_ok_def hdr_block_def)

lemma bio_frame_lh_n:
  fixes s :: "'z logst_scheme"
  assumes "bio_frame s s'"
  shows "bio_frame (s\<lparr>lh_n := n\<rparr>) (s'\<lparr>lh_n := n\<rparr>)"
proof -
  have "s'\<lparr>lh_n := n\<rparr> = s\<lparr>sleeplocks := sleeplocks s', bufs := bufs s', disk := disk s', dwrites := dwrites s', lh_n := n\<rparr>"
    using assms by (metis bio_frame_def)
  also have "\<dots> = s\<lparr>lh_n := n, sleeplocks := sleeplocks s', bufs := bufs s', disk := disk s', dwrites := dwrites s'\<rparr>"
    by simp
  finally show ?thesis by (simp add: bio_frame_def)
qed

lemma commit_spec:
  fixes s :: "'z logst_scheme"
  assumes r: "log_rep p s P" and n: "0 < lh_n s"
  shows "\<exists>s'. commit s = Ok () s' \<and> calm p s' \<and> bcache_rep p (log_dev s) {} {} s' \<and> lh_n s' = 0 \<and>
    dwrites s' = dwrites s @ commit_writes s \<and> disk s' = apply_writes (commit_writes s) (disk s) \<and>
    bio_frame (s\<lparr>lh_n := 0\<rparr>) s'"
proof -
  let ?n = "nat (lh_n s)" and ?dv = "log_dev s" and ?C = "cdata (log_dev s) s"
  have R: "calm p s" "bcache_rep p ?dv {} P s" "log_layout s" "?n < LOGSIZE" "distinct (logged s)"
    "set (logged s) \<inter> log_area s = {}" "(\<lambda>j. blockno (bufs s j)) ` P = set (logged s)"
    using r by (simp_all add: log_rep_def)
  note card = log_rep_card(2) [OF r]
  note al = area_logged [OF R(3,6) refl R(4)]
  have hP: "blockno (bufs s j) \<noteq> hdr_block s" if "j \<in> P" for j
  proof -
    have "blockno (bufs s j) \<in> set (logged s)" using R(7) that by blast
    then obtain u where "u < ?n" "blockno (bufs s j) = lh_block s u" by (auto simp: logged_def)
    then show ?thesis using al(2) [of u u] by simp
  qed
  obtain s1 where s1: "for_each [0..<?n] write_log_body s = Ok () s1" "bstep p ?dv P s P s1 (log_writes s)"
    using write_log_spec [OF r order.refl] unfolding log_writes_def by blast
  note b1 = bstepD [OF s1(2)] and f1 = bio_frame_log [OF bstepD(3) [OF s1(2)]] log_fields_blockno [OF bstepD(3) [OF s1(2)]]
  have "hdr_block s \<notin> fst ` set (log_writes s)"
    unfolding log_writes_def using al(3) by (intro notin_writes) blast
  then have h1: "cdata ?dv s1 (hdr_block s) = disk s (hdr_block s)"
    using unpinned_clean [OF R(2) hP] by (simp add: b1(4) apply_writes_other)
  have np1: "blockno (bufs s1 j) \<noteq> hdr_block s1" if "j \<in> P" for j using b1(8) [OF that] hP [OF that] f1 by simp
  have "lh_n s1 = int ?n" using n f1 by simp
  from write_head_step [OF b1(1) _ card np1 this less_imp_le [OF R(4)]] b1(2) obtain s2 where
    s2: "write_head s1 = Ok () s2" "bstep p ?dv P s1 P s2 [(hdr_block s, commit_hdr s)]"
    unfolding f1 h1 commit_hdr_def by blast
  note s12 = bstep_trans [OF s1(2) s2(2)]
  note b2 = bstepD [OF s12] and f2 = bio_frame_log [OF bstepD(3) [OF s12]] log_fields_blockno [OF bstepD(3) [OF s12]]
  have P2: "(\<lambda>j. blockno (bufs s2 j)) ` P = set (logged s)" unfolding R(7) [symmetric] by (rule image_cong) (simp_all add: b2(8))
  have C2: "cdata ?dv s2 (log_blockno t s) = ?C (lh_block s t)" if "t < ?n" for t
  proof -
    have "distinct (map (\<lambda>t. log_blockno t s) [0..<?n])"
      using log_area_distinct(2) [OF R(3)] R(4) by (auto simp: distinct_map intro!: inj_onI)
    from apply_writes_map [OF this that] show ?thesis
      using al(3) [OF that that] by (simp add: b2(4) log_writes_def)
  qed
  have "\<exists>s3. for_each [0..<?n] (install_body False) s2 = Ok () s3 \<and>
    bstep p ?dv P s2 {j \<in> P. blockno (bufs s2 j) \<notin> lh_block s ` {..<?n}} s3 (home_writes s)"
  proof -
    have "map (\<lambda>t. (lh_block s t, cdata ?dv s2 (log_blockno t s))) [0..<?n] = home_writes s"
      unfolding home_writes_def by (rule map_cong) (simp_all add: C2)
    then show ?thesis using install_spec [of p s2 P False ?n] b2(1,2) card R P2 by (simp add: f2)
  qed
  moreover have "{j \<in> P. blockno (bufs s2 j) \<notin> lh_block s ` {..<?n}} = {}"
    using P2 by (auto simp: logged_def atLeast0LessThan)
  ultimately obtain s3 where s3: "for_each [0..<?n] (install_body False) s2 = Ok () s3" "bstep p ?dv P s2 {} s3 (home_writes s)"
    by auto
  note s13 = bstep_trans [OF s12 s3(2)]
  note b3 = bstepD [OF s13] and f3 = bio_frame_log [OF bstepD(3) [OF s13]] log_fields_blockno [OF bstepD(3) [OF s13]]
  define s4 where "s4 = s3\<lparr>lh_n := 0\<rparr>"
  have "hdr_block s \<notin> fst ` set (home_writes s)"
    unfolding home_writes_def using al(2) by (intro notin_writes) blast
  then have h3: "cdata ?dv s4 (hdr_block s) = commit_hdr s" by (simp add: s4_def b3(4) apply_writes_other)
  have "\<exists>s5. write_head s4 = Ok () s5 \<and> bstep p ?dv {} s4 {} s5 [(hdr_block s, hdr_data 0 (lh_block s) (commit_hdr s))]"
    using write_head_step [of p s4 "{}" 0] b3(1,2) h3 by (simp add: s4_def f3 NBUF_def MAXOPBLOCKS_def LOGSIZE_def)
  then obtain s5 where s5: "write_head s4 = Ok () s5" "bstep p ?dv {} s4 {} s5 [(hdr_block s, hdr_data 0 (lh_block s) (commit_hdr s))]"
    by blast
  note b5 = bstepD [OF s5(2)] and f5 = bio_frame_log [OF bstepD(3) [OF s5(2)]]
  have "commit s = Ok () s5"
    using n s1(1) s2(1) s3(1) s5(1) by (simp add: commit_def write_log_def install_trans_def kexec f1 f2 s4_def)
  moreover have "bio_frame (s\<lparr>lh_n := 0\<rparr>) s4" unfolding s4_def by (rule bio_frame_lh_n [OF b3(3)])
  ultimately show ?thesis
    using b5 b3(5,6) f5 bio_frame_trans [OF _ b5(3)]
    by (intro exI [of _ s5]) (simp add: s4_def commit_writes_def)
qed

end
