(* ===== verification/Xv6_Console.thy ===== *)
theory Xv6_Console
  imports Xv6_Log
begin

unbundle bit_operations_syntax

text \<open>
  Output and input of the kernel: \<open>kernel/uart.c\<close>, \<open>kernel/printf.c\<close>, \<open>kernel/console.c\<close> and
  \<open>procdump\<close> of \<open>kernel/proc.c\<close>.

  The 16550 behind \<open>uart.c\<close> is a device: \<open>WriteReg\<close> and \<open>ReadReg\<close> give the documented effect of
  its registers on the bytes sent (\<open>sent\<close>), the transmit holding register (\<open>thr_full\<close>) and the
  bytes that have arrived and were not read yet (\<open>rx\<close>).  A loop that polls the line status until
  the holding register is empty ends when the device has sent the byte, so its effect is
  \<open>wait_tx_idle\<close>.  The byte the device sends by itself is the device step \<open>uart_drain\<close>.

  The variable arguments of \<open>printf\<close> are a list of 64-bit registers and string pointers.  Code
  whose behaviour C leaves undefined (a write outside an array, a missing argument) ends in the
  outcome \<open>undefined_behaviour\<close>.
\<close>

section \<open>uart.c\<close>

record uartst = logst +
  uart_ier :: byte
  uart_lcr :: byte
  uart_fcr :: byte
  uart_baud :: "byte \<times> byte"
  thr_full :: bool
  sent :: "byte list"
  rx :: "byte list"
  uart_tx_buf :: "nat \<Rightarrow> byte"
  uart_tx_w :: uint64
  uart_tx_r :: uint64
  panicked :: bool
  pr_locking :: bool

definition RHR :: nat where "RHR = 0"
definition THR :: nat where "THR = 0"
definition IER :: nat where "IER = 1"
definition FCR :: nat where "FCR = 2"
definition ISR :: nat where "ISR = 2"
definition LCR :: nat where "LCR = 3"
definition LSR :: nat where "LSR = 5"
definition IER_RX_ENABLE :: byte where "IER_RX_ENABLE = push_bit 0 1"
definition IER_TX_ENABLE :: byte where "IER_TX_ENABLE = push_bit 1 1"
definition FCR_FIFO_ENABLE :: byte where "FCR_FIFO_ENABLE = push_bit 0 1"
definition FCR_FIFO_CLEAR :: byte where "FCR_FIFO_CLEAR = push_bit 1 3"
definition LCR_EIGHT_BITS :: byte where "LCR_EIGHT_BITS = push_bit 0 3"
definition LCR_BAUD_LATCH :: byte where "LCR_BAUD_LATCH = push_bit 7 1"
definition LSR_RX_READY :: byte where "LSR_RX_READY = push_bit 0 1"
definition LSR_TX_IDLE :: byte where "LSR_TX_IDLE = push_bit 5 1"

definition UART_TX_BUF_SIZE :: nat where "UART_TX_BUF_SIZE = 32"

text \<open>With the baud latch open, registers 0 and 1 are the divisor.\<close>

definition WriteReg :: "nat \<Rightarrow> byte \<Rightarrow> ('z uartst_scheme, unit) kmon" where
  "WriteReg reg v =
     bind (gets (\<lambda>s. uart_lcr s AND LCR_BAUD_LATCH \<noteq> 0)) (\<lambda>latch.
     modify (\<lambda>s.
       if reg = THR then
         (if latch then s\<lparr>uart_baud := (v, snd (uart_baud s))\<rparr> else s\<lparr>sent := sent s @ [v], thr_full := True\<rparr>)
       else if reg = IER then
         (if latch then s\<lparr>uart_baud := (fst (uart_baud s), v)\<rparr> else s\<lparr>uart_ier := v\<rparr>)
       else if reg = FCR then
         (if v AND FCR_FIFO_CLEAR \<noteq> 0 then s\<lparr>uart_fcr := v, rx := [], thr_full := False\<rparr> else s\<lparr>uart_fcr := v\<rparr>)
       else if reg = LCR then s\<lparr>uart_lcr := v\<rparr>
       else s))"

definition line_status :: "'z uartst_scheme \<Rightarrow> byte" where
  "line_status s = (if rx s \<noteq> [] then LSR_RX_READY else 0) OR (if thr_full s then 0 else LSR_TX_IDLE)"

definition ReadReg :: "nat \<Rightarrow> ('z uartst_scheme, byte) kmon" where
  "ReadReg reg =
     (if reg = LSR then gets line_status
      else if reg = RHR then
        bind (gets rx) (\<lambda>q. case q of
          [] \<Rightarrow> return 0
        | c # q' \<Rightarrow> seq (modify (\<lambda>s. s\<lparr>rx := q'\<rparr>)) (return c))
      else return 0)"

definition uart_drain :: "('z uartst_scheme, unit) kmon" where
  "uart_drain = modify (\<lambda>s. s\<lparr>thr_full := False\<rparr>)"

definition wait_tx_idle :: "('z uartst_scheme, unit) kmon" where
  "wait_tx_idle = bind (ReadReg LSR) (\<lambda>v. kwhen (v AND LSR_TX_IDLE = 0) uart_drain)"

definition uartinit :: "('z uartst_scheme, unit) kmon" where
  "uartinit =
     seq (WriteReg IER 0) (
     seq (WriteReg LCR LCR_BAUD_LATCH) (
     seq (WriteReg 0 3) (
     seq (WriteReg 1 0) (
     seq (WriteReg LCR LCR_EIGHT_BITS) (
     seq (WriteReg FCR (FCR_FIFO_ENABLE OR FCR_FIFO_CLEAR)) (
     seq (WriteReg IER (IER_TX_ENABLE OR IER_RX_ENABLE))
         (initlock UartLock ''uart'')))))))"

text \<open>
  The loop of \<open>uartstart\<close> takes one byte out of the buffer in each round but the last, so the
  number of bytes in the buffer bounds its rounds.
\<close>

primrec uartstart_loop :: "nat \<Rightarrow> ('z uartst_scheme, unit) kmon" where
  "uartstart_loop 0 = bind (ReadReg ISR) (\<lambda>_. skip)"
| "uartstart_loop (Suc n) =
     bind (gets (\<lambda>s. uart_tx_w s = uart_tx_r s)) (\<lambda>empty.
     if empty then bind (ReadReg ISR) (\<lambda>_. skip)
     else bind (ReadReg LSR) (\<lambda>v.
     if v AND LSR_TX_IDLE = 0 then skip
     else bind (gets (\<lambda>s. uart_tx_buf s (unat (uart_tx_r s) mod UART_TX_BUF_SIZE))) (\<lambda>c.
     seq (modify (\<lambda>s. s\<lparr>uart_tx_r := uart_tx_r s + 1\<rparr>)) (
     seq (wakeup (Some ChanUart)) (
     seq (WriteReg THR c)
         (uartstart_loop n))))))"

definition uartstart :: "('z uartst_scheme, unit) kmon" where
  "uartstart = bind (gets (\<lambda>s. unat (uart_tx_w s - uart_tx_r s))) uartstart_loop"

definition uartputc :: "byte \<Rightarrow> ('z uartst_scheme, unit) kmon" where
  "uartputc c =
     seq (acquire UartLock) (
     bind (gets panicked) (\<lambda>dead.
     if dead then hang
     else
     seq (while_rounds ROUNDS (gets (\<lambda>s. uart_tx_w s = uart_tx_r s + of_nat UART_TX_BUF_SIZE)) (sleep ChanUart UartLock)) (
     seq (modify (\<lambda>s. s\<lparr>uart_tx_buf := (uart_tx_buf s)(unat (uart_tx_w s) mod UART_TX_BUF_SIZE := c)\<rparr>)) (
     seq (modify (\<lambda>s. s\<lparr>uart_tx_w := uart_tx_w s + 1\<rparr>)) (
     seq uartstart
         (release UartLock))))))"

definition uartputc_sync :: "byte \<Rightarrow> ('z uartst_scheme, unit) kmon" where
  "uartputc_sync c =
     seq push_off (
     bind (gets panicked) (\<lambda>dead.
     if dead then hang
     else
     seq wait_tx_idle (
     seq (WriteReg THR c)
         pop_off)))"

definition uartgetc :: "('z uartst_scheme, int) kmon" where
  "uartgetc =
     bind (ReadReg LSR) (\<lambda>v.
     if v AND 1 \<noteq> 0 then bind (ReadReg RHR) (\<lambda>c. return (uint c))
     else return (-1))"

section \<open>printf.c\<close>

definition undefined_behaviour :: "('s, 'a) kmon" where
  "undefined_behaviour = panic ''undefined behaviour''"

definition BACKSPACE :: int where "BACKSPACE = 0x100"

definition consputc :: "int \<Rightarrow> ('z uartst_scheme, unit) kmon" where
  "consputc c =
     (if c = BACKSPACE then
        seq (uartputc_sync 8) (seq (uartputc_sync 32) (uartputc_sync 8))
      else uartputc_sync (word_of_int c))"

definition digits :: string where "digits = ''0123456789abcdef''"

definition PRINTINT_BUF :: nat where "PRINTINT_BUF = 16"

text \<open>The digits of \<open>x\<close> in the order \<open>printint\<close> puts them into \<open>buf\<close>, least significant first.\<close>

fun digits_rev :: "nat \<Rightarrow> nat \<Rightarrow> nat list" where
  "digits_rev base x = (if base < 2 \<or> x < base then [x mod base] else (x mod base) # digits_rev base (x div base))"

declare digits_rev.simps [simp del]

text \<open>The contents of \<open>buf\<close> after the loop and the sign.\<close>

definition printint_buf :: "uint64 \<Rightarrow> nat \<Rightarrow> bool \<Rightarrow> string" where
  "printint_buf xx base sign =
     (let neg = sign \<and> sint xx < 0; x = (if neg then - xx else xx) in
      map (\<lambda>d. digits ! d) (digits_rev base (unat x)) @ (if neg then ''-'' else []))"

definition printint :: "uint64 \<Rightarrow> nat \<Rightarrow> bool \<Rightarrow> ('z uartst_scheme, unit) kmon" where
  "printint xx base sign =
     (let buf = printint_buf xx base sign in
      if PRINTINT_BUF < length buf then undefined_behaviour
      else for_each (rev buf) (\<lambda>c. consputc (of_char c)))"

definition printptr :: "uint64 \<Rightarrow> ('z uartst_scheme, unit) kmon" where
  "printptr x =
     seq (consputc (of_char CHR ''0'')) (
     seq (consputc (of_char CHR ''x'')) (
     for_each [0..<16] (\<lambda>i. consputc (of_char (digits ! unat (drop_bit 60 (push_bit (4 * i) x)))))))"

datatype varg = VNum uint64 | VStr "string option"

text \<open>\<open>va_arg(ap, int)\<close>, widened to \<open>long long\<close>, and \<open>va_arg(ap, uint64)\<close>.\<close>

definition va_int :: "varg list \<Rightarrow> (uint64 \<Rightarrow> ('s, unit) kmon) \<Rightarrow> ('s, unit) kmon" where
  "va_int args k = (case args of VNum w # _ \<Rightarrow> k (scast (ucast w :: uint)) | _ \<Rightarrow> undefined_behaviour)"

definition va_uint64 :: "varg list \<Rightarrow> (uint64 \<Rightarrow> ('s, unit) kmon) \<Rightarrow> ('s, unit) kmon" where
  "va_uint64 args k = (case args of VNum w # _ \<Rightarrow> k w | _ \<Rightarrow> undefined_behaviour)"

definition va_str :: "varg list \<Rightarrow> (string \<Rightarrow> ('s, unit) kmon) \<Rightarrow> ('s, unit) kmon" where
  "va_str args k = (case args of VStr (Some s) # _ \<Rightarrow> k s | VStr None # _ \<Rightarrow> k ''(null)'' | _ \<Rightarrow> undefined_behaviour)"

text \<open>
  The body of the loop for a conversion: the characters after \<open>%\<close> select what is printed, how many
  of them are consumed and whether an argument is.
\<close>

definition printf_conv :: "string \<Rightarrow> varg list \<Rightarrow> (('z uartst_scheme, unit) kmon \<times> nat \<times> bool) option" where
  "printf_conv r args =
     (let c0 = (case r of c # _ \<Rightarrow> c | [] \<Rightarrow> CHR 0x00);
          c1 = (case r of _ # c # _ \<Rightarrow> c | _ \<Rightarrow> CHR 0x00);
          c2 = (case r of _ # _ # c # _ \<Rightarrow> c | _ \<Rightarrow> CHR 0x00) in
      if c0 = CHR ''d'' then Some (va_int args (\<lambda>w. printint w 10 True), 1, True)
      else if c0 = CHR ''l'' \<and> c1 = CHR ''d'' then Some (va_uint64 args (\<lambda>w. printint w 10 True), 2, True)
      else if c0 = CHR ''l'' \<and> c1 = CHR ''l'' \<and> c2 = CHR ''d'' then Some (va_uint64 args (\<lambda>w. printint w 10 True), 3, True)
      else if c0 = CHR ''u'' then Some (va_int args (\<lambda>w. printint w 10 False), 1, True)
      else if c0 = CHR ''l'' \<and> c1 = CHR ''u'' then Some (va_uint64 args (\<lambda>w. printint w 10 False), 2, True)
      else if c0 = CHR ''l'' \<and> c1 = CHR ''l'' \<and> c2 = CHR ''u'' then Some (va_uint64 args (\<lambda>w. printint w 10 False), 3, True)
      else if c0 = CHR ''x'' then Some (va_int args (\<lambda>w. printint w 16 False), 1, True)
      else if c0 = CHR ''l'' \<and> c1 = CHR ''x'' then Some (va_uint64 args (\<lambda>w. printint w 16 False), 2, True)
      else if c0 = CHR ''l'' \<and> c1 = CHR ''l'' \<and> c2 = CHR ''x'' then Some (va_uint64 args (\<lambda>w. printint w 16 False), 3, True)
      else if c0 = CHR ''p'' then Some (va_uint64 args printptr, 1, True)
      else if c0 = CHR ''s'' then Some (va_str args (\<lambda>s. for_each s (\<lambda>c. consputc (of_char c))), 1, True)
      else if c0 = CHR ''%'' then Some (consputc (of_char CHR ''%''), 1, False)
      else if c0 = CHR 0x00 then None
      else Some (seq (consputc (of_char CHR ''%'')) (consputc (of_char c0)), 1, False))"

text \<open>The format is given without its final NUL.\<close>

function printf_loop :: "string \<Rightarrow> varg list \<Rightarrow> ('z uartst_scheme, unit) kmon" where
  "printf_loop [] args = skip"
| "printf_loop (c # r) args =
     (if c \<noteq> CHR ''%'' then seq (consputc (of_char c)) (printf_loop r args)
      else case printf_conv r args of
        None \<Rightarrow> skip
      | Some (m, k, used) \<Rightarrow> seq m (printf_loop (drop k r) (if used then tl args else args)))"
  by pat_completeness auto
termination by (relation "measure (\<lambda>(f, _). length f)") auto

definition printf :: "string \<Rightarrow> varg list \<Rightarrow> ('z uartst_scheme, unit) kmon" where
  "printf fmt args =
     bind (gets pr_locking) (\<lambda>locking.
     seq (kwhen locking (acquire PrLock)) (
     seq (printf_loop fmt args)
         (kwhen locking (release PrLock))))"

text \<open>What \<open>panic\<close> does before it stops the hart; every \<open>Panic\<close> outcome of the model is such a call.\<close>

definition panic_report :: "string \<Rightarrow> ('z uartst_scheme, unit) kmon" where
  "panic_report msg =
     seq (modify (\<lambda>s. s\<lparr>pr_locking := False\<rparr>)) (
     seq (printf ''panic: '' []) (
     seq (printf ''%s\<newline>'' [VStr (Some msg)]) (
     seq (modify (\<lambda>s. s\<lparr>panicked := True\<rparr>))
         hang)))"

definition printfinit :: "('z uartst_scheme, unit) kmon" where
  "printfinit = seq (initlock PrLock ''pr'') (modify (\<lambda>s. s\<lparr>pr_locking := True\<rparr>))"

section \<open>console.c\<close>

definition INPUT_BUF_SIZE :: nat where "INPUT_BUF_SIZE = 128"
definition CONSOLE :: nat where "CONSOLE = 1"
definition NDEV :: nat where "NDEV = 10"

text \<open>The device switch holds pointers to driver functions; the console driver is the only one.\<close>

datatype driver = ConsoleDriver

record consst = uartst +
  cons_buf :: "nat \<Rightarrow> byte"
  cons_r :: uint
  cons_w :: uint
  cons_e :: uint
  devsw_read :: "nat \<Rightarrow> driver option"
  devsw_write :: "nat \<Rightarrow> driver option"

text \<open>\<open>C(x)\<close>: the control characters.\<close>

definition ctrl :: "char \<Rightarrow> int" where
  "ctrl c = of_char c - of_char CHR ''@''"

definition consolewrite_byte :: "xaddr \<Rightarrow> ('z consst_scheme, bool) kmon" where
  "consolewrite_byte src =
     bind (either_copyin src 1) (\<lambda>(r, bs).
     if r = -1 then return False
     else seq (uartputc (hd bs)) (return True))"

primrec consolewrite_loop :: "nat \<Rightarrow> nat \<Rightarrow> xaddr \<Rightarrow> ('z consst_scheme, int) kmon" where
  "consolewrite_loop 0 i src = return (int i)"
| "consolewrite_loop (Suc k) i src =
     bind (consolewrite_byte (xadvance i src)) (\<lambda>ok.
     if ok then consolewrite_loop k (Suc i) src else return (int i))"

definition consolewrite :: "xaddr \<Rightarrow> int \<Rightarrow> ('z consst_scheme, int) kmon" where
  "consolewrite src n = consolewrite_loop (nat n) 0 src"

text \<open>
  Waiting in \<open>consoleread\<close> and \<open>piperead\<close>: \<open>while(cond) { if(killed(p)) fail; sleep(ch, lk); }\<close>.
  The result tells whether the loop ended normally.
\<close>

primrec await :: "nat \<Rightarrow> ('z ptable_scheme, bool) kmon \<Rightarrow> chan \<Rightarrow> lockid \<Rightarrow> ('z ptable_scheme, bool) kmon" where
  "await 0 c ch l = bind c (\<lambda>b. if b then hang else return True)"
| "await (Suc n) c ch l =
     bind c (\<lambda>b.
     if b then
       bind curproc (\<lambda>p.
       bind (killed p) (\<lambda>k.
       if k \<noteq> 0 then return False
       else seq (sleep ch l) (await n c ch l)))
     else return True)"

text \<open>The loop of \<open>consoleread\<close>; \<open>n\<close> counts down, the result is the final \<open>n\<close> or \<open>None\<close> when killed.\<close>

primrec consoleread_loop :: "nat \<Rightarrow> nat \<Rightarrow> xaddr \<Rightarrow> ('z consst_scheme, nat option) kmon" where
  "consoleread_loop 0 target dst = return (Some 0)"
| "consoleread_loop (Suc k) target dst =
     bind (await ROUNDS (gets (\<lambda>s. cons_r s = cons_w s)) ChanCons ConsLock) (\<lambda>ok.
     if \<not> ok then return None
     else
     bind (gets (\<lambda>s. cons_buf s (unat (cons_r s) mod INPUT_BUF_SIZE))) (\<lambda>c.
     seq (modify (\<lambda>s. s\<lparr>cons_r := cons_r s + 1\<rparr>)) (
     if uint c = ctrl CHR ''D'' then
       seq (kwhen (Suc k < target) (modify (\<lambda>s. s\<lparr>cons_r := cons_r s - 1\<rparr>)))
           (return (Some (Suc k)))
     else
     bind (either_copyout dst [c]) (\<lambda>r.
     if r = -1 then return (Some (Suc k))
     else if c = 10 then return (Some k)
     else consoleread_loop k target (xadvance 1 dst)))))"

definition consoleread :: "xaddr \<Rightarrow> int \<Rightarrow> ('z consst_scheme, int) kmon" where
  "consoleread dst n =
     seq (acquire ConsLock) (
     bind (if n > 0 then bind (consoleread_loop (nat n) (nat n) dst) (\<lambda>r. return (map_option int r)) else return (Some n)) (\<lambda>r.
     seq (release ConsLock) (
     case r of None \<Rightarrow> return (-1) | Some m \<Rightarrow> return (n - m))))"

primrec state_name :: "procstate \<Rightarrow> string" where
  "state_name UNUSED = ''unused''"
| "state_name USED = ''used''"
| "state_name SLEEPING = ''sleep ''"
| "state_name RUNNABLE = ''runble''"
| "state_name RUNNING = ''run   ''"
| "state_name ZOMBIE = ''zombie''"

definition cname :: "byte list \<Rightarrow> string" where
  "cname bs = map (\<lambda>b. char_of (unat b)) (takeWhile (\<lambda>b. b \<noteq> 0) bs)"

definition procdump :: "('z uartst_scheme, unit) kmon" where
  "procdump =
     seq (printf ''\<newline>'' []) (
     for_each [0..<NPROC] (\<lambda>p.
       bind (get_proc p) (\<lambda>q.
       kwhen (state q \<noteq> UNUSED) (
         seq (printf ''%d %s %s'' [VNum (word_of_int (pid q)), VStr (Some (state_name (state q))), VStr (Some (cname (pname q)))])
             (printf ''\<newline>'' [])))))"

text \<open>Kill line: at most the bytes between \<open>w\<close> and \<open>e\<close> are erased.\<close>

primrec kill_line :: "nat \<Rightarrow> ('z consst_scheme, unit) kmon" where
  "kill_line 0 = skip"
| "kill_line (Suc n) =
     bind (gets (\<lambda>s. cons_e s \<noteq> cons_w s \<and> cons_buf s (unat (cons_e s - 1) mod INPUT_BUF_SIZE) \<noteq> 10)) (\<lambda>b.
     if b then
       seq (modify (\<lambda>s. s\<lparr>cons_e := cons_e s - 1\<rparr>)) (
       seq (consputc BACKSPACE)
           (kill_line n))
     else skip)"

definition consoleintr :: "int \<Rightarrow> ('z consst_scheme, unit) kmon" where
  "consoleintr c =
     seq (acquire ConsLock) (
     seq (if c = ctrl CHR ''P'' then procdump
          else if c = ctrl CHR ''U'' then
            bind (gets (\<lambda>s. unat (cons_e s - cons_w s))) kill_line
          else if c = ctrl CHR ''H'' \<or> c = 0x7f then
            bind (gets (\<lambda>s. cons_e s \<noteq> cons_w s)) (\<lambda>b.
            kwhen b (
              seq (modify (\<lambda>s. s\<lparr>cons_e := cons_e s - 1\<rparr>))
                  (consputc BACKSPACE)))
          else
            bind (gets (\<lambda>s. cons_e s - cons_r s < of_nat INPUT_BUF_SIZE)) (\<lambda>free.
            kwhen (c \<noteq> 0 \<and> free) (
              let c = (if c = 13 then 10 else c) in
              seq (consputc c) (
              seq (modify (\<lambda>s. s\<lparr>cons_buf := (cons_buf s)(unat (cons_e s) mod INPUT_BUF_SIZE := word_of_int c)\<rparr>)) (
              seq (modify (\<lambda>s. s\<lparr>cons_e := cons_e s + 1\<rparr>)) (
              bind (gets (\<lambda>s. cons_e s - cons_r s = of_nat INPUT_BUF_SIZE)) (\<lambda>full.
              kwhen (c = 10 \<or> c = ctrl CHR ''D'' \<or> full) (
                seq (modify (\<lambda>s. s\<lparr>cons_w := cons_e s\<rparr>))
                    (wakeup (Some ChanCons))))))))))
         (release ConsLock))"

definition consoleinit :: "('z consst_scheme, unit) kmon" where
  "consoleinit =
     seq (initlock ConsLock ''cons'') (
     seq uartinit (
     seq (modify (\<lambda>s. s\<lparr>devsw_read := (devsw_read s)(CONSOLE := Some ConsoleDriver)\<rparr>))
         (modify (\<lambda>s. s\<lparr>devsw_write := (devsw_write s)(CONSOLE := Some ConsoleDriver)\<rparr>))))"

text \<open>The loop of \<open>uartintr\<close> reads one byte in each round.\<close>

primrec uartintr_loop :: "nat \<Rightarrow> ('z consst_scheme, unit) kmon" where
  "uartintr_loop 0 = skip"
| "uartintr_loop (Suc n) =
     bind uartgetc (\<lambda>c.
     if c = -1 then skip
     else seq (consoleintr c) (uartintr_loop n))"

definition uartintr :: "('z consst_scheme, unit) kmon" where
  "uartintr =
     seq (bind (gets (\<lambda>s. Suc (length (rx s)))) uartintr_loop) (
     seq (acquire UartLock) (
     seq uartstart
         (release UartLock)))"

end
