(* ===== verification/Xv6_Fs.thy ===== *)
theory Xv6_Fs
  imports Xv6_Console
begin

unbundle bit_operations_syntax

text \<open>
  \<open>kernel/fs.c\<close>, \<open>kernel/fs.h\<close> and the inodes of \<open>kernel/file.h\<close>: the block allocator, inodes and
  their contents, directories and path names.  A \<open>struct inode *\<close> is an index into \<open>itable\<close>, a null
  pointer \<open>None\<close>; the in-memory lock of inode \<open>i\<close> is the sleeplock \<open>InodeLock i\<close>.  Structures on
  disk are the bytes of a block, read and written through the fields at their C offsets.

  Strings (paths and names) are byte lists without the final NUL.  The array \<open>name[DIRSIZ]\<close> that
  \<open>skipelem\<close> fills is given by its bytes up to the NUL or the end of the array.  \<open>readi\<close> returns the
  bytes it copied beside the C result, for callers that read into a local variable.
\<close>

section \<open>Disk layout\<close>

definition ROOTINO :: uint where "ROOTINO = 1"
definition ROOTDEV :: uint where "ROOTDEV = 1"
definition FSMAGIC :: uint where "FSMAGIC = 0x10203040"
definition NDIRECT :: nat where "NDIRECT = 12"
definition NINDIRECT :: nat where "NINDIRECT = BSIZE div 4"
definition MAXFILE :: nat where "MAXFILE = NDIRECT + NINDIRECT"
definition DINODE_SIZE :: nat where "DINODE_SIZE = 64"
definition IPB :: nat where "IPB = BSIZE div DINODE_SIZE"
definition BPB :: nat where "BPB = BSIZE * 8"
definition DIRSIZ :: nat where "DIRSIZ = 14"
definition DIRENT_SIZE :: nat where "DIRENT_SIZE = 16"
definition NINODE :: nat where "NINODE = 50"
definition T_DIR :: ushort where "T_DIR = 1"
definition T_FILE :: ushort where "T_FILE = 2"
definition T_DEVICE :: ushort where "T_DEVICE = 3"

record inode =
  idev :: uint
  inum :: uint
  iref :: int
  ivalid :: bool
  itype :: ushort
  imajor :: ushort
  iminor :: ushort
  inlink :: ushort
  isize :: uint
  addrs :: "uint list"

record fsst = consst +
  sb :: superblock
  itable :: "nat \<Rightarrow> inode"

definition IBLOCK :: "uint \<Rightarrow> superblock \<Rightarrow> uint" where
  "IBLOCK i sblk = i div of_nat IPB + inodestart sblk"

definition BBLOCK :: "uint \<Rightarrow> superblock \<Rightarrow> uint" where
  "BBLOCK b sblk = b div of_nat BPB + bmapstart sblk"

definition get16 :: "nat \<Rightarrow> byte list \<Rightarrow> ushort" where
  "get16 off bs = le_word (take 2 (drop off bs))"

definition put16 :: "nat \<Rightarrow> ushort \<Rightarrow> byte list \<Rightarrow> byte list" where
  "put16 off w bs = put_bytes off (le_bytes 2 w) bs"

definition get_inode :: "nat \<Rightarrow> ('z fsst_scheme, inode) kmon" where
  "get_inode ip = gets (\<lambda>s. itable s ip)"

definition upd_inode :: "nat \<Rightarrow> (inode \<Rightarrow> inode) \<Rightarrow> ('z fsst_scheme, unit) kmon" where
  "upd_inode ip f = modify (\<lambda>s. s\<lparr>itable := (itable s)(ip := f (itable s ip))\<rparr>)"

definition upd_data :: "nat \<Rightarrow> (byte list \<Rightarrow> byte list) \<Rightarrow> ('z bcache_scheme, unit) kmon" where
  "upd_data b f = upd_buf b (\<lambda>x. x\<lparr>bdata := f (bdata x)\<rparr>)"

section \<open>Superblock\<close>

definition decode_sb :: "byte list \<Rightarrow> superblock" where
  "decode_sb bs = \<lparr>magic = get32 0 bs, sb_size = get32 4 bs, nblocks = get32 8 bs, ninodes = get32 12 bs,
     nlog = get32 16 bs, logstart = get32 20 bs, inodestart = get32 24 bs, bmapstart = get32 28 bs\<rparr>"

definition readsb :: "uint \<Rightarrow> ('z fsst_scheme, unit) kmon" where
  "readsb dev =
     bind (bread dev 1) (\<lambda>bp.
     bind (get_buf bp) (\<lambda>x.
     seq (modify (\<lambda>s. s\<lparr>sb := decode_sb (bdata x)\<rparr>))
         (brelse bp)))"

definition fsinit :: "uint \<Rightarrow> ('z fsst_scheme, unit) kmon" where
  "fsinit dev =
     seq (readsb dev) (
     bind (gets sb) (\<lambda>b.
     if magic b \<noteq> FSMAGIC then panic ''invalid file system''
     else initlog dev b))"

section \<open>Blocks\<close>

definition bzero :: "uint \<Rightarrow> uint \<Rightarrow> ('z logst_scheme, unit) kmon" where
  "bzero dev bno =
     bind (bread dev bno) (\<lambda>bp.
     seq (upd_data bp (\<lambda>_. replicate BSIZE 0)) (
     seq (log_write bp)
         (brelse bp)))"

definition bit_mask :: "nat \<Rightarrow> byte" where
  "bit_mask bi = push_bit (bi mod 8) 1"

definition bit_free :: "byte list \<Rightarrow> nat \<Rightarrow> bool" where
  "bit_free bs bi \<longleftrightarrow> bs ! (bi div 8) AND bit_mask bi = 0"

text \<open>The inner loop of \<open>balloc\<close>: the first free bit of a bitmap block that starts at block \<open>b\<close>.\<close>

definition find_free_bit :: "byte list \<Rightarrow> nat \<Rightarrow> nat \<Rightarrow> nat option" where
  "find_free_bit bs b limit = find (\<lambda>bi. b + bi < limit \<and> bit_free bs bi) [0..<BPB]"

definition balloc :: "uint \<Rightarrow> ('z fsst_scheme, uint) kmon" where
  "balloc dev =
     bind (gets (\<lambda>s. unat (sb_size (sb s)))) (\<lambda>limit.
     bind (for_find (map (\<lambda>k. k * BPB) [0..<(limit + BPB - 1) div BPB]) (\<lambda>b.
       bind (gets (\<lambda>s. BBLOCK (of_nat b) (sb s))) (\<lambda>bb.
       bind (bread dev bb) (\<lambda>bp.
       bind (get_buf bp) (\<lambda>x.
       case find_free_bit (bdata x) b limit of
         Some bi \<Rightarrow>
           seq (upd_data bp (\<lambda>bs. bs[bi div 8 := bs ! (bi div 8) OR bit_mask bi])) (
           seq (log_write bp) (
           seq (brelse bp) (
           seq (bzero dev (of_nat (b + bi)))
               (return (Some (of_nat (b + bi)))))))
       | None \<Rightarrow> seq (brelse bp) (return None))))))
     (\<lambda>r. case r of
       Some a \<Rightarrow> return a
     | None \<Rightarrow> seq (printf ''balloc: out of blocks\<newline>'' []) (return 0)))"

definition bfree :: "uint \<Rightarrow> uint \<Rightarrow> ('z fsst_scheme, unit) kmon" where
  "bfree dev b =
     bind (gets (\<lambda>s. BBLOCK b (sb s))) (\<lambda>bb.
     bind (bread dev bb) (\<lambda>bp.
     let bi = unat b mod BPB in
     bind (get_buf bp) (\<lambda>x.
     if bit_free (bdata x) bi then panic ''freeing free block''
     else
     seq (upd_data bp (\<lambda>bs. bs[bi div 8 := bs ! (bi div 8) AND NOT (bit_mask bi)])) (
     seq (log_write bp)
         (brelse bp)))))"

section \<open>Inodes\<close>

definition iinit :: "('z fsst_scheme, unit) kmon" where
  "iinit =
     seq (initlock ItableLock ''itable'')
         (for_each [0..<NINODE] (\<lambda>i. initsleeplock (InodeLock i) ''inode''))"

text \<open>\<open>struct dinode\<close> number \<open>i\<close> of a block.\<close>

definition dip_off :: "uint \<Rightarrow> nat" where
  "dip_off i = (unat i mod IPB) * DINODE_SIZE"

definition dinode_type :: "nat \<Rightarrow> byte list \<Rightarrow> ushort" where
  "dinode_type off bs = get16 off bs"

definition put_addrs :: "nat \<Rightarrow> uint list \<Rightarrow> byte list \<Rightarrow> byte list" where
  "put_addrs off as bs = fold (\<lambda>i. put32 (off + 4 * i) (as ! i)) [0..<NDIRECT + 1] bs"

definition put_dinode :: "nat \<Rightarrow> inode \<Rightarrow> byte list \<Rightarrow> byte list" where
  "put_dinode off x bs =
     put_addrs (off + 12) (addrs x) (
     put32 (off + 8) (isize x) (
     put16 (off + 6) (inlink x) (
     put16 (off + 4) (iminor x) (
     put16 (off + 2) (imajor x) (
     put16 off (itype x) bs)))))"

definition load_dinode :: "nat \<Rightarrow> byte list \<Rightarrow> inode \<Rightarrow> inode" where
  "load_dinode off bs x = x\<lparr>itype := get16 off bs, imajor := get16 (off + 2) bs, iminor := get16 (off + 4) bs,
     inlink := get16 (off + 6) bs, isize := get32 (off + 8) bs,
     addrs := map (\<lambda>i. get32 (off + 12 + 4 * i) bs) [0..<NDIRECT + 1]\<rparr>"

definition iupdate :: "nat \<Rightarrow> ('z fsst_scheme, unit) kmon" where
  "iupdate ip =
     bind (get_inode ip) (\<lambda>x.
     bind (gets (\<lambda>s. IBLOCK (inum x) (sb s))) (\<lambda>ib.
     bind (bread (idev x) ib) (\<lambda>bp.
     seq (upd_data bp (put_dinode (dip_off (inum x)) x)) (
     seq (log_write bp)
         (brelse bp)))))"

text \<open>The scan of \<open>iget\<close>: the entry found, or the first empty slot seen before the end.\<close>

definition iget_cached :: "uint \<Rightarrow> uint \<Rightarrow> 'z fsst_scheme \<Rightarrow> nat option" where
  "iget_cached dev i s = find (\<lambda>k. iref (itable s k) > 0 \<and> idev (itable s k) = dev \<and> inum (itable s k) = i) [0..<NINODE]"

definition iget_empty :: "'z fsst_scheme \<Rightarrow> nat option" where
  "iget_empty s = find (\<lambda>k. iref (itable s k) = 0) [0..<NINODE]"

definition iget :: "uint \<Rightarrow> uint \<Rightarrow> ('z fsst_scheme, nat) kmon" where
  "iget dev i =
     seq (acquire ItableLock) (
     bind (gets (iget_cached dev i)) (\<lambda>r. case r of
       Some ip \<Rightarrow>
         seq (upd_inode ip (\<lambda>x. x\<lparr>iref := iref x + 1\<rparr>)) (
         seq (release ItableLock)
             (return ip))
     | None \<Rightarrow>
         bind (gets iget_empty) (\<lambda>e. case e of
           None \<Rightarrow> panic ''iget: no inodes''
         | Some ip \<Rightarrow>
             seq (upd_inode ip (\<lambda>x. x\<lparr>idev := dev, inum := i, iref := 1, ivalid := False\<rparr>)) (
             seq (release ItableLock)
                 (return ip)))))"

definition ialloc :: "uint \<Rightarrow> ushort \<Rightarrow> ('z fsst_scheme, nat option) kmon" where
  "ialloc dev ty =
     bind (gets (\<lambda>s. unat (ninodes (sb s)))) (\<lambda>n.
     bind (for_find [1..<n] (\<lambda>i.
       bind (gets (\<lambda>s. IBLOCK (of_nat i) (sb s))) (\<lambda>ib.
       bind (bread dev ib) (\<lambda>bp.
       bind (get_buf bp) (\<lambda>x.
       let off = dip_off (of_nat i) in
       if dinode_type off (bdata x) = 0 then
         seq (upd_data bp (put_bytes off (replicate DINODE_SIZE 0))) (
         seq (upd_data bp (put16 off ty)) (
         seq (log_write bp) (
         seq (brelse bp) (
         bind (iget dev (of_nat i)) (\<lambda>ip.
         return (Some ip))))))
       else seq (brelse bp) (return None))))))
     (\<lambda>r. case r of
       Some ip \<Rightarrow> return (Some ip)
     | None \<Rightarrow> seq (printf ''ialloc: no inodes\<newline>'' []) (return None)))"

definition idup :: "nat \<Rightarrow> ('z fsst_scheme, nat) kmon" where
  "idup ip =
     seq (acquire ItableLock) (
     seq (upd_inode ip (\<lambda>x. x\<lparr>iref := iref x + 1\<rparr>)) (
     seq (release ItableLock)
         (return ip)))"

definition ilock :: "nat \<Rightarrow> ('z fsst_scheme, unit) kmon" where
  "ilock ip =
     bind (get_inode ip) (\<lambda>x.
     if iref x < 1 then panic ''ilock''
     else
     seq (acquiresleep (InodeLock ip)) (
     bind (get_inode ip) (\<lambda>x.
     kwhen (\<not> ivalid x) (
       bind (gets (\<lambda>s. IBLOCK (inum x) (sb s))) (\<lambda>ib.
       bind (bread (idev x) ib) (\<lambda>bp.
       bind (get_buf bp) (\<lambda>b.
       seq (upd_inode ip (load_dinode (dip_off (inum x)) (bdata b))) (
       seq (brelse bp) (
       seq (upd_inode ip (\<lambda>x. x\<lparr>ivalid := True\<rparr>)) (
       bind (get_inode ip) (\<lambda>x.
       if itype x = 0 then panic ''ilock: no type'' else skip)))))))))))"

definition iunlock :: "nat \<Rightarrow> ('z fsst_scheme, unit) kmon" where
  "iunlock ip =
     bind (holdingsleep (InodeLock ip)) (\<lambda>h.
     bind (get_inode ip) (\<lambda>x.
     if \<not> h \<or> iref x < 1 then panic ''iunlock''
     else releasesleep (InodeLock ip)))"

section \<open>Contents\<close>

definition bmap :: "nat \<Rightarrow> nat \<Rightarrow> ('z fsst_scheme, uint) kmon" where
  "bmap ip bn =
     bind (get_inode ip) (\<lambda>x.
     if bn < NDIRECT then
       (if addrs x ! bn = 0 then
          bind (balloc (idev x)) (\<lambda>a.
          if a = 0 then return 0
          else seq (upd_inode ip (\<lambda>x. x\<lparr>addrs := (addrs x)[bn := a]\<rparr>)) (return a))
        else return (addrs x ! bn))
     else if bn - NDIRECT < NINDIRECT then
       bind (if addrs x ! NDIRECT = 0 then
               bind (balloc (idev x)) (\<lambda>a.
               seq (kwhen (a \<noteq> 0) (upd_inode ip (\<lambda>x. x\<lparr>addrs := (addrs x)[NDIRECT := a]\<rparr>)))
                   (return a))
             else return (addrs x ! NDIRECT)) (\<lambda>ia.
       if ia = 0 then return 0
       else
       bind (bread (idev x) ia) (\<lambda>bp.
       bind (get_buf bp) (\<lambda>b.
       let off = 4 * (bn - NDIRECT) in
       bind (if get32 off (bdata b) = 0 then
               bind (balloc (idev x)) (\<lambda>a.
               seq (kwhen (a \<noteq> 0) (
                 seq (upd_data bp (put32 off a))
                     (log_write bp)))
                   (return a))
             else return (get32 off (bdata b))) (\<lambda>a.
       seq (brelse bp)
           (return a)))))
     else panic ''bmap: out of range'')"

definition itrunc :: "nat \<Rightarrow> ('z fsst_scheme, unit) kmon" where
  "itrunc ip =
     seq (for_each [0..<NDIRECT] (\<lambda>i.
       bind (get_inode ip) (\<lambda>x.
       kwhen (addrs x ! i \<noteq> 0) (
         seq (bfree (idev x) (addrs x ! i))
             (upd_inode ip (\<lambda>x. x\<lparr>addrs := (addrs x)[i := 0]\<rparr>)))))) (
     bind (get_inode ip) (\<lambda>x.
     seq (kwhen (addrs x ! NDIRECT \<noteq> 0) (
       bind (bread (idev x) (addrs x ! NDIRECT)) (\<lambda>bp.
       seq (for_each [0..<NINDIRECT] (\<lambda>j.
         bind (get_buf bp) (\<lambda>b.
         kwhen (get32 (4 * j) (bdata b) \<noteq> 0)
           (bfree (idev x) (get32 (4 * j) (bdata b)))))) (
       seq (brelse bp) (
       seq (bfree (idev x) (addrs x ! NDIRECT))
           (upd_inode ip (\<lambda>x. x\<lparr>addrs := (addrs x)[NDIRECT := 0]\<rparr>))))))) (
     seq (upd_inode ip (\<lambda>x. x\<lparr>isize := 0\<rparr>))
         (iupdate ip))))"

definition iput :: "nat \<Rightarrow> ('z fsst_scheme, unit) kmon" where
  "iput ip =
     seq (acquire ItableLock) (
     bind (get_inode ip) (\<lambda>x.
     seq (kwhen (iref x = 1 \<and> ivalid x \<and> inlink x = 0) (
       seq (acquiresleep (InodeLock ip)) (
       seq (release ItableLock) (
       seq (itrunc ip) (
       seq (upd_inode ip (\<lambda>x. x\<lparr>itype := 0\<rparr>)) (
       seq (iupdate ip) (
       seq (upd_inode ip (\<lambda>x. x\<lparr>ivalid := False\<rparr>)) (
       seq (releasesleep (InodeLock ip))
           (acquire ItableLock))))))))) (
     seq (upd_inode ip (\<lambda>x. x\<lparr>iref := iref x - 1\<rparr>))
         (release ItableLock))))"

definition iunlockput :: "nat \<Rightarrow> ('z fsst_scheme, unit) kmon" where
  "iunlockput ip = seq (iunlock ip) (iput ip)"

record stat =
  st_dev :: uint
  st_ino :: uint
  st_type :: ushort
  st_nlink :: ushort
  st_size :: uint64

definition stati :: "nat \<Rightarrow> ('z fsst_scheme, stat) kmon" where
  "stati ip =
     bind (get_inode ip) (\<lambda>x.
     return \<lparr>st_dev = idev x, st_ino = inum x, st_type = itype x, st_nlink = inlink x, st_size = ucast (isize x)\<rparr>)"

text \<open>
  The loops of \<open>readi\<close> and \<open>writei\<close>: \<open>off\<close> is the current offset and \<open>k = n - tot\<close> what is left.
  The result of \<open>readi_loop\<close> is the number of bytes copied, or -1, and the bytes.
\<close>

lemma chunk_pos: "0 < k \<Longrightarrow> k - min k (BSIZE - off mod BSIZE) < k"
proof -
  have "off mod BSIZE < BSIZE" by (simp add: BSIZE_def)
  then show "0 < k \<Longrightarrow> k - min k (BSIZE - off mod BSIZE) < k" by simp
qed

function readi_loop :: "nat \<Rightarrow> xaddr \<Rightarrow> nat \<Rightarrow> nat \<Rightarrow> nat \<Rightarrow> byte list \<Rightarrow> ('z fsst_scheme, int \<times> byte list) kmon" where
  "readi_loop ip dst off tot k acc =
     (if k = 0 then return (int tot, acc)
      else
      bind (bmap ip (off div BSIZE)) (\<lambda>addr.
      if addr = 0 then return (int tot, acc)
      else
      bind (get_inode ip) (\<lambda>x.
      bind (bread (idev x) addr) (\<lambda>bp.
      let m = min k (BSIZE - off mod BSIZE) in
      bind (get_buf bp) (\<lambda>b.
      let bs = take m (drop (off mod BSIZE) (bdata b)) in
      bind (either_copyout dst bs) (\<lambda>r.
      if r = -1 then seq (brelse bp) (return (-1, acc))
      else seq (brelse bp) (readi_loop ip (xadvance m dst) (off + m) (tot + m) (k - m) (acc @ bs))))))))"
  by pat_completeness auto
termination by (relation "measure (\<lambda>(_, _, _, _, k, _). k)") (auto simp: chunk_pos)

declare readi_loop.simps [simp del]

definition readi :: "nat \<Rightarrow> xaddr \<Rightarrow> uint \<Rightarrow> uint \<Rightarrow> ('z fsst_scheme, int \<times> byte list) kmon" where
  "readi ip dst off n =
     bind (get_inode ip) (\<lambda>x.
     if off > isize x \<or> off + n < off then return (0, [])
     else
     let n = (if off + n > isize x then isize x - off else n) in
     readi_loop ip dst (unat off) 0 (unat n) [])"

text \<open>\<open>writei_loop\<close> returns \<open>tot\<close> and the final \<open>off\<close>.\<close>

function writei_loop :: "nat \<Rightarrow> xaddr \<Rightarrow> nat \<Rightarrow> nat \<Rightarrow> nat \<Rightarrow> ('z fsst_scheme, nat \<times> nat) kmon" where
  "writei_loop ip src off tot k =
     (if k = 0 then return (tot, off)
      else
      bind (bmap ip (off div BSIZE)) (\<lambda>addr.
      if addr = 0 then return (tot, off)
      else
      bind (get_inode ip) (\<lambda>x.
      bind (bread (idev x) addr) (\<lambda>bp.
      let m = min k (BSIZE - off mod BSIZE) in
      bind (either_copyin src m) (\<lambda>(r, bs).
      seq (upd_data bp (put_bytes (off mod BSIZE) bs)) (
      if r = -1 then seq (brelse bp) (return (tot, off))
      else
        seq (log_write bp) (
        seq (brelse bp)
            (writei_loop ip (xadvance m src) (off + m) (tot + m) (k - m)))))))))"
  by pat_completeness auto
termination by (relation "measure (\<lambda>(_, _, _, _, k). k)") (auto simp: chunk_pos)

declare writei_loop.simps [simp del]

definition writei :: "nat \<Rightarrow> xaddr \<Rightarrow> uint \<Rightarrow> uint \<Rightarrow> ('z fsst_scheme, int) kmon" where
  "writei ip src off n =
     bind (get_inode ip) (\<lambda>x.
     if off > isize x \<or> off + n < off then return (-1)
     else if off + n > of_nat (MAXFILE * BSIZE) then return (-1)
     else
     bind (writei_loop ip src (unat off) 0 (unat n)) (\<lambda>(tot, off').
     bind (get_inode ip) (\<lambda>x.
     seq (kwhen (of_nat off' > isize x) (upd_inode ip (\<lambda>x. x\<lparr>isize := of_nat off'\<rparr>))) (
     seq (iupdate ip)
         (return (int tot))))))"

section \<open>Directories\<close>

definition namecmp :: "byte list \<Rightarrow> byte list \<Rightarrow> int" where
  "namecmp s t = strncmp (arr_ptr s) (arr_ptr t) DIRSIZ"

definition de_inum :: "byte list \<Rightarrow> ushort" where
  "de_inum de = get16 0 de"

definition de_name :: "byte list \<Rightarrow> byte list" where
  "de_name de = take DIRSIZ (drop 2 de)"

text \<open>The offsets \<open>0, 16, 32, ...\<close> below \<open>n\<close>.\<close>

definition dirent_offs :: "nat \<Rightarrow> nat list" where
  "dirent_offs n = map (\<lambda>k. k * DIRENT_SIZE) [0..<(n + DIRENT_SIZE - 1) div DIRENT_SIZE]"

definition read_dirent :: "string \<Rightarrow> nat \<Rightarrow> nat \<Rightarrow> ('z fsst_scheme, byte list) kmon" where
  "read_dirent msg dp off =
     bind (readi dp (Local []) (of_nat off) (of_nat DIRENT_SIZE)) (\<lambda>(r, de).
     if r \<noteq> int DIRENT_SIZE then panic msg else return de)"

text \<open>The result is the entry found, the inode and its offset.\<close>

definition dirlookup :: "nat \<Rightarrow> byte list \<Rightarrow> ('z fsst_scheme, (nat \<times> nat) option) kmon" where
  "dirlookup dp name =
     bind (get_inode dp) (\<lambda>x.
     if itype x \<noteq> T_DIR then panic ''dirlookup not DIR''
     else
     for_find (dirent_offs (unat (isize x))) (\<lambda>off.
       bind (read_dirent ''dirlookup read'' dp off) (\<lambda>de.
       if de_inum de = 0 then return None
       else if namecmp name (de_name de) = 0 then
         bind (iget (idev x) (ucast (de_inum de))) (\<lambda>ip.
         return (Some (ip, off)))
       else return None)))"

definition dirlink :: "nat \<Rightarrow> byte list \<Rightarrow> uint \<Rightarrow> ('z fsst_scheme, int) kmon" where
  "dirlink dp name i =
     bind (dirlookup dp name) (\<lambda>r. case r of
       Some (ip, _) \<Rightarrow> seq (iput ip) (return (-1))
     | None \<Rightarrow>
         bind (get_inode dp) (\<lambda>x.
         bind (for_find (dirent_offs (unat (isize x))) (\<lambda>off.
           bind (read_dirent ''dirlink read'' dp off) (\<lambda>de.
           return (if de_inum de = 0 then Some off else None)))) (\<lambda>r.
         let off = (case r of Some off \<Rightarrow> off
                    | None \<Rightarrow> (unat (isize x) + DIRENT_SIZE - 1) div DIRENT_SIZE * DIRENT_SIZE);
             de = le_bytes 2 (ucast i :: ushort) @ strncpy (arr_ptr name) (int DIRSIZ) in
         bind (writei dp (Local de) (of_nat off) (of_nat DIRENT_SIZE)) (\<lambda>r.
         if r \<noteq> int DIRENT_SIZE then return (-1) else return 0))))"

section \<open>Paths\<close>

definition slash :: byte where "slash = 47"

text \<open>The result is the rest of the path and the element, cut off at \<open>DIRSIZ\<close>.\<close>

definition skipelem :: "byte list \<Rightarrow> (byte list \<times> byte list) option" where
  "skipelem path =
     (let p = dropWhile (\<lambda>c. c = slash) path in
      if p = [] then None
      else Some (dropWhile (\<lambda>c. c = slash) (dropWhile (\<lambda>c. c \<noteq> slash) p),
                 take DIRSIZ (takeWhile (\<lambda>c. c \<noteq> slash) p)))"

lemma length_dropWhile_less: "xs \<noteq> [] \<Longrightarrow> P (hd xs) \<Longrightarrow> length (dropWhile P xs) < length xs"
  by (cases xs) (auto simp: le_imp_less_Suc length_dropWhile_le)

lemma skipelem_shorter:
  assumes "skipelem path = Some (rest, name)"
  shows "length rest < length path"
proof -
  let ?p = "dropWhile (\<lambda>c. c = slash) path"
  have p: "?p \<noteq> []" "rest = dropWhile (\<lambda>c. c = slash) (dropWhile (\<lambda>c. c \<noteq> slash) ?p)"
    using assms by (auto simp: skipelem_def Let_def split: if_splits)
  have "hd ?p \<noteq> slash" using hd_dropWhile [OF p(1)] by simp
  then have "length (dropWhile (\<lambda>c. c \<noteq> slash) ?p) < length ?p" using p(1) by (rule length_dropWhile_less [rotated])
  then show ?thesis
    using p(2) length_dropWhile_le [of "\<lambda>c. c = slash" path] length_dropWhile_le le_less_trans less_le_trans by metis
qed

function namex_loop :: "nat \<Rightarrow> byte list \<Rightarrow> bool \<Rightarrow> byte list \<Rightarrow> ('z fsst_scheme, (nat \<times> byte list) option) kmon" where
  "namex_loop ip path nameiparent name =
     (case skipelem path of
        None \<Rightarrow> if nameiparent then seq (iput ip) (return None) else return (Some (ip, name))
      | Some (rest, name) \<Rightarrow>
          seq (ilock ip) (
          bind (get_inode ip) (\<lambda>x.
          if itype x \<noteq> T_DIR then seq (iunlockput ip) (return None)
          else if nameiparent \<and> rest = [] then seq (iunlock ip) (return (Some (ip, name)))
          else
          bind (dirlookup ip name) (\<lambda>r. case r of
            None \<Rightarrow> seq (iunlockput ip) (return None)
          | Some (nxt, _) \<Rightarrow> seq (iunlockput ip) (namex_loop nxt rest nameiparent name)))))"
  by pat_completeness auto
termination by (relation "measure (\<lambda>(_, path, _). length path)") (auto dest: skipelem_shorter)

declare namex_loop.simps [simp del]

definition namex :: "byte list \<Rightarrow> bool \<Rightarrow> ('z fsst_scheme, (nat \<times> byte list) option) kmon" where
  "namex path nameiparent =
     bind (if take 1 path = [slash] then iget ROOTDEV ROOTINO
           else bind curproc (\<lambda>p. bind (get_proc p) (\<lambda>q.
             case cwd q of None \<Rightarrow> panic ''kerneltrap'' | Some d \<Rightarrow> idup d))) (\<lambda>ip.
     namex_loop ip path nameiparent [])"

definition namei :: "byte list \<Rightarrow> ('z fsst_scheme, nat option) kmon" where
  "namei path = bind (namex path False) (\<lambda>r. return (map_option fst r))"

definition nameiparent :: "byte list \<Rightarrow> ('z fsst_scheme, (nat \<times> byte list) option) kmon" where
  "nameiparent path = namex path True"

end
