(* ===== verification/Xv6_Layout.thy ===== *)
theory Xv6_Layout
  imports Xv6_Fs
begin

text \<open>
  Properties of the on-disk structures and of path names that need no state: writing and reading an
  inode, the names of directory entries, and the elements of a path.
\<close>

section \<open>Fields of a block\<close>

lemma slice_put_same:
  "off + length xs \<le> length bs \<Longrightarrow> take (length xs) (drop off (put_bytes off xs bs)) = xs"
  by (simp add: put_bytes_def)

lemma nth_put_bytes:
  assumes "off + length xs \<le> length bs" "i < length bs"
  shows "put_bytes off xs bs ! i = (if off \<le> i \<and> i < off + length xs then xs ! (i - off) else bs ! i)"
  using assms by (auto simp: put_bytes_def nth_append min_def)

lemma slice_put_other:
  assumes "off + length xs \<le> length bs" "off' + n \<le> length bs" "off + length xs \<le> off' \<or> off' + n \<le> off"
  shows "take n (drop off' (put_bytes off xs bs)) = take n (drop off' bs)"
proof (rule nth_equalityI)
  show "length (take n (drop off' (put_bytes off xs bs))) = length (take n (drop off' bs))"
    using assms by simp
  fix i assume "i < length (take n (drop off' (put_bytes off xs bs)))"
  then have "i < n" "off' + i < length bs" using assms(2) by simp_all
  then show "take n (drop off' (put_bytes off xs bs)) ! i = take n (drop off' bs) ! i"
    using assms by (auto simp: nth_put_bytes)
qed

lemma length_put16 [simp]: "off + 2 \<le> length bs \<Longrightarrow> length (put16 off w bs) = length bs"
  by (simp add: put16_def)

lemma get16_put16: "off + 2 \<le> length bs \<Longrightarrow> get16 off (put16 off w bs) = w"
  using slice_put_same [of off "le_bytes 2 w" bs] by (simp add: get16_def put16_def le_word_le_bytes)

lemma get16_put16_other:
  "off + 2 \<le> length bs \<Longrightarrow> off' + 2 \<le> length bs \<Longrightarrow> off + 2 \<le> off' \<or> off' + 2 \<le> off \<Longrightarrow>
   get16 off' (put16 off w bs) = get16 off' bs"
  using slice_put_other [of off "le_bytes 2 w" bs off' 2] by (simp add: get16_def put16_def)

lemma get16_put32_other:
  "off + 4 \<le> length bs \<Longrightarrow> off' + 2 \<le> length bs \<Longrightarrow> off + 4 \<le> off' \<or> off' + 2 \<le> off \<Longrightarrow>
   get16 off' (put32 off w bs) = get16 off' bs"
  using slice_put_other [of off "le_bytes 4 w" bs off' 2] by (simp add: get16_def put32_def)

lemma nth_put16_other:
  "off + 2 \<le> length bs \<Longrightarrow> i < length bs \<Longrightarrow> \<not> (off \<le> i \<and> i < off + 2) \<Longrightarrow> put16 off w bs ! i = bs ! i"
  by (auto simp: put16_def nth_put_bytes)

lemma nth_put32_other:
  "off + 4 \<le> length bs \<Longrightarrow> i < length bs \<Longrightarrow> \<not> (off \<le> i \<and> i < off + 4) \<Longrightarrow> put32 off w bs ! i = bs ! i"
  by (auto simp: put32_def nth_put_bytes)

text \<open>The array \<open>addrs\<close>, for any number of entries.\<close>

definition put_words :: "nat \<Rightarrow> uint list \<Rightarrow> nat \<Rightarrow> byte list \<Rightarrow> byte list" where
  "put_words off as n bs = fold (\<lambda>i. put32 (off + 4 * i) (as ! i)) [0..<n] bs"

lemma put_words_Suc [simp]: "put_words off as (Suc n) bs = put32 (off + 4 * n) (as ! n) (put_words off as n bs)"
  by (simp add: put_words_def)

lemma put_words_0 [simp]: "put_words off as 0 bs = bs"
  by (simp add: put_words_def)

lemma put_words_facts:
  assumes "off + 4 * n \<le> length bs"
  shows "length (put_words off as n bs) = length bs"
    "off' + 4 \<le> off \<Longrightarrow> get32 off' (put_words off as n bs) = get32 off' bs"
    "off' + 2 \<le> off \<Longrightarrow> get16 off' (put_words off as n bs) = get16 off' bs"
    "i < n \<Longrightarrow> get32 (off + 4 * i) (put_words off as n bs) = as ! i"
    "k < length bs \<Longrightarrow> k < off \<or> off + 4 * n \<le> k \<Longrightarrow> put_words off as n bs ! k = bs ! k"
  using assms
proof (induction n)
  case (Suc n)
  {
    case 1
    then show ?case using Suc.IH(1) by simp
  next
    case 2
    then show ?case using Suc.IH(1,2) by (simp add: get32_put32_other)
  next
    case 3
    then show ?case using Suc.IH(1,3) by (simp add: get16_put32_other)
  next
    case 4
    have l: "length (put_words off as n bs) = length bs" using 4 Suc.IH(1) by simp
    show ?case
    proof (cases "i = n")
      case True
      then show ?thesis using 4 l get32_put32 [of "off + 4 * n" "put_words off as n bs"] by simp
    next
      case False
      then have "i < n" using 4 by simp
      then show ?thesis
        using 4 l Suc.IH(4) get32_put32_other [of "off + 4 * n" "put_words off as n bs" "off + 4 * i"] by simp
    qed
  next
    case 5
    then show ?case using Suc.IH(1,5) by (auto simp: nth_put32_other)
  }
qed simp_all

lemma put_addrs_words: "put_addrs off as bs = put_words off as (NDIRECT + 1) bs"
  by (simp add: put_addrs_def put_words_def)

lemma dinode_roundtrip_lemma:
  assumes "off + DINODE_SIZE \<le> length bs" "length (addrs x) = NDIRECT + 1"
  shows "load_dinode off (put_dinode off x bs) y =
      y\<lparr>itype := itype x, imajor := imajor x, iminor := iminor x, inlink := inlink x, isize := isize x, addrs := addrs x\<rparr>"
    "length (put_dinode off x bs) = length bs"
    "i < length bs \<Longrightarrow> i < off \<or> off + DINODE_SIZE \<le> i \<Longrightarrow> put_dinode off x bs ! i = bs ! i"
proof -
  let ?b = "put32 (off + 8) (isize x) (put16 (off + 6) (inlink x) (put16 (off + 4) (iminor x)
    (put16 (off + 2) (imajor x) (put16 off (itype x) bs))))"
  have o: "off + 64 \<le> length bs" using assms(1) by (simp add: DINODE_SIZE_def)
  have l: "length ?b = length bs" using o by simp
  have b: "off + 12 + 4 * (NDIRECT + 1) \<le> length ?b" unfolding l using o by (simp add: NDIRECT_def)
  note w = put_words_facts [OF b, where as = "addrs x", folded put_addrs_words]
  have p: "put_dinode off x bs = put_addrs (off + 12) (addrs x) ?b" by (simp add: put_dinode_def)
  have a: "map (\<lambda>i. get32 (off + 12 + 4 * i) (put_dinode off x bs)) [0..<NDIRECT + 1] = addrs x"
    unfolding p using w(4) assms(2) by (intro nth_equalityI) (simp_all del: upt_Suc)
  have h: "get16 (off + k) (put_dinode off x bs) = get16 (off + k) ?b" if "k \<le> 10" for k
    unfolding p by (rule w(3)) (use that in simp)
  have h4: "get32 (off + 8) (put_dinode off x bs) = get32 (off + 8) ?b" unfolding p by (rule w(2)) simp
  have "get16 off ?b = itype x" "get16 (off + 2) ?b = imajor x" "get16 (off + 4) ?b = iminor x"
    "get16 (off + 6) ?b = inlink x" "get32 (off + 8) ?b = isize x"
    using o by (simp_all add: get16_put16 get16_put16_other get16_put32_other get32_put32)
  then show "load_dinode off (put_dinode off x bs) y =
      y\<lparr>itype := itype x, imajor := imajor x, iminor := iminor x, inlink := inlink x, isize := isize x, addrs := addrs x\<rparr>"
    unfolding load_dinode_def a using h [of 0] h [of 2] h [of 4] h [of 6] h4 by simp
  show "length (put_dinode off x bs) = length bs" unfolding p using w(1) l by simp
  show "put_dinode off x bs ! i = bs ! i" if "i < length bs" "i < off \<or> off + DINODE_SIZE \<le> i"
  proof -
    have "put_dinode off x bs ! i = ?b ! i"
      unfolding p using that l by (intro w(5)) (auto simp: DINODE_SIZE_def NDIRECT_def)
    also have "\<dots> = bs ! i" using that o by (auto simp: nth_put32_other nth_put16_other DINODE_SIZE_def)
    finally show ?thesis .
  qed
qed

lemma dinode_other:
  assumes "off + DINODE_SIZE \<le> length bs" "off' + DINODE_SIZE \<le> length bs" "length (addrs x) = NDIRECT + 1"
    and apart: "off + DINODE_SIZE \<le> off' \<or> off' + DINODE_SIZE \<le> off"
  shows "load_dinode off' (put_dinode off x bs) y = load_dinode off' bs y"
proof -
  have eq: "take n (drop (off' + k) (put_dinode off x bs)) = take n (drop (off' + k) bs)" if "k + n \<le> DINODE_SIZE" for k n
  proof (rule nth_equalityI)
    show l: "length (take n (drop (off' + k) (put_dinode off x bs))) = length (take n (drop (off' + k) bs))"
      using dinode_roundtrip_lemma(2) [OF assms(1,3)] by simp
    fix i assume "i < length (take n (drop (off' + k) (put_dinode off x bs)))"
    then have "i < n" "off' + k + i < length bs" unfolding l by (simp, simp add: less_diff_conv add.commute)
    then show "take n (drop (off' + k) (put_dinode off x bs)) ! i = take n (drop (off' + k) bs) ! i"
      using that apart by (auto simp: dinode_roundtrip_lemma(2,3) [OF assms(1,3)])
  qed
  have h: "get16 (off' + k) (put_dinode off x bs) = get16 (off' + k) bs" if "k \<le> 62" for k
    using eq [of k 2] that by (simp add: get16_def DINODE_SIZE_def)
  have "get32 (off' + k) (put_dinode off x bs) = get32 (off' + k) bs" if "k \<le> 60" for k
    using eq [of k 4] that by (simp add: get32_def DINODE_SIZE_def)
  then show ?thesis
    using h [of 0] h [of 2] h [of 4] h [of 6] by (simp add: load_dinode_def NDIRECT_def add.assoc)
qed

lemma dip_off_fits: "dip_off i + DINODE_SIZE \<le> BSIZE"
proof -
  have "unat i mod IPB < IPB" by (simp add: IPB_def BSIZE_def DINODE_SIZE_def)
  then show ?thesis by (simp add: dip_off_def IPB_def BSIZE_def DINODE_SIZE_def)
qed

lemma dip_off_apart:
  assumes "dip_off i \<noteq> dip_off j"
  shows "dip_off i + DINODE_SIZE \<le> dip_off j \<or> dip_off j + DINODE_SIZE \<le> dip_off i"
proof -
  have "unat i mod IPB < unat j mod IPB \<or> unat j mod IPB < unat i mod IPB"
    using assms by (auto simp: dip_off_def)
  then show ?thesis by (auto simp: dip_off_def DINODE_SIZE_def)
qed

section \<open>Names\<close>

lemma arr_ptr_cstr: "0 \<notin> set xs \<Longrightarrow> is_cstr (arr_ptr xs) xs"
  by (auto simp: is_cstr_def arr_ptr_def in_set_conv_nth)

lemma strncpy_name: "0 \<notin> set xs \<Longrightarrow> strncpy (arr_ptr xs) (int n) = take n xs @ replicate (n - length xs) 0"
  using strncpy_loop_cstr [OF arr_ptr_cstr] by (simp add: strncpy_def take_replicate min_def)

lemma arr_ptr_padded:
  assumes "0 \<notin> set xs" "length xs \<le> n"
  shows "is_cstr (arr_ptr (xs @ replicate (n - length xs) 0)) xs"
proof -
  have "xs ! i \<noteq> 0" if "i < length xs" for i using assms(1) that nth_mem by metis
  then show ?thesis by (auto simp: is_cstr_def arr_ptr_def nth_append)
qed

lemma namecmp_entry:
  assumes "0 \<notin> set a" "0 \<notin> set b"
  shows "namecmp a (strncpy (arr_ptr b) (int DIRSIZ)) = 0 \<longleftrightarrow> take DIRSIZ a = take DIRSIZ b"
proof -
  have b: "0 \<notin> set (take DIRSIZ b)" using assms(2) in_set_takeD by fastforce
  have e: "strncpy (arr_ptr b) (int DIRSIZ) = take DIRSIZ b @ replicate (DIRSIZ - length (take DIRSIZ b)) 0"
    using strncpy_name [OF assms(2), of DIRSIZ] by (simp add: min_def)
  have "is_cstr (arr_ptr (strncpy (arr_ptr b) (int DIRSIZ))) (take DIRSIZ b)"
    unfolding e by (rule arr_ptr_padded [OF b]) simp
  from strncmp_0_iff [OF arr_ptr_cstr [OF assms(1)] this, of DIRSIZ] show ?thesis by (simp add: namecmp_def)
qed

section \<open>Paths\<close>

text \<open>The elements \<open>namex\<close> visits, and a reference: split at the slashes and drop empty pieces.\<close>

function path_elems :: "byte list \<Rightarrow> byte list list" where
  "path_elems path = (case skipelem path of None \<Rightarrow> [] | Some (rest, name) \<Rightarrow> name # path_elems rest)"
  by pat_completeness auto
termination by (relation "measure length") (auto dest: skipelem_shorter)

declare path_elems.simps [simp del]

fun splits :: "byte list \<Rightarrow> byte list list" where
  "splits [] = [[]]"
| "splits (c # cs) = (if c = slash then [] # splits cs
     else case splits cs of [] \<Rightarrow> [[c]] | e # es \<Rightarrow> (c # e) # es)"

lemma splits_takeWhile:
  "splits xs = takeWhile (\<lambda>c. c \<noteq> slash) xs # (case dropWhile (\<lambda>c. c \<noteq> slash) xs of [] \<Rightarrow> [] | _ # ys \<Rightarrow> splits ys)"
  by (induction xs) auto

lemma splits_slashes: "filter (\<lambda>e. e \<noteq> []) (splits (dropWhile (\<lambda>c. c = slash) xs)) = filter (\<lambda>e. e \<noteq> []) (splits xs)"
  by (induction xs) auto

lemma dropWhile_tl:
  assumes "dropWhile (\<lambda>c. c \<noteq> slash) p = c # ys"
  shows "dropWhile (\<lambda>c. c = slash) (dropWhile (\<lambda>c. c \<noteq> slash) p) = dropWhile (\<lambda>c. c = slash) ys"
proof -
  have "c = slash" using hd_dropWhile [of "\<lambda>c. c \<noteq> slash" p] assms by simp
  then show ?thesis by (simp add: assms)
qed

lemma path_elems_splits: "path_elems path = map (take DIRSIZ) (filter (\<lambda>e. e \<noteq> []) (splits path))"
proof (induction path rule: path_elems.induct)
  case (1 path)
  let ?p = "dropWhile (\<lambda>c. c = slash) path" and ?d = "dropWhile (\<lambda>c. c \<noteq> slash)"
  show ?case
  proof (cases "?p = []")
    case True
    then have "filter (\<lambda>e. e \<noteq> []) (splits path) = []" using splits_slashes [of path] unfolding True by simp
    then show ?thesis using True by (simp add: path_elems.simps [of path] skipelem_def)
  next
    case False
    let ?rest = "dropWhile (\<lambda>c. c = slash) (?d ?p)" and ?e = "takeWhile (\<lambda>c. c \<noteq> slash) ?p"
    have sk: "skipelem path = Some (?rest, take DIRSIZ ?e)" using False by (simp add: skipelem_def Let_def del: dropWhile_eq_Nil_conv)
    have e: "?e \<noteq> []" using False hd_dropWhile [OF False] by (cases ?p) auto
    have "filter (\<lambda>e. e \<noteq> []) (splits path) = filter (\<lambda>e. e \<noteq> []) (splits ?p)" by (simp add: splits_slashes)
    also have "\<dots> = ?e # filter (\<lambda>e. e \<noteq> []) (case ?d ?p of [] \<Rightarrow> [] | _ # ys \<Rightarrow> splits ys)"
      using e by (subst splits_takeWhile) simp
    also have "filter (\<lambda>e. e \<noteq> []) (case ?d ?p of [] \<Rightarrow> [] | _ # ys \<Rightarrow> splits ys) = filter (\<lambda>e. e \<noteq> []) (splits ?rest)"
    proof (cases "?d ?p")
      case (Cons c ys)
      then show ?thesis using dropWhile_tl [OF Cons] splits_slashes [of ys] by simp
    next
      case Nil
      show ?thesis unfolding Nil by simp
    qed
    finally have "map (take DIRSIZ) (filter (\<lambda>e. e \<noteq> []) (splits path)) =
        take DIRSIZ ?e # map (take DIRSIZ) (filter (\<lambda>e. e \<noteq> []) (splits ?rest))" by simp
    moreover have "path_elems path = take DIRSIZ ?e # path_elems ?rest" by (subst path_elems.simps) (simp only: sk option.case prod.case)
    ultimately show ?thesis using 1 [OF sk refl] by (simp only:)
  qed
qed

text \<open>
  The walk of \<open>namex\<close> over an explicit list of elements.
\<close>

primrec lookup_elems :: "nat \<Rightarrow> byte list list \<Rightarrow> bool \<Rightarrow> byte list \<Rightarrow> ('z fsst_scheme, (nat \<times> byte list) option) kmon" where
  "lookup_elems ip [] np name = (if np then seq (iput ip) (return None) else return (Some (ip, name)))"
| "lookup_elems ip (e # es) np name =
     seq (ilock ip) (
     bind (get_inode ip) (\<lambda>x.
     if itype x \<noteq> T_DIR then seq (iunlockput ip) (return None)
     else if np \<and> es = [] then seq (iunlock ip) (return (Some (ip, e)))
     else
     bind (dirlookup ip e) (\<lambda>r. case r of
       None \<Rightarrow> seq (iunlockput ip) (return None)
     | Some (nxt, _) \<Rightarrow> seq (iunlockput ip) (lookup_elems nxt es np e))))"

lemma path_elems_Nil_iff:
  assumes "skipelem path = Some (rest, name)"
  shows "path_elems rest = [] \<longleftrightarrow> rest = []"
proof -
  obtain p where r: "rest = dropWhile (\<lambda>c. c = slash) p" using assms by (auto simp: skipelem_def Let_def split: if_splits)
  then have d: "dropWhile (\<lambda>c. c = slash) rest = rest" by simp
  have "skipelem rest = None \<longleftrightarrow> rest = []" unfolding skipelem_def Let_def d by simp
  then show ?thesis by (subst path_elems.simps) (auto split: option.splits)
qed

lemma namex_loop_elems: "namex_loop ip path np name = lookup_elems ip (path_elems path) np name"
proof (induction path arbitrary: ip name rule: path_elems.induct)
  case (1 path)
  show ?case
  proof (cases "skipelem path")
    case None
    then show ?thesis by (simp add: namex_loop.simps [of ip path] path_elems.simps [of path])
  next
    case (Some re)
    obtain rest e where re: "re = (rest, e)" by fastforce
    note sk = Some [unfolded re]
    note ih = 1 [OF sk refl]
    have n: "namex_loop ip path np name =
        seq (ilock ip) (
        bind (get_inode ip) (\<lambda>x.
        if itype x \<noteq> T_DIR then seq (iunlockput ip) (return None)
        else if np \<and> rest = [] then seq (iunlock ip) (return (Some (ip, e)))
        else
        bind (dirlookup ip e) (\<lambda>r. case r of
          None \<Rightarrow> seq (iunlockput ip) (return None)
        | Some (nxt, _) \<Rightarrow> seq (iunlockput ip) (namex_loop nxt rest np e))))"
      by (subst namex_loop.simps) (simp only: sk option.case prod.case)
    have p: "path_elems path = e # path_elems rest" by (subst path_elems.simps) (simp only: sk option.case prod.case)
    show ?thesis unfolding n p by (simp only: lookup_elems.simps ih path_elems_Nil_iff [OF sk])
  qed
qed

section \<open>Properties\<close>

text \<open>
  C17: The disk form of an inode is a round trip within its block.  After \<open>iupdate\<close> has stored inode
  \<open>i\<close> in a block, loading inode \<open>j\<close> of the same block as \<open>ilock\<close> does gives back exactly the type,
  device numbers, link count, size and block addresses that were stored when \<open>i\<close> and \<open>j\<close> have the
  same slot, and for any other slot what it gave before: inodes of a block do not overlap.
\<close>

theorem dinode_roundtrip:
  assumes "length bs = BSIZE" "length (addrs x) = NDIRECT + 1"
  shows "load_dinode (dip_off j) (put_dinode (dip_off i) x bs) y =
    (if unat i mod IPB = unat j mod IPB
     then y\<lparr>itype := itype x, imajor := imajor x, iminor := iminor x, inlink := inlink x, isize := isize x, addrs := addrs x\<rparr>
     else load_dinode (dip_off j) bs y)"
proof (cases "dip_off i = dip_off j")
  case True
  then have "unat i mod IPB = unat j mod IPB" by (simp add: dip_off_def DINODE_SIZE_def)
  then show ?thesis
    using dinode_roundtrip_lemma(1) [of "dip_off i" bs x y] dip_off_fits [of i] assms True by simp
next
  case False
  then have "unat i mod IPB \<noteq> unat j mod IPB" by (auto simp: dip_off_def)
  then show ?thesis
    using dinode_other [of "dip_off i" bs "dip_off j" x y] dip_off_fits assms dip_off_apart [OF False] by simp
qed

definition demo_inode :: inode where
  "demo_inode = \<lparr>idev = 1, inum = 5, iref = 1, ivalid = True, itype = T_FILE, imajor = 0, iminor = 0,
     inlink = 2, isize = 300, addrs = [70] @ replicate NDIRECT 0\<rparr>"

lemma dinode_roundtrip_witness:
  "load_dinode (dip_off 5) (put_dinode (dip_off 5) demo_inode (replicate BSIZE 0)) (demo_inode\<lparr>isize := 1, addrs := []\<rparr>) = demo_inode
   \<and> load_dinode (dip_off 6) (put_dinode (dip_off 5) demo_inode (replicate BSIZE 0)) demo_inode =
     load_dinode (dip_off 6) (replicate BSIZE 0) demo_inode"
proof -
  have l: "length (replicate BSIZE (0 :: byte)) = BSIZE" "length (addrs demo_inode) = NDIRECT + 1"
    by (simp_all add: demo_inode_def)
  show ?thesis
    using dinode_roundtrip [OF l, of 5 5 "demo_inode\<lparr>isize := 1, addrs := []\<rparr>"] dinode_roundtrip [OF l, of 6 5 demo_inode]
    by (simp add: IPB_def BSIZE_def DINODE_SIZE_def demo_inode_def)
qed

text \<open>
  C16: Path walking in \<open>namex\<close> follows the usual meaning of a path: it visits, in order, the non-empty
  pieces between slashes, each cut off at \<open>DIRSIZ\<close> bytes, so repeated, leading and trailing slashes
  do not matter; with \<open>nameiparent\<close> it stops with the parent of the last piece and returns that
  piece.  The walk ends for every path.
\<close>

theorem namex_visits_pieces:
  "namex_loop ip path np name =
     lookup_elems ip (map (take DIRSIZ) (filter (\<lambda>e. e \<noteq> []) (splits path))) np name"
  by (simp only: namex_loop_elems path_elems_splits)

text \<open>
  Directory names compare by their first \<open>DIRSIZ\<close> bytes.  \<open>dirlink\<close> stores a name with
  \<open>strncpy\<close> in the 14 bytes of an entry, unterminated when it is longer; \<open>namecmp\<close> of a name with
  that field is 0 exactly when the two names agree on their first 14 bytes.
\<close>

theorem dirent_name_match:
  assumes "0 \<notin> set a" "0 \<notin> set b"
  shows "namecmp a (de_name (le_bytes 2 (i :: ushort) @ strncpy (arr_ptr b) (int DIRSIZ))) = 0 \<longleftrightarrow>
    take DIRSIZ a = take DIRSIZ b"
proof -
  have l: "length (strncpy (arr_ptr b) (int DIRSIZ)) = DIRSIZ"
    using strncpy_name [OF assms(2), of DIRSIZ] by simp
  have "de_name (le_bytes 2 i @ strncpy (arr_ptr b) (int DIRSIZ)) = strncpy (arr_ptr b) (int DIRSIZ)"
    by (simp add: de_name_def l)
  then show ?thesis using namecmp_entry [OF assms] by simp
qed

lemma dirent_name_match_witness:
  "namecmp [102, 111] (de_name (le_bytes 2 (7 :: ushort) @ strncpy (arr_ptr [102, 111, 111]) (int DIRSIZ))) \<noteq> 0
   \<and> namecmp (replicate 15 97) (de_name (le_bytes 2 (7 :: ushort) @ strncpy (arr_ptr (replicate 14 97)) (int DIRSIZ))) = 0"
  using dirent_name_match [of "[102, 111]" "[102, 111, 111]" 7] dirent_name_match [of "replicate 15 97" "replicate 14 97" 7]
  by (simp add: DIRSIZ_def)

end
