(* ===== verification/Xv6_Recovery.thy ===== *)
theory Xv6_Recovery
  imports Xv6_Log
begin

text \<open>
  What the write-ahead log guarantees.  A crash leaves the disk as some prefix of the block writes
  of a commit made it; \<open>initlog\<close> then finds either an empty header, and changes nothing outside the
  log, or the header of the transaction, and installs all of it.  The second half shows that
  \<open>log_write\<close> keeps changed blocks off the disk until the commit.
\<close>

section \<open>Recovery\<close>

definition hdr_blocks :: "byte list \<Rightarrow> nat \<Rightarrow> uint" where
  "hdr_blocks H i = get32 (4 + 4 * i) H"

lemma lh_block_upd [simp]:
  "calm p (s\<lparr>lh_block := n\<rparr>) = calm p s" "bcache_rep p dv held P (s\<lparr>lh_block := n\<rparr>) = bcache_rep p dv held P s"
  "cdata dv (s\<lparr>lh_block := n\<rparr>) = cdata dv s" "hdr_block (s\<lparr>lh_block := n\<rparr>) = hdr_block s"
proof -
  have "caches dv b (s\<lparr>lh_block := n\<rparr>) = caches dv b s" for b by (simp add: caches_def fun_eq_iff)
  then show "cdata dv (s\<lparr>lh_block := n\<rparr>) = cdata dv s" by (intro ext) (simp add: cdata_def split: option.split)
qed (simp_all add: calm_def cpu_quiet_def lock_free_def intr_enabled_def cur_def bcache_rep_def buf_ok_def hdr_block_def)

lemma clean_cdata: "bcache_rep p dv {} {} s \<Longrightarrow> cdata dv s = disk s"
  using unpinned_clean [of p dv "{}" s] by blast

lemma read_head_loop:
  fixes s :: "'z logst_scheme"
  shows "for_each [0..<k] (\<lambda>i. modify (\<lambda>s. s\<lparr>lh_block := (lh_block s)(i := f i)\<rparr>)) s =
    Ok () (s\<lparr>lh_block := (\<lambda>i. if i < k then f i else lh_block s i)\<rparr>)"
proof (induction k)
  case (Suc k)
  then show ?case
    by (simp add: for_each_append bind_apply) (intro arg_cong [where f = "\<lambda>g. s\<lparr>lh_block := g\<rparr>"] ext, simp add: less_Suc_eq)
qed simp

lemma read_head_spec:
  fixes s :: "'z logst_scheme"
  assumes c: "calm p s" and rep: "bcache_rep p (log_dev s) {} {} s"
    and n: "get32 0 (disk s (hdr_block s)) = of_nat n" "n \<le> LOGSIZE"
  shows "\<exists>s'. read_head s = Ok () s' \<and> calm p s' \<and> bcache_rep p (log_dev s) {} {} s' \<and> disk s' = disk s \<and>
    lh_n s' = int n \<and> (\<forall>i < n. lh_block s' i = hdr_blocks (disk s (hdr_block s)) i) \<and>
    log_dev s' = log_dev s \<and> log_start s' = log_start s"
proof -
  let ?dv = "log_dev s" and ?h = "hdr_block s"
  obtain i s1 where i: "bread ?dv ?h s = Ok i s1" "calm p s1" "bcache_rep p ?dv {i} {} s1" "cdata ?dv s1 = cdata ?dv s"
    "disk s1 = disk s" "bio_frame s s1" "blockno (bufs s1 i) = ?h" "bdata (bufs s1 i) = cdata ?dv s ?h"
    using bread_spec [OF c rep _ room_card, of ?h] by (auto simp: NBUF_def MAXOPBLOCKS_def)
  note f = bio_frame_log [OF i(6)]
  have d: "bdata (bufs s1 i) = disk s ?h" using i(8) clean_cdata [OF rep] by simp
  have sn: "sint (get32 0 (disk s ?h)) = int n"
    unfolding n(1) using n(2) by (simp add: LOGSIZE_def MAXOPBLOCKS_def sint_small)
  define s2 where "s2 = s1\<lparr>lh_n := int n, lh_block := (\<lambda>j. if j < n then hdr_blocks (disk s ?h) j else lh_block s1 j)\<rparr>"
  have r2: "calm p s2" "bcache_rep p ?dv {i} {} s2" using i(2,3) by (simp_all add: s2_def)
  obtain s3 where s3: "brelse i s2 = Ok () s3" "calm p s3" "bcache_rep p ?dv {} {} s3" "disk s3 = disk s2" "bio_frame s2 s3"
    using brelse_spec [OF r2] i(5,7) d by (auto simp: s2_def)
  have "read_head s = Ok () s3"
    using i(1) s3(1) d sn read_head_loop [where k = n and s = "s1\<lparr>lh_n := int n\<rparr>" and f = "hdr_blocks (disk s ?h)"]
    by (simp add: read_head_def kexec hdr_block_def [symmetric] get_buf_def s2_def hdr_blocks_def cong: if_cong)
  then show ?thesis
    using s3 i(5) bio_frame_log [OF s3(5)] f by (intro exI [of _ s3]) (simp add: s2_def)
qed

lemma log_upd_area:
  "log_start s' = log_start s \<Longrightarrow> log_blockno t s' = log_blockno t s"
  "log_start s' = log_start s \<Longrightarrow> hdr_block s' = hdr_block s"
  "log_start s' = log_start s \<Longrightarrow> log_layout s' = log_layout s"
  "log_start s' = log_start s \<Longrightarrow> log_area s' = log_area s"
  by (simp_all add: log_blockno_def hdr_block_def log_layout_def log_area_def)

definition recovered :: "nat \<Rightarrow> 'z logst_scheme \<Rightarrow> uint \<Rightarrow> byte list" where
  "recovered n s = apply_writes (map (\<lambda>t. (hdr_blocks (disk s (hdr_block s)) t, disk s (log_blockno t s))) [0..<n] @
     [(hdr_block s, put32 0 0 (disk s (hdr_block s)))]) (disk s)"

lemma recover_spec:
  fixes s :: "'z logst_scheme"
  assumes c: "calm p s" and rep: "bcache_rep p (log_dev s) {} {} s" and lay: "log_layout s"
    and n: "get32 0 (disk s (hdr_block s)) = of_nat n" "n < LOGSIZE"
    and bl: "distinct (map (hdr_blocks (disk s (hdr_block s))) [0..<n])"
      "hdr_blocks (disk s (hdr_block s)) ` {..<n} \<inter> log_area s = {}"
  shows "\<exists>s'. recover_from_log s = Ok () s' \<and> calm p s' \<and> bcache_rep p (log_dev s) {} {} s' \<and> lh_n s' = 0 \<and>
    disk s' = recovered n s"
proof -
  let ?dv = "log_dev s" and ?H = "disk s (hdr_block s)"
  obtain s1 where s1: "read_head s = Ok () s1" "calm p s1" "bcache_rep p ?dv {} {} s1" "disk s1 = disk s" "lh_n s1 = int n"
    "\<And>i. i < n \<Longrightarrow> lh_block s1 i = hdr_blocks ?H i" "log_dev s1 = ?dv" "log_start s1 = log_start s"
    using read_head_spec [OF c rep n(1) less_imp_le [OF n(2)]] by auto
  note a1 = log_upd_area [OF s1(8)]
  have lg: "logged s1 = map (hdr_blocks ?H) [0..<n]" unfolding logged_def by (rule map_cong) (simp_all add: s1(5,6))
  have W: "map (\<lambda>t. (lh_block s1 t, cdata ?dv s1 (log_blockno t s1))) [0..<n] =
      map (\<lambda>t. (hdr_blocks ?H t, disk s (log_blockno t s))) [0..<n]" (is "_ = ?W")
    by (rule map_cong) (simp_all add: s1(6) clean_cdata [OF s1(3)] s1(4) a1)
  have "set (logged s1) \<inter> log_area s1 = {}" using bl(2) by (simp add: lg a1 atLeast0LessThan)
  then have "\<exists>s2. for_each [0..<n] (install_body True) s1 = Ok () s2 \<and>
      bstep p ?dv {} s1 {} s2 (map (\<lambda>t. (lh_block s1 t, cdata ?dv s1 (log_blockno t s1))) [0..<n])"
    using install_spec [of p s1 "{}" True n] s1 lay n(2) bl(1) lg a1(3) by (simp add: NBUF_def MAXOPBLOCKS_def)
  then obtain s2 where s2: "for_each [0..<n] (install_body True) s1 = Ok () s2" "bstep p ?dv {} s1 {} s2 ?W"
    unfolding W by blast
  note b2 = bstepD [OF s2(2)] and f2 = bio_frame_log [OF bstepD(3) [OF s2(2)]]
  define s3 where "s3 = s2\<lparr>lh_n := 0\<rparr>"
  have hs: "hdr_block s3 = hdr_block s" by (simp add: s3_def hdr_block_def f2 s1(8))
  have "hdr_block s \<notin> fst ` set ?W"
  proof (rule notin_writes)
    show "hdr_blocks ?H t \<noteq> hdr_block s" if "t < n" for t
      using bl(2) that by (metis disjoint_iff image_eqI insertI1 lessThan_iff log_area_def)
  qed
  then have "cdata ?dv s3 (hdr_block s) = ?H"
    by (simp add: s3_def b2(4) apply_writes_other clean_cdata [OF s1(3)] s1(4))
  then have "\<exists>s4. write_head s3 = Ok () s4 \<and> bstep p ?dv {} s3 {} s4 [(hdr_block s, hdr_data 0 (lh_block s3) ?H)]"
    using write_head_step [of p s3 "{}" 0] b2(1,2) hs f2 s1(7) by (simp add: s3_def NBUF_def MAXOPBLOCKS_def)
  then obtain s4 where s4: "write_head s3 = Ok () s4" "bstep p ?dv {} s3 {} s4 [(hdr_block s, hdr_data 0 (lh_block s3) ?H)]"
    by blast
  note b4 = bstepD [OF s4(2)] and f4 = bio_frame_log [OF bstepD(3) [OF s4(2)]]
  have "recover_from_log s = Ok () s4"
    using s1(1,5) s2(1) s4(1) by (simp add: recover_from_log_def install_trans_def kexec s3_def)
  then show ?thesis
    using b4 b2(5) s1(4) f4 by (intro exI [of _ s4]) (simp add: s3_def recovered_def hdr_data_def)
qed


section \<open>Crashes\<close>

text \<open>The disk when the machine stops after \<open>k\<close> of the block writes of a commit.\<close>

definition crash_disk :: "nat \<Rightarrow> 'z logst_scheme \<Rightarrow> uint \<Rightarrow> byte list" where
  "crash_disk k s = apply_writes (take k (commit_writes s)) (disk s)"

lemma commit_hdr_fields:
  fixes s :: "'z logst_scheme"
  assumes "log_rep p s P"
  shows "get32 0 (commit_hdr s) = of_nat (nat (lh_n s))"
    "i < nat (lh_n s) \<Longrightarrow> hdr_blocks (commit_hdr s) i = lh_block s i" "length (commit_hdr s) = BSIZE"
proof -
  have l: "length (disk s (hdr_block s)) = BSIZE" "nat (lh_n s) < LOGSIZE"
    using assms bcache_repD(7) by (auto simp: log_rep_def)
  then have b: "4 + 4 * nat (lh_n s) \<le> length (put32 0 (of_nat (nat (lh_n s))) (disk s (hdr_block s)))" "4 \<le> length (disk s (hdr_block s))"
    by (simp_all add: BSIZE_def LOGSIZE_def MAXOPBLOCKS_def)
  note g = get32_put_blocks [OF b(1)]
  show "get32 0 (commit_hdr s) = of_nat (nat (lh_n s))"
    using g(1) get32_put32 [of 0 "disk s (hdr_block s)"] b(2) by (simp add: commit_hdr_def hdr_data_def)
  show "i < nat (lh_n s) \<Longrightarrow> hdr_blocks (commit_hdr s) i = lh_block s i"
    using g(2) by (simp add: commit_hdr_def hdr_data_def hdr_blocks_def)
  show "length (commit_hdr s) = BSIZE"
    using length_put_blocks [OF b(1)] b(2) l(1) by (simp add: commit_hdr_def hdr_data_def)
qed

lemma apply_writes_in:
  assumes "\<forall>w \<in> set W. fst w = x \<longrightarrow> snd w = v" "D x = v \<or> x \<in> fst ` set W"
  shows "apply_writes W D x = v"
  using assms
proof (induction W arbitrary: D)
  case (Cons w W)
  obtain y d where w: "w = (y, d)" by fastforce
  have "(D(y := d)) x = v \<or> x \<in> fst ` set W" using Cons.prems w by auto
  then show ?case using Cons.IH [of "D(y := d)"] Cons.prems(1) by (simp add: w)
qed simp

lemma unlogged_clean:
  fixes s :: "'z logst_scheme"
  assumes "log_rep p s P" "x \<notin> set (logged s)"
  shows "cdata (log_dev s) s x = disk s x"
proof (rule unpinned_clean)
  show "bcache_rep p (log_dev s) {} P s" using assms(1) by (simp add: log_rep_def)
  show "blockno (bufs s j) \<noteq> x" if "j \<in> P" for j
    using assms that unfolding log_rep_def by (metis imageI)
qed

text \<open>What the disk holds after a crash: before the header is written, the old contents outside the
  log; afterwards either the log holds the new contents or they are in place.\<close>

lemma crash_before:
  fixes s :: "'z logst_scheme"
  assumes r: "log_rep p s P" and k: "k \<le> nat (lh_n s)"
  shows "crash_disk k s (hdr_block s) = disk s (hdr_block s)" "x \<notin> log_area s \<Longrightarrow> crash_disk k s x = disk s x"
proof -
  have R: "log_layout s" "nat (lh_n s) < LOGSIZE" "set (logged s) \<inter> log_area s = {}" using r by (auto simp: log_rep_def)
  have tk: "take k (commit_writes s) = take k (log_writes s)" using k by (simp add: commit_writes_def log_writes_def)
  have w: "fst ` set (take k (log_writes s)) \<subseteq> (\<lambda>t. log_blockno t s) ` {..<nat (lh_n s)}"
    by (auto simp: log_writes_def dest!: in_set_takeD)
  have "hdr_block s \<notin> (\<lambda>t. log_blockno t s) ` {..<nat (lh_n s)}"
    using log_area_distinct(1) [OF R(1)] R(2) by (metis imageE lessThan_iff order.strict_trans)
  then have "hdr_block s \<notin> fst ` set (take k (log_writes s))" using w by blast
  then show "crash_disk k s (hdr_block s) = disk s (hdr_block s)" by (simp add: crash_disk_def tk apply_writes_other)
  have "(\<lambda>t. log_blockno t s) ` {..<nat (lh_n s)} \<subseteq> log_area s" using R(2) by (auto simp: log_area_def)
  then have "x \<notin> fst ` set (take k (log_writes s))" if "x \<notin> log_area s" using w that by blast
  then show "x \<notin> log_area s \<Longrightarrow> crash_disk k s x = disk s x" by (simp add: crash_disk_def tk apply_writes_other)
qed

lemma crash_middle:
  fixes s :: "'z logst_scheme"
  assumes r: "log_rep p s P" and k: "nat (lh_n s) < k" "k \<le> 2 * nat (lh_n s) + 1"
  shows "crash_disk k s (hdr_block s) = commit_hdr s"
    "t < nat (lh_n s) \<Longrightarrow> crash_disk k s (log_blockno t s) = cdata (log_dev s) s (lh_block s t)"
    "x \<notin> log_area s \<Longrightarrow> x \<notin> set (logged s) \<Longrightarrow> crash_disk k s x = disk s x"
proof -
  let ?n = "nat (lh_n s)"
  have R: "log_layout s" "?n < LOGSIZE" "set (logged s) \<inter> log_area s = {}" using r by (auto simp: log_rep_def)
  note al = area_logged [OF R(1,3) refl R(2)]
  define j where "j = k - ?n - 1"
  have kj: "k = Suc (?n + j)" "j \<le> ?n" using k by (simp_all add: j_def)
  have len: "length (log_writes s) = ?n" "length (home_writes s) = ?n" by (simp_all add: log_writes_def home_writes_def)
  then have tk: "take k (commit_writes s) = log_writes s @ (hdr_block s, commit_hdr s) # take j (home_writes s)"
    using kj by (simp add: commit_writes_def)
  define D where "D = (apply_writes (log_writes s) (disk s)) (hdr_block s := commit_hdr s)"
  have cd: "crash_disk k s = apply_writes (take j (home_writes s)) D"
    by (simp add: crash_disk_def tk D_def)
  have h: "x \<notin> fst ` set (take j (home_writes s))" if "x \<notin> set (logged s)" for x
    using that by (auto simp: home_writes_def logged_def dest!: in_set_takeD)
  have ar: "hdr_block s \<notin> set (logged s)" "t < ?n \<Longrightarrow> log_blockno t s \<notin> set (logged s)" for t
    using R(2,3) by (auto simp: log_area_def)
  show "crash_disk k s (hdr_block s) = commit_hdr s"
    unfolding cd by (subst apply_writes_other [OF h [OF ar(1)]]) (simp add: D_def)
  have "distinct (map (\<lambda>t. log_blockno t s) [0..<?n])"
    using log_area_distinct(2) [OF R(1)] R(2) by (auto simp: distinct_map intro!: inj_onI)
  then show "t < ?n \<Longrightarrow> crash_disk k s (log_blockno t s) = cdata (log_dev s) s (lh_block s t)"
    unfolding cd using apply_writes_other [OF h [OF ar(2)]] al(3) apply_writes_map by (simp add: D_def log_writes_def)
  show "crash_disk k s x = disk s x" if x: "x \<notin> log_area s" "x \<notin> set (logged s)"
  proof -
    have "x \<notin> fst ` set (log_writes s)" "x \<noteq> hdr_block s"
      using x(1) R(2) by (auto simp: log_area_def log_writes_def)
    then show ?thesis unfolding cd by (subst apply_writes_other [OF h [OF x(2)]]) (simp add: D_def apply_writes_other)
  qed
qed

lemma crash_after:
  fixes s :: "'z logst_scheme"
  assumes r: "log_rep p s P" and k: "2 * nat (lh_n s) + 1 < k"
  shows "crash_disk k s (hdr_block s) = put32 0 0 (commit_hdr s)"
    "x \<notin> log_area s \<Longrightarrow> crash_disk k s x = cdata (log_dev s) s x"
proof -
  let ?n = "nat (lh_n s)"
  have R: "?n < LOGSIZE" "set (logged s) \<inter> log_area s = {}" using r by (auto simp: log_rep_def)
  have "length (commit_writes s) = 2 * ?n + 2" by (simp add: commit_writes_def log_writes_def home_writes_def)
  then have tk: "take k (commit_writes s) = commit_writes s" using k by simp
  define D where "D = (apply_writes (log_writes s) (disk s)) (hdr_block s := commit_hdr s)"
  have cd: "crash_disk k s = (apply_writes (home_writes s) D) (hdr_block s := put32 0 0 (commit_hdr s))"
    unfolding crash_disk_def tk by (simp add: commit_writes_def D_def hdr_data_def)
  show "crash_disk k s (hdr_block s) = put32 0 0 (commit_hdr s)" by (simp add: cd)
  show "crash_disk k s x = cdata (log_dev s) s x" if x: "x \<notin> log_area s"
  proof -
    have n: "x \<notin> fst ` set (log_writes s)" "x \<noteq> hdr_block s"
      using x R(1) by (auto simp: log_area_def log_writes_def)
    have "apply_writes (home_writes s) D x = cdata (log_dev s) s x"
    proof (rule apply_writes_in)
      show "\<forall>w \<in> set (home_writes s). fst w = x \<longrightarrow> snd w = cdata (log_dev s) s x"
        by (auto simp: home_writes_def)
      show "D x = cdata (log_dev s) s x \<or> x \<in> fst ` set (home_writes s)"
      proof (cases "x \<in> set (logged s)")
        case True
        then show ?thesis by (force simp: home_writes_def logged_def)
      next
        case False
        then show ?thesis using unlogged_clean [OF r] n by (simp add: D_def apply_writes_other)
      qed
    qed
    then show ?thesis using n by (simp add: cd)
  qed
qed


lemma initlog_boot:
  fixes b :: "'z logst_scheme" and sb :: superblock
  assumes "calm q b" "bcache_rep q dev {} {} b"
  defines "b0 \<equiv> b\<lparr>locks := (locks b)(LogLock := \<lparr>locked = 0, lname = ''log'', lcpu = None\<rparr>),
     log_start := sint (logstart sb), log_size := sint (nlog sb), log_dev := dev\<rparr>"
  shows "initlog dev sb b = recover_from_log b0" "calm q b0" "bcache_rep q dev {} {} b0" "disk b0 = disk b"
    "log_start b0 = sint (logstart sb)" "log_dev b0 = dev"
proof -
  show "initlog dev sb b = recover_from_log b0"
    by (simp add: initlog_def b0_def kexec initlock_def BSIZE_def LOGSIZE_def MAXOPBLOCKS_def)
  show "calm q b0"
    using assms(1) by (auto simp: b0_def calm_def cpu_quiet_def lock_free_def intr_enabled_def cur_def Let_def split: if_splits)
  show "bcache_rep q dev {} {} b0" using assms(2) by (simp add: b0_def bcache_rep_def buf_ok_def)
qed (simp_all add: b0_def)

lemma recovered_nothing: "x \<noteq> hdr_block b \<Longrightarrow> recovered 0 b x = disk b x"
  by (simp add: recovered_def)

lemma recovered_all:
  assumes "\<And>t. t < n \<Longrightarrow> disk b (log_blockno t b) = C (hdr_blocks (disk b (hdr_block b)) t)"
    "x \<notin> hdr_blocks (disk b (hdr_block b)) ` {..<n} \<Longrightarrow> disk b x = C x" "x \<noteq> hdr_block b"
  shows "recovered n b x = C x"
proof -
  have "apply_writes (map (\<lambda>t. (hdr_blocks (disk b (hdr_block b)) t, disk b (log_blockno t b))) [0..<n]) (disk b) x = C x"
  proof (rule apply_writes_in)
    show "\<forall>w \<in> set (map (\<lambda>t. (hdr_blocks (disk b (hdr_block b)) t, disk b (log_blockno t b))) [0..<n]). fst w = x \<longrightarrow> snd w = C x"
      using assms(1) by auto
    show "disk b x = C x \<or> x \<in> fst ` set (map (\<lambda>t. (hdr_blocks (disk b (hdr_block b)) t, disk b (log_blockno t b))) [0..<n])"
      using assms(2) by (force simp: image_image)
  qed
  then show ?thesis using assms(3) by (simp add: recovered_def)
qed

lemma recovery_correct:
  fixes s b :: "'z logst_scheme"
  assumes r: "log_rep p s P" and h0: "get32 0 (disk s (hdr_block s)) = 0"
    and b: "calm q b" "bcache_rep q (log_dev s) {} {} b" "disk b = crash_disk k s"
      "log_dev b = log_dev s" "log_start b = log_start s"
  shows "\<exists>b'. recover_from_log b = Ok () b' \<and> calm q b' \<and> bcache_rep q (log_dev s) {} {} b' \<and> lh_n b' = 0 \<and>
    (\<forall>x. x \<notin> log_area s \<longrightarrow> disk b' x = (if k \<le> nat (lh_n s) then disk s x else cdata (log_dev s) s x))"
proof -
  let ?n = "nat (lh_n s)"
  have R: "log_layout s" "?n < LOGSIZE" "distinct (logged s)" "set (logged s) \<inter> log_area s = {}" using r by (auto simp: log_rep_def)
  note a = log_upd_area [OF b(5)]
  have rep: "bcache_rep q (log_dev b) {} {} b" and lay: "log_layout b" using b(2,4) R(1) a(3) by simp_all
  have hx: "x \<noteq> hdr_block b" if "x \<notin> log_area s" for x using that a(2) by (auto simp: log_area_def)
  let ?H = "disk b (hdr_block b)"
  consider "k \<le> ?n" | "?n < k" "k \<le> 2 * ?n + 1" | "2 * ?n + 1 < k" by linarith
  then show ?thesis
  proof cases
    case 1
    note c = crash_before [OF r 1]
    have "get32 0 ?H = of_nat 0" using h0 c(1) b(3) a(2) by simp
    from recover_spec [OF b(1) rep lay this LOGSIZE_pos] show ?thesis
      using 1 c(2) recovered_nothing [of _ b] hx b(3,4) by fastforce
  next
    case 2
    note c = crash_middle [OF r 2]
    have H: "?H = commit_hdr s" using c(1) b(3) a(2) by simp
    note hf = commit_hdr_fields [OF r]
    have bl: "map (hdr_blocks ?H) [0..<?n] = logged s" "hdr_blocks ?H ` {..<?n} = set (logged s)"
      unfolding H logged_def using hf(2) by (auto simp: atLeast0LessThan)
    have "recovered ?n b x = cdata (log_dev s) s x" if x: "x \<notin> log_area s" for x
    proof (rule recovered_all)
      show "disk b (log_blockno t b) = cdata (log_dev s) s (hdr_blocks ?H t)" if "t < ?n" for t
        unfolding H using c(2) [OF that] hf(2) [OF that] by (simp add: b(3) a(1))
      show "disk b x = cdata (log_dev s) s x" if "x \<notin> hdr_blocks ?H ` {..<?n}"
        using c(3) [OF x] that [unfolded bl(2)] unlogged_clean [OF r, of x] by (simp add: b(3))
    qed (rule hx [OF x])
    moreover have "\<exists>b'. recover_from_log b = Ok () b' \<and> calm q b' \<and> bcache_rep q (log_dev b) {} {} b' \<and> lh_n b' = 0 \<and>
      disk b' = recovered ?n b"
      by (rule recover_spec [OF b(1) rep lay _ R(2)]) (use hf(1) H bl R a(4) in simp_all)
    ultimately show ?thesis using 2 b(4) by force
  next
    case 3
    note c = crash_after [OF r 3]
    have "get32 0 ?H = of_nat 0"
      using c(1) b(3) a(2) get32_put32 [of 0 "commit_hdr s" 0] commit_hdr_fields(3) [OF r] by (simp add: BSIZE_def)
    from recover_spec [OF b(1) rep lay this LOGSIZE_pos] show ?thesis
      using 3 c(2) recovered_nothing [of _ b] hx b(3,4) by fastforce
  qed
qed


section \<open>Logging a block\<close>

lemma logst_commute [crit]:
  "restore s (t\<lparr>lh_block := f\<rparr>) = (restore s t)\<lparr>lh_block := f\<rparr>" "same_machine s (t\<lparr>lh_block := f\<rparr>) = same_machine s t"
  "restore s (t\<lparr>lh_n := n\<rparr>) = (restore s t)\<lparr>lh_n := n\<rparr>" "same_machine s (t\<lparr>lh_n := n\<rparr>) = same_machine s t"
  "restore s (t\<lparr>outstanding := k\<rparr>) = (restore s t)\<lparr>outstanding := k\<rparr>" "same_machine s (t\<lparr>outstanding := k\<rparr>) = same_machine s t"
  "restore s (t\<lparr>committing := c\<rparr>) = (restore s t)\<lparr>committing := c\<rparr>" "same_machine s (t\<lparr>committing := c\<rparr>) = same_machine s t"
  by (simp_all add: restore_def same_machine_def)

lemma after_acquire_log [simp]:
  "lh_n (after_acquire l s) = lh_n s" "lh_block (after_acquire l s) = lh_block s"
  "outstanding (after_acquire l s) = outstanding s" "committing (after_acquire l s) = committing s"
  "log_size (after_acquire l s) = log_size s" "log_start (after_acquire l s) = log_start s" "log_dev (after_acquire l s) = log_dev s"
  by (simp_all add: after_acquire_def)

lemma logst_quiet [simp]:
  "cpu_quiet (s\<lparr>lh_block := f\<rparr>) = cpu_quiet s" "lock_free l (s\<lparr>lh_block := f\<rparr>) = lock_free l s"
  "cpu_quiet (s\<lparr>lh_n := n\<rparr>) = cpu_quiet s" "lock_free l (s\<lparr>lh_n := n\<rparr>) = lock_free l s"
  "cpu_quiet (s\<lparr>outstanding := k\<rparr>) = cpu_quiet s" "lock_free l (s\<lparr>outstanding := k\<rparr>) = lock_free l s"
  "cpu_quiet (s\<lparr>committing := c\<rparr>) = cpu_quiet s" "lock_free l (s\<lparr>committing := c\<rparr>) = lock_free l s"
  by (simp_all add: cpu_quiet_def lock_free_def intr_enabled_def)

lemma begin_op_admits:
  assumes "calm p s" "\<not> committing s" "lh_n s + (outstanding s + 1) * int MAXOPBLOCKS \<le> int LOGSIZE"
  shows "begin_op s = Ok () (s\<lparr>outstanding := outstanding s + 1\<rparr>)"
proof -
  let ?c = "gets (\<lambda>s. committing s \<or> lh_n s + (outstanding s + 1) * int MAXOPBLOCKS > int LOGSIZE)"
  have "while_rounds ROUNDS ?c (sleep ChanLog LogLock) (after_acquire LogLock s) = Ok () (after_acquire LogLock s)"
    by (rule while_rounds_done) (use assms(2,3) in simp)
  then show ?thesis
    using calmD [OF assms(1)] by (simp add: begin_op_def kexec acquire_free release_restores crit)
qed


lemma bpin_free:
  assumes "cpu_quiet s" "lock_free BcacheLock s"
  shows "bpin i s = Ok () (s\<lparr>bufs := (bufs s)(i := (bufs s i)\<lparr>refcnt := refcnt (bufs s i) + 1\<rparr>)\<rparr>)"
  using assms by (simp add: bpin_def kexec acquire_free upd_buf_def release_restores crit)

definition log_entry :: "nat \<Rightarrow> 'z logst_scheme \<Rightarrow> 'z logst_scheme" where
  "log_entry b s =
     (let a = blockno (bufs s b); i = absorb_index a s; t = s\<lparr>lh_block := (lh_block s)(i := a)\<rparr> in
      if int i = lh_n s then t\<lparr>bufs := (bufs s)(b := (bufs s b)\<lparr>refcnt := refcnt (bufs s b) + 1\<rparr>), lh_n := lh_n s + 1\<rparr>
      else t)"

lemma log_write_eq:
  fixes s :: "'z logst_scheme"
  assumes "calm p s" "lh_n s < int LOGSIZE" "lh_n s < log_size s - 1" "1 \<le> outstanding s"
  shows "log_write b s = Ok () (log_entry b s)"
proof -
  note c = calmD [OF assms(1)]
  have ab: "absorb_index a (after_acquire LogLock s) = absorb_index a s" for a by (simp add: absorb_index_def split: option.split)
  show ?thesis
    using assms(2-4) c after_acquire_quiet [OF c(1)] after_acquire_lock_free [OF c(2), of BcacheLock LogLock]
    by (simp add: log_write_def kexec acquire_free get_buf_def ab log_entry_def Let_def bpin_free
        release_restores [OF c(1,2)] crit)
qed


lemma absorb_index_cases:
  fixes s :: "'z logst_scheme"
  assumes "0 \<le> lh_n s"
  shows "a \<in> set (logged s) \<Longrightarrow> absorb_index a s < nat (lh_n s) \<and> lh_block s (absorb_index a s) = a"
    "a \<notin> set (logged s) \<Longrightarrow> absorb_index a s = nat (lh_n s)"
proof -
  let ?f = "find (\<lambda>i. lh_block s i = a) [0..<nat (lh_n s)]"
  show "absorb_index a s < nat (lh_n s) \<and> lh_block s (absorb_index a s) = a" if "a \<in> set (logged s)"
  proof -
    have "?f \<noteq> None" using that by (auto simp: find_None_iff logged_def)
    then obtain i where "?f = Some i" by blast
    moreover then have "i < nat (lh_n s)" "lh_block s i = a" by (auto simp: find_Some_iff)
    ultimately show ?thesis by (simp add: absorb_index_def)
  qed
  show "absorb_index a s = nat (lh_n s)" if "a \<notin> set (logged s)"
  proof -
    have "?f = None" using that by (auto simp: find_None_iff logged_def)
    then show ?thesis by (simp add: absorb_index_def)
  qed
qed

lemma log_entry_spec:
  fixes s :: "'z logst_scheme"
  assumes rep: "bcache_rep p (log_dev s) held P s" and held: "b \<in> held" and n: "0 \<le> lh_n s"
    and P: "(\<lambda>j. blockno (bufs s j)) ` P = set (logged s)"
  defines "a \<equiv> blockno (bufs s b)" and "s' \<equiv> log_entry b s"
  shows "bcache_rep p (log_dev s) held (insert b P) s'" "cdata (log_dev s) s' = cdata (log_dev s) s"
    "logged s' = (if a \<in> set (logged s) then logged s else logged s @ [a])"
    "lh_n s' = (if a \<in> set (logged s) then lh_n s else lh_n s + 1)"
    "(\<lambda>j. blockno (bufs s' j)) ` insert b P = set (logged s')"
proof -
  have b: "b < NBUF" using held_buf [OF rep held] by simp
  have "bcache_rep p (log_dev s) held (insert b P) s' \<and> cdata (log_dev s) s' = cdata (log_dev s) s \<and>
    logged s' = (if a \<in> set (logged s) then logged s else logged s @ [a]) \<and>
    lh_n s' = (if a \<in> set (logged s) then lh_n s else lh_n s + 1) \<and> (\<forall>j. blockno (bufs s' j) = blockno (bufs s j))"
  proof (cases "a \<in> set (logged s)")
    case True
    note i = absorb_index_cases(1) [OF n True]
    have "(lh_block s)(absorb_index a s := a) = lh_block s" using i by (simp add: fun_upd_idem)
    then have s': "s' = s" using i by (simp add: s'_def log_entry_def Let_def a_def [symmetric]) linarith
    from True obtain j where "j \<in> P" "blockno (bufs s j) = a" using P by (metis imageE)
    then have "b \<in> P" using pinned_same [OF rep held, of j] by (auto simp: a_def)
    then show ?thesis using rep True by (simp add: s' insert_absorb)
  next
    case False
    note i = absorb_index_cases(2) [OF n False]
    have bP: "b \<notin> P" using False P by (auto simp: a_def)
    define t where "t = s\<lparr>bufs := (bufs s)(b := (bufs s b)\<lparr>refcnt := refcnt (bufs s b) + 1\<rparr>)\<rparr>"
    have s': "s' = t\<lparr>lh_block := (lh_block s)(nat (lh_n s) := a), lh_n := lh_n s + 1\<rparr>"
      using i n by (simp add: s'_def log_entry_def Let_def a_def [symmetric] t_def)
    have "refcnt (bufs s b) = 1" using bcache_repD(5) [OF rep b] bP held by (simp add: buf_ok_def Let_def)
    then have "refcnt (bufs s b) + 1 = 1 + of_bool (b \<in> insert b P)" by simp
    from refcnt_rep [OF rep held _ _ this] have r: "bcache_rep p (log_dev s) held (insert b P) t" "cdata (log_dev s) t = cdata (log_dev s) s"
      using bcache_repD(3) [OF rep] b by (auto simp: t_def)
    have "nat (lh_n s + 1) = Suc (nat (lh_n s))" using n by simp
    then have "logged s' = logged s @ [a]" by (simp add: s' logged_def)
    then show ?thesis using r False by (simp add: s') (simp add: t_def)
  qed
  then have R: "bcache_rep p (log_dev s) held (insert b P) s'" "cdata (log_dev s) s' = cdata (log_dev s) s"
    "logged s' = (if a \<in> set (logged s) then logged s else logged s @ [a])"
    "lh_n s' = (if a \<in> set (logged s) then lh_n s else lh_n s + 1)" "\<And>j. blockno (bufs s' j) = blockno (bufs s j)" by blast+
  from R(1-4) show "bcache_rep p (log_dev s) held (insert b P) s'" "cdata (log_dev s) s' = cdata (log_dev s) s"
    "logged s' = (if a \<in> set (logged s) then logged s else logged s @ [a])"
    "lh_n s' = (if a \<in> set (logged s) then lh_n s else lh_n s + 1)" by blast+
  show "(\<lambda>j. blockno (bufs s' j)) ` insert b P = set (logged s')"
    unfolding R(3,5) using P by (auto simp: a_def)
qed

lemma log_entry_frame:
  fixes s :: "'z logst_scheme"
  shows "log_dev (log_entry b s) = log_dev s" "log_start (log_entry b s) = log_start s" "disk (log_entry b s) = disk s"
    "dwrites (log_entry b s) = dwrites s" "calm p (log_entry b s) = calm p s" "log_size (log_entry b s) = log_size s"
    "outstanding (log_entry b s) = outstanding s" "committing (log_entry b s) = committing s"
  by (simp_all add: log_entry_def Let_def)

lemma log_write_spec:
  fixes s :: "'z logst_scheme"
  assumes c: "calm p s" and rep: "bcache_rep p (log_dev s) {b} P s" and lay: "log_layout s"
    and n: "0 \<le> lh_n s" "lh_n s < log_size s - 1" "log_size s \<le> int LOGSIZE" "1 \<le> outstanding s"
    and lg: "distinct (logged s)" "set (logged s) \<inter> log_area s = {}" "(\<lambda>j. blockno (bufs s j)) ` P = set (logged s)"
    and a: "blockno (bufs s b) \<notin> log_area s"
  shows "\<exists>s'. seq (log_write b) (brelse b) s = Ok () s' \<and> log_rep p s' (insert b P) \<and> disk s' = disk s \<and>
    dwrites s' = dwrites s \<and> cdata (log_dev s) s' = cdata (log_dev s) s \<and> log_dev s' = log_dev s \<and>
    logged s' = (if blockno (bufs s b) \<in> set (logged s) then logged s else logged s @ [blockno (bufs s b)])"
proof -
  let ?t = "log_entry b s"
  note e = log_entry_spec [OF rep singletonI n(1) lg(3)] and fr = log_entry_frame [where b = b and s = s] log_entry_frame(5) [where p = p and b = b and s = s]
  obtain s' where s': "brelse b ?t = Ok () s'" "calm p s'" "bcache_rep p (log_dev s) {} (insert b P) s'"
    "cdata (log_dev s) s' = cdata (log_dev s) ?t" "disk s' = disk ?t" "dwrites s' = dwrites ?t" "bio_frame ?t s'"
    "\<And>j. blockno (bufs s' j) = blockno (bufs ?t j)"
    using brelse_spec [of p ?t "log_dev s" "{b}" "insert b P" b] e(1) c fr(9) by auto
  note f = bio_frame_log [OF s'(7)] log_fields_blockno [OF s'(7)]
  note u = log_upd_area [OF fr(2)]
  have "log_rep p s' (insert b P)"
    unfolding log_rep_def
  proof (intro conjI)
    show "calm p s'" "bcache_rep p (log_dev s') {} (insert b P) s'" "log_layout s'" using s'(2,3) f fr u lay by simp_all
    show "0 \<le> lh_n s'" "nat (lh_n s') < LOGSIZE" using f e(4) n by auto
    show "distinct (logged s')" "set (logged s') \<inter> log_area s' = {}" using f e(3) u(4) lg(1,2) a by auto
    show "(\<lambda>j. blockno (bufs s' j)) ` insert b P = set (logged s')" using e(5) f s'(8) by simp
  qed
  then show ?thesis
    using log_write_eq [OF c] n s' fr e(2,3) f
    by (intro exI [of _ s']) (simp add: kexec)
qed


section \<open>Properties\<close>

text \<open>
  C1: a commit survives a crash at any point.  Let the header on disk say that the log is empty when
  \<open>commit\<close> starts.  \<open>commit\<close> returns after a list \<open>W\<close> of block writes.  If the machine stops after
  the first \<open>k\<close> of them and boots with an empty cache, \<open>initlog\<close> leaves every block outside the log
  as it was before the commit (when the header had not been written) or with the contents of the
  whole transaction (when it had): never a mixture.
\<close>

theorem commit_crash_safe:
  fixes s :: "'z logst_scheme"
  assumes "log_rep p s P" "0 < lh_n s" "get32 0 (disk s (hdr_block s)) = 0" "sint (logstart sb) = log_start s"
  shows "\<exists>s' W. commit s = Ok () s' \<and> dwrites s' = dwrites s @ W \<and> disk s' = apply_writes W (disk s) \<and>
    nat (lh_n s) < length W \<and>
    (\<forall>k q (b :: 'z logst_scheme). calm q b \<and> bcache_rep q (log_dev s) {} {} b \<and> disk b = apply_writes (take k W) (disk s) \<longrightarrow>
      (\<exists>b'. initlog (log_dev s) sb b = Ok () b' \<and>
        (\<forall>x. x \<notin> log_area s \<longrightarrow> disk b' x = (if k \<le> nat (lh_n s) then disk s x else cdata (log_dev s) s x))))"
proof -
  obtain s' where s': "commit s = Ok () s'" "dwrites s' = dwrites s @ commit_writes s" "disk s' = apply_writes (commit_writes s) (disk s)"
    using commit_spec [OF assms(1,2)] by blast
  moreover have "nat (lh_n s) < length (commit_writes s)" by (simp add: commit_writes_def log_writes_def)
  moreover have "\<exists>b'. initlog (log_dev s) sb b = Ok () b' \<and>
      (\<forall>x. x \<notin> log_area s \<longrightarrow> disk b' x = (if k \<le> nat (lh_n s) then disk s x else cdata (log_dev s) s x))"
    if b: "calm q b" "bcache_rep q (log_dev s) {} {} b" "disk b = apply_writes (take k (commit_writes s)) (disk s)"
    for k q and b :: "'z logst_scheme"
  proof -
    note i = initlog_boot [OF b(1,2), of sb]
    note d = i(4) [unfolded b(3), folded crash_disk_def]
    from recovery_correct [OF assms(1,3) i(2,3) d i(6) trans [OF i(5) assms(4)]] show ?thesis
      unfolding i(1) by blast
  qed
  ultimately show ?thesis by blast
qed

text \<open>
  C12: writing ahead.  Logging a held buffer and releasing it keeps the old block on the disk and the
  new one pinned in the cache, adds the block to the transaction unless it is already there, and
  leaves the log ready to commit; readers see the new contents.
\<close>

theorem log_write_keeps_disk:
  fixes s :: "'z logst_scheme"
  assumes "calm p s" "bcache_rep p (log_dev s) {b} P s" "log_layout s"
    "0 \<le> lh_n s" "lh_n s < log_size s - 1" "log_size s \<le> int LOGSIZE" "1 \<le> outstanding s"
    "distinct (logged s)" "set (logged s) \<inter> log_area s = {}" "(\<lambda>j. blockno (bufs s j)) ` P = set (logged s)"
    "blockno (bufs s b) \<notin> log_area s"
  shows "\<exists>s'. seq (log_write b) (brelse b) s = Ok () s' \<and> log_rep p s' (insert b P) \<and> disk s' = disk s \<and>
    cdata (log_dev s) s' (blockno (bufs s b)) = bdata (bufs s b) \<and>
    logged s' = (if blockno (bufs s b) \<in> set (logged s) then logged s else logged s @ [blockno (bufs s b)])"
proof -
  have "caches (log_dev s) (blockno (bufs s b)) s b" "b < NBUF"
    using held_buf [OF assms(2), of b] by (auto simp: caches_def)
  then have "cdata (log_dev s) s (blockno (bufs s b)) = bdata (bufs s b)" using cdata_cached [OF assms(2)] by blast
  with log_write_spec [OF assms] show ?thesis by metis
qed

text \<open>
  The function \<open>log_write\<close> refuses a block when the log is full, and outside a transaction.
\<close>

theorem log_write_panics:
  fixes s :: "'z logst_scheme"
  assumes "calm p s" "int LOGSIZE \<le> lh_n s \<or> log_size s - 1 \<le> lh_n s \<or> outstanding s < 1"
  shows "\<exists>s'. log_write b s = Panic (if int LOGSIZE \<le> lh_n s \<or> log_size s - 1 \<le> lh_n s
    then ''too big a transaction'' else ''log_write outside of trans'') s'"
  using calmD [OF assms(1)] assms(2) by (auto simp: log_write_def kexec acquire_free)

section \<open>A concrete log\<close>

text \<open>A log at block 2; block 50 has been changed in buffer 0 and logged.\<close>

definition dirty_buf :: "nat \<Rightarrow> buf" where
  "dirty_buf = empty_buf(0 := (empty_buf 0)\<lparr>valid := True, bdev := 1, blockno := 50, refcnt := 1, bdata := replicate BSIZE 1\<rparr>)"

definition demo_log :: "(nat \<Rightarrow> buf) \<Rightarrow> int \<Rightarrow> logst" where
  "demo_log B n = bcache.extend ((demo_cache zero_disk)\<lparr>bufs := B\<rparr>)
     \<lparr>log_start = 2, log_size = 30, outstanding = 1, committing = False, log_dev = 1, lh_n = n, lh_block = (\<lambda>_. 50)\<rparr>"

definition demo_sb :: superblock where
  "demo_sb = \<lparr>magic = 0x10203040, sb_size = 2000, nblocks = 1954, ninodes = 200, nlog = 30, logstart = 2, inodestart = 32, bmapstart = 45\<rparr>"

lemma demo_log_calm: "calm 0 (demo_log B n)"
  by (simp add: demo_log_def bcache.defs calm_def demo_cache_def cpu_quiet_def intr_enabled_def lock_free_def cur_def no_proc_def)

lemma not_in_log_area:
  assumes "log_layout s" "log_start s + int LOGSIZE \<le> uint x"
  shows "x \<notin> log_area s"
proof -
  have ne: "x \<noteq> word_of_int (log_start s + int t)" if "t < LOGSIZE" for t
  proof
    assume "x = word_of_int (log_start s + int t)"
    then have "uint x = (log_start s + int t) mod 2 ^ 32" by (simp only: uint_word_of_int) simp
    then show False using assms that by (simp add: log_layout_def)
  qed
  have "x \<noteq> hdr_block s" using ne [of 0] by (simp add: hdr_block_def LOGSIZE_def MAXOPBLOCKS_def)
  moreover have "x \<noteq> log_blockno t s" if "t < LOGSIZE - 1" for t
    using ne [of "Suc t"] that by (simp add: log_blockno_def ac_simps)
  ultimately show ?thesis by (auto simp: log_area_def)
qed

lemma demo_log_rep: "log_rep 0 (demo_log dirty_buf 1) {0}"
proof -
  have fields: "log_dev (demo_log B n) = 1" "lh_n (demo_log B n) = n" "lh_block (demo_log B n) = (\<lambda>_. 50)"
    "log_start (demo_log B n) = 2" "bufs (demo_log B n) = B" "disk (demo_log B n) = zero_disk" for B n
    by (simp_all add: demo_log_def bcache.defs demo_cache_def)
  have "bcache_rep 0 1 {} {0} (demo_log dirty_buf 1)"
  proof (rule bcache_repI)
    have "links dirty_buf bhead (rev [0..<NBUF]) bhead"
      by (rule links_cong [OF links_empty]) (auto simp: dirty_buf_def)
    then show "lru_ok (bufs (demo_log dirty_buf 1))"
      unfolding lru_ok_def by (intro exI [of _ "rev [0..<NBUF]"]) (auto simp: fields)
    show "buf_ok 0 1 {} {0} (demo_log dirty_buf 1) i" for i
      by (simp add: buf_ok_def demo_log_def bcache.defs demo_cache_def dirty_buf_def empty_buf_def)
    show "i = j" if "bdev (bufs (demo_log dirty_buf 1) i) = 1" "bdev (bufs (demo_log dirty_buf 1) j) = 1" for i j
      using that by (auto simp: fields dirty_buf_def empty_buf_def split: if_splits)
  qed (auto simp: fields zero_disk_def NBUF_def MAXOPBLOCKS_def)
  moreover have "(50 :: uint) \<notin> log_area (demo_log dirty_buf 1)"
    by (rule not_in_log_area) (simp_all add: fields log_layout_def LOGSIZE_def MAXOPBLOCKS_def)
  ultimately show ?thesis
    using demo_log_calm by (simp add: log_rep_def fields log_layout_def logged_def LOGSIZE_def MAXOPBLOCKS_def dirty_buf_def)
qed


theorem commit_crash_safe_witness:
  "\<exists>s' W. commit (demo_log dirty_buf 1) = Ok () s' \<and> dwrites s' = W \<and> 1 < length W \<and>
    (\<forall>k q (b :: logst). calm q b \<and> bcache_rep q 1 {} {} b \<and> disk b = apply_writes (take k W) zero_disk \<longrightarrow>
      (\<exists>b'. initlog 1 demo_sb b = Ok () b' \<and>
        (\<forall>x. x \<notin> log_area (demo_log dirty_buf 1) \<longrightarrow>
           disk b' x = (if k \<le> 1 then zero_disk x else cdata 1 (demo_log dirty_buf 1) x))))"
proof -
  have f: "lh_n (demo_log dirty_buf 1) = 1" "disk (demo_log dirty_buf 1) = zero_disk" "log_dev (demo_log dirty_buf 1) = 1"
    "log_start (demo_log dirty_buf 1) = 2" "dwrites (demo_log dirty_buf 1) = []"
    by (simp_all add: demo_log_def bcache.defs demo_cache_def)
  have h: "0 < lh_n (demo_log dirty_buf 1)" "get32 0 (disk (demo_log dirty_buf 1) (hdr_block (demo_log dirty_buf 1))) = 0"
    "sint (logstart demo_sb) = log_start (demo_log dirty_buf 1)"
    by (simp_all add: f demo_sb_def get32_def zero_disk_def BSIZE_def take_replicate eval_nat_numeral)
  note c = commit_crash_safe [OF demo_log_rep h, unfolded f nat_one_as_int [symmetric] append_Nil]
  show ?thesis by (rule c [THEN exE], elim exE conjE, intro exI conjI, assumption+)
qed

theorem log_write_panics_witness:
  "\<exists>s'. log_write 0 (demo_log empty_buf 29) = Panic ''too big a transaction'' s'"
  using log_write_panics [OF demo_log_calm, of empty_buf 29 0] by (simp add: demo_log_def bcache.defs)

theorem log_write_keeps_disk_witness:
  "\<exists>b s1 s'. bread 1 60 (demo_log empty_buf 0) = Ok b s1 \<and> seq (log_write b) (brelse b) s1 = Ok () s' \<and>
     logged s' = [60] \<and> disk s' = zero_disk"
proof -
  have f: "log_dev (demo_log empty_buf 0) = 1" "lh_n (demo_log empty_buf 0) = 0" "log_start (demo_log empty_buf 0) = 2"
    "log_size (demo_log empty_buf 0) = 30" "outstanding (demo_log empty_buf 0) = 1" "disk (demo_log empty_buf 0) = zero_disk"
    by (simp_all add: demo_log_def bcache.defs demo_cache_def)
  have "bcache_rep 0 1 {} {} (demo_cache zero_disk)" by (rule demo_cache_rep) (simp add: zero_disk_def)
  then have "bcache_rep 0 1 {} {} (demo_log empty_buf 0)"
    by (simp add: bcache_rep_def buf_ok_def demo_log_def bcache.defs demo_cache_def)
  from bread_spec [OF demo_log_calm this _ room_card, of 60] obtain b s1 where
    b: "bread 1 60 (demo_log empty_buf 0) = Ok b s1" "calm 0 s1" "bcache_rep 0 1 {b} {} s1" "disk s1 = zero_disk"
      "bio_frame (demo_log empty_buf 0) s1" "blockno (bufs s1 b) = 60"
    by (auto simp: NBUF_def MAXOPBLOCKS_def f)
  note g = bio_frame_log [OF b(5)] log_fields_blockno [OF b(5)]
  have lg: "logged (demo_log empty_buf 0) = []" by (simp add: logged_def f)
  have "(60 :: uint) \<notin> log_area s1"
    by (rule not_in_log_area) (simp_all add: g f log_layout_def LOGSIZE_def MAXOPBLOCKS_def)
  then show ?thesis
    using log_write_keeps_disk [OF b(2), of b "{}"] b(1,3,4,6) by (auto simp: g f lg log_layout_def LOGSIZE_def MAXOPBLOCKS_def)
qed

end
