(* ===== verification/Xv6_Txn.thy ===== *)
theory Xv6_Txn
  imports Xv6_Layout Xv6_Recovery
begin

text \<open>
  The disk as a file system operation sees it inside a transaction: reading a block, and changing one
  with \<open>bread\<close>, \<open>log_write\<close> and \<open>brelse\<close>.  Each operation returns, and what it does is stated on the
  contents that the cache shows, \<open>cdata\<close>; the disk itself does not change before the commit.
\<close>

section \<open>Transactions\<close>

text \<open>
  \<open>txn p H s\<close>: process \<open>p\<close> is in a transaction and holds the buffers \<open>H\<close>; the pinned buffers are those of
  the logged blocks.
\<close>

definition txn_pins :: "nat \<Rightarrow> nat set \<Rightarrow> nat set \<Rightarrow> 'z logst_scheme \<Rightarrow> bool" where
  "txn_pins p H P s \<longleftrightarrow> calm p s \<and> bcache_rep p (log_dev s) H P s \<and> log_layout s \<and>
     0 \<le> lh_n s \<and> lh_n s < log_size s \<and> log_size s \<le> int LOGSIZE \<and> 1 \<le> outstanding s \<and>
     distinct (logged s) \<and> set (logged s) \<inter> log_area s = {} \<and> (\<lambda>j. blockno (bufs s j)) ` P = set (logged s)"

definition txn :: "nat \<Rightarrow> nat set \<Rightarrow> 'z logst_scheme \<Rightarrow> bool" where
  "txn p H s \<longleftrightarrow> (\<exists>P. txn_pins p H P s)"

definition txn_frame :: "'z logst_scheme \<Rightarrow> 'z logst_scheme \<Rightarrow> bool" where
  "txn_frame s s' \<longleftrightarrow>
     s' = s\<lparr>sleeplocks := sleeplocks s', bufs := bufs s', lh_n := lh_n s', lh_block := lh_block s'\<rparr>"

text \<open>What the cache shows of the device of the log, and the number of blocks the log has room for.\<close>

definition view :: "'z logst_scheme \<Rightarrow> uint \<Rightarrow> byte list" where
  "view s = cdata (log_dev s) s"

definition log_room :: "'z logst_scheme \<Rightarrow> int" where
  "log_room s = log_size s - 1 - lh_n s"

lemma txn_frame_refl [simp]: "txn_frame s s"
  by (simp add: txn_frame_def)

lemma txn_frame_trans:
  assumes "txn_frame s t" "txn_frame t u"
  shows "txn_frame s u"
proof -
  have "u = s\<lparr>sleeplocks := sleeplocks t, bufs := bufs t, lh_n := lh_n t, lh_block := lh_block t\<rparr>
      \<lparr>sleeplocks := sleeplocks u, bufs := bufs u, lh_n := lh_n u, lh_block := lh_block u\<rparr>"
    using assms unfolding txn_frame_def by metis
  then show ?thesis unfolding txn_frame_def by simp
qed

lemma txn_frame_bio:
  fixes s :: "'z logst_scheme"
  assumes "bio_frame s s'" "disk s' = disk s" "dwrites s' = dwrites s"
  shows "txn_frame s s'"
proof -
  note f = bio_frame_log [OF assms(1)]
  have "s\<lparr>sleeplocks := a, bufs := b, disk := disk s, dwrites := dwrites s\<rparr> =
      s\<lparr>sleeplocks := a, bufs := b, lh_n := lh_n s, lh_block := lh_block s\<rparr>" for a b by simp
  then show ?thesis unfolding txn_frame_def f using assms(1) [unfolded bio_frame_def assms(2,3)] by metis
qed

lemma txn_frame_log:
  fixes s :: "'z logst_scheme"
  assumes "txn_frame s s'"
  shows "log_dev s' = log_dev s" "log_start s' = log_start s" "log_size s' = log_size s" "outstanding s' = outstanding s"
    "disk s' = disk s" "dwrites s' = dwrites s" "log_area s' = log_area s" "procs s' = procs s" "phys s' = phys s"
proof -
  note e = assms [unfolded txn_frame_def]
  show f: "log_dev s' = log_dev s" "log_start s' = log_start s" "log_size s' = log_size s" "outstanding s' = outstanding s"
    "disk s' = disk s" "dwrites s' = dwrites s" "procs s' = procs s" "phys s' = phys s"
    using arg_cong [OF e, of log_dev] arg_cong [OF e, of log_start] arg_cong [OF e, of log_size] arg_cong [OF e, of outstanding]
      arg_cong [OF e, of disk] arg_cong [OF e, of dwrites] arg_cong [OF e, of procs] arg_cong [OF e, of phys] by simp_all
  show "log_area s' = log_area s" by (rule log_upd_area(4) [OF f(2)])
qed

lemma txn_frame_fs:
  fixes s :: "'z fsst_scheme"
  assumes "txn_frame s s'"
  shows "sb s' = sb s" "itable s' = itable s"
  using arg_cong [OF assms [unfolded txn_frame_def], of sb] arg_cong [OF assms [unfolded txn_frame_def], of itable] by simp_all

lemma txn_card:
  assumes "txn_pins p H P s"
  shows "finite P" "int (card P) = lh_n s" "log_room s = log_size s - 1 - int (card P)"
proof -
  have rep: "bcache_rep p (log_dev s) H P s" using assms by (simp add: txn_pins_def)
  have "card P = card (set (logged s))" using card_image [OF pinned_inj [OF rep]] assms by (simp add: txn_pins_def)
  also have "\<dots> = length (logged s)" by (rule distinct_card) (use assms in \<open>simp add: txn_pins_def\<close>)
  finally show n: "int (card P) = lh_n s" using assms by (simp add: logged_def txn_pins_def)
  show "finite P" using bcache_repD(3) [OF rep] finite_subset by blast
  show "log_room s = log_size s - 1 - int (card P)" by (simp add: log_room_def n)
qed

section \<open>Steps\<close>

lemma bread_txn:
  fixes s :: "'z logst_scheme"
  assumes t: "txn p H s" and b: "\<And>i. i \<in> H \<Longrightarrow> blockno (bufs s i) \<noteq> b" and H: "finite H" "int (card H) \<le> log_room s"
    and dv: "dev = log_dev s"
  shows "\<exists>i s'. bread dev b s = Ok i s' \<and> i \<notin> H \<and> txn p (insert i H) s' \<and> txn_frame s s' \<and> view s' = view s \<and>
    lh_n s' = lh_n s \<and> logged s' = logged s \<and> blockno (bufs s' i) = b \<and> bdata (bufs s' i) = view s b \<and>
    (\<forall>j \<in> H. bufs s' j = bufs s j) \<and>
    (b \<notin> set (logged s) \<longrightarrow> bdata (bufs s' i) = disk s b)"
proof -
  obtain P where P: "txn_pins p H P s" using t by (auto simp: txn_def)
  note c = txn_card [OF P]
  have rep: "calm p s" "bcache_rep p (log_dev s) H P s" using P by (simp_all add: txn_pins_def)
  have "card (H \<union> P) \<le> card H + card P" by (rule card_Un_le)
  also have "\<dots> < NBUF"
    using H(2) c(2,3) P by (auto simp: txn_pins_def LOGSIZE_def NBUF_def log_room_def)
  finally have "room (log_dev s) b (H \<union> P) s" using H(1) c(1) by (intro room_card) auto
  from bread_spec [OF rep b this] obtain i s' where r: "bread (log_dev s) b s = Ok i s'" "i < NBUF" "i \<notin> H" "calm p s'"
    "bcache_rep p (log_dev s) (insert i H) P s'" "cdata (log_dev s) s' = cdata (log_dev s) s" "disk s' = disk s"
    "dwrites s' = dwrites s" "bio_frame s s'" "blockno (bufs s' i) = b" "bdata (bufs s' i) = cdata (log_dev s) s b"
    "\<forall>j. j \<noteq> i \<longrightarrow> bufs s' j = bufs s j" "i \<in> P \<longrightarrow> bdev (bufs s i) = log_dev s \<and> blockno (bufs s i) = b" by blast
  note f = bio_frame_log [OF r(9)] log_fields_blockno [OF r(9)]
  have vw: "view s' = view s" "bdata (bufs s' i) = view s b" by (simp_all add: view_def f(5) r(6,11))
  have pins: "(\<lambda>j. blockno (bufs s' j)) ` P = (\<lambda>j. blockno (bufs s j)) ` P"
  proof (rule image_cong)
    show "blockno (bufs s' j) = blockno (bufs s j)" if "j \<in> P" for j
      using r(10,12,13) that by (cases "j = i") auto
  qed simp
  have "txn_pins p (insert i H) P s'"
    using P r(4,5) f pins by (simp add: txn_pins_def)
  moreover have "bdata (bufs s' i) = disk s b" if nb: "b \<notin> set (logged s)"
  proof -
    have "i \<notin> P" using nb P r(13) by (auto simp: txn_pins_def image_iff)
    show ?thesis
    proof (cases "\<exists>j < NBUF. caches (log_dev s) b s j")
      case True
      then obtain j where j: "j < NBUF" "caches (log_dev s) b s j" by blast
      have "j \<notin> P" using nb P j(2) by (auto simp: txn_pins_def caches_def)
      moreover have "j \<notin> H" using b j(2) by (auto simp: caches_def)
      ultimately have "bdata (bufs s j) = disk s b"
        using bcache_repD(5) [OF rep(2) j(1)] j(2) by (auto simp: buf_ok_def Let_def caches_def)
      then show ?thesis using r(11) cdata_cached [OF rep(2) j] by simp
    next
      case False
      then show ?thesis using r(11) cdata_uncached [of "log_dev s" b s] by auto
    qed
  qed
  moreover have "\<forall>j \<in> H. bufs s' j = bufs s j" using r(3,12) by metis
  ultimately show ?thesis
    using r(1,3,10) f(6) f(12) txn_frame_bio [OF r(9,7,8)] vw unfolding dv txn_def
    by (intro exI [of _ i] exI [of _ s']) blast
qed


lemma upd_data_txn:
  fixes s :: "'z logst_scheme"
  assumes t: "txn p H s" and i: "i \<in> H" and len: "length (f (bdata (bufs s i))) = BSIZE"
  defines "s' \<equiv> s\<lparr>bufs := (bufs s)(i := (bufs s i)\<lparr>bdata := f (bdata (bufs s i))\<rparr>)\<rparr>"
  shows "upd_data i f s = Ok () s'" "txn p H s'" "txn_frame s s'"
    "view s' = (view s)(blockno (bufs s i) := f (bdata (bufs s i)))" "lh_n s' = lh_n s" "logged s' = logged s"
proof -
  obtain P where P: "txn_pins p H P s" using t by (auto simp: txn_def)
  then have rep: "bcache_rep p (log_dev s) H P s" by (simp add: txn_pins_def)
  show "upd_data i f s = Ok () s'" by (simp add: upd_data_def upd_buf_def s'_def)
  show fr: "txn_frame s s'" "lh_n s' = lh_n s" and lg: "logged s' = logged s"
    by (simp_all add: txn_frame_def s'_def logged_def)
  note d = set_data_rep [OF rep i len, folded s'_def]
  have bl: "blockno (bufs s' j) = blockno (bufs s j)" for j by (simp add: s'_def)
  have "calm p s' = calm p s" "log_layout s' = log_layout s" "log_size s' = log_size s" "outstanding s' = outstanding s"
    "log_dev s' = log_dev s" "log_area s' = log_area s"
    by (simp_all add: s'_def log_layout_def log_area_def hdr_block_def log_blockno_def)
  then have "txn_pins p H P s'" using P d(1) fr lg by (simp add: txn_pins_def bl)
  then show "txn p H s'" by (auto simp: txn_def)
  show "view s' = (view s)(blockno (bufs s i) := f (bdata (bufs s i)))"
    using d(2) by (simp add: view_def s'_def)
qed

lemma log_write_txn:
  fixes s :: "'z logst_scheme"
  assumes t: "txn p H s" and i: "i \<in> H" and a: "blockno (bufs s i) \<notin> log_area s" and n: "0 < log_room s"
  shows "\<exists>s'. log_write i s = Ok () s' \<and> txn p H s' \<and> txn_frame s s' \<and> view s' = view s \<and> lh_n s' \<le> lh_n s + 1 \<and>
    logged s' = (if blockno (bufs s i) \<in> set (logged s) then logged s else logged s @ [blockno (bufs s i)]) \<and>
    (\<forall>j. blockno (bufs s' j) = blockno (bufs s j) \<and> bdata (bufs s' j) = bdata (bufs s j))"
proof -
  obtain P where P: "txn_pins p H P s" using t by (auto simp: txn_def)
  have c: "calm p s" and rep: "bcache_rep p (log_dev s) H P s" and lh: "0 \<le> lh_n s" and
    pin: "(\<lambda>j. blockno (bufs s j)) ` P = set (logged s)"
    using P by (simp_all add: txn_pins_def)
  let ?t = "log_entry i s"
  have w: "log_write i s = Ok () ?t"
    using P n by (intro log_write_eq [OF c]) (simp_all add: txn_pins_def log_room_def)
  note e = log_entry_spec [OF rep i lh pin] and fr = log_entry_frame [where b = i and s = s] log_entry_frame(5) [where p = p and b = i and s = s]
  note u = log_upd_area [OF fr(2)]
  have "txn_pins p H (insert i P) ?t"
    using P e fr u n a by (auto simp: txn_pins_def log_room_def)
  moreover have "txn_frame s ?t" by (simp add: txn_frame_def log_entry_def Let_def)
  moreover have "blockno (bufs ?t j) = blockno (bufs s j) \<and> bdata (bufs ?t j) = bdata (bufs s j)" for j
    by (simp add: log_entry_def Let_def)
  ultimately show ?thesis using w e fr unfolding txn_def view_def by (intro exI [of _ ?t]) auto
qed

lemma brelse_txn:
  fixes s :: "'z logst_scheme"
  assumes t: "txn p H s" and i: "i \<in> H"
    and clean: "blockno (bufs s i) \<in> set (logged s) \<or> bdata (bufs s i) = disk s (blockno (bufs s i))"
  shows "\<exists>s'. brelse i s = Ok () s' \<and> txn p (H - {i}) s' \<and> txn_frame s s' \<and> view s' = view s \<and> lh_n s' = lh_n s \<and>
    logged s' = logged s \<and> (\<forall>j. blockno (bufs s' j) = blockno (bufs s j) \<and> bdata (bufs s' j) = bdata (bufs s j))"
proof -
  obtain P where P: "txn_pins p H P s" using t by (auto simp: txn_def)
  have c: "calm p s" and rep: "bcache_rep p (log_dev s) H P s" and pin: "(\<lambda>j. blockno (bufs s j)) ` P = set (logged s)"
    using P by (simp_all add: txn_pins_def)
  have "bdata (bufs s i) = disk s (blockno (bufs s i))" if "i \<notin> P"
  proof -
    have "blockno (bufs s i) \<notin> set (logged s)"
      using pinned_same [OF rep i] that pin [symmetric] by auto
    then show ?thesis using clean by simp
  qed
  from brelse_spec [OF c rep i this] obtain s' where s': "brelse i s = Ok () s'" "calm p s'"
    "bcache_rep p (log_dev s) (H - {i}) P s'" "cdata (log_dev s) s' = cdata (log_dev s) s" "disk s' = disk s"
    "dwrites s' = dwrites s" "bio_frame s s'" "\<And>j. blockno (bufs s' j) = blockno (bufs s j)"
    "\<And>j. bdata (bufs s' j) = bdata (bufs s j)" by blast
  note f = bio_frame_log [OF s'(7)] log_fields_blockno [OF s'(7)]
  have "txn_pins p (H - {i}) P s'" using P s'(2,3,8) f by (simp add: txn_pins_def)
  then show ?thesis
    using s' f txn_frame_bio [OF s'(7,5,6)] unfolding txn_def view_def by (intro exI [of _ s']) auto
qed

section \<open>Reading and changing a block\<close>

text \<open>What becomes of the buffers held, and that they are not those of the blocks \<open>X\<close>.\<close>

definition keeps :: "nat set \<Rightarrow> 'z logst_scheme \<Rightarrow> 'z logst_scheme \<Rightarrow> bool" where
  "keeps H s s' \<longleftrightarrow> (\<forall>j \<in> H. blockno (bufs s' j) = blockno (bufs s j) \<and> bdata (bufs s' j) = bdata (bufs s j))"

definition apart :: "nat set \<Rightarrow> uint set \<Rightarrow> 'z logst_scheme \<Rightarrow> bool" where
  "apart H X s \<longleftrightarrow> card H \<le> 1 \<and> (\<forall>j \<in> H. blockno (bufs s j) \<notin> X)"

lemma apart_empty [simp]: "apart {} X s"
  by (simp add: apart_def)

lemma apart_keeps: "apart H X s \<Longrightarrow> keeps H s s' \<Longrightarrow> Y \<subseteq> X \<Longrightarrow> apart H Y s'"
  by (auto simp: apart_def keeps_def)

lemma keeps_trans: "keeps H s t \<Longrightarrow> keeps H t u \<Longrightarrow> keeps H s u"
  by (simp add: keeps_def)

text \<open>
  The blocks of a transaction are within \<open>B\<close>, and the log has room for \<open>B\<close> and more than \<open>k\<close> further
  blocks.  An operation that writes only blocks of \<open>B\<close> needs no more room.
\<close>

definition budget :: "nat \<Rightarrow> uint set \<Rightarrow> 'z logst_scheme \<Rightarrow> bool" where
  "budget k B s \<longleftrightarrow> finite B \<and> set (logged s) \<subseteq> B \<and> int (card B + k) < log_size s - 1"

lemma budget_mono: "budget k B s \<Longrightarrow> j \<le> k \<Longrightarrow> budget j B s"
  by (simp add: budget_def)

lemma budget_insert: "budget (Suc k) B s \<Longrightarrow> budget k (insert b B) s"
  by (auto simp: budget_def card_insert_if)

lemma budget_room:
  assumes "budget k B s" "txn p H s"
  shows "int k < log_room s"
proof -
  obtain P where P: "txn_pins p H P s" using assms(2) by (auto simp: txn_def)
  have "card P = length (logged s)" using txn_card(2) [OF P] by (simp add: logged_def)
  also have "\<dots> = card (set (logged s))" using P by (intro distinct_card [symmetric]) (simp add: txn_pins_def)
  also have "\<dots> \<le> card B" using assms(1) by (intro card_mono) (simp_all add: budget_def)
  finally show ?thesis using txn_card(3) [OF P] assms(1) by (simp add: budget_def)
qed

text \<open>What an operation on the blocks leaves: the contents \<open>D\<close>; only blocks of \<open>W\<close> have been logged.\<close>

definition txn_post :: "nat \<Rightarrow> nat set \<Rightarrow> uint set \<Rightarrow> (uint \<Rightarrow> byte list) \<Rightarrow> 'z logst_scheme \<Rightarrow> 'z logst_scheme \<Rightarrow> bool" where
  "txn_post p H W D s s' \<longleftrightarrow> txn p H s' \<and> txn_frame s s' \<and> view s' = D \<and> keeps H s s' \<and>
     set (logged s) \<subseteq> set (logged s') \<and> set (logged s') \<subseteq> set (logged s) \<union> W"

lemma txn_postD:
  assumes "txn_post p H W D s s'"
  shows "txn p H s'" "txn_frame s s'" "view s' = D" "keeps H s s'" "set (logged s) \<subseteq> set (logged s')"
  using assms by (simp_all add: txn_post_def)

lemma txn_post_refl: "txn p H s \<Longrightarrow> txn_post p H {} (view s) s s"
  by (simp add: txn_post_def keeps_def)

lemma txn_post_trans:
  assumes "txn_post p H V D s t" "txn_post p H W E t u"
  shows "txn_post p H (V \<union> W) E s u"
  using assms txn_frame_trans keeps_trans unfolding txn_post_def by blast

lemma txn_post_frame:
  assumes "txn_post p H W D s s'"
  shows "log_dev s' = log_dev s" "log_area s' = log_area s" "disk s' = disk s"
  using txn_frame_log [OF txn_postD(2) [OF assms]] by simp_all

lemma budget_post:
  assumes "txn_post p H W D s s'" "W \<subseteq> B" "budget k B s"
  shows "budget k B s'"
  using assms txn_frame_log(3) [OF txn_postD(2) [OF assms(1)]] by (auto simp: txn_post_def budget_def)

lemma txn_room: "txn p H s \<Longrightarrow> 0 \<le> log_room s"
  by (auto simp: txn_def txn_pins_def log_room_def)

lemma txn_finite: "txn p H s \<Longrightarrow> finite H"
  unfolding txn_def txn_pins_def by (elim exE conjE) (rule finite_subset [OF bcache_repD(2)], assumption, rule finite_lessThan)

text \<open>Looking at a block.\<close>

lemma peek_txn:
  fixes s :: "'z logst_scheme"
  assumes t: "txn p H s" "dev = log_dev s" and H: "apart H {b} s" "int (card H) \<le> log_room s"
  shows "\<exists>i s1 s'. bread dev b s = Ok i s1 \<and> bdata (bufs s1 i) = view s b \<and> brelse i s1 = Ok () s' \<and>
    txn_frame s s1 \<and> txn_post p H {} (view s) s s'"
proof -
  have ne: "blockno (bufs s j) \<noteq> b" if "j \<in> H" for j using H(1) that by (auto simp: apart_def)
  obtain i s1 where 1: "bread dev b s = Ok i s1" "i \<notin> H" "txn p (insert i H) s1" "txn_frame s s1" "view s1 = view s" "lh_n s1 = lh_n s"
    "logged s1 = logged s" "blockno (bufs s1 i) = b" "bdata (bufs s1 i) = view s b" "\<forall>j \<in> H. bufs s1 j = bufs s j"
    "b \<notin> set (logged s) \<longrightarrow> bdata (bufs s1 i) = disk s b"
    using bread_txn [OF t(1) ne txn_finite [OF t(1)] H(2) t(2)] by blast
  obtain s' where 2: "brelse i s1 = Ok () s'" "txn p (insert i H - {i}) s'" "txn_frame s1 s'" "view s' = view s1" "lh_n s' = lh_n s1"
    "logged s' = logged s1" "\<forall>j. blockno (bufs s' j) = blockno (bufs s1 j) \<and> bdata (bufs s' j) = bdata (bufs s1 j)"
    using brelse_txn [OF 1(3) insertI1] 1(7,8,11) txn_frame_log(5) [OF 1(4)] by auto
  have "txn_frame s s'" using 1(4) 2(3) by (rule txn_frame_trans)
  then have "txn_post p H {} (view s) s s'" using 1(2,5,7,10) 2 by (simp add: txn_post_def keeps_def)
  then show ?thesis using 1(1,4,9) 2(1) by blast
qed

text \<open>Changing a block by \<open>f\<close>.\<close>

lemma change_txn:
  fixes s :: "'z logst_scheme"
  assumes t: "txn p H s" "dev = log_dev s" and H: "apart H {b} s" and b: "b \<notin> log_area s" "0 < log_room s"
    and len: "length (f (view s b)) = BSIZE"
  shows "\<exists>i s1 s2 s3 s'. bread dev b s = Ok i s1 \<and> bdata (bufs s1 i) = view s b \<and> txn_frame s s1 \<and> upd_data i f s1 = Ok () s2 \<and>
    log_write i s2 = Ok () s3 \<and> brelse i s3 = Ok () s' \<and> txn_post p H {b} ((view s)(b := f (view s b))) s s'"
proof -
  have ne: "blockno (bufs s j) \<noteq> b" if "j \<in> H" for j using H that by (auto simp: apart_def)
  have cH: "int (card H) \<le> log_room s" using H b(2) by (simp add: apart_def)
  obtain i s1 where 1: "bread dev b s = Ok i s1" "i \<notin> H" "txn p (insert i H) s1" "txn_frame s s1" "view s1 = view s" "lh_n s1 = lh_n s"
    "logged s1 = logged s" "blockno (bufs s1 i) = b" "bdata (bufs s1 i) = view s b" "\<forall>j \<in> H. bufs s1 j = bufs s j"
    using bread_txn [OF t(1) ne txn_finite [OF t(1)] cH t(2)] by blast
  let ?s2 = "s1\<lparr>bufs := (bufs s1)(i := (bufs s1 i)\<lparr>bdata := f (bdata (bufs s1 i))\<rparr>)\<rparr>"
  note 2 = upd_data_txn [OF 1(3), of i f, unfolded 1(9), OF insertI1 len, folded 1(9)]
  have fr2: "txn_frame s ?s2" using 1(4) 2(3) by (rule txn_frame_trans)
  have b2: "blockno (bufs ?s2 i) = b" using 1(8) by simp
  have room2: "log_room ?s2 = log_room s" using 1(6) 2(5) txn_frame_log(3) [OF fr2] by (simp add: log_room_def)
  have area2: "blockno (bufs ?s2 i) \<notin> log_area ?s2" using b txn_frame_log(7) [OF fr2] b2 by simp
  obtain s3 where 3: "log_write i ?s2 = Ok () s3" "txn p (insert i H) s3" "txn_frame ?s2 s3" "view s3 = view ?s2"
    "logged s3 = (if b \<in> set (logged ?s2) then logged ?s2 else logged ?s2 @ [b])" "blockno (bufs s3 i) = b"
    "\<forall>j. blockno (bufs s3 j) = blockno (bufs ?s2 j) \<and> bdata (bufs s3 j) = bdata (bufs ?s2 j)"
    using log_write_txn [OF 2(2) insertI1 area2] b(2) room2 b2 by auto
  obtain s' where 4: "brelse i s3 = Ok () s'" "txn p (insert i H - {i}) s'" "txn_frame s3 s'" "view s' = view s3" "logged s' = logged s3"
    "\<forall>j. blockno (bufs s' j) = blockno (bufs s3 j) \<and> bdata (bufs s' j) = bdata (bufs s3 j)"
    using brelse_txn [OF 3(2) insertI1] 3(5,6) by (auto split: if_splits)
  have fr: "txn_frame s s'" using fr2 3(3) 4(3) txn_frame_trans by blast
  have "view s' = (view s)(b := f (view s b))" using 4(4) 3(4) 2(4) 1(5,8,9) by simp
  moreover have "keeps H s s'" using 4(6) 3(7) 1(2,10) by (auto simp: keeps_def)
  moreover have "set (logged s) \<subseteq> set (logged s')" "set (logged s') \<subseteq> set (logged s) \<union> {b}" using 4(5) 3(5) 2(6) 1(7) by auto
  moreover have "txn p H s'" using 4(2) 1(2) by simp
  ultimately have "txn_post p H {b} ((view s)(b := f (view s b))) s s'" using fr by (simp add: txn_post_def)
  then show ?thesis using 1(1,4,9) 2(1) 3(1) 4(1) by blast
qed

end
