(* ===== verification/Xv6_File.thy ===== *)
theory Xv6_File
  imports Xv6_Fs
begin

text \<open>
  \<open>kernel/file.c\<close>, \<open>kernel/file.h\<close> and \<open>kernel/pipe.c\<close>: the table of open files and pipes.  A
  \<open>struct file *\<close> is an index into \<open>ftable\<close>.  A pipe lives in a page from \<open>kalloc\<close> and is addressed
  by it; the record \<open>pipe\<close> gives the contents of that page, its lock is \<open>PipeLock\<close> of the address.
\<close>

section \<open>State\<close>

definition NFILE :: nat where "NFILE = 100"
definition PIPESIZE :: nat where "PIPESIZE = 512"

datatype filetype = FD_NONE | FD_PIPE | FD_INODE | FD_DEVICE

record file_struct =
  ftype :: filetype
  fref :: int
  readable :: bool
  writable :: bool
  fpipe :: uint64
  fip :: nat
  foff :: uint
  fmajor :: ushort

record pipe =
  pdata :: "nat \<Rightarrow> byte"
  nread :: uint
  nwrite :: uint
  readopen :: bool
  writeopen :: bool

record filest = fsst +
  ftable :: "nat \<Rightarrow> file_struct"
  pipes :: "uint64 \<Rightarrow> pipe"

definition get_file :: "nat \<Rightarrow> ('z filest_scheme, file_struct) kmon" where
  "get_file f = gets (\<lambda>s. ftable s f)"

definition upd_file :: "nat \<Rightarrow> (file_struct \<Rightarrow> file_struct) \<Rightarrow> ('z filest_scheme, unit) kmon" where
  "upd_file f g = modify (\<lambda>s. s\<lparr>ftable := (ftable s)(f := g (ftable s f))\<rparr>)"

definition get_pipe :: "uint64 \<Rightarrow> ('z filest_scheme, pipe) kmon" where
  "get_pipe a = gets (\<lambda>s. pipes s a)"

definition upd_pipe :: "uint64 \<Rightarrow> (pipe \<Rightarrow> pipe) \<Rightarrow> ('z filest_scheme, unit) kmon" where
  "upd_pipe a g = modify (\<lambda>s. s\<lparr>pipes := (pipes s)(a := g (pipes s a))\<rparr>)"

section \<open>pipe.c\<close>

definition pipe_full :: "pipe \<Rightarrow> bool" where
  "pipe_full x \<longleftrightarrow> nwrite x = nread x + of_nat PIPESIZE"

definition pipe_empty :: "pipe \<Rightarrow> bool" where
  "pipe_empty x \<longleftrightarrow> nread x = nwrite x"

text \<open>\<open>pi->data[pi->nwrite++ % PIPESIZE] = ch\<close> and \<open>ch = pi->data[pi->nread++ % PIPESIZE]\<close>.\<close>

definition pipe_put :: "byte \<Rightarrow> pipe \<Rightarrow> pipe" where
  "pipe_put ch x = x\<lparr>pdata := (pdata x)(unat (nwrite x) mod PIPESIZE := ch), nwrite := nwrite x + 1\<rparr>"

definition pipe_head :: "pipe \<Rightarrow> byte" where
  "pipe_head x = pdata x (unat (nread x) mod PIPESIZE)"

definition pipe_drop :: "pipe \<Rightarrow> pipe" where
  "pipe_drop x = x\<lparr>nread := nread x + 1\<rparr>"

definition pipeclose :: "uint64 \<Rightarrow> bool \<Rightarrow> ('z filest_scheme, unit) kmon" where
  "pipeclose a w =
     seq (acquire (PipeLock a)) (
     seq (if w then
            seq (upd_pipe a (\<lambda>x. x\<lparr>writeopen := False\<rparr>))
                (wakeup (Some (ChanPipeRead a)))
          else
            seq (upd_pipe a (\<lambda>x. x\<lparr>readopen := False\<rparr>))
                (wakeup (Some (ChanPipeWrite a)))) (
     bind (get_pipe a) (\<lambda>x.
     if \<not> readopen x \<and> \<not> writeopen x then
       seq (release (PipeLock a))
           (kfree a)
     else release (PipeLock a))))"

text \<open>
  The loop of \<open>pipewrite\<close>: \<open>i\<close> bytes are written, \<open>k\<close> are left; \<open>r\<close> bounds the number of times it
  sleeps.  \<open>None\<close> stands for the early \<open>return -1\<close>.
\<close>

fun pipewrite_loop ::
  "nat \<Rightarrow> uint64 \<Rightarrow> uint64 \<Rightarrow> nat \<Rightarrow> nat \<Rightarrow> nat \<Rightarrow> ('z filest_scheme, nat option) kmon" where
  "pipewrite_loop r a addr pr i 0 = return (Some i)"
| "pipewrite_loop r a addr pr i (Suc k) =
     bind (get_pipe a) (\<lambda>x.
     bind (if \<not> readopen x then return 1 else killed pr) (\<lambda>dead.
     if dead \<noteq> 0 then
       seq (release (PipeLock a))
           (return None)
     else if pipe_full x then
       (case r of
          0 \<Rightarrow> hang
        | Suc r' \<Rightarrow>
            seq (wakeup (Some (ChanPipeRead a))) (
            seq (sleep (ChanPipeWrite a) (PipeLock a))
                (pipewrite_loop r' a addr pr i (Suc k))))
     else
       bind (get_proc pr) (\<lambda>q.
       bind (copyin (pagetable q) (addr + of_nat i) 1) (\<lambda>(c, bs).
       if c = -1 then return (Some i)
       else
         seq (upd_pipe a (pipe_put (hd bs)))
             (pipewrite_loop r a addr pr (Suc i) k)))))"

definition pipewrite :: "uint64 \<Rightarrow> uint64 \<Rightarrow> int \<Rightarrow> ('z filest_scheme, int) kmon" where
  "pipewrite a addr n =
     bind curproc (\<lambda>pr.
     seq (acquire (PipeLock a)) (
     bind (pipewrite_loop ROUNDS a addr pr 0 (nat n)) (\<lambda>r. case r of
       None \<Rightarrow> return (-1)
     | Some i \<Rightarrow>
         seq (wakeup (Some (ChanPipeRead a))) (
         seq (release (PipeLock a))
             (return (int i))))))"

primrec piperead_loop :: "nat \<Rightarrow> uint64 \<Rightarrow> uint64 \<Rightarrow> nat \<Rightarrow> nat \<Rightarrow> ('z filest_scheme, nat) kmon" where
  "piperead_loop 0 a addr pr i = return i"
| "piperead_loop (Suc k) a addr pr i =
     bind (get_pipe a) (\<lambda>x.
     if pipe_empty x then return i
     else
     seq (upd_pipe a pipe_drop) (
     bind (get_proc pr) (\<lambda>q.
     bind (copyout (pagetable q) (addr + of_nat i) [pipe_head x]) (\<lambda>c.
     if c = -1 then return i
     else piperead_loop k a addr pr (Suc i)))))"

definition piperead :: "uint64 \<Rightarrow> uint64 \<Rightarrow> int \<Rightarrow> ('z filest_scheme, int) kmon" where
  "piperead a addr n =
     bind curproc (\<lambda>pr.
     seq (acquire (PipeLock a)) (
     bind (await ROUNDS (gets (\<lambda>s. pipe_empty (pipes s a) \<and> writeopen (pipes s a))) (ChanPipeRead a) (PipeLock a)) (\<lambda>ok.
     if \<not> ok then
       seq (release (PipeLock a))
           (return (-1))
     else
     bind (piperead_loop (nat n) a addr pr 0) (\<lambda>i.
     seq (wakeup (Some (ChanPipeWrite a))) (
     seq (release (PipeLock a))
         (return (int i)))))))"

section \<open>file.c\<close>

definition fileinit :: "('z filest_scheme, unit) kmon" where
  "fileinit = initlock FtableLock ''ftable''"

definition filealloc :: "('z filest_scheme, nat option) kmon" where
  "filealloc =
     seq (acquire FtableLock) (
     bind (for_find [0..<NFILE] (\<lambda>f.
       bind (get_file f) (\<lambda>x.
       if fref x = 0 then
         seq (upd_file f (\<lambda>x. x\<lparr>fref := 1\<rparr>)) (
         seq (release FtableLock)
             (return (Some f)))
       else return None))) (\<lambda>r. case r of
       Some f \<Rightarrow> return (Some f)
     | None \<Rightarrow> seq (release FtableLock) (return None)))"

definition filedup :: "nat \<Rightarrow> ('z filest_scheme, nat) kmon" where
  "filedup f =
     seq (acquire FtableLock) (
     bind (get_file f) (\<lambda>x.
     if fref x < 1 then panic ''filedup''
     else
     seq (upd_file f (\<lambda>x. x\<lparr>fref := fref x + 1\<rparr>)) (
     seq (release FtableLock)
         (return f))))"

definition fileclose :: "nat \<Rightarrow> ('z filest_scheme, unit) kmon" where
  "fileclose f =
     seq (acquire FtableLock) (
     bind (get_file f) (\<lambda>x.
     if fref x < 1 then panic ''fileclose''
     else
     seq (upd_file f (\<lambda>x. x\<lparr>fref := fref x - 1\<rparr>)) (
     bind (get_file f) (\<lambda>ff.
     if fref ff > 0 then release FtableLock
     else
     seq (upd_file f (\<lambda>x. x\<lparr>fref := 0, ftype := FD_NONE\<rparr>)) (
     seq (release FtableLock) (
     case ftype ff of
       FD_PIPE \<Rightarrow> pipeclose (fpipe ff) (writable ff)
     | FD_NONE \<Rightarrow> skip
     | _ \<Rightarrow>
         seq begin_op (
         seq (iput (fip ff))
             end_op)))))))"

text \<open>\<open>struct stat\<close> as the C compiler lays it out: 24 bytes, two of them padding.\<close>

definition stat_bytes :: "stat \<Rightarrow> byte list" where
  "stat_bytes st = le_bytes 4 (st_dev st) @ le_bytes 4 (st_ino st) @ le_bytes 2 (st_type st) @
     le_bytes 2 (st_nlink st) @ replicate 4 0 @ le_bytes 8 (st_size st)"

definition filestat :: "nat \<Rightarrow> uint64 \<Rightarrow> ('z filest_scheme, int) kmon" where
  "filestat f addr =
     bind curproc (\<lambda>p.
     bind (get_file f) (\<lambda>x.
     if ftype x = FD_INODE \<or> ftype x = FD_DEVICE then
       seq (ilock (fip x)) (
       bind (stati (fip x)) (\<lambda>st.
       seq (iunlock (fip x)) (
       bind (get_proc p) (\<lambda>q.
       bind (copyout (pagetable q) addr (stat_bytes st)) (\<lambda>r.
       if r < 0 then return (-1) else return 0)))))
     else return (-1)))"

text \<open>The call through \<open>devsw[major].read\<close> or \<open>.write\<close>; a null entry is \<open>None\<close>.\<close>

primrec dev_read :: "driver \<Rightarrow> xaddr \<Rightarrow> int \<Rightarrow> ('z consst_scheme, int) kmon" where
  "dev_read ConsoleDriver dst n = consoleread dst n"

primrec dev_write :: "driver \<Rightarrow> xaddr \<Rightarrow> int \<Rightarrow> ('z consst_scheme, int) kmon" where
  "dev_write ConsoleDriver src n = consolewrite src n"

definition dev_ok :: "ushort \<Rightarrow> bool" where
  "dev_ok m \<longleftrightarrow> 0 \<le> sint m \<and> sint m < int NDEV"

definition fileread :: "nat \<Rightarrow> uint64 \<Rightarrow> int \<Rightarrow> ('z filest_scheme, int) kmon" where
  "fileread f addr n =
     bind (get_file f) (\<lambda>x.
     if \<not> readable x then return (-1)
     else case ftype x of
       FD_PIPE \<Rightarrow> piperead (fpipe x) addr n
     | FD_DEVICE \<Rightarrow>
         if \<not> dev_ok (fmajor x) then return (-1)
         else bind (gets (\<lambda>s. devsw_read s (unat (fmajor x)))) (\<lambda>d. case d of
           None \<Rightarrow> return (-1)
         | Some drv \<Rightarrow> dev_read drv (UserAddr addr) n)
     | FD_INODE \<Rightarrow>
         seq (ilock (fip x)) (
         bind (readi (fip x) (UserAddr addr) (foff x) (word_of_int n)) (\<lambda>(r, _).
         seq (kwhen (r > 0) (upd_file f (\<lambda>x. x\<lparr>foff := foff x + word_of_int r\<rparr>))) (
         seq (iunlock (fip x))
             (return r))))
     | FD_NONE \<Rightarrow> panic ''fileread'')"

text \<open>The most bytes one transaction of \<open>filewrite\<close> writes.\<close>

definition write_max :: nat where
  "write_max = (MAXOPBLOCKS - 1 - 1 - 2) div 2 * BSIZE"

text \<open>The loop over an inode file: \<open>i\<close> bytes written, \<open>k = n - i\<close> left; the result is the final \<open>i\<close>.\<close>

function filewrite_loop :: "nat \<Rightarrow> uint64 \<Rightarrow> nat \<Rightarrow> nat \<Rightarrow> ('z filest_scheme, nat) kmon" where
  "filewrite_loop f addr i k =
     (if k = 0 then return i
      else
      let n1 = min k write_max in
      seq begin_op (
      bind (get_file f) (\<lambda>x.
      seq (ilock (fip x)) (
      bind (get_file f) (\<lambda>x.
      bind (writei (fip x) (UserAddr (addr + of_nat i)) (foff x) (of_nat n1)) (\<lambda>r.
      seq (kwhen (r > 0) (upd_file f (\<lambda>x. x\<lparr>foff := foff x + word_of_int r\<rparr>))) (
      seq (iunlock (fip x)) (
      seq end_op (
      if r \<noteq> int n1 then return i
      else filewrite_loop f addr (i + n1) (k - n1))))))))))"
  by pat_completeness auto
termination
  by (relation "measure (\<lambda>(_, _, _, k). k)") (auto simp: write_max_def BSIZE_def MAXOPBLOCKS_def)

declare filewrite_loop.simps [simp del]

definition filewrite :: "nat \<Rightarrow> uint64 \<Rightarrow> int \<Rightarrow> ('z filest_scheme, int) kmon" where
  "filewrite f addr n =
     bind (get_file f) (\<lambda>x.
     if \<not> writable x then return (-1)
     else case ftype x of
       FD_PIPE \<Rightarrow> pipewrite (fpipe x) addr n
     | FD_DEVICE \<Rightarrow>
         if \<not> dev_ok (fmajor x) then return (-1)
         else bind (gets (\<lambda>s. devsw_write s (unat (fmajor x)))) (\<lambda>d. case d of
           None \<Rightarrow> return (-1)
         | Some drv \<Rightarrow> dev_write drv (UserAddr addr) n)
     | FD_INODE \<Rightarrow>
         bind (filewrite_loop f addr 0 (nat n)) (\<lambda>i.
         return (if int i = n then n else -1))
     | FD_NONE \<Rightarrow> panic ''filewrite'')"

section \<open>pipealloc\<close>

text \<open>The \<open>bad\<close> label.\<close>

definition pipealloc_bad :: "uint64 \<Rightarrow> nat option \<Rightarrow> nat option \<Rightarrow> ('z filest_scheme, (nat \<times> nat) option) kmon" where
  "pipealloc_bad a f0 f1 =
     seq (kwhen (a \<noteq> 0) (kfree a)) (
     seq (case f0 of None \<Rightarrow> skip | Some f \<Rightarrow> fileclose f) (
     seq (case f1 of None \<Rightarrow> skip | Some f \<Rightarrow> fileclose f)
         (return None)))"

definition pipealloc :: "('z filest_scheme, (nat \<times> nat) option) kmon" where
  "pipealloc =
     bind filealloc (\<lambda>r0. case r0 of
       None \<Rightarrow> pipealloc_bad 0 None None
     | Some f0 \<Rightarrow>
         bind filealloc (\<lambda>r1. case r1 of
           None \<Rightarrow> pipealloc_bad 0 (Some f0) None
         | Some f1 \<Rightarrow>
             bind kalloc (\<lambda>a.
             if a = 0 then pipealloc_bad 0 (Some f0) (Some f1)
             else
             seq (upd_pipe a (\<lambda>x. x\<lparr>readopen := True, writeopen := True, nwrite := 0, nread := 0\<rparr>)) (
             seq (initlock (PipeLock a) ''pipe'') (
             seq (upd_file f0 (\<lambda>x. x\<lparr>ftype := FD_PIPE, readable := True, writable := False, fpipe := a\<rparr>)) (
             seq (upd_file f1 (\<lambda>x. x\<lparr>ftype := FD_PIPE, readable := False, writable := True, fpipe := a\<rparr>))
                 (return (Some (f0, f1)))))))))"

end
