(* ===== verification/Xv6_Virtio.thy ===== *)
theory Xv6_Virtio
  imports Xv6_File
begin

unbundle bit_operations_syntax

text \<open>
  \<open>kernel/virtio_disk.c\<close> and \<open>kernel/virtio.h\<close>: the driver of the disk.  The descriptor table and
  the two rings live in pages from \<open>kalloc\<close>; their contents are fields of the state.  An address
  in a descriptor is the object it points to (\<open>dma\<close>).  The memory-mapped registers are a register
  file.  \<open>virtio_device\<close> is one step of the device as the virtio specification describes it: take
  the next chain from the available ring, carry out the request, write the status, and put the
  chain into the used ring.  \<open>b->disk\<close> of buffer \<open>b\<close> is \<open>buf_disk s b\<close>.
\<close>

section \<open>State\<close>

definition NUM :: nat where "NUM = 8"

datatype dma = DmaNull | DmaReq nat | DmaBuf nat | DmaStatus nat

record virtq_desc =
  d_addr :: dma
  d_len :: uint
  d_flags :: ushort
  d_next :: ushort

record virtio_blk_req =
  req_type :: uint
  req_sector :: uint64

record virtst = filest +
  vregs :: "nat \<Rightarrow> uint"
  features_ok :: bool
  v_desc :: uint64
  v_avail :: uint64
  v_used :: uint64
  vdesc :: "nat \<Rightarrow> virtq_desc"
  avail_idx :: ushort
  avail_ring :: "nat \<Rightarrow> nat"
  used_idx_dev :: ushort
  used_ring :: "nat \<Rightarrow> nat"
  dev_seen :: ushort
  vfree :: "nat \<Rightarrow> bool"
  used_idx :: ushort
  info_b :: "nat \<Rightarrow> nat option"
  info_status :: "nat \<Rightarrow> byte"
  vops :: "nat \<Rightarrow> virtio_blk_req"
  buf_disk :: "nat \<Rightarrow> bool"

definition VIRTIO_MMIO_MAGIC_VALUE :: nat where "VIRTIO_MMIO_MAGIC_VALUE = 0"
definition VIRTIO_MMIO_VERSION :: nat where "VIRTIO_MMIO_VERSION = 4"
definition VIRTIO_MMIO_DEVICE_ID :: nat where "VIRTIO_MMIO_DEVICE_ID = 8"
definition VIRTIO_MMIO_VENDOR_ID :: nat where "VIRTIO_MMIO_VENDOR_ID = 12"
definition VIRTIO_MMIO_DEVICE_FEATURES :: nat where "VIRTIO_MMIO_DEVICE_FEATURES = 0x010"
definition VIRTIO_MMIO_DRIVER_FEATURES :: nat where "VIRTIO_MMIO_DRIVER_FEATURES = 0x020"
definition VIRTIO_MMIO_QUEUE_SEL :: nat where "VIRTIO_MMIO_QUEUE_SEL = 0x030"
definition VIRTIO_MMIO_QUEUE_NUM_MAX :: nat where "VIRTIO_MMIO_QUEUE_NUM_MAX = 0x034"
definition VIRTIO_MMIO_QUEUE_NUM :: nat where "VIRTIO_MMIO_QUEUE_NUM = 0x038"
definition VIRTIO_MMIO_QUEUE_READY :: nat where "VIRTIO_MMIO_QUEUE_READY = 0x044"
definition VIRTIO_MMIO_QUEUE_NOTIFY :: nat where "VIRTIO_MMIO_QUEUE_NOTIFY = 0x050"
definition VIRTIO_MMIO_INTERRUPT_STATUS :: nat where "VIRTIO_MMIO_INTERRUPT_STATUS = 0x060"
definition VIRTIO_MMIO_INTERRUPT_ACK :: nat where "VIRTIO_MMIO_INTERRUPT_ACK = 0x064"
definition VIRTIO_MMIO_STATUS :: nat where "VIRTIO_MMIO_STATUS = 0x070"
definition VIRTIO_MMIO_QUEUE_DESC_LOW :: nat where "VIRTIO_MMIO_QUEUE_DESC_LOW = 0x080"
definition VIRTIO_MMIO_QUEUE_DESC_HIGH :: nat where "VIRTIO_MMIO_QUEUE_DESC_HIGH = 0x084"
definition VIRTIO_MMIO_DRIVER_DESC_LOW :: nat where "VIRTIO_MMIO_DRIVER_DESC_LOW = 0x090"
definition VIRTIO_MMIO_DRIVER_DESC_HIGH :: nat where "VIRTIO_MMIO_DRIVER_DESC_HIGH = 0x094"
definition VIRTIO_MMIO_DEVICE_DESC_LOW :: nat where "VIRTIO_MMIO_DEVICE_DESC_LOW = 0x0a0"
definition VIRTIO_MMIO_DEVICE_DESC_HIGH :: nat where "VIRTIO_MMIO_DEVICE_DESC_HIGH = 0x0a4"
definition VIRTIO_CONFIG_S_ACKNOWLEDGE :: uint where "VIRTIO_CONFIG_S_ACKNOWLEDGE = 1"
definition VIRTIO_CONFIG_S_DRIVER :: uint where "VIRTIO_CONFIG_S_DRIVER = 2"
definition VIRTIO_CONFIG_S_DRIVER_OK :: uint where "VIRTIO_CONFIG_S_DRIVER_OK = 4"
definition VIRTIO_CONFIG_S_FEATURES_OK :: uint where "VIRTIO_CONFIG_S_FEATURES_OK = 8"
definition VIRTIO_BLK_F_RO :: nat where "VIRTIO_BLK_F_RO = 5"
definition VIRTIO_BLK_F_SCSI :: nat where "VIRTIO_BLK_F_SCSI = 7"
definition VIRTIO_BLK_F_CONFIG_WCE :: nat where "VIRTIO_BLK_F_CONFIG_WCE = 11"
definition VIRTIO_BLK_F_MQ :: nat where "VIRTIO_BLK_F_MQ = 12"
definition VIRTIO_F_ANY_LAYOUT :: nat where "VIRTIO_F_ANY_LAYOUT = 27"
definition VIRTIO_RING_F_INDIRECT_DESC :: nat where "VIRTIO_RING_F_INDIRECT_DESC = 28"
definition VIRTIO_RING_F_EVENT_IDX :: nat where "VIRTIO_RING_F_EVENT_IDX = 29"
definition VRING_DESC_F_NEXT :: ushort where "VRING_DESC_F_NEXT = 1"
definition VRING_DESC_F_WRITE :: ushort where "VRING_DESC_F_WRITE = 2"
definition VIRTIO_BLK_T_IN :: uint where "VIRTIO_BLK_T_IN = 0"
definition VIRTIO_BLK_T_OUT :: uint where "VIRTIO_BLK_T_OUT = 1"

section \<open>Registers\<close>

text \<open>The device clears \<open>FEATURES_OK\<close> in the status it reports when it does not accept the features.\<close>

definition vread :: "nat \<Rightarrow> ('z virtst_scheme, uint) kmon" where
  "vread r = gets (\<lambda>s. if r = VIRTIO_MMIO_STATUS \<and> \<not> features_ok s
     then vregs s r AND NOT VIRTIO_CONFIG_S_FEATURES_OK else vregs s r)"

definition vwrite :: "nat \<Rightarrow> uint \<Rightarrow> ('z virtst_scheme, unit) kmon" where
  "vwrite r v = modify (\<lambda>s. s\<lparr>vregs := (vregs s)(r := v)\<rparr>)"

section \<open>Initialisation\<close>

definition drop_feature :: "nat \<Rightarrow> uint64 \<Rightarrow> uint64" where
  "drop_feature n f = f AND NOT (push_bit n 1)"

definition driver_features :: "uint \<Rightarrow> uint" where
  "driver_features f = ucast (
     drop_feature VIRTIO_RING_F_INDIRECT_DESC (
     drop_feature VIRTIO_RING_F_EVENT_IDX (
     drop_feature VIRTIO_F_ANY_LAYOUT (
     drop_feature VIRTIO_BLK_F_MQ (
     drop_feature VIRTIO_BLK_F_CONFIG_WCE (
     drop_feature VIRTIO_BLK_F_SCSI (
     drop_feature VIRTIO_BLK_F_RO (ucast f :: uint64))))))))"

text \<open>The checks and the negotiation up to the size of the queue; the result is \<open>status\<close>.\<close>

definition virtio_negotiate :: "('z virtst_scheme, uint) kmon" where
  "virtio_negotiate =
     bind (vread VIRTIO_MMIO_MAGIC_VALUE) (\<lambda>m.
     bind (vread VIRTIO_MMIO_VERSION) (\<lambda>v.
     bind (vread VIRTIO_MMIO_DEVICE_ID) (\<lambda>d.
     bind (vread VIRTIO_MMIO_VENDOR_ID) (\<lambda>vendor.
     if m \<noteq> 0x74726976 \<or> v \<noteq> 2 \<or> d \<noteq> 2 \<or> vendor \<noteq> 0x554d4551 then panic ''could not find virtio disk''
     else
     seq (vwrite VIRTIO_MMIO_STATUS 0) (
     let status = 0 OR VIRTIO_CONFIG_S_ACKNOWLEDGE in
     seq (vwrite VIRTIO_MMIO_STATUS status) (
     let status = status OR VIRTIO_CONFIG_S_DRIVER in
     seq (vwrite VIRTIO_MMIO_STATUS status) (
     bind (vread VIRTIO_MMIO_DEVICE_FEATURES) (\<lambda>f.
     seq (vwrite VIRTIO_MMIO_DRIVER_FEATURES (driver_features f)) (
     let status = status OR VIRTIO_CONFIG_S_FEATURES_OK in
     seq (vwrite VIRTIO_MMIO_STATUS status) (
     bind (vread VIRTIO_MMIO_STATUS) (\<lambda>status.
     if status AND VIRTIO_CONFIG_S_FEATURES_OK = 0 then panic ''virtio disk FEATURES_OK unset''
     else
     seq (vwrite VIRTIO_MMIO_QUEUE_SEL 0) (
     bind (vread VIRTIO_MMIO_QUEUE_READY) (\<lambda>rdy.
     if rdy \<noteq> 0 then panic ''virtio disk should not be ready''
     else
     bind (vread VIRTIO_MMIO_QUEUE_NUM_MAX) (\<lambda>mx.
     if mx = 0 then panic ''virtio disk has no queue 0''
     else if mx < of_nat NUM then panic ''virtio disk max queue too short''
     else return status))))))))))))))"

definition no_desc :: virtq_desc where
  "no_desc = \<lparr>d_addr = DmaNull, d_len = 0, d_flags = 0, d_next = 0\<rparr>"

definition virtio_disk_init :: "('z virtst_scheme, unit) kmon" where
  "virtio_disk_init =
     seq (initlock VdiskLock ''virtio_disk'') (
     bind virtio_negotiate (\<lambda>status.
     bind kalloc (\<lambda>de.
     bind kalloc (\<lambda>av.
     bind kalloc (\<lambda>us.
     seq (modify (\<lambda>s. s\<lparr>v_desc := de, v_avail := av, v_used := us\<rparr>)) (
     if de = 0 \<or> av = 0 \<or> us = 0 then panic ''virtio disk kalloc''
     else
     seq (upd_phys (memset de 0 PGSIZE)) (
     seq (upd_phys (memset av 0 PGSIZE)) (
     seq (upd_phys (memset us 0 PGSIZE)) (
     seq (modify (\<lambda>s. s\<lparr>vdesc := (\<lambda>_. no_desc), avail_idx := 0, avail_ring := (\<lambda>_. 0),
                        used_idx_dev := 0, used_ring := (\<lambda>_. 0)\<rparr>)) (
     seq (vwrite VIRTIO_MMIO_QUEUE_NUM (of_nat NUM)) (
     seq (vwrite VIRTIO_MMIO_QUEUE_DESC_LOW (ucast de)) (
     seq (vwrite VIRTIO_MMIO_QUEUE_DESC_HIGH (ucast (drop_bit 32 de))) (
     seq (vwrite VIRTIO_MMIO_DRIVER_DESC_LOW (ucast av)) (
     seq (vwrite VIRTIO_MMIO_DRIVER_DESC_HIGH (ucast (drop_bit 32 av))) (
     seq (vwrite VIRTIO_MMIO_DEVICE_DESC_LOW (ucast us)) (
     seq (vwrite VIRTIO_MMIO_DEVICE_DESC_HIGH (ucast (drop_bit 32 us))) (
     seq (vwrite VIRTIO_MMIO_QUEUE_READY 1) (
     seq (for_each [0..<NUM] (\<lambda>i. modify (\<lambda>s. s\<lparr>vfree := (vfree s)(i := True)\<rparr>)))
         (vwrite VIRTIO_MMIO_STATUS (status OR VIRTIO_CONFIG_S_DRIVER_OK))))))))))))))))))))"

section \<open>Descriptors\<close>

definition upd_desc :: "nat \<Rightarrow> (virtq_desc \<Rightarrow> virtq_desc) \<Rightarrow> ('z virtst_scheme, unit) kmon" where
  "upd_desc i f = modify (\<lambda>s. s\<lparr>vdesc := (vdesc s)(i := f (vdesc s i))\<rparr>)"

definition alloc_desc :: "('z virtst_scheme, nat option) kmon" where
  "alloc_desc =
     for_find [0..<NUM] (\<lambda>i.
       bind (gets (\<lambda>s. vfree s i)) (\<lambda>f.
       if f then seq (modify (\<lambda>s. s\<lparr>vfree := (vfree s)(i := False)\<rparr>)) (return (Some i))
       else return None))"

definition free_desc :: "nat \<Rightarrow> ('z virtst_scheme, unit) kmon" where
  "free_desc i =
     (if i \<ge> NUM then panic ''free_desc 1''
      else bind (gets (\<lambda>s. vfree s i)) (\<lambda>f.
      if f then panic ''free_desc 2''
      else
      seq (upd_desc i (\<lambda>_. no_desc)) (
      seq (modify (\<lambda>s. s\<lparr>vfree := (vfree s)(i := True)\<rparr>))
          (wakeup (Some ChanDiskFree)))))"

text \<open>A chain has at most \<open>NUM\<close> descriptors: a longer walk meets one that is free and panics.\<close>

primrec free_chain_loop :: "nat \<Rightarrow> nat \<Rightarrow> ('z virtst_scheme, unit) kmon" where
  "free_chain_loop 0 i = hang"
| "free_chain_loop (Suc n) i =
     bind (gets (\<lambda>s. vdesc s i)) (\<lambda>d.
     seq (free_desc i) (
     if d_flags d AND VRING_DESC_F_NEXT \<noteq> 0 then free_chain_loop n (unat (d_next d))
     else skip))"

definition free_chain :: "nat \<Rightarrow> ('z virtst_scheme, unit) kmon" where
  "free_chain i = free_chain_loop (Suc NUM) i"

primrec alloc_descs :: "nat \<Rightarrow> nat list \<Rightarrow> ('z virtst_scheme, nat list option) kmon" where
  "alloc_descs 0 idx = return (Some idx)"
| "alloc_descs (Suc n) idx =
     bind alloc_desc (\<lambda>r. case r of
       Some i \<Rightarrow> alloc_descs n (idx @ [i])
     | None \<Rightarrow> seq (for_each idx free_desc) (return None))"

definition alloc3_desc :: "('z virtst_scheme, nat list option) kmon" where
  "alloc3_desc = alloc_descs 3 []"

section \<open>Requests\<close>

primrec wait_descs :: "nat \<Rightarrow> ('z virtst_scheme, nat list) kmon" where
  "wait_descs 0 = hang"
| "wait_descs (Suc n) =
     bind alloc3_desc (\<lambda>r. case r of
       Some idx \<Rightarrow> return idx
     | None \<Rightarrow> seq (sleep ChanDiskFree VdiskLock) (wait_descs n))"

text \<open>Filling in the request and its three descriptors, and giving the chain to the device.\<close>

definition virtio_submit :: "nat \<Rightarrow> bool \<Rightarrow> uint64 \<Rightarrow> nat list \<Rightarrow> ('z virtst_scheme, unit) kmon" where
  "virtio_submit b write sector idx =
     (let i0 = idx ! 0; i1 = idx ! 1; i2 = idx ! 2 in
     seq (modify (\<lambda>s. s\<lparr>vops := (vops s)(i0 := \<lparr>req_type = (if write then VIRTIO_BLK_T_OUT else VIRTIO_BLK_T_IN), req_sector = sector\<rparr>)\<rparr>)) (
     seq (upd_desc i0 (\<lambda>d. d\<lparr>d_addr := DmaReq i0, d_len := 16, d_flags := VRING_DESC_F_NEXT, d_next := of_nat i1\<rparr>)) (
     seq (upd_desc i1 (\<lambda>d. d\<lparr>d_addr := DmaBuf b, d_len := of_nat BSIZE,
       d_flags := (if write then 0 else VRING_DESC_F_WRITE) OR VRING_DESC_F_NEXT, d_next := of_nat i2\<rparr>)) (
     seq (modify (\<lambda>s. s\<lparr>info_status := (info_status s)(i0 := 0xff)\<rparr>)) (
     seq (upd_desc i2 (\<lambda>d. d\<lparr>d_addr := DmaStatus i0, d_len := 1, d_flags := VRING_DESC_F_WRITE, d_next := 0\<rparr>)) (
     seq (modify (\<lambda>s. s\<lparr>buf_disk := (buf_disk s)(b := True)\<rparr>)) (
     seq (modify (\<lambda>s. s\<lparr>info_b := (info_b s)(i0 := Some b)\<rparr>)) (
     seq (modify (\<lambda>s. s\<lparr>avail_ring := (avail_ring s)(unat (avail_idx s) mod NUM := i0)\<rparr>)) (
     seq (modify (\<lambda>s. s\<lparr>avail_idx := avail_idx s + 1\<rparr>))
         (vwrite VIRTIO_MMIO_QUEUE_NOTIFY 0))))))))))"

definition virtio_disk_rw :: "nat \<Rightarrow> bool \<Rightarrow> ('z virtst_scheme, unit) kmon" where
  "virtio_disk_rw b write =
     bind (get_buf b) (\<lambda>x.
     let sector = ucast (blockno x * of_nat (BSIZE div 512)) in
     seq (acquire VdiskLock) (
     bind (wait_descs ROUNDS) (\<lambda>idx.
     seq (virtio_submit b write sector idx) (
     seq (while_rounds ROUNDS (gets (\<lambda>s. buf_disk s b)) (sleep (ChanDiskBuf b) VdiskLock)) (
     seq (modify (\<lambda>s. s\<lparr>info_b := (info_b s)(idx ! 0 := None)\<rparr>)) (
     seq (free_chain (idx ! 0))
         (release VdiskLock)))))))"

primrec virtio_intr_loop :: "nat \<Rightarrow> ('z virtst_scheme, unit) kmon" where
  "virtio_intr_loop 0 = skip"
| "virtio_intr_loop (Suc n) =
     bind (gets (\<lambda>s. used_idx s \<noteq> used_idx_dev s)) (\<lambda>more.
     if \<not> more then skip
     else
     bind (gets (\<lambda>s. used_ring s (unat (used_idx s) mod NUM))) (\<lambda>i.
     bind (gets (\<lambda>s. info_status s i)) (\<lambda>st.
     if st \<noteq> 0 then panic ''virtio_disk_intr status''
     else
     bind (gets (\<lambda>s. info_b s i)) (\<lambda>r. case r of
       None \<Rightarrow> panic ''kerneltrap''
     | Some b \<Rightarrow>
         seq (modify (\<lambda>s. s\<lparr>buf_disk := (buf_disk s)(b := False)\<rparr>)) (
         seq (wakeup (Some (ChanDiskBuf b))) (
         seq (modify (\<lambda>s. s\<lparr>used_idx := used_idx s + 1\<rparr>))
             (virtio_intr_loop n)))))))"

definition virtio_disk_intr :: "('z virtst_scheme, unit) kmon" where
  "virtio_disk_intr =
     seq (acquire VdiskLock) (
     bind (vread VIRTIO_MMIO_INTERRUPT_STATUS) (\<lambda>v.
     seq (vwrite VIRTIO_MMIO_INTERRUPT_ACK (v AND 3)) (
     bind (gets (\<lambda>s. unat (used_idx_dev s - used_idx s))) (\<lambda>n.
     seq (virtio_intr_loop n)
         (release VdiskLock)))))"

section \<open>The device\<close>

definition virtio_device :: "('z virtst_scheme, unit) kmon" where
  "virtio_device =
     bind (gets (\<lambda>s. dev_seen s \<noteq> avail_idx s)) (\<lambda>more.
     kwhen more (
       bind (gets (\<lambda>s. avail_ring s (unat (dev_seen s) mod NUM))) (\<lambda>h.
       bind (gets (\<lambda>s. (vdesc s h, vdesc s (unat (d_next (vdesc s h)))))) (\<lambda>(d0, d1).
       bind (gets (\<lambda>s. vdesc s (unat (d_next d1)))) (\<lambda>d2.
       case (d_addr d0, d_addr d1, d_addr d2) of
         (DmaReq r, DmaBuf b, DmaStatus t) \<Rightarrow>
           bind (gets (\<lambda>s. vops s r)) (\<lambda>req.
           let a = ucast (req_sector req div of_nat (BSIZE div 512)) in
           seq (if req_type req = VIRTIO_BLK_T_OUT then
                  bind (get_buf b) (\<lambda>x.
                  modify (\<lambda>s. s\<lparr>disk := (disk s)(a := bdata x), dwrites := dwrites s @ [(a, bdata x)]\<rparr>))
                else
                  bind (gets (\<lambda>s. disk s a)) (\<lambda>d. upd_buf b (\<lambda>x. x\<lparr>bdata := d\<rparr>))) (
           modify (\<lambda>s. s\<lparr>info_status := (info_status s)(t := 0),
             used_ring := (used_ring s)(unat (used_idx_dev s) mod NUM := h),
             used_idx_dev := used_idx_dev s + 1, dev_seen := dev_seen s + 1\<rparr>)))
       | _ \<Rightarrow> hang)))))"

end
