(* ===== verification/Xv6_Exec.thy ===== *)
theory Xv6_Exec
  imports Xv6_Virtio
begin

unbundle bit_operations_syntax

text \<open>
  The life of a process: \<open>fork\<close>, \<open>exit\<close> and \<open>userinit\<close> of \<open>kernel/proc.c\<close>, \<open>kernel/exec.c\<close> with
  \<open>kernel/elf.h\<close>, and the argument fetching half of \<open>kernel/syscall.c\<close>.  The trap frame of a process
  is the page its \<open>trapframe\<close> field points to; its fields are 64-bit words at their C offsets.
  Strings fetched from user space are byte lists without the NUL.
\<close>

section \<open>Trap frames\<close>

definition TF_KERNEL_SATP :: uint64 where "TF_KERNEL_SATP = 0"
definition TF_KERNEL_SP :: uint64 where "TF_KERNEL_SP = 8"
definition TF_KERNEL_TRAP :: uint64 where "TF_KERNEL_TRAP = 16"
definition TF_EPC :: uint64 where "TF_EPC = 24"
definition TF_KERNEL_HARTID :: uint64 where "TF_KERNEL_HARTID = 32"
definition TF_SP :: uint64 where "TF_SP = 48"
definition TF_A0 :: uint64 where "TF_A0 = 112"
definition TF_A7 :: uint64 where "TF_A7 = 168"
definition TF_SIZE :: nat where "TF_SIZE = 288"

text \<open>Register \<open>a\<close>\<open>n\<close> of the saved user registers.\<close>

definition TF_A :: "nat \<Rightarrow> uint64" where
  "TF_A n = TF_A0 + 8 * of_nat n"

definition get_tf :: "nat \<Rightarrow> uint64 \<Rightarrow> ('z ptable_scheme, uint64) kmon" where
  "get_tf p off = bind (get_proc p) (\<lambda>q. load64 (trapframe q + off))"

definition set_tf :: "nat \<Rightarrow> uint64 \<Rightarrow> uint64 \<Rightarrow> ('z ptable_scheme, unit) kmon" where
  "set_tf p off v = bind (get_proc p) (\<lambda>q. store64 (trapframe q + off) v)"

section \<open>Fetching arguments\<close>

definition fetchaddr :: "uint64 \<Rightarrow> ('z ptable_scheme, uint64 option) kmon" where
  "fetchaddr addr =
     bind curproc (\<lambda>p.
     bind (get_proc p) (\<lambda>q.
     if addr \<ge> sz q \<or> addr + 8 > sz q then return None
     else bind (copyin (pagetable q) addr 8) (\<lambda>(r, bs).
     if r \<noteq> 0 then return None else return (Some (le_word bs)))))"

text \<open>The result is the string, whose length the C function returns, or \<open>None\<close> for -1.\<close>

definition fetchstr :: "uint64 \<Rightarrow> nat \<Rightarrow> ('z ptable_scheme, byte list option) kmon" where
  "fetchstr addr mx =
     bind curproc (\<lambda>p.
     bind (get_proc p) (\<lambda>q.
     bind (copyinstr (pagetable q) addr mx) (\<lambda>(r, bs).
     if r < 0 then return None else return (Some (takeWhile (\<lambda>b. b \<noteq> 0) bs)))))"

definition argraw :: "nat \<Rightarrow> ('z ptable_scheme, uint64) kmon" where
  "argraw n =
     bind curproc (\<lambda>p.
     if n < 6 then get_tf p (TF_A n)
     else panic ''argraw'')"

definition argint :: "nat \<Rightarrow> ('z ptable_scheme, int) kmon" where
  "argint n = bind (argraw n) (\<lambda>v. return (sint (ucast v :: uint)))"

definition argaddr :: "nat \<Rightarrow> ('z ptable_scheme, uint64) kmon" where
  "argaddr n = argraw n"

definition argstr :: "nat \<Rightarrow> nat \<Rightarrow> ('z ptable_scheme, byte list option) kmon" where
  "argstr n mx = bind (argaddr n) (\<lambda>addr. fetchstr addr mx)"

section \<open>exec.c\<close>

definition ELF_MAGIC :: uint where "ELF_MAGIC = 0x464C457F"
definition ELF_PROG_LOAD :: uint where "ELF_PROG_LOAD = 1"
definition ELFHDR_SIZE :: nat where "ELFHDR_SIZE = 64"
definition PROGHDR_SIZE :: nat where "PROGHDR_SIZE = 56"
definition MAXARG :: nat where "MAXARG = 32"
definition USERSTACK :: uint64 where "USERSTACK = 1"
definition MAXPATH :: nat where "MAXPATH = 128"

definition get64 :: "nat \<Rightarrow> byte list \<Rightarrow> uint64" where
  "get64 off bs = le_word (take 8 (drop off bs))"

record elfhdr =
  elf_magic :: uint
  elf_entry :: uint64
  elf_phoff :: uint64
  elf_phnum :: ushort

definition decode_elfhdr :: "byte list \<Rightarrow> elfhdr" where
  "decode_elfhdr bs = \<lparr>elf_magic = get32 0 bs, elf_entry = get64 24 bs, elf_phoff = get64 32 bs, elf_phnum = get16 56 bs\<rparr>"

record proghdr =
  ph_type :: uint
  ph_flags :: uint
  ph_off :: uint64
  ph_vaddr :: uint64
  ph_filesz :: uint64
  ph_memsz :: uint64

definition decode_proghdr :: "byte list \<Rightarrow> proghdr" where
  "decode_proghdr bs = \<lparr>ph_type = get32 0 bs, ph_flags = get32 4 bs, ph_off = get64 8 bs, ph_vaddr = get64 16 bs,
     ph_filesz = get64 32 bs, ph_memsz = get64 40 bs\<rparr>"

definition flags2perm :: "uint \<Rightarrow> uint64" where
  "flags2perm flags =
     (if flags AND 1 \<noteq> 0 then PTE_X else 0) OR (if flags AND 2 \<noteq> 0 then PTE_W else 0)"

text \<open>The loop counter \<open>i\<close> and the length are 32-bit; \<open>k\<close> bounds the number of pages.\<close>

primrec loadseg_loop :: "nat \<Rightarrow> uint64 \<Rightarrow> uint64 \<Rightarrow> nat \<Rightarrow> uint \<Rightarrow> uint \<Rightarrow> uint \<Rightarrow> ('z fsst_scheme, int) kmon" where
  "loadseg_loop 0 pt va ip offset len i = (if i < len then hang else return 0)"
| "loadseg_loop (Suc k) pt va ip offset len i =
     (if i < len then
        bind (walkaddr pt (va + ucast i)) (\<lambda>pa.
        if pa = 0 then panic ''loadseg: address should exist''
        else
        let n = (if len - i < 4096 then len - i else 4096) in
        bind (readi ip (KernAddr pa) (offset + i) n) (\<lambda>(r, _).
        if word_of_int r \<noteq> n then return (-1)
        else loadseg_loop k pt va ip offset len (i + 4096)))
      else return 0)"

definition loadseg :: "uint64 \<Rightarrow> uint64 \<Rightarrow> nat \<Rightarrow> uint \<Rightarrow> uint \<Rightarrow> ('z fsst_scheme, int) kmon" where
  "loadseg pt va ip offset len = loadseg_loop (unat len div 4096 + 1) pt va ip offset len 0"

text \<open>
  Loading the program headers \<open>i\<close> to \<open>phnum\<close>.  The result is the new size of the address space and
  whether all went well; a failure keeps the size reached so far for the clean-up.
\<close>

primrec load_segments :: "nat \<Rightarrow> uint64 \<Rightarrow> nat \<Rightarrow> uint \<Rightarrow> uint64 \<Rightarrow> ('z fsst_scheme, uint64 \<times> bool) kmon" where
  "load_segments 0 pt ip off sz0 = return (sz0, True)"
| "load_segments (Suc k) pt ip off sz0 =
     bind (readi ip (Local []) off (of_nat PROGHDR_SIZE)) (\<lambda>(r, bs).
     if r \<noteq> int PROGHDR_SIZE then return (sz0, False)
     else
     let ph = decode_proghdr bs in
     if ph_type ph \<noteq> ELF_PROG_LOAD then load_segments k pt ip (off + of_nat PROGHDR_SIZE) sz0
     else if ph_memsz ph < ph_filesz ph then return (sz0, False)
     else if ph_vaddr ph + ph_memsz ph < ph_vaddr ph then return (sz0, False)
     else if ph_vaddr ph mod PGSIZE \<noteq> 0 then return (sz0, False)
     else
     bind (uvmalloc pt sz0 (ph_vaddr ph + ph_memsz ph) (flags2perm (ph_flags ph))) (\<lambda>sz1.
     if sz1 = 0 then return (sz0, False)
     else
     bind (loadseg pt (ph_vaddr ph) ip (ucast (ph_off ph)) (ucast (ph_filesz ph))) (\<lambda>r.
     if r < 0 then return (sz1, False)
     else load_segments k pt ip (off + of_nat PROGHDR_SIZE) sz1)))"

text \<open>The string a kernel pointer points to.\<close>

definition cstring_at :: "uint64 \<Rightarrow> 'z kmem_scheme \<Rightarrow> byte list" where
  "cstring_at a s = takeWhile (\<lambda>b. b \<noteq> 0) (mem_load (phys s) a (unat (PGSIZE :: uint64)))"

text \<open>Pushing the argument strings; the result is \<open>sp\<close> and \<open>ustack\<close>, or \<open>None\<close> on failure.\<close>

primrec push_args :: "uint64 list \<Rightarrow> uint64 \<Rightarrow> uint64 \<Rightarrow> uint64 \<Rightarrow> uint64 list \<Rightarrow>
    ('z kmem_scheme, (uint64 \<times> uint64 list) option) kmon" where
  "push_args [] pt stackbase sp ustack = return (Some (sp, ustack))"
| "push_args (a # as) pt stackbase sp ustack =
     (if length ustack \<ge> MAXARG then return None
      else
      bind (gets (cstring_at a)) (\<lambda>str.
      let sp = sp - of_nat (length str + 1); sp = sp - sp mod 16 in
      if sp < stackbase then return None
      else
      bind (copyout pt sp (str @ [0])) (\<lambda>r.
      if r < 0 then return None
      else push_args as pt stackbase sp (ustack @ [sp]))))"

definition exec_bad :: "uint64 \<Rightarrow> uint64 \<Rightarrow> nat option \<Rightarrow> ('z fsst_scheme, int) kmon" where
  "exec_bad pt sz0 ip =
     seq (kwhen (pt \<noteq> 0) (proc_freepagetable pt sz0)) (
     seq (case ip of None \<Rightarrow> skip | Some i \<Rightarrow> seq (iunlockput i) end_op)
         (return (-1)))"

text \<open>The name after the last slash.\<close>

definition last_elem :: "byte list \<Rightarrow> byte list" where
  "last_elem path = rev (takeWhile (\<lambda>c. c \<noteq> slash) (rev path))"

definition overwrite :: "byte list \<Rightarrow> byte list \<Rightarrow> byte list" where
  "overwrite new old = new @ drop (length new) old"

text \<open>The second half of \<open>exec\<close>: stack, arguments, and the switch to the new image.\<close>

definition exec_stack :: "nat \<Rightarrow> byte list \<Rightarrow> uint64 list \<Rightarrow> elfhdr \<Rightarrow> uint64 \<Rightarrow> uint64 \<Rightarrow> ('z fsst_scheme, int) kmon" where
  "exec_stack p path argv elf pt sz0 =
     bind (get_proc p) (\<lambda>q.
     let oldsz = sz q; sz0 = PGROUNDUP sz0 in
     bind (uvmalloc pt sz0 (sz0 + (USERSTACK + 1) * PGSIZE) PTE_W) (\<lambda>sz1.
     if sz1 = 0 then exec_bad pt sz0 None
     else
     seq (uvmclear pt (sz1 - (USERSTACK + 1) * PGSIZE)) (
     let stackbase = sz1 - USERSTACK * PGSIZE in
     bind (push_args argv pt stackbase sz1 []) (\<lambda>r. case r of
       None \<Rightarrow> exec_bad pt sz1 None
     | Some (sp, ustack) \<Rightarrow>
         let argc = length ustack;
             sp = sp - of_nat ((argc + 1) * 8);
             sp = sp - sp mod 16 in
         if sp < stackbase then exec_bad pt sz1 None
         else
         bind (copyout pt sp (concat (map (le_bytes 8) (ustack @ [0])))) (\<lambda>c.
         if c < 0 then exec_bad pt sz1 None
         else
         seq (set_tf p (TF_A 1) sp) (
         seq (upd_proc p (\<lambda>q. q\<lparr>pname := overwrite (safestrcpy (arr_ptr (last_elem path)) 16) (pname q)\<rparr>)) (
         bind (get_proc p) (\<lambda>q.
         let oldpagetable = pagetable q in
         seq (upd_proc p (\<lambda>q. q\<lparr>pagetable := pt, sz := sz1\<rparr>)) (
         seq (set_tf p TF_EPC (elf_entry elf)) (
         seq (set_tf p TF_SP sp) (
         seq (proc_freepagetable oldpagetable oldsz)
             (return (int argc))))))))))))) "

definition exec :: "byte list \<Rightarrow> uint64 list \<Rightarrow> ('z fsst_scheme, int) kmon" where
  "exec path argv =
     bind curproc (\<lambda>p.
     seq begin_op (
     bind (namei path) (\<lambda>r. case r of
       None \<Rightarrow> seq end_op (return (-1))
     | Some ip \<Rightarrow>
         seq (ilock ip) (
         bind (readi ip (Local []) 0 (of_nat ELFHDR_SIZE)) (\<lambda>(r, bs).
         if r \<noteq> int ELFHDR_SIZE then exec_bad 0 0 (Some ip)
         else
         let elf = decode_elfhdr bs in
         if elf_magic elf \<noteq> ELF_MAGIC then exec_bad 0 0 (Some ip)
         else
         bind (proc_pagetable p) (\<lambda>pt.
         if pt = 0 then exec_bad 0 0 (Some ip)
         else
         bind (load_segments (unat (elf_phnum elf)) pt ip (ucast (elf_phoff elf)) 0) (\<lambda>(sz1, ok).
         if \<not> ok then exec_bad pt sz1 (Some ip)
         else
         seq (iunlockput ip) (
         seq end_op
             (exec_stack p path argv elf pt sz1))))))))) "

section \<open>fork, exit and the first process\<close>

definition fork :: "('z filest_scheme, int) kmon" where
  "fork =
     bind curproc (\<lambda>p.
     bind allocproc (\<lambda>r. case r of
       None \<Rightarrow> return (-1)
     | Some np \<Rightarrow>
         bind (get_proc p) (\<lambda>q.
         bind (get_proc np) (\<lambda>nq.
         bind (uvmcopy (pagetable q) (pagetable nq) (sz q)) (\<lambda>r.
         if r < 0 then
           seq (freeproc np) (
           seq (release (ProcLock np))
               (return (-1)))
         else
         seq (upd_proc np (\<lambda>nq. nq\<lparr>sz := sz q\<rparr>)) (
         seq (upd_phys (\<lambda>m. mem_store (trapframe nq) (mem_load m (trapframe q) TF_SIZE) m)) (
         seq (set_tf np TF_A0 0) (
         seq (for_each [0..<NOFILE] (\<lambda>i.
           bind (get_proc p) (\<lambda>q. case ofile q i of
             None \<Rightarrow> skip
           | Some f \<Rightarrow>
               bind (filedup f) (\<lambda>f.
               upd_proc np (\<lambda>nq. nq\<lparr>ofile := (ofile nq)(i := Some f)\<rparr>))))) (
         bind (case cwd q of None \<Rightarrow> panic ''kerneltrap'' | Some d \<Rightarrow> idup d) (\<lambda>d.
         seq (upd_proc np (\<lambda>nq. nq\<lparr>cwd := Some d\<rparr>)) (
         seq (upd_proc np (\<lambda>nq. nq\<lparr>pname := overwrite (safestrcpy (arr_ptr (pname q)) 16) (pname nq)\<rparr>)) (
         bind (get_proc np) (\<lambda>nq.
         let i = pid nq in
         seq (release (ProcLock np)) (
         seq (acquire WaitLock) (
         seq (upd_proc np (\<lambda>nq. nq\<lparr>parent := Some p\<rparr>)) (
         seq (release WaitLock) (
         seq (acquire (ProcLock np)) (
         seq (upd_proc np (\<lambda>nq. nq\<lparr>state := RUNNABLE\<rparr>)) (
         seq (release (ProcLock np))
             (return i))))))))))))))))))) )"

definition exit :: "int \<Rightarrow> ('z filest_scheme, 'a) kmon" where
  "exit status =
     bind curproc (\<lambda>p.
     bind (gets initproc) (\<lambda>ip.
     if Some p = ip then panic ''init exiting''
     else
     bind (for_each [0..<NOFILE] (\<lambda>fd.
       bind (get_proc p) (\<lambda>q. case ofile q fd of
         None \<Rightarrow> skip
       | Some f \<Rightarrow>
           seq (fileclose f)
               (upd_proc p (\<lambda>q. q\<lparr>ofile := (ofile q)(fd := None)\<rparr>))))) (\<lambda>_.
     bind begin_op (\<lambda>_.
     bind (get_proc p) (\<lambda>q.
     bind (case cwd q of None \<Rightarrow> panic ''kerneltrap'' | Some d \<Rightarrow> iput d) (\<lambda>_.
     bind end_op (\<lambda>_.
     bind (upd_proc p (\<lambda>q. q\<lparr>cwd := None\<rparr>)) (\<lambda>_.
     bind (acquire WaitLock) (\<lambda>_.
     bind (reparent p) (\<lambda>_.
     bind (get_proc p) (\<lambda>q.
     bind (wakeup (map_option ChanProc (parent q))) (\<lambda>_.
     bind (acquire (ProcLock p)) (\<lambda>_.
     bind (upd_proc p (\<lambda>q. q\<lparr>xstate := status\<rparr>)) (\<lambda>_.
     bind (upd_proc p (\<lambda>q. q\<lparr>state := ZOMBIE\<rparr>)) (\<lambda>_.
     bind (release WaitLock) (\<lambda>_.
     bind sched (\<lambda>_.
     panic ''zombie exit'')))))))))))))))))"

text \<open>The bytes of \<open>user/initcode.S\<close>.\<close>

definition initcode :: "byte list" where
  "initcode = [
     0x17, 0x05, 0x00, 0x00, 0x13, 0x05, 0x45, 0x02,
     0x97, 0x05, 0x00, 0x00, 0x93, 0x85, 0x35, 0x02,
     0x93, 0x08, 0x70, 0x00, 0x73, 0x00, 0x00, 0x00,
     0x93, 0x08, 0x20, 0x00, 0x73, 0x00, 0x00, 0x00,
     0xef, 0xf0, 0x9f, 0xff, 0x2f, 0x69, 0x6e, 0x69,
     0x74, 0x00, 0x00, 0x24, 0x00, 0x00, 0x00, 0x00,
     0x00, 0x00, 0x00, 0x00]"

definition bytes_of :: "string \<Rightarrow> byte list" where
  "bytes_of str = map of_char str"

definition userinit :: "('z fsst_scheme, unit) kmon" where
  "userinit =
     bind allocproc (\<lambda>r.
     seq (modify (\<lambda>s. s\<lparr>initproc := r\<rparr>)) (
     case r of
       None \<Rightarrow> panic ''kerneltrap''
     | Some p \<Rightarrow>
         bind (get_proc p) (\<lambda>q.
         seq (uvmfirst (pagetable q) initcode) (
         seq (upd_proc p (\<lambda>q. q\<lparr>sz := PGSIZE\<rparr>)) (
         seq (set_tf p TF_EPC 0) (
         seq (set_tf p TF_SP PGSIZE) (
         seq (upd_proc p (\<lambda>q. q\<lparr>pname := overwrite (safestrcpy (arr_ptr (bytes_of ''initcode'')) 16) (pname q)\<rparr>)) (
         bind (namei [slash]) (\<lambda>d.
         seq (upd_proc p (\<lambda>q. q\<lparr>cwd := d\<rparr>)) (
         seq (upd_proc p (\<lambda>q. q\<lparr>state := RUNNABLE\<rparr>))
             (release (ProcLock p))))))))))))"

end
