(* ===== verification/Xv6_Sysfile.thy ===== *)
theory Xv6_Sysfile
  imports Xv6_Exec
begin

unbundle bit_operations_syntax

text \<open>
  \<open>kernel/sysfile.c\<close>: the system calls on files.  Each handler fetches its arguments from the trap
  frame and returns the value for register \<open>a0\<close>.  The labels \<open>bad\<close> and \<open>fail\<close> of the code are
  definitions of their own.
\<close>

section \<open>Descriptors\<close>

definition argfd :: "nat \<Rightarrow> ('z filest_scheme, (nat \<times> nat) option) kmon" where
  "argfd n =
     bind (argint n) (\<lambda>fd.
     if fd < 0 \<or> fd \<ge> int NOFILE then return None
     else
     bind curproc (\<lambda>p.
     bind (get_proc p) (\<lambda>q. case ofile q (nat fd) of
       None \<Rightarrow> return None
     | Some f \<Rightarrow> return (Some (nat fd, f)))))"

definition fdalloc :: "nat \<Rightarrow> ('z filest_scheme, int) kmon" where
  "fdalloc f =
     bind curproc (\<lambda>p.
     bind (for_find [0..<NOFILE] (\<lambda>fd.
       bind (get_proc p) (\<lambda>q.
       if ofile q fd = None then
         seq (upd_proc p (\<lambda>q. q\<lparr>ofile := (ofile q)(fd := Some f)\<rparr>))
             (return (Some (int fd)))
       else return None))) (\<lambda>r.
     return (case r of Some fd \<Rightarrow> fd | None \<Rightarrow> -1)))"

definition sys_dup :: "('z filest_scheme, int) kmon" where
  "sys_dup =
     bind (argfd 0) (\<lambda>r. case r of
       None \<Rightarrow> return (-1)
     | Some (_, f) \<Rightarrow>
         bind (fdalloc f) (\<lambda>fd.
         if fd < 0 then return (-1)
         else bind (filedup f) (\<lambda>_. return fd)))"

definition sys_read :: "('z filest_scheme, int) kmon" where
  "sys_read =
     bind (argaddr 1) (\<lambda>p.
     bind (argint 2) (\<lambda>n.
     bind (argfd 0) (\<lambda>r. case r of
       None \<Rightarrow> return (-1)
     | Some (_, f) \<Rightarrow> fileread f p n)))"

definition sys_write :: "('z filest_scheme, int) kmon" where
  "sys_write =
     bind (argaddr 1) (\<lambda>p.
     bind (argint 2) (\<lambda>n.
     bind (argfd 0) (\<lambda>r. case r of
       None \<Rightarrow> return (-1)
     | Some (_, f) \<Rightarrow> filewrite f p n)))"

definition sys_close :: "('z filest_scheme, int) kmon" where
  "sys_close =
     bind (argfd 0) (\<lambda>r. case r of
       None \<Rightarrow> return (-1)
     | Some (fd, f) \<Rightarrow>
         bind curproc (\<lambda>p.
         seq (upd_proc p (\<lambda>q. q\<lparr>ofile := (ofile q)(fd := None)\<rparr>)) (
         seq (fileclose f)
             (return 0))))"

definition sys_fstat :: "('z filest_scheme, int) kmon" where
  "sys_fstat =
     bind (argaddr 1) (\<lambda>st.
     bind (argfd 0) (\<lambda>r. case r of
       None \<Rightarrow> return (-1)
     | Some (_, f) \<Rightarrow> filestat f st))"

section \<open>Links\<close>

definition add_nlink :: "nat \<Rightarrow> ushort \<Rightarrow> ('z fsst_scheme, unit) kmon" where
  "add_nlink ip d = upd_inode ip (\<lambda>x. x\<lparr>inlink := inlink x + d\<rparr>)"

definition link_bad :: "nat \<Rightarrow> ('z fsst_scheme, int) kmon" where
  "link_bad ip =
     seq (ilock ip) (
     seq (add_nlink ip (-1)) (
     seq (iupdate ip) (
     seq (iunlockput ip) (
     seq end_op
         (return (-1))))))"

definition sys_link :: "('z fsst_scheme, int) kmon" where
  "sys_link =
     bind (argstr 0 MAXPATH) (\<lambda>r. case r of
       None \<Rightarrow> return (-1)
     | Some old \<Rightarrow>
     bind (argstr 1 MAXPATH) (\<lambda>r. case r of
       None \<Rightarrow> return (-1)
     | Some new \<Rightarrow>
     seq begin_op (
     bind (namei old) (\<lambda>r. case r of
       None \<Rightarrow> seq end_op (return (-1))
     | Some ip \<Rightarrow>
         seq (ilock ip) (
         bind (get_inode ip) (\<lambda>x.
         if itype x = T_DIR then
           seq (iunlockput ip) (
           seq end_op
               (return (-1)))
         else
         seq (add_nlink ip 1) (
         seq (iupdate ip) (
         seq (iunlock ip) (
         bind (nameiparent new) (\<lambda>r. case r of
           None \<Rightarrow> link_bad ip
         | Some (dp, name) \<Rightarrow>
             seq (ilock dp) (
             bind (get_inode dp) (\<lambda>d.
             bind (get_inode ip) (\<lambda>x.
             bind (if idev d \<noteq> idev x then return (-1) else dirlink dp name (inum x)) (\<lambda>r.
             if r < 0 then
               seq (iunlockput dp)
                   (link_bad ip)
             else
             seq (iunlockput dp) (
             seq (iput ip) (
             seq end_op
                 (return 0)))))))))))))))))"

definition isdirempty :: "nat \<Rightarrow> ('z fsst_scheme, bool) kmon" where
  "isdirempty dp =
     bind (get_inode dp) (\<lambda>x.
     bind (for_find (drop 2 (dirent_offs (unat (isize x)))) (\<lambda>off.
       bind (read_dirent ''isdirempty: readi'' dp off) (\<lambda>de.
       return (if de_inum de \<noteq> 0 then Some () else None)))) (\<lambda>r.
     return (r = None)))"

definition unlink_bad :: "nat \<Rightarrow> ('z fsst_scheme, int) kmon" where
  "unlink_bad dp =
     seq (iunlockput dp) (
     seq end_op
         (return (-1)))"

definition sys_unlink :: "('z fsst_scheme, int) kmon" where
  "sys_unlink =
     bind (argstr 0 MAXPATH) (\<lambda>r. case r of
       None \<Rightarrow> return (-1)
     | Some path \<Rightarrow>
     seq begin_op (
     bind (nameiparent path) (\<lambda>r. case r of
       None \<Rightarrow> seq end_op (return (-1))
     | Some (dp, name) \<Rightarrow>
         seq (ilock dp) (
         if namecmp name (bytes_of ''.'') = 0 \<or> namecmp name (bytes_of ''..'') = 0 then unlink_bad dp
         else
         bind (dirlookup dp name) (\<lambda>r. case r of
           None \<Rightarrow> unlink_bad dp
         | Some (ip, off) \<Rightarrow>
             seq (ilock ip) (
             bind (get_inode ip) (\<lambda>x.
             if sint (inlink x) < 1 then panic ''unlink: nlink < 1''
             else
             bind (if itype x = T_DIR then isdirempty ip else return True) (\<lambda>empty.
             if \<not> empty then
               seq (iunlockput ip)
                   (unlink_bad dp)
             else
             bind (writei dp (Local (replicate DIRENT_SIZE 0)) (of_nat off) (of_nat DIRENT_SIZE)) (\<lambda>r.
             if r \<noteq> int DIRENT_SIZE then panic ''unlink: writei''
             else
             seq (kwhen (itype x = T_DIR) (
               seq (add_nlink dp (-1))
                   (iupdate dp))) (
             seq (iunlockput dp) (
             seq (add_nlink ip (-1)) (
             seq (iupdate ip) (
             seq (iunlockput ip) (
             seq end_op
                 (return 0))))))))))))))) "

section \<open>Creating and opening\<close>

definition create_fail :: "nat \<Rightarrow> nat \<Rightarrow> ('z fsst_scheme, nat option) kmon" where
  "create_fail ip dp =
     seq (upd_inode ip (\<lambda>x. x\<lparr>inlink := 0\<rparr>)) (
     seq (iupdate ip) (
     seq (iunlockput ip) (
     seq (iunlockput dp)
         (return None))))"

definition create :: "byte list \<Rightarrow> ushort \<Rightarrow> ushort \<Rightarrow> ushort \<Rightarrow> ('z fsst_scheme, nat option) kmon" where
  "create path ty major minor =
     bind (nameiparent path) (\<lambda>r. case r of
       None \<Rightarrow> return None
     | Some (dp, name) \<Rightarrow>
         seq (ilock dp) (
         bind (dirlookup dp name) (\<lambda>r. case r of
           Some (ip, _) \<Rightarrow>
             seq (iunlockput dp) (
             seq (ilock ip) (
             bind (get_inode ip) (\<lambda>x.
             if ty = T_FILE \<and> (itype x = T_FILE \<or> itype x = T_DEVICE) then return (Some ip)
             else seq (iunlockput ip) (return None))))
         | None \<Rightarrow>
             bind (get_inode dp) (\<lambda>d.
             bind (ialloc (idev d) ty) (\<lambda>r. case r of
               None \<Rightarrow> seq (iunlockput dp) (return None)
             | Some ip \<Rightarrow>
                 seq (ilock ip) (
                 seq (upd_inode ip (\<lambda>x. x\<lparr>imajor := major, iminor := minor, inlink := 1\<rparr>)) (
                 seq (iupdate ip) (
                 bind (get_inode ip) (\<lambda>x.
                 bind (if ty = T_DIR then
                         bind (dirlink ip (bytes_of ''.'') (inum x)) (\<lambda>r.
                         if r < 0 then return (-1)
                         else dirlink ip (bytes_of ''..'') (inum d))
                       else return 0) (\<lambda>r.
                 if r < 0 then create_fail ip dp
                 else
                 bind (dirlink dp name (inum x)) (\<lambda>r.
                 if r < 0 then create_fail ip dp
                 else
                 seq (kwhen (ty = T_DIR) (
                   seq (add_nlink dp 1)
                       (iupdate dp))) (
                 seq (iunlockput dp)
                     (return (Some ip))))))))))))))"

definition open_fail :: "nat \<Rightarrow> ('z fsst_scheme, int) kmon" where
  "open_fail ip =
     seq (iunlockput ip) (
     seq end_op
         (return (-1)))"

text \<open>The inode \<open>open\<close> works on, locked; \<open>None\<close> when it has already ended the operation.\<close>

definition open_inode :: "byte list \<Rightarrow> int \<Rightarrow> ('z fsst_scheme, nat option) kmon" where
  "open_inode path omode =
     (if omode AND O_CREATE \<noteq> 0 then
        bind (create path T_FILE 0 0) (\<lambda>r. case r of
          None \<Rightarrow> seq end_op (return None)
        | Some ip \<Rightarrow> return (Some ip))
      else
        bind (namei path) (\<lambda>r. case r of
          None \<Rightarrow> seq end_op (return None)
        | Some ip \<Rightarrow>
            seq (ilock ip) (
            bind (get_inode ip) (\<lambda>x.
            if itype x = T_DIR \<and> omode \<noteq> O_RDONLY then
              bind (open_fail ip) (\<lambda>_. return None)
            else return (Some ip)))))"

definition sys_open :: "('z filest_scheme, int) kmon" where
  "sys_open =
     bind (argint 1) (\<lambda>omode.
     bind (argstr 0 MAXPATH) (\<lambda>r. case r of
       None \<Rightarrow> return (-1)
     | Some path \<Rightarrow>
     seq begin_op (
     bind (open_inode path omode) (\<lambda>r. case r of
       None \<Rightarrow> return (-1)
     | Some ip \<Rightarrow>
         bind (get_inode ip) (\<lambda>x.
         if itype x = T_DEVICE \<and> \<not> dev_ok (imajor x) then open_fail ip
         else
         bind filealloc (\<lambda>r. case r of
           None \<Rightarrow> open_fail ip
         | Some f \<Rightarrow>
             bind (fdalloc f) (\<lambda>fd.
             if fd < 0 then
               seq (fileclose f)
                   (open_fail ip)
             else
             seq (if itype x = T_DEVICE then upd_file f (\<lambda>y. y\<lparr>ftype := FD_DEVICE, fmajor := imajor x\<rparr>)
                  else upd_file f (\<lambda>y. y\<lparr>ftype := FD_INODE, foff := 0\<rparr>)) (
             seq (upd_file f (\<lambda>y. y\<lparr>fip := ip, readable := (omode AND O_WRONLY = 0),
                    writable := (omode AND O_WRONLY \<noteq> 0 \<or> omode AND O_RDWR \<noteq> 0)\<rparr>)) (
             seq (kwhen (omode AND O_TRUNC \<noteq> 0 \<and> itype x = T_FILE) (itrunc ip)) (
             seq (iunlock ip) (
             seq end_op
                 (return fd))))))))))))"

text \<open>\<open>mkdir\<close> and \<open>mknod\<close> from the path on.\<close>

definition make_node :: "byte list option \<Rightarrow> ushort \<Rightarrow> ushort \<Rightarrow> ushort \<Rightarrow> ('z fsst_scheme, int) kmon" where
  "make_node path ty major minor =
     bind (case path of None \<Rightarrow> return None | Some path \<Rightarrow> create path ty major minor) (\<lambda>r. case r of
       None \<Rightarrow> seq end_op (return (-1))
     | Some ip \<Rightarrow>
         seq (iunlockput ip) (
         seq end_op
             (return 0)))"

definition sys_mkdir :: "('z fsst_scheme, int) kmon" where
  "sys_mkdir =
     seq begin_op (
     bind (argstr 0 MAXPATH) (\<lambda>path.
     make_node path T_DIR 0 0))"

definition sys_mknod :: "('z fsst_scheme, int) kmon" where
  "sys_mknod =
     seq begin_op (
     bind (argint 1) (\<lambda>major.
     bind (argint 2) (\<lambda>minor.
     bind (argstr 0 MAXPATH) (\<lambda>path.
     make_node path T_DEVICE (word_of_int major) (word_of_int minor)))))"

definition sys_chdir :: "('z fsst_scheme, int) kmon" where
  "sys_chdir =
     bind curproc (\<lambda>p.
     seq begin_op (
     bind (argstr 0 MAXPATH) (\<lambda>r.
     bind (case r of None \<Rightarrow> return None | Some path \<Rightarrow> namei path) (\<lambda>r. case r of
       None \<Rightarrow> seq end_op (return (-1))
     | Some ip \<Rightarrow>
         seq (ilock ip) (
         bind (get_inode ip) (\<lambda>x.
         if itype x \<noteq> T_DIR then open_fail ip
         else
         seq (iunlock ip) (
         bind (get_proc p) (\<lambda>q.
         seq (case cwd q of None \<Rightarrow> panic ''kerneltrap'' | Some d \<Rightarrow> iput d) (
         seq end_op (
         seq (upd_proc p (\<lambda>q. q\<lparr>cwd := Some ip\<rparr>))
             (return 0)))))))))))"

section \<open>exec and pipe\<close>

text \<open>
  The loop of \<open>sys_exec\<close> over the user's \<open>argv\<close>; the result is the pages allocated and whether the
  terminating null was reached.
\<close>

primrec fetch_argv :: "nat \<Rightarrow> uint64 \<Rightarrow> uint64 list \<Rightarrow> ('z ptable_scheme, uint64 list \<times> bool) kmon" where
  "fetch_argv 0 uargv argv = return (argv, False)"
| "fetch_argv (Suc k) uargv argv =
     bind (fetchaddr (uargv + 8 * of_nat (length argv))) (\<lambda>r. case r of
       None \<Rightarrow> return (argv, False)
     | Some uarg \<Rightarrow>
         if uarg = 0 then return (argv, True)
         else
         bind kalloc (\<lambda>pg.
         if pg = 0 then return (argv, False)
         else
         bind (fetchstr uarg (unat (PGSIZE :: uint64))) (\<lambda>r. case r of
           None \<Rightarrow> return (argv @ [pg], False)
         | Some str \<Rightarrow>
             seq (upd_phys (mem_store pg (str @ [0])))
                 (fetch_argv k uargv (argv @ [pg])))))"

definition sys_exec :: "('z fsst_scheme, int) kmon" where
  "sys_exec =
     bind (argaddr 1) (\<lambda>uargv.
     bind (argstr 0 MAXPATH) (\<lambda>r. case r of
       None \<Rightarrow> return (-1)
     | Some path \<Rightarrow>
         bind (fetch_argv MAXARG uargv []) (\<lambda>(argv, ok).
         bind (if ok then exec path argv else return (-1)) (\<lambda>ret.
         seq (for_each argv kfree)
             (return ret)))))"

definition pipe_fail :: "nat \<Rightarrow> nat \<Rightarrow> ('z filest_scheme, int) kmon" where
  "pipe_fail rfd wfd =
     seq (fileclose rfd) (
     seq (fileclose wfd)
         (return (-1)))"

definition close_fd :: "nat \<Rightarrow> int \<Rightarrow> ('z ptable_scheme, unit) kmon" where
  "close_fd p fd = upd_proc p (\<lambda>q. q\<lparr>ofile := (ofile q)(nat fd := None)\<rparr>)"

definition sys_pipe :: "('z filest_scheme, int) kmon" where
  "sys_pipe =
     bind curproc (\<lambda>p.
     bind (argaddr 0) (\<lambda>fdarray.
     bind pipealloc (\<lambda>r. case r of
       None \<Rightarrow> return (-1)
     | Some (rfd, wfd) \<Rightarrow>
         bind (fdalloc rfd) (\<lambda>fd0.
         if fd0 < 0 then pipe_fail rfd wfd
         else
         bind (fdalloc wfd) (\<lambda>fd1.
         if fd1 < 0 then seq (close_fd p fd0) (pipe_fail rfd wfd)
         else
         bind (get_proc p) (\<lambda>q.
         bind (copyout (pagetable q) fdarray (le_bytes 4 (word_of_int fd0 :: uint))) (\<lambda>c0.
         bind (if c0 < 0 then return (-1)
               else copyout (pagetable q) (fdarray + 4) (le_bytes 4 (word_of_int fd1 :: uint))) (\<lambda>c1.
         if c1 < 0 then
           seq (close_fd p fd0) (
           seq (close_fd p fd1)
               (pipe_fail rfd wfd))
         else return 0))))))))"

end
