(* ===== verification/Xv6_Trap.thy ===== *)
theory Xv6_Trap
  imports Xv6_Sysfile
begin

unbundle bit_operations_syntax

text \<open>
  \<open>kernel/trap.c\<close>, \<open>kernel/syscall.c\<close>, \<open>kernel/sysproc.c\<close>, \<open>kernel/plic.c\<close>, \<open>kernel/main.c\<close>,
  \<open>kernel/start.c\<close>, \<open>forkret\<close> of \<open>kernel/proc.c\<close>, and \<open>kvminit\<close> and \<open>kvminithart\<close> of \<open>kernel/vm.c\<close>.

  The record \<open>kernst\<close> adds the tick counter, the control and status registers the C code reads and
  writes, the PLIC, and the addresses of code that is not C (\<open>kernelvec\<close>, \<open>uservec\<close>, \<open>userret\<close>).
  Reading the claim register of the PLIC takes the pending interrupt, writing it completes one.
  \<open>usertrapret\<close> leaves the kernel by jumping to \<open>userret\<close>; its model returns the \<open>satp\<close> value it
  passes, and an \<open>Ok\<close> outcome of \<open>usertrap\<close> means that the process is back in user mode.
\<close>

section \<open>State\<close>

record kernst = virtst +
  ticks :: uint
  forkret_first :: bool
  started :: bool
  kernel_pagetable :: uint64
  etext :: uint64
  scause :: uint64
  sepc :: uint64
  stval :: uint64
  stvec :: uint64
  satp :: uint64
  stimecmp :: uint64
  mtime :: uint64
  sie :: uint64
  mstatus :: uint64
  mepc :: uint64
  medeleg :: uint64
  mideleg :: uint64
  pmpaddr0 :: uint64
  pmpcfg0 :: uint64
  mie :: uint64
  menvcfg :: uint64
  mcounteren :: uint64
  mhartid :: nat
  plic_regs :: "uint64 \<Rightarrow> uint"
  plic_pending :: "nat \<Rightarrow> uint"
  plic_completed :: "(nat \<times> uint) list"
  kernelvec :: uint64
  usertrap_pc :: uint64
  uservec :: uint64
  userret :: uint64
  main_pc :: uint64

definition SSTATUS_SPP :: uint64 where "SSTATUS_SPP = push_bit 8 1"
definition SSTATUS_SPIE :: uint64 where "SSTATUS_SPIE = push_bit 5 1"
definition SIE_SEIE :: uint64 where "SIE_SEIE = push_bit 9 1"
definition SIE_STIE :: uint64 where "SIE_STIE = push_bit 5 1"
definition SIE_SSIE :: uint64 where "SIE_SSIE = push_bit 1 1"
definition MIE_STIE :: uint64 where "MIE_STIE = push_bit 5 1"
definition MSTATUS_MPP_MASK :: uint64 where "MSTATUS_MPP_MASK = push_bit 11 3"
definition MSTATUS_MPP_S :: uint64 where "MSTATUS_MPP_S = push_bit 11 1"
definition SATP_SV39 :: uint64 where "SATP_SV39 = push_bit 60 8"
definition UART0_IRQ :: nat where "UART0_IRQ = 10"
definition VIRTIO0_IRQ :: nat where "VIRTIO0_IRQ = 1"

definition MAKE_SATP :: "uint64 \<Rightarrow> uint64" where
  "MAKE_SATP pt = SATP_SV39 OR drop_bit 12 pt"

definition PLIC_SENABLE :: "nat \<Rightarrow> uint64" where
  "PLIC_SENABLE hart = PLIC + 0x2080 + of_nat hart * 0x100"

definition PLIC_SPRIORITY :: "nat \<Rightarrow> uint64" where
  "PLIC_SPRIORITY hart = PLIC + 0x201000 + of_nat hart * 0x2000"

section \<open>vm.c\<close>

definition kvminit :: "('z kernst_scheme, unit) kmon" where
  "kvminit =
     bind (gets (\<lambda>s. (etext s, trampoline s))) (\<lambda>(e, t).
     bind (kvmmake e t) (\<lambda>pt.
     modify (\<lambda>s. s\<lparr>kernel_pagetable := pt\<rparr>)))"

definition kvminithart :: "('z kernst_scheme, unit) kmon" where
  "kvminithart = modify (\<lambda>s. s\<lparr>satp := MAKE_SATP (kernel_pagetable s)\<rparr>)"

section \<open>plic.c\<close>

definition plic_write :: "uint64 \<Rightarrow> uint \<Rightarrow> ('z kernst_scheme, unit) kmon" where
  "plic_write a v = modify (\<lambda>s. s\<lparr>plic_regs := (plic_regs s)(a := v)\<rparr>)"

definition plicinit :: "('z kernst_scheme, unit) kmon" where
  "plicinit =
     seq (plic_write (PLIC + of_nat (UART0_IRQ * 4)) 1)
         (plic_write (PLIC + of_nat (VIRTIO0_IRQ * 4)) 1)"

definition plicinithart :: "('z kernst_scheme, unit) kmon" where
  "plicinithart =
     bind cpuid (\<lambda>hart.
     seq (plic_write (PLIC_SENABLE hart) (push_bit UART0_IRQ 1 OR push_bit VIRTIO0_IRQ 1))
         (plic_write (PLIC_SPRIORITY hart) 0))"

definition plic_claim :: "('z kernst_scheme, uint) kmon" where
  "plic_claim =
     bind cpuid (\<lambda>hart.
     bind (gets (\<lambda>s. plic_pending s hart)) (\<lambda>irq.
     seq (modify (\<lambda>s. s\<lparr>plic_pending := (plic_pending s)(hart := 0)\<rparr>))
         (return irq)))"

definition plic_complete :: "uint \<Rightarrow> ('z kernst_scheme, unit) kmon" where
  "plic_complete irq =
     bind cpuid (\<lambda>hart.
     modify (\<lambda>s. s\<lparr>plic_completed := plic_completed s @ [(hart, irq)]\<rparr>))"

section \<open>sysproc.c\<close>

definition sys_exit :: "('z kernst_scheme, uint64) kmon" where
  "sys_exit = bind (argint 0) (\<lambda>n. exit n)"

definition sys_getpid :: "('z kernst_scheme, uint64) kmon" where
  "sys_getpid = bind curproc (\<lambda>p. bind (get_proc p) (\<lambda>q. return (word_of_int (pid q))))"

definition ret_int :: "('s, int) kmon \<Rightarrow> ('s, uint64) kmon" where
  "ret_int m = bind m (\<lambda>r. return (word_of_int r))"

definition sys_fork :: "('z kernst_scheme, uint64) kmon" where
  "sys_fork = ret_int fork"

definition sys_wait :: "('z kernst_scheme, uint64) kmon" where
  "sys_wait = bind (argaddr 0) (\<lambda>p. ret_int (wait p))"

definition sys_sbrk :: "('z kernst_scheme, uint64) kmon" where
  "sys_sbrk =
     bind (argint 0) (\<lambda>n.
     bind curproc (\<lambda>p.
     bind (get_proc p) (\<lambda>q.
     bind (growproc n) (\<lambda>r.
     if r < 0 then return (-1) else return (sz q)))))"

definition sys_sleep :: "('z kernst_scheme, uint64) kmon" where
  "sys_sleep =
     bind (argint 0) (\<lambda>n.
     let n = (if n < 0 then 0 else n) in
     seq (acquire TicksLock) (
     bind (gets ticks) (\<lambda>ticks0.
     bind (await ROUNDS (gets (\<lambda>s. ticks s - ticks0 < word_of_int n)) ChanTicks TicksLock) (\<lambda>ok.
     seq (release TicksLock)
         (return (if ok then 0 else -1))))))"

definition sys_kill :: "('z kernst_scheme, uint64) kmon" where
  "sys_kill = bind (argint 0) (\<lambda>i. ret_int (kill i))"

definition sys_uptime :: "('z kernst_scheme, uint64) kmon" where
  "sys_uptime =
     seq (acquire TicksLock) (
     bind (gets ticks) (\<lambda>xticks.
     seq (release TicksLock)
         (return (ucast xticks))))"

definition sys_hello :: "('z kernst_scheme, uint64) kmon" where
  "sys_hello = seq (printf ''Hello from xv6 kernel!\<newline>'' []) (return 46201)"

definition sys_getsyscallcount :: "('z kernst_scheme, uint64) kmon" where
  "sys_getsyscallcount = bind curproc (\<lambda>p. bind (get_proc p) (\<lambda>q. return (syscall_count q)))"

section \<open>syscall.c\<close>

definition syscalls :: "nat \<Rightarrow> ('z kernst_scheme, uint64) kmon option" where
  "syscalls num =
     (if num = 1 then Some sys_fork
      else if num = 2 then Some sys_exit
      else if num = 3 then Some sys_wait
      else if num = 4 then Some (ret_int sys_pipe)
      else if num = 5 then Some (ret_int sys_read)
      else if num = 6 then Some sys_kill
      else if num = 7 then Some (ret_int sys_exec)
      else if num = 8 then Some (ret_int sys_fstat)
      else if num = 9 then Some (ret_int sys_chdir)
      else if num = 10 then Some (ret_int sys_dup)
      else if num = 11 then Some sys_getpid
      else if num = 12 then Some sys_sbrk
      else if num = 13 then Some sys_sleep
      else if num = 14 then Some sys_uptime
      else if num = 15 then Some (ret_int sys_open)
      else if num = 16 then Some (ret_int sys_write)
      else if num = 17 then Some (ret_int sys_mknod)
      else if num = 18 then Some (ret_int sys_unlink)
      else if num = 19 then Some (ret_int sys_link)
      else if num = 20 then Some (ret_int sys_mkdir)
      else if num = 21 then Some (ret_int sys_close)
      else if num = 22 then Some sys_hello
      else if num = 23 then Some sys_getsyscallcount
      else None)"

definition syscall :: "('z kernst_scheme, unit) kmon" where
  "syscall =
     bind curproc (\<lambda>p.
     bind (get_tf p TF_A7) (\<lambda>a7.
     let num = sint (ucast a7 :: uint) in
     case (if num > 0 then syscalls (nat num) else None) of
       Some handler \<Rightarrow>
         seq (upd_proc p (\<lambda>q. q\<lparr>syscall_count := syscall_count q + 1\<rparr>)) (
         bind handler (\<lambda>r.
         set_tf p TF_A0 r))
     | None \<Rightarrow>
         bind (get_proc p) (\<lambda>q.
         seq (printf ''%s: unknown sys call %d\<newline>'' [VStr (Some (cname (pname q))), VNum (word_of_int num)])
             (set_tf p TF_A0 (-1)))))"

section \<open>trap.c\<close>

definition trapinit :: "('z kernst_scheme, unit) kmon" where
  "trapinit = initlock TicksLock ''time''"

definition trapinithart :: "('z kernst_scheme, unit) kmon" where
  "trapinithart = modify (\<lambda>s. s\<lparr>stvec := kernelvec s\<rparr>)"

definition clockintr :: "('z kernst_scheme, unit) kmon" where
  "clockintr =
     bind cpuid (\<lambda>id.
     seq (kwhen (id = 0) (
       seq (acquire TicksLock) (
       seq (modify (\<lambda>s. s\<lparr>ticks := ticks s + 1\<rparr>)) (
       seq (wakeup (Some ChanTicks))
           (release TicksLock)))))
         (modify (\<lambda>s. s\<lparr>stimecmp := mtime s + 1000000\<rparr>)))"

definition devintr :: "('z kernst_scheme, nat) kmon" where
  "devintr =
     bind (gets scause) (\<lambda>c.
     if c = 0x8000000000000009 then
       bind plic_claim (\<lambda>irq.
       seq (if irq = of_nat UART0_IRQ then uartintr
            else if irq = of_nat VIRTIO0_IRQ then virtio_disk_intr
            else kwhen (irq \<noteq> 0) (printf ''unexpected interrupt irq=%d\<newline>'' [VNum (ucast irq)])) (
       seq (kwhen (irq \<noteq> 0) (plic_complete irq))
           (return 1)))
     else if c = 0x8000000000000005 then
       seq clockintr (return 2)
     else return 0)"

definition usertrapret :: "('z kernst_scheme, uint64) kmon" where
  "usertrapret =
     bind curproc (\<lambda>p.
     seq intr_off (
     seq (modify (\<lambda>s. s\<lparr>stvec := TRAMPOLINE + (uservec s - trampoline s)\<rparr>)) (
     bind (gets satp) (\<lambda>sa.
     seq (set_tf p TF_KERNEL_SATP sa) (
     bind (get_proc p) (\<lambda>q.
     seq (set_tf p TF_KERNEL_SP (kstack q + PGSIZE)) (
     bind (gets usertrap_pc) (\<lambda>ut.
     seq (set_tf p TF_KERNEL_TRAP ut) (
     bind (gets tp) (\<lambda>h.
     seq (set_tf p TF_KERNEL_HARTID (of_nat h)) (
     seq (modify (\<lambda>s. s\<lparr>sstatus := (sstatus s AND NOT SSTATUS_SPP) OR SSTATUS_SPIE\<rparr>)) (
     bind (get_tf p TF_EPC) (\<lambda>epc.
     seq (modify (\<lambda>s. s\<lparr>sepc := epc\<rparr>))
         (return (MAKE_SATP (pagetable q))))))))))))))))"

definition usertrap :: "('z kernst_scheme, uint64) kmon" where
  "usertrap =
     bind (gets sstatus) (\<lambda>st.
     if st AND SSTATUS_SPP \<noteq> 0 then panic ''usertrap: not from user mode''
     else
     seq (modify (\<lambda>s. s\<lparr>stvec := kernelvec s\<rparr>)) (
     bind curproc (\<lambda>p.
     bind (gets sepc) (\<lambda>pc.
     seq (set_tf p TF_EPC pc) (
     bind (gets scause) (\<lambda>c.
     bind (if c = 8 then
             bind (killed p) (\<lambda>k.
             seq (kwhen (k \<noteq> 0) (exit (-1))) (
             bind (get_tf p TF_EPC) (\<lambda>e.
             seq (set_tf p TF_EPC (e + 4)) (
             seq intr_on (
             seq syscall
                 (return 0))))))
           else
             bind devintr (\<lambda>d.
             if d \<noteq> 0 then return d
             else
             bind (get_proc p) (\<lambda>q.
             bind (gets (\<lambda>s. (sepc s, stval s))) (\<lambda>(e, v).
             seq (printf ''usertrap(): unexpected scause 0x%lx pid=%d\<newline>'' [VNum c, VNum (word_of_int (pid q))]) (
             seq (printf ''            sepc=0x%lx stval=0x%lx\<newline>'' [VNum e, VNum v]) (
             seq (setkilled p)
                 (return 0))))))) (\<lambda>which_dev.
     bind (killed p) (\<lambda>k.
     seq (kwhen (k \<noteq> 0) (exit (-1))) (
     seq (kwhen (which_dev = 2) yield)
         usertrapret)))))))))"

definition kerneltrap :: "('z kernst_scheme, unit) kmon" where
  "kerneltrap =
     bind (gets (\<lambda>s. (sepc s, sstatus s, scause s))) (\<lambda>(pc, st, c).
     if st AND SSTATUS_SPP = 0 then panic ''kerneltrap: not from supervisor mode''
     else
     bind intr_get (\<lambda>i.
     if i then panic ''kerneltrap: interrupts enabled''
     else
     bind devintr (\<lambda>d.
     if d = 0 then
       bind (gets (\<lambda>s. (sepc s, stval s))) (\<lambda>(e, v).
       seq (printf ''scause=0x%lx sepc=0x%lx stval=0x%lx\<newline>'' [VNum c, VNum e, VNum v])
           (panic ''kerneltrap''))
     else
     bind (if d = 2 then myproc else return None) (\<lambda>me.
     seq (kwhen (me \<noteq> None) yield)
         (modify (\<lambda>s. s\<lparr>sepc := pc, sstatus := st\<rparr>))))))"

definition forkret :: "('z kernst_scheme, uint64) kmon" where
  "forkret =
     bind curproc (\<lambda>p.
     seq (release (ProcLock p)) (
     bind (gets forkret_first) (\<lambda>first.
     seq (kwhen first (
       seq (fsinit ROOTDEV)
           (modify (\<lambda>s. s\<lparr>forkret_first := False\<rparr>))))
         usertrapret)))"

section \<open>main.c and start.c\<close>

definition main :: "('z kernst_scheme, unit) kmon" where
  "main =
     bind cpuid (\<lambda>id.
     seq (if id = 0 then
            seq consoleinit (
            seq printfinit (
            seq (printf ''\<newline>'' []) (
            seq (printf ''xv6 kernel is booting\<newline>'' []) (
            seq (printf ''\<newline>'' []) (
            seq kinit (
            seq kvminit (
            seq kvminithart (
            seq procinit (
            seq trapinit (
            seq trapinithart (
            seq plicinit (
            seq plicinithart (
            seq binit (
            seq iinit (
            seq fileinit (
            seq virtio_disk_init (
            seq userinit
                (modify (\<lambda>s. s\<lparr>started := True\<rparr>)))))))))))))))))))
          else
            bind (gets started) (\<lambda>st.
            if \<not> st then hang
            else
            seq (printf ''hart %d starting\<newline>'' [VNum (of_nat id)]) (
            seq kvminithart (
            seq trapinithart
                plicinithart))))
         scheduler)"

definition timerinit :: "('z kernst_scheme, unit) kmon" where
  "timerinit =
     seq (modify (\<lambda>s. s\<lparr>mie := mie s OR MIE_STIE\<rparr>)) (
     seq (modify (\<lambda>s. s\<lparr>menvcfg := menvcfg s OR push_bit 63 1\<rparr>)) (
     seq (modify (\<lambda>s. s\<lparr>mcounteren := mcounteren s OR 2\<rparr>))
         (modify (\<lambda>s. s\<lparr>stimecmp := mtime s + 1000000\<rparr>))))"

text \<open>\<open>mret\<close> continues at \<open>mepc\<close>, in \<open>main\<close>.\<close>

definition start :: "('z kernst_scheme, unit) kmon" where
  "start =
     seq (modify (\<lambda>s. s\<lparr>mstatus := (mstatus s AND NOT MSTATUS_MPP_MASK) OR MSTATUS_MPP_S\<rparr>)) (
     seq (modify (\<lambda>s. s\<lparr>mepc := main_pc s\<rparr>)) (
     seq (modify (\<lambda>s. s\<lparr>satp := 0\<rparr>)) (
     seq (modify (\<lambda>s. s\<lparr>medeleg := 0xffff\<rparr>)) (
     seq (modify (\<lambda>s. s\<lparr>mideleg := 0xffff\<rparr>)) (
     seq (modify (\<lambda>s. s\<lparr>sie := sie s OR SIE_SEIE OR SIE_STIE OR SIE_SSIE\<rparr>)) (
     seq (modify (\<lambda>s. s\<lparr>pmpaddr0 := 0x3fffffffffffff\<rparr>)) (
     seq (modify (\<lambda>s. s\<lparr>pmpcfg0 := 0xf\<rparr>)) (
     seq timerinit
         (modify (\<lambda>s. s\<lparr>tp := mhartid s\<rparr>))))))))))"

end
