(* ===== verification/Xv6_Demo.thy ===== *)
theory Xv6_Demo
  imports Xv6_Trap Xv6_Recovery
begin

text \<open>
  A concrete state of the whole kernel, on which the witnesses of the later theories run: process 0
  runs on hart 0, no lock is held, the pipes, the console and the log are empty.  The indices of the
  rings are about to wrap around.
\<close>

definition no_inode :: inode where
  "no_inode = \<lparr>idev = 0, inum = 0, iref = 0, ivalid = False, itype = 0, imajor = 0, iminor = 0, inlink = 0,
     isize = 0, addrs = replicate (NDIRECT + 1) 0\<rparr>"

definition no_file :: file_struct where
  "no_file = \<lparr>ftype = FD_NONE, fref = 0, readable = False, writable = False, fpipe = 0, fip = 0, foff = 0, fmajor = 0\<rparr>"

definition demo_pipe :: pipe where
  "demo_pipe = \<lparr>pdata = (\<lambda>_. 0), nread = 0xffffffff, nwrite = 0xffffffff, readopen = True, writeopen = True\<rparr>"

definition demo_kernel :: kernst where
  "demo_kernel = \<lparr>tp = 0, sstatus = 0, cpus = (\<lambda>_. \<lparr>cproc = Some 0, noff = 0, intena = False\<rparr>),
     locks = (\<lambda>_. \<lparr>locked = 0, lname = [], lcpu = None\<rparr>),
     phys = chain_mem six_pages, freelist = 0x87fff000, kend = 0x80020000,
     procs = (\<lambda>_. no_proc)(0 := no_proc\<lparr>state := RUNNING, pid := 1, pagetable := 0x87ffd000\<rparr>),
     nextpid = 2, initproc = Some 0, trampoline = 0x80007000, forkret_pc = 0x80001a00,
     sleeplocks = (\<lambda>_. \<lparr>slocked = 0, sname = [], spid = 0\<rparr>),
     bufs = empty_buf, disk = zero_disk, dwrites = [],
     log_start = 2, log_size = 30, outstanding = 0, committing = False, log_dev = 1, lh_n = 0, lh_block = (\<lambda>_. 0),
     uart_ier = 0, uart_lcr = 3, uart_fcr = 0, uart_baud = (3, 0), thr_full = False, sent = [], rx = [],
     uart_tx_buf = (\<lambda>_. 0), uart_tx_w = 0, uart_tx_r = 0, panicked = False, pr_locking = True,
     cons_buf = (\<lambda>_. 0), cons_r = 0xffffffff, cons_w = 0xffffffff, cons_e = 0xffffffff,
     devsw_read = (\<lambda>_. None)(CONSOLE := Some ConsoleDriver), devsw_write = (\<lambda>_. None)(CONSOLE := Some ConsoleDriver),
     sb = demo_sb, itable = (\<lambda>_. no_inode), ftable = (\<lambda>_. no_file), pipes = (\<lambda>_. demo_pipe),
     vregs = (\<lambda>_. 0), features_ok = True, v_desc = 0, v_avail = 0, v_used = 0,
     vdesc = (\<lambda>_. \<lparr>d_addr = DmaNull, d_len = 0, d_flags = 0, d_next = 0\<rparr>),
     avail_idx = 0, avail_ring = (\<lambda>_. 0), used_idx_dev = 0, used_ring = (\<lambda>_. 0), dev_seen = 0,
     vfree = (\<lambda>_. True), used_idx = 0, info_b = (\<lambda>_. None), info_status = (\<lambda>_. 0),
     vops = (\<lambda>_. \<lparr>req_type = 0, req_sector = 0\<rparr>), buf_disk = (\<lambda>_. False),
     ticks = 0, forkret_first = False, started = True, kernel_pagetable = 0, etext = 0x80008000,
     scause = 0, sepc = 0, stval = 0, stvec = 0, satp = 0, stimecmp = 0, mtime = 0, sie = 0, mstatus = 0, mepc = 0,
     medeleg = 0, mideleg = 0, pmpaddr0 = 0, pmpcfg0 = 0, mie = 0, menvcfg = 0, mcounteren = 0, mhartid = 0,
     plic_regs = (\<lambda>_. 0), plic_pending = (\<lambda>_. 0), plic_completed = [], kernelvec = 0, usertrap_pc = 0,
     uservec = 0, userret = 0, main_pc = 0\<rparr>"

lemma demo_kernel_machine:
  "tp demo_kernel = 0" "sstatus demo_kernel = 0" "cpus demo_kernel = (\<lambda>_. \<lparr>cproc = Some 0, noff = 0, intena = False\<rparr>)"
  "locks demo_kernel = (\<lambda>_. \<lparr>locked = 0, lname = [], lcpu = None\<rparr>)"
  "procs demo_kernel = (\<lambda>_. no_proc)(0 := no_proc\<lparr>state := RUNNING, pid := 1, pagetable := 0x87ffd000\<rparr>)"
  "pipes demo_kernel = (\<lambda>_. demo_pipe)"
  by (simp_all add: demo_kernel_def)

lemma demo_kernel_quiet: "cpu_quiet demo_kernel" "lock_free l demo_kernel" "proc_locks_free demo_kernel" "cur demo_kernel = Some 0"
  by (simp_all add: demo_kernel_machine cpu_quiet_def intr_enabled_def lock_free_def proc_locks_free_def cur_def)

end
