(* ===== verification/Xv6_Balloc.thy ===== *)
theory Xv6_Balloc
  imports Xv6_Txn Xv6_Demo
begin

unbundle bit_operations_syntax

text \<open>
  The block allocator of \<open>fs.c\<close> inside a transaction: \<open>balloc\<close> and \<open>bfree\<close> refine the removal of a
  number from a set and its return.
\<close>

section \<open>Bits of a block\<close>

definition set_bit_in :: "nat \<Rightarrow> byte list \<Rightarrow> byte list" where
  "set_bit_in bi bs = bs[bi div 8 := bs ! (bi div 8) OR bit_mask bi]"

definition clear_bit_in :: "nat \<Rightarrow> byte list \<Rightarrow> byte list" where
  "clear_bit_in bi bs = bs[bi div 8 := bs ! (bi div 8) AND NOT (bit_mask bi)]"

lemma bit_mask_bit [simp]: "bit (bit_mask bi) k \<longleftrightarrow> k = bi mod 8"
  by (auto simp: bit_mask_def bit_exp_iff)

lemma bit_free_bit: "bit_free bs bi \<longleftrightarrow> \<not> bit (bs ! (bi div 8)) (bi mod 8)"
  using bit_eq_iff [of "bs ! (bi div 8) AND bit_mask bi" 0] bit_imp_le_length [of "bs ! (bi div 8)"]
  by (auto simp: bit_free_def bit_and_iff)

lemma bit_free_set:
  assumes "bi < 8 * length bs"
  shows "bit_free (set_bit_in bi bs) bj \<longleftrightarrow> bit_free bs bj \<and> bj \<noteq> bi"
proof (cases "bj div 8 = bi div 8")
  case True
  have "bi div 8 < length bs" using assms by (simp add: less_mult_imp_div_less mult.commute)
  moreover have "bj = bi \<longleftrightarrow> bj mod 8 = bi mod 8" using True by (metis div_mult_mod_eq)
  ultimately show ?thesis
    using True by (auto simp: bit_free_bit set_bit_in_def bit_or_iff)
next
  case False
  then show ?thesis by (auto simp: bit_free_bit set_bit_in_def)
qed

lemma bit_free_clear:
  assumes "bi < 8 * length bs"
  shows "bit_free (clear_bit_in bi bs) bj \<longleftrightarrow> bit_free bs bj \<or> bj = bi"
proof (cases "bj div 8 = bi div 8")
  case True
  have "bi div 8 < length bs" using assms by (simp add: less_mult_imp_div_less mult.commute)
  moreover have "bj = bi \<longleftrightarrow> bj mod 8 = bi mod 8" using True by (metis div_mult_mod_eq)
  ultimately show ?thesis
    using True by (auto simp: bit_free_bit clear_bit_in_def bit_and_iff bit_not_iff)
next
  case False
  then show ?thesis by (auto simp: bit_free_bit clear_bit_in_def)
qed

section \<open>The free blocks\<close>

definition bitmap_block :: "superblock \<Rightarrow> nat \<Rightarrow> uint" where
  "bitmap_block sblk b = BBLOCK (of_nat b) sblk"

definition bitmaps :: "'z fsst_scheme \<Rightarrow> uint set" where
  "bitmaps s = bitmap_block (sb s) ` {..<unat (sb_size (sb s))}"

definition free_set :: "'z fsst_scheme \<Rightarrow> nat set" where
  "free_set s = {b. b < unat (sb_size (sb s)) \<and> bit_free (view s (bitmap_block (sb s) b)) (b mod BPB)}"

text \<open>A block that a file may have: outside the log and the bitmap.\<close>

definition data_block :: "'z fsst_scheme \<Rightarrow> nat \<Rightarrow> bool" where
  "data_block s b \<longleftrightarrow> b < unat (sb_size (sb s)) \<and> of_nat b \<notin> log_area s \<and>
     (\<forall>c < unat (sb_size (sb s)). of_nat b \<noteq> bitmap_block (sb s) c)"

definition fs_layout :: "'z fsst_scheme \<Rightarrow> bool" where
  "fs_layout s \<longleftrightarrow> (\<forall>b < unat (sb_size (sb s)). bitmap_block (sb s) b \<notin> log_area s) \<and> (\<forall>b \<in> free_set s. data_block s b)"

lemma of_nat_eq_uint: "b < 2 ^ 32 \<Longrightarrow> c < 2 ^ 32 \<Longrightarrow> (of_nat b :: uint) = of_nat c \<longleftrightarrow> b = c"
  by (simp add: word_unat_eq_iff unat_of_nat)

lemma bitmap_block_div:
  assumes "b < 2 ^ 32"
  shows "bitmap_block sblk b = of_nat (b div BPB) + bmapstart sblk"
proof -
  have "(of_nat b div of_nat BPB :: uint) = of_nat (b div BPB)"
    using assms div_le_dividend [of b BPB]
    by (simp add: word_unat_eq_iff unat_div_distrib unat_of_nat BPB_def BSIZE_def)
  then show ?thesis by (simp add: bitmap_block_def BBLOCK_def)
qed

lemma bitmap_block_eq:
  assumes "b < 2 ^ 32" "c < 2 ^ 32"
  shows "bitmap_block sblk b = bitmap_block sblk c \<longleftrightarrow> b div BPB = c div BPB"
proof -
  have "b div BPB < 2 ^ 32" "c div BPB < 2 ^ 32" using assms div_le_dividend le_less_trans by blast+
  then show ?thesis using of_nat_eq_uint by (simp add: bitmap_block_div [OF assms(1)] bitmap_block_div [OF assms(2)])
qed

lemma unat_bound: "b < unat (w :: uint) \<Longrightarrow> b < 2 ^ 32"
  using unsigned_less [of w, where 'a = nat] by simp


lemma free_set_upd:
  fixes s :: "'z fsst_scheme"
  assumes b: "b < unat (sb_size (sb s))" and len: "length (view s (bitmap_block (sb s) b)) = BSIZE"
    and sb: "sb s' = sb s" and bits: "\<And>bj. bit_free bs bj \<longleftrightarrow> (if bj = b mod BPB then x else bit_free (view s (bitmap_block (sb s) b)) bj)"
    and view: "view s' (bitmap_block (sb s) b) = bs"
    and other: "\<And>c. c < unat (sb_size (sb s)) \<Longrightarrow> bitmap_block (sb s) c \<noteq> bitmap_block (sb s) b \<Longrightarrow>
      view s' (bitmap_block (sb s) c) = view s (bitmap_block (sb s) c)"
  shows "free_set s' = (if x then insert b (free_set s) else free_set s - {b})"
proof -
  have "c \<in> free_set s' \<longleftrightarrow> c \<in> (if x then insert b (free_set s) else free_set s - {b})" for c
  proof (cases "c < unat (sb_size (sb s)) \<and> bitmap_block (sb s) c = bitmap_block (sb s) b")
    case True
    then have "c div BPB = b div BPB" using bitmap_block_eq [of c b] b unat_bound by blast
    then have "c = b \<longleftrightarrow> c mod BPB = b mod BPB" by (metis div_mult_mod_eq)
    then show ?thesis using True b bits [of "c mod BPB"] by (auto simp: free_set_def sb view)
  next
    case False
    then have "c \<noteq> b" using b by blast
    then show ?thesis using False other [of c] by (auto simp: free_set_def sb)
  qed
  then show ?thesis by blast
qed

lemma view_length: "txn p H s \<Longrightarrow> length (view s b) = BSIZE"
proof -
  assume "txn p H s"
  then obtain P where rep: "bcache_rep p (log_dev s) H P s" by (auto simp: txn_def txn_pins_def)
  show ?thesis
  proof (cases "\<exists>i < NBUF. caches (log_dev s) b s i")
    case True
    then obtain i where i: "i < NBUF" "caches (log_dev s) b s i" by blast
    then show ?thesis
      using cdata_cached [OF rep i] bcache_repD(5) [OF rep i(1)] by (simp add: view_def buf_ok_def Let_def caches_def)
  next
    case False
    then show ?thesis using cdata_uncached [of "log_dev s" b s] bcache_repD(7) [OF rep] by (auto simp: view_def)
  qed
qed

section \<open>Scanning the bitmap\<close>

lemma bzero_txn:
  fixes s :: "'z logst_scheme"
  assumes "txn p H s" "dev = log_dev s" "apart H {b} s" "b \<notin> log_area s" "0 < log_room s"
  shows "\<exists>s'. bzero dev b s = Ok () s' \<and> txn_post p H {b} ((view s)(b := replicate BSIZE 0)) s s'"
  using change_txn [OF assms, of "\<lambda>_. replicate BSIZE 0"] by (auto simp: bzero_def kexec)

text \<open>The body of the outer loop of \<open>balloc\<close>.\<close>

definition balloc_body :: "uint \<Rightarrow> nat \<Rightarrow> nat \<Rightarrow> ('z fsst_scheme, uint option) kmon" where
  "balloc_body dev limit b =
     bind (gets (\<lambda>s. BBLOCK (of_nat b) (sb s))) (\<lambda>bb.
     bind (bread dev bb) (\<lambda>bp.
     bind (get_buf bp) (\<lambda>x.
     case find_free_bit (bdata x) b limit of
       Some bi \<Rightarrow>
         seq (upd_data bp (\<lambda>bs. bs[bi div 8 := bs ! (bi div 8) OR bit_mask bi])) (
         seq (log_write bp) (
         seq (brelse bp) (
         seq (bzero dev (of_nat (b + bi)))
             (return (Some (of_nat (b + bi)))))))
     | None \<Rightarrow> seq (brelse bp) (return None))))"

lemma balloc_body_none:
  fixes s :: "'z fsst_scheme"
  assumes t: "txn p H s" "dev = log_dev s" and H: "apart H {bitmap_block (sb s) b} s" "budget k B s"
    and none: "find_free_bit (view s (bitmap_block (sb s) b)) b limit = None"
  shows "\<exists>s'. balloc_body dev limit b s = Ok None s' \<and> txn_post p H {} (view s) s s'"
proof -
  have "int (card H) \<le> log_room s" using H(1) budget_room [OF H(2) t(1)] by (simp add: apart_def)
  from peek_txn [OF t H(1) this] none show ?thesis
    by (auto simp: balloc_body_def kexec get_buf_def bitmap_block_def)
qed

lemma balloc_body_some:
  fixes s :: "'z fsst_scheme"
  assumes t: "txn p H s" "dev = log_dev s" and f: "find_free_bit (view s (bitmap_block (sb s) b)) b limit = Some bi"
    and area: "bitmap_block (sb s) b \<notin> log_area s" "of_nat (b + bi) \<notin> log_area s"
    and H: "apart H {bitmap_block (sb s) b, of_nat (b + bi)} s" "budget k B s" "bitmap_block (sb s) b \<in> B"
  shows "\<exists>s'. balloc_body dev limit b s = Ok (Some (of_nat (b + bi))) s' \<and>
    txn_post p H {bitmap_block (sb s) b, of_nat (b + bi)}
      ((view s)(bitmap_block (sb s) b := set_bit_in bi (view s (bitmap_block (sb s) b)), of_nat (b + bi) := replicate BSIZE 0)) s s'"
proof -
  let ?bb = "bitmap_block (sb s) b"
  have len: "length (set_bit_in bi (view s ?bb)) = BSIZE" using view_length [OF t(1)] by (simp add: set_bit_in_def)
  have room: "0 < log_room s" using budget_room [OF H(2) t(1)] by simp
  have ap: "apart H {?bb} s" using H(1) by (simp add: apart_def)
  obtain i s1 s2 s3 s4 where 1: "bread dev ?bb s = Ok i s1" "bdata (bufs s1 i) = view s ?bb"
    "upd_data i (set_bit_in bi) s1 = Ok () s2" "log_write i s2 = Ok () s3" "brelse i s3 = Ok () s4"
    "txn_post p H {?bb} ((view s)(?bb := set_bit_in bi (view s ?bb))) s s4"
    using change_txn [OF t ap area(1) room, of "set_bit_in bi", OF len] by blast
  note d = txn_postD [OF 1(6)] txn_post_frame [OF 1(6)]
  have "0 < log_room s4" using budget_room [OF budget_post [OF 1(6) _ H(2)] d(1)] H(3) by simp
  moreover have "apart H {of_nat (b + bi)} s4" using apart_keeps [OF H(1) d(4)] by blast
  ultimately obtain s5 where 5: "bzero dev (of_nat (b + bi)) s4 = Ok () s5"
    "txn_post p H {of_nat (b + bi)} ((view s4)(of_nat (b + bi) := replicate BSIZE 0)) s4 s5"
    using bzero_txn [OF d(1), of dev "of_nat (b + bi)"] d area(2) t(2) by auto
  have "txn_post p H ({?bb} \<union> {of_nat (b + bi)}) ((view s)(?bb := set_bit_in bi (view s ?bb), of_nat (b + bi) := replicate BSIZE 0)) s s5"
    using txn_post_trans [OF 1(6) 5(2)] unfolding d(3) .
  then show ?thesis
    using 1 5(1) f
    by (auto simp: balloc_body_def kexec get_buf_def bitmap_block_def set_bit_in_def [abs_def] insert_commute)
qed


lemma find_free_bitD:
  assumes "find_free_bit bs b limit = Some bi"
  shows "bi < BPB" "b + bi < limit" "bit_free bs bi" "\<And>bj. bj < bi \<Longrightarrow> \<not> (b + bj < limit \<and> bit_free bs bj)"
  using assms by (auto simp: find_free_bit_def find_Some_iff)

lemma find_free_bit_None:
  "find_free_bit bs b limit = None \<Longrightarrow> bi < BPB \<Longrightarrow> b + bi < limit \<Longrightarrow> \<not> bit_free bs bi"
  by (auto simp: find_free_bit_def find_None_iff)

text \<open>The scan of the bitmap blocks from number \<open>j\<close> on.\<close>

lemma balloc_scan:
  fixes s :: "'z fsst_scheme"
  assumes "txn p H s" "dev = log_dev s" "fs_layout s" "budget k B s" "bitmaps s \<subseteq> B" "apart H (bitmaps s \<union> of_nat ` free_set s) s"
    and limit: "limit = unat (sb_size (sb s))" and none: "\<And>b. b \<in> free_set s \<Longrightarrow> j \<le> b div BPB \<and> b div BPB < j + length ks"
    and ks: "ks = [j..<j + length ks]" and inside: "\<And>l. l \<in> set ks \<Longrightarrow> l * BPB < limit"
  shows "if free_set s = {}
    then \<exists>s'. for_find (map (\<lambda>k. k * BPB) ks) (balloc_body dev limit) s = Ok None s' \<and> txn_post p H {} (view s) s s'
    else let b = (LEAST b. b \<in> free_set s); bb = bitmap_block (sb s) b in
      \<exists>s'. for_find (map (\<lambda>k. k * BPB) ks) (balloc_body dev limit) s = Ok (Some (of_nat b)) s' \<and>
        txn_post p H {bb, of_nat b} ((view s)(bb := set_bit_in (b mod BPB) (view s bb), of_nat b := replicate BSIZE 0)) s s'"
  using assms
proof (induction ks arbitrary: s j)
  case Nil
  have "free_set s = {}" using Nil.prems(8) by fastforce
  moreover have "txn_post p H {} (view s) s s" using Nil.prems(1) by (rule txn_post_refl)
  ultimately show ?case by simp
next
  case (Cons l ks)
  have k: "l = j" and ks: "ks = [Suc j..<Suc j + length ks]"
    using Cons.prems(9) by (simp_all add: upt_conv_Cons del: upt_Suc)
  let ?bb = "bitmap_block (sb s) (l * BPB)"
  have lim: "limit < 2 ^ 32" using unsigned_less [of "sb_size (sb s)", where 'a = nat] Cons.prems(7) by simp
  have bb: "bitmap_block (sb s) b = ?bb" if "b < limit" "b div BPB = l" for b
  proof -
    have "l * BPB \<le> b" using that by (metis div_times_less_eq_dividend)
    then show ?thesis using that lim bitmap_block_eq [of b "l * BPB" "sb s"] by (simp add: BPB_def BSIZE_def)
  qed
  have split: "b \<in> free_set s \<longleftrightarrow> b mod BPB < BPB \<and> l * BPB + b mod BPB < limit \<and> bit_free (view s ?bb) (b mod BPB)"
    if "b div BPB = l" for b
    using that bb [OF _ that] div_mult_mod_eq [of b BPB] Cons.prems(7) by (auto simp: free_set_def BPB_def BSIZE_def)
  have bm: "?bb \<in> bitmaps s" using Cons.prems(7) Cons.prems(10) [of l] by (simp add: bitmaps_def)
  show ?case
  proof (cases "find_free_bit (view s ?bb) (l * BPB) limit")
    case None
    have ap: "apart H {?bb} s" using Cons.prems(6) bm by (auto simp: apart_def)
    obtain s1 where s1: "balloc_body dev limit (l * BPB) s = Ok None s1" "txn_post p H {} (view s) s s1"
      using balloc_body_none [OF Cons.prems(1,2) ap Cons.prems(4) None] by blast
    note d = txn_postD [OF s1(2)] txn_post_frame [OF s1(2)] txn_frame_fs [OF txn_postD(2) [OF s1(2)]]
    have fs: "free_set s1 = free_set s" "bitmaps s1 = bitmaps s" by (simp_all add: free_set_def bitmaps_def d)
    have s1': "budget k B s1" "apart H (bitmaps s1 \<union> of_nat ` free_set s1) s1"
      using budget_post [OF s1(2) _ Cons.prems(4)] apart_keeps [OF Cons.prems(6) d(4)] by (simp_all add: fs)
    have "fs_layout s1" using Cons.prems(3) by (simp add: fs_layout_def data_block_def fs d)
    moreover have "Suc j \<le> b div BPB \<and> b div BPB < Suc j + length ks" if "b \<in> free_set s1" for b
    proof -
      have "b div BPB \<noteq> l"
        using split [of b] find_free_bit_None [OF None, of "b mod BPB"] that fs by auto
      then show ?thesis using Cons.prems(8) [of b] that fs k by auto
    qed
    ultimately have IH: "if free_set s1 = {}
      then \<exists>s'. for_find (map (\<lambda>k. k * BPB) ks) (balloc_body dev limit) s1 = Ok None s' \<and> txn_post p H {} (view s1) s1 s'
      else let b = (LEAST b. b \<in> free_set s1); bb = bitmap_block (sb s1) b in
        \<exists>s'. for_find (map (\<lambda>k. k * BPB) ks) (balloc_body dev limit) s1 = Ok (Some (of_nat b)) s' \<and>
          txn_post p H {bb, of_nat b} ((view s1)(bb := set_bit_in (b mod BPB) (view s1 bb), of_nat b := replicate BSIZE 0)) s1 s'"
      using Cons.IH [of s1 "Suc j"] Cons.prems(2,5,7,10) d s1' ks by (simp add: fs)
    then show ?thesis
      using s1(1) txn_post_trans [OF s1(2), unfolded Un_empty_left] unfolding fs d Let_def
      by (auto simp: kexec split: if_splits)
  next
    case (Some bi)
    note bi = find_free_bitD [OF Some]
    let ?b = "l * BPB + bi"
    have bdiv: "?b div BPB = l" "?b mod BPB = bi" using bi(1) by simp_all
    have free: "?b \<in> free_set s" using split [OF bdiv(1)] bi by (simp add: bdiv)
    have least: "(LEAST b. b \<in> free_set s) = ?b"
    proof (rule Least_equality)
      show "?b \<in> free_set s" by (rule free)
    next
      fix c assume c: "c \<in> free_set s"
      show "?b \<le> c"
      proof (cases "c div BPB = l")
        case True
        then have "\<not> c mod BPB < bi" using bi(4) [of "c mod BPB"] split [OF True] c by auto
        then show ?thesis using True by (metis add_le_cancel_left div_mult_mod_eq not_less)
      next
        case False
        then have "Suc l \<le> c div BPB" using Cons.prems(8) [OF c] k by simp
        then have "Suc l * BPB \<le> c" by (metis div_times_less_eq_dividend mult_le_mono1 order_trans)
        then show ?thesis using bi(1) by simp
      qed
    qed
    have blt: "?b < limit" using bi(2) .
    have area: "?bb \<notin> log_area s" "of_nat ?b \<notin> log_area s"
      using Cons.prems(3,7) free blt bb [OF blt bdiv(1)] by (auto simp: fs_layout_def data_block_def)
    have ap: "apart H {?bb, of_nat ?b} s" using Cons.prems(6) bm free by (auto simp: apart_def simp del: of_nat_add of_nat_mult)
    have "?bb \<in> B" using bm Cons.prems(5) by blast
    then obtain s' where s': "balloc_body dev limit (l * BPB) s = Ok (Some (of_nat ?b)) s'"
      "txn_post p H {?bb, of_nat ?b} ((view s)(?bb := set_bit_in bi (view s ?bb), of_nat ?b := replicate BSIZE 0)) s s'"
      using balloc_body_some [OF Cons.prems(1,2) Some area ap Cons.prems(4)] by blast
    have "for_find (map (\<lambda>k. k * BPB) (l # ks)) (balloc_body dev limit) s = Ok (Some (of_nat ?b)) s'"
      by (simp add: bind_apply s'(1) del: of_nat_add of_nat_mult)
    moreover have "free_set s \<noteq> {}" using free by blast
    ultimately show ?thesis using s'(2) unfolding Let_def least bb [OF blt bdiv(1)] bdiv by auto
  qed
qed


section \<open>balloc and bfree\<close>

lemma balloc_scanned:
  fixes s :: "'z fsst_scheme"
  assumes "txn p H s" "dev = log_dev s" "fs_layout s" "budget k B s" "bitmaps s \<subseteq> B" "apart H (bitmaps s \<union> of_nat ` free_set s) s"
  shows "free_set s = {} \<Longrightarrow>
      \<exists>s'. balloc dev s = seq (printf ''balloc: out of blocks\<newline>'' []) (return 0) s' \<and> txn_post p H {} (view s) s s'"
    and "free_set s \<noteq> {} \<Longrightarrow>
      let b = (LEAST b. b \<in> free_set s); bb = bitmap_block (sb s) b in
      \<exists>s'. balloc dev s = Ok (of_nat b) s' \<and>
        txn_post p H {bb, of_nat b} ((view s)(bb := set_bit_in (b mod BPB) (view s bb), of_nat b := replicate BSIZE 0)) s s'"
proof -
  let ?limit = "unat (sb_size (sb s))"
  let ?n = "(?limit + BPB - 1) div BPB"
  have bal: "balloc dev s = bind (for_find (map (\<lambda>k. k * BPB) [0..<?n]) (balloc_body dev ?limit))
     (\<lambda>r. case r of Some a \<Rightarrow> return a | None \<Rightarrow> seq (printf ''balloc: out of blocks\<newline>'' []) (return 0)) s"
    by (simp add: balloc_def balloc_body_def [abs_def] kexec)
  have "0 \<le> b div BPB \<and> b div BPB < 0 + length [0..<?n]" if "b \<in> free_set s" for b
  proof -
    have "b < ?limit" using that by (simp add: free_set_def)
    then have "Suc (b div BPB) * BPB \<le> ?limit + BPB - 1"
      using div_times_less_eq_dividend [of b BPB] by (simp add: BPB_def BSIZE_def)
    then have "Suc (b div BPB) \<le> ?n" by (simp add: less_eq_div_iff_mult_less_eq BPB_def BSIZE_def)
    then show ?thesis by simp
  qed
  moreover have "l * BPB < ?limit" if "l \<in> set [0..<?n]" for l
  proof -
    have "Suc l \<le> ?n" using that by simp
    then have "Suc l * BPB \<le> ?limit + BPB - 1" by (simp add: less_eq_div_iff_mult_less_eq BPB_def BSIZE_def)
    then show ?thesis by (simp add: BPB_def BSIZE_def)
  qed
  ultimately have scan: "if free_set s = {}
    then \<exists>s'. for_find (map (\<lambda>k. k * BPB) [0..<?n]) (balloc_body dev ?limit) s = Ok None s' \<and> txn_post p H {} (view s) s s'
    else let b = (LEAST b. b \<in> free_set s); bb = bitmap_block (sb s) b in
      \<exists>s'. for_find (map (\<lambda>k. k * BPB) [0..<?n]) (balloc_body dev ?limit) s = Ok (Some (of_nat b)) s' \<and>
        txn_post p H {bb, of_nat b} ((view s)(bb := set_bit_in (b mod BPB) (view s bb), of_nat b := replicate BSIZE 0)) s s'"
    using balloc_scan [OF assms refl, where j = 0 and ks = "[0..<?n]"] by simp
  show "free_set s = {} \<Longrightarrow>
      \<exists>s'. balloc dev s = seq (printf ''balloc: out of blocks\<newline>'' []) (return 0) s' \<and> txn_post p H {} (view s) s s'"
    using scan unfolding bal by (auto simp: bind_Ok)
  show "free_set s \<noteq> {} \<Longrightarrow>
      let b = (LEAST b. b \<in> free_set s); bb = bitmap_block (sb s) b in
      \<exists>s'. balloc dev s = Ok (of_nat b) s' \<and>
        txn_post p H {bb, of_nat b} ((view s)(bb := set_bit_in (b mod BPB) (view s bb), of_nat b := replicate BSIZE 0)) s s'"
    using scan unfolding bal by (auto simp: bind_Ok Let_def)
qed

text \<open>The state after \<open>balloc\<close> and \<open>bfree\<close>, in terms of the set of free blocks.\<close>

lemma fs_layout_mono:
  assumes "fs_layout s" "sb s' = sb s" "log_area s' = log_area s"
    and "\<And>b. b \<in> free_set s' \<Longrightarrow> b \<in> free_set s \<or> data_block s b"
  shows "fs_layout s'"
proof -
  have "data_block s' = data_block s" by (rule ext) (simp add: data_block_def assms(2,3))
  then show ?thesis using assms by (auto simp: fs_layout_def)
qed

lemma balloc_spec:
  fixes s :: "'z fsst_scheme"
  assumes t: "txn p H s" "dev = log_dev s" "fs_layout s" and B: "budget (Suc k) B s" "bitmaps s \<subseteq> B"
    and H: "apart H (bitmaps s \<union> of_nat ` free_set s) s" and ne: "free_set s \<noteq> {}"
  defines "b \<equiv> LEAST b. b \<in> free_set s"
  shows "\<exists>s'. balloc dev s = Ok (of_nat b) s' \<and> b \<in> free_set s \<and> free_set s' = free_set s - {b} \<and>
    view s' (of_nat b) = replicate BSIZE 0 \<and>
    (\<forall>x. x \<noteq> of_nat b \<longrightarrow> x \<noteq> bitmap_block (sb s) b \<longrightarrow> view s' x = view s x) \<and> fs_layout s' \<and> bitmaps s' = bitmaps s \<and>
    budget k (insert (of_nat b) B) s' \<and> txn_post p H {bitmap_block (sb s) b, of_nat b} (view s') s s'"
proof -
  let ?bb = "bitmap_block (sb s) b"
  have b: "b \<in> free_set s" using ne unfolding b_def by (metis LeastI_ex ex_in_conv)
  obtain s' where s': "balloc dev s = Ok (of_nat b) s'"
    "txn_post p H {?bb, of_nat b} ((view s)(?bb := set_bit_in (b mod BPB) (view s ?bb), of_nat b := replicate BSIZE 0)) s s'"
    using balloc_scanned(2) [OF t B H ne] unfolding b_def Let_def by blast
  note d = txn_postD [OF s'(2)] txn_post_frame [OF s'(2)] txn_frame_fs [OF txn_postD(2) [OF s'(2)]]
  have data: "data_block s b" and lt: "b < unat (sb_size (sb s))" using b t(3) by (auto simp: fs_layout_def free_set_def)
  have len: "length (view s ?bb) = BSIZE" by (rule view_length [OF t(1)])
  have bit: "b mod BPB < 8 * length (view s ?bb)" unfolding len by (simp add: BPB_def BSIZE_def)
  have "free_set s' = (if False then insert b (free_set s) else free_set s - {b})"
  proof (rule free_set_upd [OF lt len d(9)])
    show "bit_free (set_bit_in (b mod BPB) (view s ?bb)) bj \<longleftrightarrow> (if bj = b mod BPB then False else bit_free (view s ?bb) bj)" for bj
      using bit_free_set [OF bit] by auto
    show "view s' ?bb = set_bit_in (b mod BPB) (view s ?bb)" using data lt d(3) by (auto simp: data_block_def)
    show "view s' (bitmap_block (sb s) c) = view s (bitmap_block (sb s) c)"
      if "c < unat (sb_size (sb s))" "bitmap_block (sb s) c \<noteq> ?bb" for c
      using data that d(3) by (auto simp: data_block_def)
  qed
  moreover from this have "fs_layout s'" by (intro fs_layout_mono [OF t(3) d(9,7)]) simp
  moreover have "budget k (insert (of_nat b) B) s'"
    using budget_post [OF s'(2) _ budget_insert [OF B(1)]] B(2) lt by (auto simp: bitmaps_def)
  ultimately show ?thesis using s' b d by (intro exI [of _ s']) (auto simp: bitmaps_def)
qed


lemma bfree_spec:
  fixes s :: "'z fsst_scheme"
  assumes t: "txn p H s" "dev = log_dev s" "fs_layout s" and B: "budget k B s" "bitmaps s \<subseteq> B" and H: "apart H (bitmaps s) s"
    and b: "data_block s b" "b \<notin> free_set s"
  shows "\<exists>s'. bfree dev (of_nat b) s = Ok () s' \<and> free_set s' = insert b (free_set s) \<and>
    (\<forall>x. x \<noteq> bitmap_block (sb s) b \<longrightarrow> view s' x = view s x) \<and> fs_layout s' \<and> bitmaps s' = bitmaps s \<and>
    budget k B s' \<and> txn_post p H {bitmap_block (sb s) b} (view s') s s'"
proof -
  let ?bb = "bitmap_block (sb s) b"
  have lt: "b < unat (sb_size (sb s))" using b(1) by (simp add: data_block_def)
  have ub: "unat (of_nat b :: uint) = b" using unat_bound [OF lt] by (simp add: unat_of_nat)
  have len: "length (view s ?bb) = BSIZE" by (rule view_length [OF t(1)])
  have bit: "b mod BPB < 8 * length (view s ?bb)" unfolding len by (simp add: BPB_def BSIZE_def)
  have used: "\<not> bit_free (view s ?bb) (b mod BPB)" using b(2) lt by (simp add: free_set_def)
  have area: "?bb \<notin> log_area s" and room: "0 < log_room s" using t(3) lt budget_room [OF B(1) t(1)] by (auto simp: fs_layout_def)
  have clen: "length (clear_bit_in (b mod BPB) (view s ?bb)) = BSIZE" using len by (simp add: clear_bit_in_def)
  have bm: "?bb \<in> bitmaps s" using lt by (simp add: bitmaps_def)
  then have ap: "apart H {?bb} s" using H by (auto simp: apart_def)
  obtain i s1 s2 s3 s' where 1: "bread dev ?bb s = Ok i s1" "bdata (bufs s1 i) = view s ?bb"
    "upd_data i (clear_bit_in (b mod BPB)) s1 = Ok () s2" "log_write i s2 = Ok () s3" "brelse i s3 = Ok () s'"
    "txn_post p H {?bb} ((view s)(?bb := clear_bit_in (b mod BPB) (view s ?bb))) s s'"
    using change_txn [OF t(1,2) ap area room, of "clear_bit_in (b mod BPB)", OF clen] by blast
  note d = txn_postD [OF 1(6)] txn_post_frame [OF 1(6)] txn_frame_fs [OF txn_postD(2) [OF 1(6)]]
  have run: "bfree dev (of_nat b) s = Ok () s'"
    using 1(1-5) used
    by (simp add: bfree_def kexec get_buf_def bitmap_block_def [symmetric] ub Let_def clear_bit_in_def [abs_def])
  have "free_set s' = (if True then insert b (free_set s) else free_set s - {b})"
  proof (rule free_set_upd [OF lt len d(9)])
    show "bit_free (clear_bit_in (b mod BPB) (view s ?bb)) bj \<longleftrightarrow> (if bj = b mod BPB then True else bit_free (view s ?bb) bj)" for bj
      using bit_free_clear [OF bit] by auto
  qed (simp_all add: d)
  moreover from this have "fs_layout s'" by (intro fs_layout_mono [OF t(3) d(9,7)]) (use b(1) in auto)
  moreover have "budget k B s'" using budget_post [OF 1(6) _ B(1)] B(2) bm by blast
  ultimately show ?thesis using run 1(6) d by (intro exI [of _ s']) (auto simp: bitmaps_def)
qed

lemma bfree_free:
  fixes s :: "'z fsst_scheme"
  assumes t: "txn p {} s" "dev = log_dev s" and b: "b \<in> free_set s"
  shows "\<exists>s'. bfree dev (of_nat b) s = Panic ''freeing free block'' s'"
proof -
  have lt: "b < unat (sb_size (sb s))" and free: "bit_free (view s (bitmap_block (sb s) b)) (b mod BPB)"
    using b by (auto simp: free_set_def)
  have ub: "unat (of_nat b :: uint) = b" using unat_bound [OF lt] by (simp add: unat_of_nat)
  obtain i s1 where "bread dev (bitmap_block (sb s) b) s = Ok i s1" "bdata (bufs s1 i) = view s (bitmap_block (sb s) b)"
    using peek_txn [OF t apart_empty] txn_room [OF t(1)] by fastforce
  then show ?thesis
    using free by (simp add: bfree_def kexec get_buf_def bitmap_block_def [symmetric] ub Let_def)
qed

section \<open>A store of blocks\<close>

text \<open>
  The contract of an allocator of numbered blocks that writes to a log: \<open>inv k s\<close> says that the log has room
  for the allocation of \<open>k\<close> more blocks.
\<close>

locale block_store =
  fixes inv :: "nat \<Rightarrow> 's \<Rightarrow> bool" and free :: "'s \<Rightarrow> nat set" and usable :: "'s \<Rightarrow> nat \<Rightarrow> bool"
    and alloc :: "('s, 'a) kmon" and release :: "'a \<Rightarrow> ('s, unit) kmon" and addr :: "nat \<Rightarrow> 'a"
  assumes alloc_takes: "inv (Suc k) s \<Longrightarrow> free s \<noteq> {} \<Longrightarrow>
      \<exists>b s'. alloc s = Ok (addr b) s' \<and> b \<in> free s \<and> free s' = free s - {b} \<and> inv k s' \<and> usable s' = usable s"
    and release_returns: "inv k s \<Longrightarrow> usable s b \<Longrightarrow> b \<notin> free s \<Longrightarrow>
      \<exists>s'. release (addr b) s = Ok () s' \<and> free s' = insert b (free s) \<and> inv k s' \<and> usable s' = usable s"
    and free_usable: "inv k s \<Longrightarrow> b \<in> free s \<Longrightarrow> usable s b"
begin

lemma collect_distinct:
  "inv (n + k) s \<Longrightarrow> finite (free s) \<Longrightarrow> n \<le> card (free s) \<Longrightarrow>
    \<exists>bs s'. collect n alloc s = Ok (map addr bs) s' \<and> length bs = n \<and> distinct bs \<and> set bs \<subseteq> free s \<and>
      free s' = free s - set bs \<and> inv k s'"
proof (induction n arbitrary: s)
  case 0
  then show ?case by (intro exI [of _ "[]"] exI [of _ s]) simp
next
  case (Suc n)
  have "free s \<noteq> {}" "inv (Suc (n + k)) s" using Suc.prems by auto
  then obtain b s1 where b: "alloc s = Ok (addr b) s1" "b \<in> free s" "free s1 = free s - {b}" "inv (n + k) s1"
    using alloc_takes by blast
  have "finite (free s1)" "n \<le> card (free s1)" using Suc.prems b(2,3) by auto
  from Suc.IH [OF b(4) this] obtain bs s' where "collect n alloc s1 = Ok (map addr bs) s'" "length bs = n" "distinct bs"
    "set bs \<subseteq> free s1" "free s' = free s1 - set bs" "inv k s'" by blast
  then show ?case using b by (intro exI [of _ "b # bs"] exI [of _ s']) (auto simp: bind_apply)
qed

lemma alloc_release:
  assumes "inv (Suc k) s" "free s \<noteq> {}"
  shows "\<exists>s'. bind alloc release s = Ok () s' \<and> free s' = free s \<and> inv k s'"
proof -
  from alloc_takes [OF assms] obtain b s1 where b: "alloc s = Ok (addr b) s1" "b \<in> free s" "free s1 = free s - {b}"
    "inv k s1" "usable s1 = usable s" by blast
  moreover have "usable s1 b" using b(2,5) free_usable [OF assms(1)] by simp
  moreover have "b \<notin> free s1" using b(3) by simp
  ultimately show ?thesis using release_returns [of k s1 b] by (auto simp: bind_apply insert_absorb)
qed

end

definition block_inv :: "nat \<Rightarrow> uint \<Rightarrow> nat \<Rightarrow> 'z fsst_scheme \<Rightarrow> bool" where
  "block_inv p dev k s \<longleftrightarrow> txn p {} s \<and> dev = log_dev s \<and> fs_layout s \<and> (\<exists>B. budget k B s \<and> bitmaps s \<subseteq> B)"

lemma data_block_frame: "txn_frame s s' \<Longrightarrow> data_block s' = data_block (s :: 'z fsst_scheme)"
  using txn_frame_log(7) [of s s'] txn_frame_fs(1) [of s s'] by (intro ext) (simp add: data_block_def)

interpretation blocks: block_store "block_inv p dev" free_set data_block "balloc dev" "bfree dev" of_nat for p dev
proof
  fix k and s :: "'z fsst_scheme" and b
  show "\<exists>b s'. balloc dev s = Ok (of_nat b) s' \<and> b \<in> free_set s \<and> free_set s' = free_set s - {b} \<and> block_inv p dev k s' \<and>
      data_block s' = data_block s" if inv: "block_inv p dev (Suc k) s" and ne: "free_set s \<noteq> {}"
  proof -
    obtain B where t: "txn p {} s" "dev = log_dev s" "fs_layout s" "budget (Suc k) B s" "bitmaps s \<subseteq> B"
      using inv by (auto simp: block_inv_def)
    obtain b s' where r: "balloc dev s = Ok (of_nat b) s'" "b \<in> free_set s" "free_set s' = free_set s - {b}" "fs_layout s'"
      "bitmaps s' = bitmaps s" "budget k (insert (of_nat b) B) s'" "txn_post p {} {bitmap_block (sb s) b, of_nat b} (view s') s s'"
      using balloc_spec [OF t apart_empty ne] by blast
    note d = txn_postD [OF r(7)] txn_post_frame [OF r(7)]
    have "block_inv p dev k s'" using d r(4-6) t(2,5) by (auto simp: block_inv_def)
    with r(1-3) data_block_frame [OF d(2)] show ?thesis by blast
  qed
  show "\<exists>s'. bfree dev (of_nat b) s = Ok () s' \<and> free_set s' = insert b (free_set s) \<and> block_inv p dev k s' \<and>
      data_block s' = data_block s" if inv: "block_inv p dev k s" and b: "data_block s b" "b \<notin> free_set s"
  proof -
    obtain B where t: "txn p {} s" "dev = log_dev s" "fs_layout s" "budget k B s" "bitmaps s \<subseteq> B"
      using inv by (auto simp: block_inv_def)
    obtain s' where r: "bfree dev (of_nat b) s = Ok () s'" "free_set s' = insert b (free_set s)" "fs_layout s'"
      "bitmaps s' = bitmaps s" "budget k B s'" "txn_post p {} {bitmap_block (sb s) b} (view s') s s'"
      using bfree_spec [OF t apart_empty b] by blast
    note d = txn_postD [OF r(6)] txn_post_frame [OF r(6)]
    have "block_inv p dev k s'" using d r(3-5) t(2,5) by (auto simp: block_inv_def)
    with r(1,2) data_block_frame [OF d(2)] show ?thesis by blast
  qed
  show "data_block s b" if "block_inv p dev k s" "b \<in> free_set s"
    using that by (simp add: block_inv_def fs_layout_def)
qed

section \<open>Properties\<close>

text \<open>
  C4: The block allocator refines the removal of the least number from a set.  Inside a transaction whose log
  has room for the bitmap blocks and one block more, \<open>balloc\<close> returns the least block that the bitmap on disk
  marks free, which is then no longer free, and its contents are all zero; no other block changes but the one of
  the bitmap, and no other block is logged.  It scans the bitmap blocks of the whole disk; when none is free, it
  prints a message, returns 0 and changes nothing.
\<close>

theorem balloc_takes_least_free:
  fixes s :: "'z fsst_scheme"
  assumes "txn p {} s" "fs_layout s" "budget 1 B s" "bitmaps s \<subseteq> B"
  defines "b \<equiv> LEAST b. b \<in> free_set s"
  shows "if free_set s = {}
    then \<exists>s'. balloc (log_dev s) s = seq (printf ''balloc: out of blocks\<newline>'' []) (return 0) s' \<and> txn_post p {} {} (view s) s s'
    else \<exists>s'. balloc (log_dev s) s = Ok (of_nat b) s' \<and> b \<in> free_set s \<and> free_set s' = free_set s - {b} \<and>
      view s' (of_nat b) = replicate BSIZE 0 \<and> {x. view s' x \<noteq> view s x} \<subseteq> {of_nat b, bitmap_block (sb s) b} \<and>
      set (logged s') \<subseteq> set (logged s) \<union> {of_nat b, bitmap_block (sb s) b} \<and> fs_layout s' \<and> txn p {} s'"
proof (cases "free_set s = {}")
  case True
  then show ?thesis using balloc_scanned(1) [OF assms(1) refl assms(2-4) apart_empty] by simp
next
  case False
  have "budget (Suc 0) B s" using assms(3) by simp
  from balloc_spec [OF assms(1) refl assms(2) this assms(4) apart_empty False]
  obtain s' where s': "balloc (log_dev s) s = Ok (of_nat b) s'" "b \<in> free_set s" "free_set s' = free_set s - {b}"
    "view s' (of_nat b) = replicate BSIZE 0" "\<forall>x. x \<noteq> of_nat b \<longrightarrow> x \<noteq> bitmap_block (sb s) b \<longrightarrow> view s' x = view s x"
    "fs_layout s'" "txn_post p {} {bitmap_block (sb s) b, of_nat b} (view s') s s'"
    unfolding b_def by blast
  moreover have "{x. view s' x \<noteq> view s x} \<subseteq> {of_nat b, bitmap_block (sb s) b}" using s'(5) by blast
  ultimately show ?thesis using False by (auto simp: txn_post_def)
qed

text \<open>
  C8: Freeing a block.  In a transaction whose log has room for the bitmap blocks, \<open>bfree\<close> of a data block that is in
  use makes exactly this block free again and changes no block but the one of the bitmap; of a block
  that is free already it panics, so no block is freed twice.
\<close>

theorem bfree_returns_block:
  fixes s :: "'z fsst_scheme"
  assumes "txn p {} s" "fs_layout s" "budget 0 B s" "bitmaps s \<subseteq> B" "data_block s b"
  shows "if b \<in> free_set s then \<exists>s'. bfree (log_dev s) (of_nat b) s = Panic ''freeing free block'' s'
    else \<exists>s'. bfree (log_dev s) (of_nat b) s = Ok () s' \<and> free_set s' = insert b (free_set s) \<and>
      {x. view s' x \<noteq> view s x} \<subseteq> {bitmap_block (sb s) b} \<and>
      set (logged s') \<subseteq> set (logged s) \<union> {bitmap_block (sb s) b} \<and> fs_layout s' \<and> txn p {} s'"
proof (cases "b \<in> free_set s")
  case True
  then show ?thesis using bfree_free [OF assms(1) refl] by simp
next
  case False
  from bfree_spec [OF assms(1) refl assms(2-4) apart_empty assms(5) False]
  obtain s' where s': "bfree (log_dev s) (of_nat b) s = Ok () s'" "free_set s' = insert b (free_set s)"
    "\<forall>x. x \<noteq> bitmap_block (sb s) b \<longrightarrow> view s' x = view s x" "fs_layout s'"
    "txn_post p {} {bitmap_block (sb s) b} (view s') s s'" by blast
  moreover have "{x. view s' x \<noteq> view s x} \<subseteq> {bitmap_block (sb s) b}" using s'(3) by blast
  ultimately show ?thesis using False by (auto simp: txn_post_def)
qed

text \<open>Successive calls of \<open>balloc\<close> return different blocks.\<close>

theorem balloc_blocks_distinct:
  fixes s :: "'z fsst_scheme"
  assumes "block_inv p dev n s" "finite (free_set s)" "n \<le> card (free_set s)"
  shows "\<exists>bs s'. collect n (balloc dev) s = Ok (map of_nat bs) s' \<and> length bs = n \<and> distinct bs \<and> set bs \<subseteq> free_set s \<and>
    free_set s' = free_set s - set bs"
  using blocks.collect_distinct [of p dev n 0 s] assms by auto

section \<open>A concrete file system\<close>

text \<open>A device of 60 blocks, of which the bitmap in block 45 marks the first 50 as used.\<close>

definition demo_bitmap :: "byte list" where
  "demo_bitmap = replicate 6 255 @ [3] @ replicate (BSIZE - 7) 0"

definition demo_fs :: "(nat \<Rightarrow> inode) \<Rightarrow> kernst" where
  "demo_fs t = demo_kernel\<lparr>outstanding := 1, sb := demo_sb\<lparr>sb_size := 60\<rparr>, disk := zero_disk(45 := demo_bitmap), itable := t\<rparr>"

lemma demo_fs_fields:
  "log_dev (demo_fs t) = 1" "lh_n (demo_fs t) = 0" "log_start (demo_fs t) = 2" "log_size (demo_fs t) = 30" "outstanding (demo_fs t) = 1"
  "disk (demo_fs t) = zero_disk(45 := demo_bitmap)" "bufs (demo_fs t) = empty_buf" "sleeplocks (demo_fs t) = sleeplocks demo_kernel"
  "procs (demo_fs t) = procs demo_kernel" "sb (demo_fs t) = demo_sb\<lparr>sb_size := 60\<rparr>" "itable (demo_fs t) = t"
  "tp (demo_fs t) = 0" "sstatus (demo_fs t) = 0" "cpus (demo_fs t) = cpus demo_kernel" "locks (demo_fs t) = locks demo_kernel"
  by (simp_all add: demo_fs_def) (simp_all add: demo_kernel_def)

lemma demo_fs_view: "view (demo_fs t) b = (zero_disk(45 := demo_bitmap)) b"
  using cdata_uncached [of 1 b "demo_fs t"]
  by (simp add: view_def demo_fs_fields caches_def empty_buf_def)

lemma demo_fs_txn: "txn 0 {} (demo_fs t)" "log_room (demo_fs t) = 29"
proof -
  have "calm 0 (demo_fs t)"
    by (simp add: calm_def demo_fs_fields demo_kernel_machine cpu_quiet_def intr_enabled_def lock_free_def cur_def no_proc_def)
  moreover have "bcache_rep 0 1 {} {} (demo_cache (zero_disk(45 := demo_bitmap)))"
    by (rule demo_cache_rep) (simp add: zero_disk_def demo_bitmap_def BSIZE_def)
  then have "bcache_rep 0 1 {} {} (demo_fs t)"
    by (simp add: bcache_rep_def buf_ok_def demo_fs_fields demo_cache_def demo_kernel_def)
  ultimately have "txn_pins 0 {} {} (demo_fs t)"
    by (simp add: txn_pins_def demo_fs_fields log_layout_def logged_def LOGSIZE_def MAXOPBLOCKS_def)
  then show "txn 0 {} (demo_fs t)" by (auto simp: txn_def)
  show "log_room (demo_fs t) = 29" by (simp add: log_room_def demo_fs_fields)
qed


lemma demo_bitmap_free: "b < 60 \<Longrightarrow> bit_free demo_bitmap b \<longleftrightarrow> 50 \<le> b"
proof -
  assume b: "b < 60"
  have m: "(255 :: byte) = mask 8" "(3 :: byte) = mask 2" by (simp_all add: mask_eq_exp_minus_1)
  consider "b div 8 < 6" | "b div 8 = 6" | "b div 8 = 7" using b by linarith
  then show ?thesis
  proof cases
    case 1
    then have "b < 50" by simp
    with 1 show ?thesis by (simp add: bit_free_bit demo_bitmap_def nth_append m bit_mask_iff)
  next
    case 2
    then have "50 \<le> b \<longleftrightarrow> \<not> b mod 8 < 2" by presburger
    with 2 show ?thesis by (simp add: bit_free_bit demo_bitmap_def nth_append m bit_mask_iff)
  next
    case 3
    then have "50 \<le> b" by simp
    with 3 show ?thesis by (simp add: bit_free_bit demo_bitmap_def nth_append BSIZE_def)
  qed
qed

lemma demo_fs_bitmap: "b < 60 \<Longrightarrow> bitmap_block (sb (demo_fs t)) b = 45"
  by (simp add: bitmap_block_div demo_fs_fields demo_sb_def BPB_def BSIZE_def)

lemma demo_fs_free: "free_set (demo_fs t) = {50..<60}"
  using demo_bitmap_free demo_fs_bitmap
  by (auto simp: free_set_def demo_fs_view) (auto simp: demo_fs_fields demo_sb_def BPB_def BSIZE_def)

lemma demo_fs_area: "32 \<le> uint b \<Longrightarrow> b \<notin> log_area (demo_fs t)"
  by (rule not_in_log_area) (simp_all add: demo_fs_fields log_layout_def LOGSIZE_def MAXOPBLOCKS_def)

lemma demo_fs_data: "46 \<le> b \<Longrightarrow> b < 60 \<Longrightarrow> data_block (demo_fs t) b"
proof -
  assume b: "46 \<le> b" "b < 60"
  have "uint (of_nat b :: uint) = int b" "(of_nat b :: uint) \<noteq> 45" using b of_nat_eq_uint [of b 45] by (simp_all add: uint_nat unat_of_nat)
  then show ?thesis
    using b demo_fs_area [of "of_nat b"] demo_fs_bitmap by (simp add: data_block_def demo_fs_fields(10) demo_sb_def)
qed

lemma demo_fs_layout: "fs_layout (demo_fs t)"
  using demo_fs_bitmap demo_fs_data demo_fs_area [of 45] by (auto simp: fs_layout_def demo_fs_free) (simp add: demo_fs_fields demo_sb_def)

lemma demo_fs_bitmaps: "bitmaps (demo_fs t) = {45}"
proof -
  have "unat (sb_size (sb (demo_fs t))) = 60" by (simp add: demo_fs_fields demo_sb_def)
  moreover have "bitmap_block (sb (demo_fs t)) ` {..<60} = (\<lambda>_. 45) ` {..<60 :: nat}" using demo_fs_bitmap by (intro image_cong) simp_all
  ultimately show ?thesis by (simp add: bitmaps_def image_constant_conv lessThan_empty_iff)
qed

lemma demo_fs_budget: "k < 28 \<Longrightarrow> budget k (bitmaps (demo_fs t)) (demo_fs t)"
  by (simp add: budget_def demo_fs_bitmaps demo_fs_fields logged_def)

theorem balloc_takes_least_free_witness:
  "\<exists>s'. balloc 1 (demo_fs (\<lambda>_. no_inode)) = Ok 50 s' \<and> free_set s' = {51..<60}"
proof -
  let ?s = "demo_fs (\<lambda>_. no_inode)"
  have "(LEAST b. b \<in> {50..<60 :: nat}) = 50" by (rule Least_equality) auto
  moreover have "{50..<60} - {50} = {51..<60 :: nat}" by auto
  ultimately show ?thesis
    using balloc_takes_least_free [OF demo_fs_txn(1) demo_fs_layout demo_fs_budget order.refl, of "\<lambda>_. no_inode"]
    by (auto simp: demo_fs_free demo_fs_fields(1))
qed

theorem bfree_returns_block_witness:
  "(\<exists>s'. bfree 1 49 (demo_fs (\<lambda>_. no_inode)) = Ok () s' \<and> free_set s' = {49..<60}) \<and>
   (\<exists>s'. bfree 1 50 (demo_fs (\<lambda>_. no_inode)) = Panic ''freeing free block'' s')"
proof -
  let ?s = "demo_fs (\<lambda>_. no_inode)"
  have "budget 0 (bitmaps ?s) ?s" by (rule demo_fs_budget) simp
  note b = bfree_returns_block [OF demo_fs_txn(1) demo_fs_layout this order.refl demo_fs_data]
  have "insert 49 {50..<60} = {49..<60 :: nat}" by auto
  then show ?thesis
    using b [of 49] b [of 50] by (auto simp: demo_fs_free demo_fs_fields(1))
qed

theorem balloc_blocks_distinct_witness:
  "\<exists>bs s'. collect 3 (balloc 1) (demo_fs (\<lambda>_. no_inode)) = Ok (map of_nat bs) s' \<and> length bs = 3 \<and> distinct bs \<and> set bs \<subseteq> {50..<60}"
proof -
  have "block_inv 0 1 3 (demo_fs (\<lambda>_. no_inode))"
    using demo_fs_budget [of 3] by (auto simp: block_inv_def demo_fs_txn demo_fs_layout demo_fs_fields(1))
  from balloc_blocks_distinct [OF this] show ?thesis by (auto simp: demo_fs_free)
qed

end
