(* ===== verification/Xv6_Bmap.thy ===== *)
theory Xv6_Bmap
  imports Xv6_Balloc
begin

unbundle bit_operations_syntax

text \<open>
  The blocks of a file, and \<open>bmap\<close> inside a transaction: it finds the block of an offset, and gives the file
  a block where there is none, with an indirect block if that is needed.
\<close>

section \<open>The blocks of a file\<close>

definition file_addr :: "'z logst_scheme \<Rightarrow> inode \<Rightarrow> nat \<Rightarrow> uint" where
  "file_addr s x n =
     (if n < NDIRECT then addrs x ! n
      else if addrs x ! NDIRECT = 0 then 0 else get32 (4 * (n - NDIRECT)) (view s (addrs x ! NDIRECT)))"

definition data_addrs :: "'z logst_scheme \<Rightarrow> inode \<Rightarrow> uint set" where
  "data_addrs s x = file_addr s x ` {..<MAXFILE} - {0}"

definition ind_addrs :: "inode \<Rightarrow> uint set" where
  "ind_addrs x = {addrs x ! NDIRECT} - {0}"

text \<open>A block in use, outside the log and the bitmap.\<close>

definition used_block :: "'z fsst_scheme \<Rightarrow> uint \<Rightarrow> bool" where
  "used_block s a \<longleftrightarrow> a \<notin> log_area s \<and> a \<notin> bitmaps s \<and> a \<notin> of_nat ` free_set s"

text \<open>The blocks of the file are in use and different from each other; \<open>ib\<close> is the block of the inode.\<close>

definition file_ok :: "'z fsst_scheme \<Rightarrow> inode \<Rightarrow> uint \<Rightarrow> bool" where
  "file_ok s x ib \<longleftrightarrow> length (addrs x) = NDIRECT + 1 \<and>
     inj_on (file_addr s x) {n. n < MAXFILE \<and> file_addr s x n \<noteq> 0} \<and>
     (\<forall>a \<in> insert ib (data_addrs s x \<union> ind_addrs x). used_block s a) \<and>
     ib \<notin> data_addrs s x \<and> ib \<notin> ind_addrs x \<and> ind_addrs x \<inter> data_addrs s x = {}"

text \<open>The blocks that an operation on the file may change, besides the block of the inode.\<close>

definition foot :: "'z fsst_scheme \<Rightarrow> inode \<Rightarrow> uint set" where
  "foot s x = bitmaps s \<union> of_nat ` free_set s \<union> data_addrs s x \<union> ind_addrs x"

text \<open>The disk and the log have room for \<open>k\<close> more blocks.\<close>

definition space :: "nat \<Rightarrow> uint set \<Rightarrow> 'z fsst_scheme \<Rightarrow> bool" where
  "space k B s \<longleftrightarrow> fs_layout s \<and> budget k B s \<and> bitmaps s \<subseteq> B \<and> k \<le> card (free_set s) \<and> 0 \<notin> free_set s"

definition same_fs :: "'z fsst_scheme \<Rightarrow> 'z fsst_scheme \<Rightarrow> bool" where
  "same_fs s s' \<longleftrightarrow> log_dev s' = log_dev s \<and> log_area s' = log_area s \<and> sb s' = sb s"

lemma same_fs_refl [simp]: "same_fs s s"
  by (simp add: same_fs_def)

lemma same_fs_trans: "same_fs s t \<Longrightarrow> same_fs t u \<Longrightarrow> same_fs s u"
  by (simp add: same_fs_def)

lemma same_fs_frame: "txn_frame s s' \<Longrightarrow> same_fs s (s' :: 'z fsst_scheme)"
  using txn_frame_log(1,7) [of s s'] txn_frame_fs(1) [of s s'] by (simp add: same_fs_def)

lemma same_fs_bitmaps: "same_fs s s' \<Longrightarrow> bitmaps s' = bitmaps s"
  by (simp add: same_fs_def bitmaps_def)

text \<open>The inode table is no part of what a transaction depends on.\<close>

lemma bcache_itable: "bcache_rep p dev H P (s\<lparr>itable := t\<rparr>) = bcache_rep p dev H P s"
  by (simp add: bcache_rep_def buf_ok_def caches_def)

lemma txn_itable:
  fixes s :: "'z fsst_scheme"
  shows "txn p H (s\<lparr>itable := t\<rparr>) = txn p H s" "view (s\<lparr>itable := t\<rparr>) = view s" "budget k B (s\<lparr>itable := t\<rparr>) = budget k B s"
    "log_area (s\<lparr>itable := t\<rparr>) = log_area s" "logged (s\<lparr>itable := t\<rparr>) = logged s" "log_room (s\<lparr>itable := t\<rparr>) = log_room s"
proof -
  have 1: "calm p (s\<lparr>itable := t\<rparr>) = calm p s"
    by (simp add: calm_def cpu_quiet_def lock_free_def intr_enabled_def cur_def)
  have 3: "log_layout (s\<lparr>itable := t\<rparr>) = log_layout s" by (simp add: log_layout_def)
  show 4: "log_area (s\<lparr>itable := t\<rparr>) = log_area s"
    by (simp add: log_area_def hdr_block_def log_blockno_def)
  show 5: "logged (s\<lparr>itable := t\<rparr>) = logged s" by (simp add: logged_def)
  show "txn p H (s\<lparr>itable := t\<rparr>) = txn p H s" by (simp add: txn_def txn_pins_def 1 3 4 5 bcache_itable)
  show "view (s\<lparr>itable := t\<rparr>) = view s" by (simp add: view_def cdata_def fun_eq_iff caches_def [abs_def] split: option.split)
  show "budget k B (s\<lparr>itable := t\<rparr>) = budget k B s" by (simp add: budget_def 5)
  show "log_room (s\<lparr>itable := t\<rparr>) = log_room s" by (simp add: log_room_def)
qed

lemma fs_itable:
  fixes s :: "'z fsst_scheme"
  shows "bitmaps (s\<lparr>itable := t\<rparr>) = bitmaps s" "free_set (s\<lparr>itable := t\<rparr>) = free_set s" "fs_layout (s\<lparr>itable := t\<rparr>) = fs_layout s"
    "space k B (s\<lparr>itable := t\<rparr>) = space k B s" "same_fs u (s\<lparr>itable := t\<rparr>) = same_fs u s" "file_addr (s\<lparr>itable := t\<rparr>) = file_addr s"
    "used_block (s\<lparr>itable := t\<rparr>) = used_block s"
proof -
  show 1: "bitmaps (s\<lparr>itable := t\<rparr>) = bitmaps s" by (simp add: bitmaps_def)
  show 2: "free_set (s\<lparr>itable := t\<rparr>) = free_set s" by (simp add: free_set_def txn_itable)
  have "data_block (s\<lparr>itable := t\<rparr>) = data_block s" by (simp add: data_block_def fun_eq_iff txn_itable)
  then show 3: "fs_layout (s\<lparr>itable := t\<rparr>) = fs_layout s" by (simp add: fs_layout_def 2 txn_itable)
  show "space k B (s\<lparr>itable := t\<rparr>) = space k B s" by (simp add: space_def 1 2 3 txn_itable)
  show "same_fs u (s\<lparr>itable := t\<rparr>) = same_fs u s" by (simp add: same_fs_def txn_itable)
  show "file_addr (s\<lparr>itable := t\<rparr>) = file_addr s" by (simp add: fun_eq_iff file_addr_def txn_itable)
  show "used_block (s\<lparr>itable := t\<rparr>) = used_block s" by (simp add: fun_eq_iff used_block_def 1 2 txn_itable)
qed

section \<open>Allocation within the space\<close>

definition fresh :: "'z fsst_scheme \<Rightarrow> 'z fsst_scheme \<Rightarrow> uint \<Rightarrow> bool" where
  "fresh s s' a \<longleftrightarrow> a \<noteq> 0 \<and> a \<in> of_nat ` free_set s \<and> a \<notin> of_nat ` free_set s' \<and> a \<notin> bitmaps s \<and> a \<notin> log_area s"

lemma finite_free: "finite (free_set s)"
  by (rule finite_subset [of _ "{..<unat (sb_size (sb s))}"]) (auto simp: free_set_def)

lemma balloc_space:
  fixes s :: "'z fsst_scheme"
  assumes t: "txn p H s" "dev = log_dev s" and sp: "space (Suc k) B s" and H: "apart H (bitmaps s \<union> of_nat ` free_set s) s"
  shows "\<exists>a s'. balloc dev s = Ok a s' \<and> fresh s s' a \<and> free_set s' \<subseteq> free_set s \<and> view s' a = replicate BSIZE 0 \<and>
    (\<forall>x. x \<noteq> a \<longrightarrow> x \<notin> bitmaps s \<longrightarrow> view s' x = view s x) \<and> space k (insert a B) s' \<and>
    txn_post p H (insert a (bitmaps s)) (view s') s s'"
proof -
  have sp': "fs_layout s" "budget (Suc k) B s" "bitmaps s \<subseteq> B" "Suc k \<le> card (free_set s)" "0 \<notin> free_set s"
    using sp by (simp_all add: space_def)
  then have "free_set s \<noteq> {}" by auto
  from balloc_spec [OF t sp'(1-3) H this] obtain b s' where r: "balloc dev s = Ok (of_nat b) s'" "b \<in> free_set s"
    "free_set s' = free_set s - {b}" "view s' (of_nat b) = replicate BSIZE 0"
    "\<forall>x. x \<noteq> of_nat b \<longrightarrow> x \<noteq> bitmap_block (sb s) b \<longrightarrow> view s' x = view s x" "fs_layout s'" "bitmaps s' = bitmaps s"
    "budget k (insert (of_nat b) B) s'" "txn_post p H {bitmap_block (sb s) b, of_nat b} (view s') s s'" by blast
  have size: "c < 2 ^ 32" if "c \<in> free_set s" for c using that unat_bound [of c "sb_size (sb s)"] by (simp add: free_set_def)
  have bm: "bitmap_block (sb s) b \<in> bitmaps s" using r(2) by (simp add: bitmaps_def free_set_def)
  have "data_block s b" using sp'(1) r(2) by (simp add: fs_layout_def)
  then have "of_nat b \<notin> log_area s" "of_nat b \<notin> bitmaps s" by (auto simp: data_block_def bitmaps_def)
  moreover have "of_nat b \<noteq> (0 :: uint)" using of_nat_eq_uint [of b 0] size [OF r(2)] r(2) sp'(5) by auto
  moreover have "of_nat b \<notin> (of_nat ` free_set s' :: uint set)"
    using of_nat_eq_uint [OF size [OF r(2)]] size r(3) by auto
  ultimately have "fresh s s' (of_nat b)" using r(2) by (simp add: fresh_def)
  moreover have "space k (insert (of_nat b) B) s'"
    using r(2,3,6-8) sp' finite_free [of s] by (auto simp: space_def)
  moreover have "txn_post p H (insert (of_nat b) (bitmaps s)) (view s') s s'" using r(9) bm by (auto simp: txn_post_def)
  ultimately show ?thesis using r(1,3-5) bm by (intro exI [of _ "of_nat b"] exI [of _ s']) auto
qed


section \<open>Growing a file\<close>

text \<open>
  The file \<open>x\<close> of \<open>s\<close> has become \<open>x'\<close> in \<open>s'\<close>: its blocks are those it had, and there may be fresh ones, in
  particular for the offsets \<open>N\<close>; no other block has changed but those of the bitmap.
\<close>

definition grew :: "nat set \<Rightarrow> inode \<Rightarrow> inode \<Rightarrow> 'z fsst_scheme \<Rightarrow> 'z fsst_scheme \<Rightarrow> bool" where
  "grew N x x' s s' \<longleftrightarrow> x' = x\<lparr>addrs := addrs x'\<rparr> \<and> same_fs s s' \<and> free_set s' \<subseteq> free_set s \<and> foot s' x' \<subseteq> foot s x \<and>
     (\<forall>m < MAXFILE. file_addr s' x' m = file_addr s x m \<or> file_addr s x m = 0) \<and>
     (\<forall>m < MAXFILE. m \<notin> N \<longrightarrow> file_addr s' x' m = file_addr s x m) \<and> (\<forall>n \<in> N. n < MAXFILE \<and> file_addr s' x' n \<noteq> 0) \<and>
     (\<forall>b. b \<notin> bitmaps s \<union> of_nat ` free_set s \<union> ind_addrs x \<longrightarrow> view s' b = view s b) \<and>
     ind_addrs x' \<subseteq> ind_addrs x \<union> of_nat ` free_set s \<and> ind_addrs x \<subseteq> ind_addrs x'"

lemma grewD:
  assumes "grew N x x' s s'"
  shows "x' = x\<lparr>addrs := addrs x'\<rparr>" "same_fs s s'" "free_set s' \<subseteq> free_set s" "foot s' x' \<subseteq> foot s x"
    "m < MAXFILE \<Longrightarrow> file_addr s' x' m = file_addr s x m \<or> file_addr s x m = 0"
    "m < MAXFILE \<Longrightarrow> m \<notin> N \<Longrightarrow> file_addr s' x' m = file_addr s x m"
    "n \<in> N \<Longrightarrow> n < MAXFILE" "n \<in> N \<Longrightarrow> file_addr s' x' n \<noteq> 0"
    "b \<notin> bitmaps s \<union> of_nat ` free_set s \<union> ind_addrs x \<Longrightarrow> view s' b = view s b"
    "ind_addrs x' \<subseteq> ind_addrs x \<union> of_nat ` free_set s" "ind_addrs x \<subseteq> ind_addrs x'"
  using assms unfolding grew_def by blast+

lemma grew_intro:
  assumes "x' = x\<lparr>addrs := addrs x'\<rparr>" "same_fs s s'" "free_set s' \<subseteq> free_set s" "foot s' x' \<subseteq> foot s x"
    and "\<And>m. m < MAXFILE \<Longrightarrow> file_addr s' x' m = file_addr s x m \<or> file_addr s x m = 0"
    and "\<And>m. m < MAXFILE \<Longrightarrow> m \<notin> N \<Longrightarrow> file_addr s' x' m = file_addr s x m"
    and "\<And>n. n \<in> N \<Longrightarrow> n < MAXFILE \<and> file_addr s' x' n \<noteq> 0"
    and "\<And>b. b \<notin> bitmaps s \<union> of_nat ` free_set s \<union> ind_addrs x \<Longrightarrow> view s' b = view s b"
    and "ind_addrs x' \<subseteq> ind_addrs x \<union> of_nat ` free_set s" "ind_addrs x \<subseteq> ind_addrs x'"
  shows "grew N x x' s s'"
  unfolding grew_def by (intro conjI allI impI ballI assms) (use assms(7) in simp_all)

lemma grew_trans:
  assumes 1: "grew N x y s t" and 2: "grew M y z t u"
  shows "grew (N \<union> M) x z s u"
proof -
  note d1 = grewD [OF 1] and d2 = grewD [OF 2]
  have bm: "bitmaps t = bitmaps s" by (rule same_fs_bitmaps [OF d1(2)])
  have fr: "(of_nat ` free_set t :: uint set) \<subseteq> of_nat ` free_set s" by (rule image_mono [OF d1(3)])
  have out: "view u b = view s b" if b: "b \<notin> bitmaps s \<union> of_nat ` free_set s \<union> ind_addrs x" for b
  proof -
    have "b \<notin> bitmaps t \<union> of_nat ` free_set t \<union> ind_addrs y" using b bm fr d1(10) by auto
    then show ?thesis using d1(9) [OF b] d2(9) by simp
  qed
  have kept: "file_addr u z m = file_addr s x m \<or> file_addr s x m = 0" if "m < MAXFILE" for m
    using d1(5) [OF that] d2(5) [OF that] by auto
  have new: "n < MAXFILE \<and> file_addr u z n \<noteq> 0" if n: "n \<in> N" for n
    using d1(7,8) [OF n] d2(5) by fastforce
  have rest: "file_addr u z m = file_addr s x m" if "m < MAXFILE" "m \<notin> N \<union> M" for m
    using d1(6) d2(6) that by simp
  have ad: "z = x\<lparr>addrs := addrs z\<rparr>" using d1(1) d2(1) by (metis inode.surjective inode.update_convs(10))
  have ia: "ind_addrs z \<subseteq> ind_addrs x \<union> of_nat ` free_set s" "ind_addrs x \<subseteq> ind_addrs z"
    using d1(10,11) d2(10,11) fr by blast+
  have "n < MAXFILE \<and> file_addr u z n \<noteq> 0" if "n \<in> N \<union> M" for n using that new d2(7,8) by blast
  then show ?thesis
    using same_fs_trans [OF d1(2) d2(2)] order_trans [OF d2(3) d1(3)] order_trans [OF d2(4) d1(4)] ia out kept rest
    by (intro grew_intro ad) simp_all
qed


lemma grew_refl: "grew {} x x s s"
  by (simp add: grew_def)

lemma grew_insert: "grew N x x' s s' \<Longrightarrow> n < MAXFILE \<Longrightarrow> file_addr s' x' n \<noteq> 0 \<Longrightarrow> grew (insert n N) x x' s s'"
  by (auto simp: grew_def)

text \<open>The blocks of the file and its inode keep their contents.\<close>

lemma grew_view:
  assumes "file_ok s x ib" "grew N x x' s s'" "a \<in> insert ib (data_addrs s x)"
  shows "view s' a = view s a"
  by (rule grewD(9) [OF assms(2)]) (use assms(1,3) in \<open>auto simp: file_ok_def used_block_def\<close>)

text \<open>At most one block of data and the indirect block are fresh.\<close>

lemma grewI:
  assumes ok: "file_ok s x ib" and x': "x' = x\<lparr>addrs := addrs x'\<rparr>" "length (addrs x') = NDIRECT + 1"
    and same: "same_fs s s'" "free_set s' \<subseteq> free_set s"
    and old: "\<And>m. m < MAXFILE \<Longrightarrow> m \<notin> N \<Longrightarrow> file_addr s' x' m = file_addr s x m"
    and new: "\<And>n. n \<in> N \<Longrightarrow> n < MAXFILE \<and> N = {n} \<and> file_addr s x n = 0 \<and> fresh s s' (file_addr s' x' n) \<and> file_addr s' x' n \<notin> ind_addrs x'"
    and out: "\<And>b. b \<notin> bitmaps s \<union> of_nat ` free_set s \<union> ind_addrs x \<Longrightarrow> view s' b = view s b"
    and ind: "ind_addrs x' = ind_addrs x \<or> ind_addrs x = {} \<and> (\<forall>a \<in> ind_addrs x'. fresh s s' a)"
  shows "grew N x x' s s'" "file_ok s' x' ib"
proof -
  let ?F = "of_nat ` free_set s :: uint set"
  have fr: "of_nat ` free_set s' \<subseteq> ?F" by (rule image_mono [OF same(2)])
  have bm: "bitmaps s' = bitmaps s" by (rule same_fs_bitmaps [OF same(1)])
  have area: "log_area s' = log_area s" using same(1) by (simp add: same_fs_def)
  have fa: "file_addr s' x' m = file_addr s x m \<or> m \<in> N \<and> file_addr s x m = 0 \<and> fresh s s' (file_addr s' x' m)" if "m < MAXFILE" for m
    using old [OF that] new [of m] by blast
  have data: "a \<in> data_addrs s x \<or> fresh s s' a" if "a \<in> data_addrs s' x'" for a
    using that fa by (force simp: data_addrs_def)
  have ind': "a \<in> ind_addrs x \<or> fresh s s' a" if "a \<in> ind_addrs x'" for a using that ind by auto
  have fD: "a \<in> ?F \<and> used_block s' a" if "fresh s s' a" for a using that by (simp add: fresh_def used_block_def bm area)
  have "foot s' x' \<subseteq> foot s x"
    unfolding foot_def bm using fr data ind' fD by blast
  moreover have "ind_addrs x' \<subseteq> ind_addrs x \<union> ?F" "ind_addrs x \<subseteq> ind_addrs x'" using ind ind' fD by auto
  moreover have "n < MAXFILE \<and> file_addr s' x' n \<noteq> 0" if "n \<in> N" for n using new [OF that] by (simp add: fresh_def)
  moreover have "file_addr s' x' m = file_addr s x m \<or> file_addr s x m = 0" if "m < MAXFILE" for m using fa [OF that] by blast
  ultimately show "grew N x x' s s'"
    using same out old by (intro grew_intro x'(1)) simp_all
  have used: "used_block s' a" if "used_block s a" for a using that fr by (auto simp: used_block_def bm area)
  have okD: "a \<in> insert ib (data_addrs s x \<union> ind_addrs x) \<Longrightarrow> used_block s a" for a using ok unfolding file_ok_def by blast
  have nf: "\<not> fresh s s' a" if "used_block s a" for a using that by (auto simp: used_block_def fresh_def)
  have inj: "m = n" if mn: "m < MAXFILE" "n < MAXFILE" "file_addr s' x' m = file_addr s' x' n" "file_addr s' x' m \<noteq> 0" for m n
  proof -
    have inS: "file_addr s x k \<in> data_addrs s x" if "k < MAXFILE" "file_addr s x k \<noteq> 0" for k using that by (simp add: data_addrs_def)
    consider "m \<in> N" "n \<in> N" | "m \<in> N" "n \<notin> N" | "m \<notin> N" "n \<in> N" | "m \<notin> N" "n \<notin> N" by blast
    then show ?thesis
    proof cases
      case 1
      then show ?thesis using new [of m] new [of n] by auto
    next
      case 2
      then show ?thesis using new [of m] old [of n] mn inS [of n] okD nf by (metis Un_iff insertCI)
    next
      case 3
      then show ?thesis using new [of n] old [of m] mn inS [of m] okD nf by (metis Un_iff insertCI)
    next
      case 4
      then have "file_addr s x m = file_addr s x n" "file_addr s x m \<noteq> 0" using old mn by simp_all
      then show ?thesis using ok mn(1,2) by (auto simp: file_ok_def dest: inj_onD)
    qed
  qed
  have "inj_on (file_addr s' x') {n. n < MAXFILE \<and> file_addr s' x' n \<noteq> 0}" using inj by (auto simp: inj_on_def)
  moreover have "used_block s' a" if "a \<in> insert ib (data_addrs s' x' \<union> ind_addrs x')" for a
    using that data ind' okD used fD by blast
  moreover have "ib \<notin> data_addrs s' x'" "ib \<notin> ind_addrs x'" using data ind' ok nf okD by (auto simp: file_ok_def)
  moreover have "ind_addrs x' \<inter> data_addrs s' x' = {}"
  proof -
    have "a \<notin> data_addrs s' x'" if a: "a \<in> ind_addrs x'" for a
    proof
      assume "a \<in> data_addrs s' x'"
      then obtain m where m: "m < MAXFILE" "a = file_addr s' x' m" "a \<noteq> 0" by (auto simp: data_addrs_def)
      then have "m \<notin> N" using new [of m] a by auto
      then have "a \<in> data_addrs s x" using old m by (auto simp: data_addrs_def)
      moreover have "a \<in> ind_addrs x" using ind' [OF a] nf okD calculation by blast
      ultimately show False using ok by (auto simp: file_ok_def)
    qed
    then show ?thesis by blast
  qed
  ultimately show "file_ok s' x' ib" using x'(2) by (simp add: file_ok_def)
qed


section \<open>bmap\<close>

text \<open>The entry at \<open>off\<close> of the indirect block \<open>ia\<close>, the last part of \<open>bmap\<close>.\<close>

definition bmap_entry :: "uint \<Rightarrow> uint \<Rightarrow> nat \<Rightarrow> ('z fsst_scheme, uint) kmon" where
  "bmap_entry dev ia off =
     bind (bread dev ia) (\<lambda>bp.
     bind (get_buf bp) (\<lambda>b.
     bind (if get32 off (bdata b) = 0 then
             bind (balloc dev) (\<lambda>a.
             seq (kwhen (a \<noteq> 0) (
               seq (upd_data bp (put32 off a))
                   (log_write bp)))
                 (return a))
           else return (get32 off (bdata b))) (\<lambda>a.
     seq (brelse bp)
         (return a))))"

lemma bmap_eq:
  "bmap ip n = bind (get_inode ip) (\<lambda>x.
     if n < NDIRECT then
       (if addrs x ! n = 0 then
          bind (balloc (idev x)) (\<lambda>a.
          if a = 0 then return 0
          else seq (upd_inode ip (\<lambda>x. x\<lparr>addrs := (addrs x)[n := a]\<rparr>)) (return a))
        else return (addrs x ! n))
     else if n - NDIRECT < NINDIRECT then
       bind (if addrs x ! NDIRECT = 0 then
               bind (balloc (idev x)) (\<lambda>a.
               seq (kwhen (a \<noteq> 0) (upd_inode ip (\<lambda>x. x\<lparr>addrs := (addrs x)[NDIRECT := a]\<rparr>)))
                   (return a))
             else return (addrs x ! NDIRECT)) (\<lambda>ia.
       if ia = 0 then return 0 else bmap_entry (idev x) ia (4 * (n - NDIRECT)))
     else panic ''bmap: out of range'')"
  unfolding bmap_def bmap_entry_def Let_def ..

lemma space_Suc:
  assumes "space (Suc k) B s"
  shows "space k (insert a B) s" "0 < log_room s \<or> \<not> txn p H s"
  using assms budget_insert budget_room [of "Suc k" B s p H] by (fastforce simp: space_def)+

lemma bmap_entry_mapped:
  fixes s :: "'z fsst_scheme"
  assumes t: "txn p {} s" "dev = log_dev s" and e: "get32 off (view s ia) \<noteq> 0"
  shows "\<exists>s'. bmap_entry dev ia off s = Ok (get32 off (view s ia)) s' \<and> txn_post p {} {} (view s) s s'"
proof -
  have "int (card {}) \<le> log_room s" using txn_room [OF t(1)] by simp
  from peek_txn [OF t apart_empty this, of ia] obtain i s1 s' where "bread dev ia s = Ok i s1" "bdata (bufs s1 i) = view s ia"
    "brelse i s1 = Ok () s'" "txn_post p {} {} (view s) s s'" by blast
  then show ?thesis using e by (intro exI [of _ s']) (simp add: bmap_entry_def kexec get_buf_def)
qed

lemma bmap_entry_new:
  fixes s :: "'z fsst_scheme"
  assumes t: "txn p {} s" "dev = log_dev s" and sp: "space (Suc k) B s" and ia: "used_block s ia" "ia \<in> B" "off + 4 \<le> BSIZE"
    and e: "get32 off (view s ia) = 0"
  shows "\<exists>a s'. bmap_entry dev ia off s = Ok a s' \<and> fresh s s' a \<and> a \<noteq> ia \<and> free_set s' \<subseteq> free_set s \<and>
    view s' ia = put32 off a (view s ia) \<and> (\<forall>x. x \<notin> insert ia (insert a (bitmaps s)) \<longrightarrow> view s' x = view s x) \<and>
    space k (insert a B) s' \<and> txn p {} s' \<and> txn_frame s s'"
proof -
  have room: "0 < log_room s" using space_Suc(2) [OF sp] t(1) by blast
  have "int (card {}) \<le> log_room s" using room by simp
  from bread_txn [OF t(1) _ _ this t(2), of ia] obtain i s1 where 1: "bread dev ia s = Ok i s1" "txn p {i} s1" "txn_frame s s1"
    "view s1 = view s" "lh_n s1 = lh_n s" "logged s1 = logged s" "blockno (bufs s1 i) = ia" "bdata (bufs s1 i) = view s ia" by auto
  have same1: "same_fs s s1" by (rule same_fs_frame [OF 1(3)])
  have sz1: "log_size s1 = log_size s" by (rule txn_frame_log(3) [OF 1(3)])
  have b1: "bitmaps s1 = bitmaps s" by (rule same_fs_bitmaps [OF same1])
  have f1: "free_set s1 = free_set s" using same1 1(4) by (simp add: free_set_def same_fs_def)
  have "data_block s1 = data_block s" using same1 by (simp add: data_block_def same_fs_def fun_eq_iff)
  then have sp1: "space (Suc k) B s1"
    using sp same1 by (simp add: space_def b1 f1 fs_layout_def budget_def 1(6) sz1 same_fs_def)
  have ap: "apart {i} (bitmaps s1 \<union> of_nat ` free_set s1) s1" using ia(1) 1(7) by (simp add: apart_def used_block_def b1 f1)
  have dev1: "dev = log_dev s1" using t(2) same1 by (simp add: same_fs_def)
  from balloc_space [OF 1(2) dev1 sp1 ap] obtain a s2 where 2: "balloc dev s1 = Ok a s2" "fresh s1 s2 a" "free_set s2 \<subseteq> free_set s1"
    "view s2 a = replicate BSIZE 0" "\<And>x. x \<noteq> a \<Longrightarrow> x \<notin> bitmaps s1 \<Longrightarrow> view s2 x = view s1 x" "space k (insert a B) s2"
    "txn_post p {i} (insert a (bitmaps s1)) (view s2) s1 s2" by blast
  note d2 = txn_postD [OF 2(7)] txn_post_frame [OF 2(7)]
  have ne: "a \<noteq> ia" "a \<noteq> 0" "ia \<notin> bitmaps s" using 2(2) ia(1) by (auto simp: fresh_def used_block_def f1)
  have bi: "blockno (bufs s2 i) = ia" "bdata (bufs s2 i) = view s ia" using d2(4) 1(7,8) by (simp_all add: keeps_def)
  have len: "length (put32 off a (view s ia)) = BSIZE" using ia(3) view_length [OF t(1)] by simp
  note 3 = upd_data_txn [OF d2(1), of i "put32 off a", unfolded bi, OF singletonI len]
  let ?s3 = "s2\<lparr>bufs := (bufs s2)(i := (bufs s2 i)\<lparr>bdata := put32 off a (view s ia)\<rparr>)\<rparr>"
  have b3: "blockno (bufs ?s3 i) = ia" using bi by simp
  have area3: "blockno (bufs ?s3 i) \<notin> log_area ?s3"
    using ia(1) txn_frame_log(7) [OF 3(3)] d2(7) same1 b3 by (simp add: used_block_def same_fs_def)
  have "budget k (insert a B) s2" using 2(6) by (simp add: space_def)
  then have bud3: "budget k (insert a B) ?s3" using txn_frame_log(3) [OF 3(3)] 3(6) by (simp add: budget_def)
  have room3: "0 < log_room ?s3" using budget_room [OF bud3 3(2)] by simp
  from log_write_txn [OF 3(2) singletonI area3 room3] obtain s4 where 4: "log_write i ?s3 = Ok () s4" "txn p {i} s4" "txn_frame ?s3 s4"
    "view s4 = view ?s3" "logged s4 = (if ia \<in> set (logged ?s3) then logged ?s3 else logged ?s3 @ [ia])" "blockno (bufs s4 i) = ia"
    using b3 by auto
  from brelse_txn [OF 4(2) singletonI] obtain s5 where 5: "brelse i s4 = Ok () s5" "txn p ({i} - {i}) s5" "txn_frame s4 s5"
    "view s5 = view s4" "logged s5 = logged s4"
    using 4(5,6) by (auto split: if_splits)
  have fr3: "txn_frame s ?s3" using txn_frame_trans [OF txn_frame_trans [OF 1(3) d2(2)] 3(3)] .
  have fr2: "txn_frame s2 s5" using txn_frame_trans [OF txn_frame_trans [OF 3(3) 4(3)] 5(3)] .
  have fr: "txn_frame s s5" using txn_frame_trans [OF txn_frame_trans [OF fr3 4(3)] 5(3)] .
  have v: "view s5 = (view s2)(ia := put32 off a (view s ia))" using 5(4) 4(4) 3(4) by simp
  have run: "bmap_entry dev ia off s = Ok a s5"
    using 1(1,8) e 2(1) 3(1) 4(1) 5(1) ne(2) by (simp add: bmap_entry_def kexec get_buf_def)
  have same2: "same_fs s2 s5" by (rule same_fs_frame [OF fr2])
  have b5: "bitmaps s5 = bitmaps s2" "bitmaps s2 = bitmaps s"
    using same_fs_bitmaps [OF same2] same_fs_bitmaps [OF same_fs_frame [OF d2(2)]] b1 by simp_all
  have bv: "view s5 (bitmap_block (sb s2) c) = view s2 (bitmap_block (sb s2) c)" if "c < unat (sb_size (sb s2))" for c
  proof -
    have "bitmap_block (sb s2) c \<in> bitmaps s" using that unfolding b5(2) [symmetric] by (simp add: bitmaps_def)
    then show ?thesis using v ne(3) by auto
  qed
  have f5: "free_set s5 = free_set s2" using same2 bv by (auto simp: free_set_def same_fs_def)
  have "data_block s5 = data_block s2" using same2 by (simp add: data_block_def same_fs_def fun_eq_iff)
  then have "space k (insert a B) s5"
    using 2(6) bud3 same2 ia(2) 4(5) 5(5) txn_frame_log(3) [OF fr2] 3(6)
    by (auto simp: space_def b5(1) f5 fs_layout_def budget_def same_fs_def)
  moreover have "fresh s s5 a" using 2(2) same1 by (simp add: fresh_def f1 f5 b1 same_fs_def)
  moreover have "view s5 ia = put32 off a (view s ia)" by (simp add: v)
  moreover have "view s5 x = view s x" if "x \<notin> insert ia (insert a (bitmaps s))" for x using that 2(5) [of x] 1(4) v by (simp add: b1)
  moreover have "txn p {} s5" "free_set s5 \<subseteq> free_set s" using 5(2) 2(3) f1 f5 by simp_all
  ultimately show ?thesis using run fr ne(1) by (intro exI [of _ a] exI [of _ s5]) blast
qed


text \<open>What \<open>bmap\<close> leaves: block \<open>n\<close> is there, and the room of \<open>k\<close> more blocks.\<close>

definition bmap_post :: "nat \<Rightarrow> nat set \<Rightarrow> nat \<Rightarrow> uint \<Rightarrow> nat \<Rightarrow> uint set \<Rightarrow> 'z fsst_scheme \<Rightarrow> inode \<Rightarrow> 'z fsst_scheme \<Rightarrow> bool" where
  "bmap_post p N ip ib k B s x' s' \<longleftrightarrow> txn p {} s' \<and> itable s' = (itable s)(ip := x') \<and> grew N (itable s ip) x' s s' \<and>
     file_ok s' x' ib \<and> space k B s' \<and> ind_addrs x' \<subseteq> B"

lemma bmap_post_trans:
  assumes "bmap_post p N ip ib k B s y t" "bmap_post p M ip ib j C t z u"
  shows "bmap_post p (N \<union> M) ip ib j C s z u"
  using assms grew_trans unfolding bmap_post_def by fastforce

lemma bmap_post_kept:
  assumes "bmap_post p N ip ib k B s x' s'" "space k C s'" "B \<subseteq> C"
  shows "bmap_post p N ip ib k C s x' s'"
  using assms by (auto simp: bmap_post_def)

lemma file_ok_itable: "file_ok (s\<lparr>itable := t\<rparr>) x ib = file_ok s x ib"
  by (simp add: file_ok_def data_addrs_def fs_itable)

lemma grew_itable: "grew N x x' s (s'\<lparr>itable := t\<rparr>) = grew N x x' s s'"
  by (simp add: grew_def foot_def data_addrs_def fs_itable txn_itable)

lemma list_other: "length as = NDIRECT + 1 \<Longrightarrow> m \<noteq> n \<Longrightarrow> (as[n := a]) ! m = as ! m"
  by simp

lemma file_ok_used: "file_ok s x ib \<Longrightarrow> a \<in> insert ib (data_addrs s x \<union> ind_addrs x) \<Longrightarrow> used_block s a"
  unfolding file_ok_def by blast

lemma fresh_other: "fresh s s' a \<Longrightarrow> used_block s b \<Longrightarrow> b \<noteq> a \<and> b \<notin> bitmaps s"
  by (auto simp: fresh_def used_block_def)

lemma bmap_direct_new:
  fixes s :: "'z fsst_scheme"
  assumes t: "txn p {} s" "idev (itable s ip) = log_dev s" and ok: "file_ok s (itable s ip) ib" and sp: "space (Suc k) B s"
    and n: "n < NDIRECT" "addrs (itable s ip) ! n = 0" and ind: "ind_addrs (itable s ip) \<subseteq> B"
  shows "\<exists>a s' x'. bmap ip n s = Ok a s' \<and> a = file_addr s' x' n \<and> bmap_post p {n} ip ib k (insert a B) s x' s'"
proof -
  let ?x = "itable s ip"
  obtain a s1 where 1: "balloc (idev ?x) s = Ok a s1" "fresh s s1 a" "free_set s1 \<subseteq> free_set s"
    "\<And>b. b \<noteq> a \<Longrightarrow> b \<notin> bitmaps s \<Longrightarrow> view s1 b = view s b" "space k (insert a B) s1"
    "txn_post p {} (insert a (bitmaps s)) (view s1) s s1"
    using balloc_space [OF t sp apart_empty] by blast
  note d = txn_postD [OF 1(6)]
  define x' where "x' = ?x\<lparr>addrs := (addrs ?x)[n := a]\<rparr>"
  define s' where "s' = s1\<lparr>itable := (itable s1)(ip := x')\<rparr>"
  have len: "length (addrs ?x) = NDIRECT + 1" using ok by (simp add: file_ok_def)
  have x': "x' = ?x\<lparr>addrs := addrs x'\<rparr>" "addrs x' = (addrs ?x)[n := a]" by (simp_all add: x'_def)
  have ia: "addrs x' ! NDIRECT = addrs ?x ! NDIRECT" "ind_addrs x' = ind_addrs ?x" using n(1) by (simp_all add: x'(2) ind_addrs_def)
  have "view s1 b = view s b" if "b \<in> ind_addrs ?x" for b
    using 1(4) fresh_other [OF 1(2) file_ok_used [OF ok]] that by blast
  then have vi: "view s1 (addrs ?x ! NDIRECT) = view s (addrs ?x ! NDIRECT)" if "addrs ?x ! NDIRECT \<noteq> 0" using that by (simp add: ind_addrs_def)
  have fn: "file_addr s1 x' n = a" using n(1) len by (simp add: file_addr_def x'(2))
  have old: "file_addr s1 x' m = file_addr s ?x m" if "m < MAXFILE" "m \<notin> {n}" for m
    unfolding file_addr_def ia using that vi by (simp add: x'(2))
  have new: "m < MAXFILE \<and> {n} = {m} \<and> file_addr s ?x m = 0 \<and> fresh s s1 (file_addr s1 x' m) \<and> file_addr s1 x' m \<notin> ind_addrs x'"
    if "m \<in> {n}" for m
    using that n fn 1(2) fresh_other [OF 1(2) file_ok_used [OF ok]] unfolding ia by (auto simp: file_addr_def MAXFILE_def)
  have out: "view s1 b = view s b" if "b \<notin> bitmaps s \<union> of_nat ` free_set s \<union> ind_addrs ?x" for b
    using 1(2,4) that by (auto simp: fresh_def)
  have len': "length (addrs x') = NDIRECT + 1" using len by (simp add: x'(2))
  note g = grewI [OF ok x'(1) len' same_fs_frame [OF d(2)] 1(3) old new out disjI1 [OF ia(2)]]
  have it1: "itable s1 = itable s" by (rule txn_frame_fs(2) [OF d(2)])
  have "bmap_post p {n} ip ib k (insert a B) s x' s'"
    using g d(1) 1(5) ind ia(2) it1
    by (auto simp: bmap_post_def s'_def grew_itable file_ok_itable txn_itable fs_itable)
  moreover have "bmap ip n s = Ok a s'"
    using n 1(1,2) by (simp add: bmap_def kexec get_inode_def upd_inode_def fresh_def s'_def x'_def it1)
  moreover have "a = file_addr s' x' n" using fn by (simp add: s'_def fs_itable)
  ultimately show ?thesis by blast
qed


lemma get32_zeros: "off + 4 \<le> BSIZE \<Longrightarrow> get32 off (replicate BSIZE 0) = 0"
  by (simp add: get32_def min_def eval_nat_numeral)

text \<open>The indirect block, which is allocated if the file has none.\<close>

lemma bmap_indirect_new:
  fixes s :: "'z fsst_scheme"
  assumes t: "txn p {} s" "idev (itable s ip) = log_dev s" and ok: "file_ok s (itable s ip) ib" and sp: "space (Suc k) B s"
    and n: "addrs (itable s ip) ! NDIRECT = 0"
  shows "\<exists>a s' x'. bind (balloc (idev (itable s ip))) (\<lambda>a.
      seq (kwhen (a \<noteq> 0) (upd_inode ip (\<lambda>x. x\<lparr>addrs := (addrs x)[NDIRECT := a]\<rparr>))) (return a)) s = Ok a s' \<and>
    a \<noteq> 0 \<and> a = addrs x' ! NDIRECT \<and> bmap_post p {} ip ib k (insert a B) s x' s'"
proof -
  let ?x = "itable s ip"
  obtain a s1 where 1: "balloc (idev ?x) s = Ok a s1" "fresh s s1 a" "free_set s1 \<subseteq> free_set s" "view s1 a = replicate BSIZE 0"
    "\<And>b. b \<noteq> a \<Longrightarrow> b \<notin> bitmaps s \<Longrightarrow> view s1 b = view s b" "space k (insert a B) s1"
    "txn_post p {} (insert a (bitmaps s)) (view s1) s s1"
    using balloc_space [OF t sp apart_empty] by blast
  note d = txn_postD [OF 1(7)]
  define x' where "x' = ?x\<lparr>addrs := (addrs ?x)[NDIRECT := a]\<rparr>"
  define s' where "s' = s1\<lparr>itable := (itable s1)(ip := x')\<rparr>"
  have len: "length (addrs ?x) = NDIRECT + 1" using ok by (simp add: file_ok_def)
  have x': "x' = ?x\<lparr>addrs := addrs x'\<rparr>" "addrs x' = (addrs ?x)[NDIRECT := a]" by (simp_all add: x'_def)
  have a0: "a \<noteq> 0" using 1(2) by (simp add: fresh_def)
  have ia: "addrs x' ! NDIRECT = a" "ind_addrs x' = {a}" "ind_addrs ?x = {}" using n len a0 by (simp_all add: x'(2) ind_addrs_def)
  have old: "file_addr s1 x' m = file_addr s ?x m" if "m < MAXFILE" "m \<notin> {}" for m
  proof (cases "m < NDIRECT")
    case True
    then show ?thesis by (simp add: file_addr_def x'(2))
  next
    case False
    then have "4 * (m - NDIRECT) + 4 \<le> BSIZE" using that(1) by (simp add: MAXFILE_def NINDIRECT_def BSIZE_def)
    then show ?thesis using False n a0 by (simp add: file_addr_def ia 1(4) get32_zeros)
  qed
  have out: "view s1 b = view s b" if "b \<notin> bitmaps s \<union> of_nat ` free_set s \<union> ind_addrs ?x" for b
    using 1(2,5) that by (auto simp: fresh_def)
  have len': "length (addrs x') = NDIRECT + 1" using len by (simp add: x'(2))
  have ind: "ind_addrs x' = ind_addrs ?x \<or> ind_addrs ?x = {} \<and> (\<forall>a \<in> ind_addrs x'. fresh s s1 a)" using 1(2) by (simp add: ia)
  note g = grewI [where N = "{}", OF ok x'(1) len' same_fs_frame [OF d(2)] 1(3) old _ out ind]
  have it1: "itable s1 = itable s" by (rule txn_frame_fs(2) [OF d(2)])
  have "bmap_post p {} ip ib k (insert a B) s x' s'"
    using g d(1) 1(6) it1 ia(2)
    by (simp add: bmap_post_def s'_def grew_itable file_ok_itable txn_itable fs_itable)
  moreover have "bind (balloc (idev ?x)) (\<lambda>a.
      seq (kwhen (a \<noteq> 0) (upd_inode ip (\<lambda>x. x\<lparr>addrs := (addrs x)[NDIRECT := a]\<rparr>))) (return a)) s = Ok a s'"
    using a0 1(1) by (simp add: kexec kwhen_def upd_inode_def s'_def x'_def it1)
  ultimately show ?thesis using ia(1) a0 by blast
qed

lemma bmap_entry_stage:
  fixes s :: "'z fsst_scheme"
  assumes t: "txn p {} s" "dev = log_dev s" and ok: "file_ok s (itable s ip) ib" and sp: "space (Suc k) B s"
    and n: "NDIRECT \<le> n" "n < MAXFILE" and ind: "addrs (itable s ip) ! NDIRECT = ia" "ia \<noteq> 0" "ia \<in> B"
  shows "\<exists>a s'. bmap_entry dev ia (4 * (n - NDIRECT)) s = Ok a s' \<and> a = file_addr s' (itable s ip) n \<and>
    bmap_post p {n} ip ib k (insert a B) s (itable s ip) s'"
proof -
  let ?x = "itable s ip" and ?off = "4 * (n - NDIRECT)"
  have ia: "ind_addrs ?x = {ia}" using ind by (simp add: ind_addrs_def)
  have off: "4 * (m - NDIRECT) + 4 \<le> BSIZE" if "m < MAXFILE" "NDIRECT \<le> m" for m
    using that by (simp add: MAXFILE_def NINDIRECT_def BSIZE_def)
  have fa: "file_addr s ?x m = get32 (4 * (m - NDIRECT)) (view s ia)" if "NDIRECT \<le> m" for m
    using that ind by (simp add: file_addr_def)
  show ?thesis
  proof (cases "file_addr s ?x n = 0")
    case False
    then have e: "get32 ?off (view s ia) \<noteq> 0" using fa [OF n(1)] by simp
    obtain s' where s': "bmap_entry dev ia ?off s = Ok (get32 ?off (view s ia)) s'" "txn_post p {} {} (view s) s s'"
      using bmap_entry_mapped [OF t e] by blast
    note d = txn_postD [OF s'(2)]
    have same: "same_fs s s'" by (rule same_fs_frame [OF d(2)])
    have f: "file_addr s' y m = file_addr s y m" for y m by (simp add: file_addr_def d(3))
    then have f': "file_addr s' y = file_addr s y" for y by blast
    have b: "bitmaps s' = bitmaps s" by (rule same_fs_bitmaps [OF same])
    have free: "free_set s' = free_set s" using same by (simp add: free_set_def d(3) same_fs_def)
    have db: "data_block s' = data_block s" using same by (simp add: data_block_def same_fs_def fun_eq_iff)
    have g: "grew {} ?x ?x s s'" using same by (simp add: grew_def f' d(3) free foot_def b data_addrs_def)
    have "grew {n} ?x ?x s s'" using grew_insert [OF g n(2)] False by (simp add: f')
    moreover have "file_ok s' ?x ib"
      using ok same by (simp add: file_ok_def data_addrs_def f' used_block_def b free same_fs_def)
    moreover have "space k (insert (file_addr s ?x n) B) s'"
      using space_Suc(1) [OF sp] budget_post [OF s'(2) empty_subsetI] same
      by (simp add: space_def b free fs_layout_def db same_fs_def)
    ultimately have "bmap_post p {n} ip ib k (insert (file_addr s ?x n) B) s ?x s'"
      using d(1) txn_frame_fs(2) [OF d(2)] ind(3) by (auto simp: bmap_post_def ia)
    then show ?thesis using s'(1) fa [OF n(1)] by (auto simp: f)
  next
    case True
    have e: "get32 ?off (view s ia) = 0" using fa [OF n(1)] True by simp
    have used: "used_block s ia" by (rule file_ok_used [OF ok]) (simp add: ia)
    obtain a s' where r: "bmap_entry dev ia ?off s = Ok a s'" "fresh s s' a" "a \<noteq> ia" "free_set s' \<subseteq> free_set s"
      "view s' ia = put32 ?off a (view s ia)" "\<And>x. x \<notin> insert ia (insert a (bitmaps s)) \<Longrightarrow> view s' x = view s x"
      "space k (insert a B) s'" "txn p {} s'" "txn_frame s s'"
      using bmap_entry_new [OF t sp used ind(3) off [OF n(2,1)] e] by blast
    have l: "length (view s ia) = BSIZE" by (rule view_length [OF t(1)])
    have fn: "file_addr s' ?x n = a"
      using n ind off [OF n(2,1)] get32_put32 [of ?off "view s ia" a] by (simp add: file_addr_def r(5) l)
    have old: "file_addr s' ?x m = file_addr s ?x m" if m: "m < MAXFILE" "m \<notin> {n}" for m
    proof (cases "m < NDIRECT")
      case True
      then show ?thesis by (simp add: file_addr_def)
    next
      case False
      then have "?off + 4 \<le> 4 * (m - NDIRECT) \<or> 4 * (m - NDIRECT) + 4 \<le> ?off" using m(2) n(1) by auto
      then have "get32 (4 * (m - NDIRECT)) (view s' ia) = get32 (4 * (m - NDIRECT)) (view s ia)"
        unfolding r(5) using get32_put32_other [of ?off "view s ia" "4 * (m - NDIRECT)" a] off [OF n(2,1)] off [OF m(1)] False l by simp
      then show ?thesis using False ind by (simp add: file_addr_def)
    qed
    have new: "m < MAXFILE \<and> {n} = {m} \<and> file_addr s ?x m = 0 \<and> fresh s s' (file_addr s' ?x m) \<and> file_addr s' ?x m \<notin> ind_addrs ?x"
      if "m \<in> {n}" for m using that n True fn r(2,3) by (simp add: ia)
    have out: "view s' b = view s b" if "b \<notin> bitmaps s \<union> of_nat ` free_set s \<union> ind_addrs ?x" for b
      using r(2,6) that by (auto simp: fresh_def ia)
    have len: "length (addrs ?x) = NDIRECT + 1" using ok by (simp add: file_ok_def)
    have "?x = ?x\<lparr>addrs := addrs ?x\<rparr>" by simp
    note g = grewI [OF ok this len same_fs_frame [OF r(9)] r(4) old new out disjI1 [OF refl]]
    have "bmap_post p {n} ip ib k (insert a B) s ?x s'"
      using g r(7,8) txn_frame_fs(2) [OF r(9)] ind(3) by (simp add: bmap_post_def ia)
    then show ?thesis using r(1) fn by blast
  qed
qed


definition missing :: "inode \<Rightarrow> nat" where
  "missing x = (if addrs x ! NDIRECT = 0 then 1 else 0)"

lemma missing_cases: "missing x = 0 \<and> ind_addrs x = {addrs x ! NDIRECT} \<or> missing x = 1 \<and> ind_addrs x = {}"
  by (auto simp: missing_def ind_addrs_def)

lemma bmap_indirect:
  fixes s :: "'z fsst_scheme"
  assumes t: "txn p {} s" "idev (itable s ip) = log_dev s" and ok: "file_ok s (itable s ip) ib" and n: "NDIRECT \<le> n" "n < MAXFILE"
    and sp: "space (k + 1 + missing (itable s ip)) B s" and ind: "ind_addrs (itable s ip) \<subseteq> B"
  shows "\<exists>s' x' C. bmap ip n s = Ok (file_addr s' x' n) s' \<and> bmap_post p {n} ip ib k C s x' s' \<and>
    missing x' = 0 \<and> file_addr s' x' n \<in> C \<and> B \<subseteq> C"
proof -
  let ?x = "itable s ip"
  let ?stage = "if addrs ?x ! NDIRECT = 0 then bind (balloc (idev ?x)) (\<lambda>a.
      seq (kwhen (a \<noteq> 0) (upd_inode ip (\<lambda>x. x\<lparr>addrs := (addrs x)[NDIRECT := a]\<rparr>))) (return a)) else return (addrs ?x ! NDIRECT)"
  have "\<exists>a s1 x1 B1. ?stage s = Ok a s1 \<and> a \<noteq> 0 \<and> a = addrs x1 ! NDIRECT \<and> bmap_post p {} ip ib (Suc k) B1 s x1 s1 \<and> B \<subseteq> B1"
  proof (cases "addrs ?x ! NDIRECT = 0")
    case True
    then have "space (Suc (Suc k)) B s" using sp by (simp add: missing_def)
    from bmap_indirect_new [OF t ok this True] True show ?thesis by auto
  next
    case False
    then have "bmap_post p {} ip ib (Suc k) B s ?x s"
      using t ok sp ind grew_refl by (simp add: bmap_post_def missing_def)
    then show ?thesis using False by auto
  qed
  then obtain a s1 x1 B1 where 1: "?stage s = Ok a s1" "a \<noteq> 0" "addrs x1 ! NDIRECT = a" "bmap_post p {} ip ib (Suc k) B1 s x1 s1" "B \<subseteq> B1"
    by blast
  note d1 = 1(4) [unfolded bmap_post_def]
  have x1: "itable s1 ip = x1" and dev1: "idev ?x = log_dev s1" and ia: "a \<in> B1"
    using d1 t(2) 1(2,3) by (simp_all add: grew_def same_fs_def ind_addrs_def)
  obtain c s2 where 2: "bmap_entry (idev ?x) a (4 * (n - NDIRECT)) s1 = Ok c s2" "c = file_addr s2 x1 n"
    "bmap_post p {n} ip ib k (insert c B1) s1 x1 s2"
    using bmap_entry_stage [of p s1 "idev ?x" ip ib k B1 n a] d1 dev1 n 1(2,3) ia unfolding x1 by blast
  have "bmap ip n s = Ok c s2"
    using n 1(1,2) 2(1) by (subst bmap_eq) (simp add: bind_apply get_inode_def MAXFILE_def)
  moreover have "bmap_post p {n} ip ib k (insert c B1) s x1 s2" using bmap_post_trans [OF 1(4) 2(3)] by simp
  moreover have "missing x1 = 0" using 1(2,3) by (simp add: missing_def)
  ultimately show ?thesis using 2(2) 1(5) by blast
qed

lemma bmap_grows:
  fixes s :: "'z fsst_scheme"
  assumes t: "txn p {} s" "idev (itable s ip) = log_dev s" and ok: "file_ok s (itable s ip) ib" and n: "n < MAXFILE"
    and sp: "space (k + 1 + missing (itable s ip)) B s" and ind: "ind_addrs (itable s ip) \<subseteq> B"
  shows "\<exists>s' x' C. bmap ip n s = Ok (file_addr s' x' n) s' \<and> bmap_post p {n} ip ib (k + missing x') C s x' s' \<and>
    file_addr s' x' n \<in> C \<and> B \<subseteq> C"
proof (cases "NDIRECT \<le> n")
  case True
  show ?thesis using bmap_indirect [OF t ok True n sp ind] by fastforce
next
  case False
  let ?x = "itable s ip"
  show ?thesis
  proof (cases "addrs ?x ! n = 0")
    case True
    have "space (Suc (k + missing ?x)) B s" using sp by simp
    then obtain a s' x' where r: "bmap ip n s = Ok a s'" "a = file_addr s' x' n" "bmap_post p {n} ip ib (k + missing ?x) (insert a B) s x' s'"
      using bmap_direct_new [OF t ok _ _ True ind] False by fastforce
    have "space (k + missing x') (insert a B) s'"
      using r(3) missing_cases [of ?x] missing_cases [of x'] by (auto simp: bmap_post_def grew_def space_def intro: budget_mono)
    then have "bmap_post p {n} ip ib (k + missing x') (insert a B) s x' s'" using r(3) by (simp add: bmap_post_def)
    then show ?thesis using r(1,2) by blast
  next
    case nz: False
    then have "file_addr s ?x n \<noteq> 0" "bmap ip n s = Ok (file_addr s ?x n) s"
      using False by (simp_all add: file_addr_def bmap_def kexec get_inode_def)
    moreover from this(1) have "grew {n} ?x ?x s s" by (rule grew_insert [OF grew_refl n])
    moreover have "space (k + missing ?x) (insert (file_addr s ?x n) B) s" using space_Suc(1) [of "k + missing ?x" B s] sp by simp
    ultimately show ?thesis using t ok ind by (intro exI [of _ s] exI [of _ ?x] exI [of _ "insert (file_addr s ?x n) B"])
        (auto simp: bmap_post_def)
  qed
qed

end
