(* ===== verification/Xv6_Contents.thy ===== *)
theory Xv6_Contents
  imports Xv6_Bmap
begin

unbundle bit_operations_syntax

text \<open>
  The contents of a file as bytes: inside a transaction \<open>readi\<close> returns the bytes, and \<open>writei\<close> replaces them
  and grows the file.
\<close>

section \<open>The bytes of a file\<close>

definition file_byte :: "'z logst_scheme \<Rightarrow> inode \<Rightarrow> nat \<Rightarrow> byte" where
  "file_byte s x i = view s (file_addr s x (i div BSIZE)) ! (i mod BSIZE)"

definition contents :: "'z logst_scheme \<Rightarrow> inode \<Rightarrow> byte list" where
  "contents s x = map (file_byte s x) [0..<unat (isize x)]"

text \<open>The first \<open>k\<close> bytes have blocks.\<close>

definition backed :: "'z logst_scheme \<Rightarrow> inode \<Rightarrow> nat \<Rightarrow> bool" where
  "backed s x k \<longleftrightarrow> k \<le> MAXFILE * BSIZE \<and> (\<forall>i < k. file_addr s x (i div BSIZE) \<noteq> 0)"

lemma file_view:
  assumes "view s' = view s"
  shows "file_addr s' x n = file_addr s x n" "file_byte s' x = file_byte s x" "contents s' x = contents s x"
    "backed s' x k = backed s x k"
  using assms by (simp_all add: file_addr_def file_byte_def contents_def backed_def fun_eq_iff)

lemma txn_frame_calm:
  assumes "txn_frame s s'"
  shows "calm p s' = calm p s"
proof -
  have "calm p (s\<lparr>sleeplocks := a, bufs := b, lh_n := c, lh_block := d\<rparr>) = calm p s" for a b c d
    by (simp add: calm_def cpu_quiet_def lock_free_def intr_enabled_def cur_def)
  then show ?thesis using assms unfolding txn_frame_def by metis
qed

lemma txn_calm: "txn p H s \<Longrightarrow> calm p s"
  by (auto simp: txn_def txn_pins_def)

lemma curproc_calm: "calm p s \<Longrightarrow> curproc s = Ok p s"
  using calmD [of p s] by (intro curproc_quiet) (simp_all add: cur_def)

lemma copyout_local: "calm p s \<Longrightarrow> either_copyout (Local d) bs s = Ok 0 s"
  by (simp add: either_copyout_def kexec curproc_calm)

lemma copyin_local: "calm p s \<Longrightarrow> either_copyin (Local d) n s = Ok (0, take n d) s"
  by (simp add: either_copyin_def kexec curproc_calm)

lemma block_bytes:
  assumes "txn p {} s" "m \<le> BSIZE - off mod BSIZE"
  shows "take m (drop (off mod BSIZE) (view s (file_addr s x (off div BSIZE)))) = map (file_byte s x) [off..<off + m]"
proof (rule nth_equalityI)
  have len: "length (view s b) = BSIZE" for b by (rule view_length [OF assms(1)])
  show "length (take m (drop (off mod BSIZE) (view s (file_addr s x (off div BSIZE))))) = length (map (file_byte s x) [off..<off + m])"
    using assms(2) by (simp add: len)
  fix i assume "i < length (take m (drop (off mod BSIZE) (view s (file_addr s x (off div BSIZE)))))"
  then have i: "i < m" by (simp add: len)
  then have lt: "off mod BSIZE + i < BSIZE" using assms(2) by simp
  have "off + i = off div BSIZE * BSIZE + (off mod BSIZE + i)" by (metis add.assoc div_mult_mod_eq)
  then have "(off + i) div BSIZE = off div BSIZE" "(off + i) mod BSIZE = off mod BSIZE + i"
    using lt by (metis add.commute div_mult_self_is_m div_mult_self3 div_less add_cancel_right_right lt less_nat_zero_code not_gr0,
        metis lt mod_less mod_mult_self3)
  then show "take m (drop (off mod BSIZE) (view s (file_addr s x (off div BSIZE)))) ! i = map (file_byte s x) [off..<off + m] ! i"
    using i lt by (simp add: file_byte_def nth_drop len)
qed

lemma bmap_mapped:
  fixes s :: "'z fsst_scheme"
  assumes t: "txn p {} s" "idev (itable s ip) = log_dev s" and n: "n < MAXFILE" "file_addr s (itable s ip) n \<noteq> 0"
  shows "\<exists>s'. bmap ip n s = Ok (file_addr s (itable s ip) n) s' \<and> txn_post p {} {} (view s) s s'"
proof (cases "n < NDIRECT")
  case True
  then show ?thesis
    using n txn_post_refl [OF t(1)] by (intro exI [of _ s]) (simp add: bmap_def kexec get_inode_def file_addr_def)
next
  case False
  let ?ia = "addrs (itable s ip) ! NDIRECT"
  have ia: "?ia \<noteq> 0" "get32 (4 * (n - NDIRECT)) (view s ?ia) \<noteq> 0" "file_addr s (itable s ip) n = get32 (4 * (n - NDIRECT)) (view s ?ia)"
    using n(2) False by (auto simp: file_addr_def split: if_splits)
  have lt: "n - NDIRECT < NINDIRECT" using n(1) False by (simp add: MAXFILE_def)
  obtain i s1 s' where 1: "bread (idev (itable s ip)) ?ia s = Ok i s1" "bdata (bufs s1 i) = view s ?ia" "brelse i s1 = Ok () s'"
    "txn_post p {} {} (view s) s s'"
    using peek_txn [OF t apart_empty] txn_room [OF t(1)] by fastforce
  then show ?thesis
    using False lt ia by (intro exI [of _ s']) (simp add: bmap_def kexec get_inode_def get_buf_def Let_def)
qed

section \<open>readi\<close>

lemma readi_loop_mapped:
  fixes s :: "'z fsst_scheme"
  assumes "txn p {} s" "idev (itable s ip) = log_dev s" "backed s (itable s ip) (off + k)"
  shows "\<exists>s'. readi_loop ip (Local d) off tot k acc s =
      Ok (int (tot + k), acc @ map (file_byte s (itable s ip)) [off..<off + k]) s' \<and> txn_post p {} {} (view s) s s'"
  using assms
proof (induction k arbitrary: s off tot acc d rule: less_induct)
  case (less k)
  let ?x = "itable s ip"
  show ?case
  proof (cases "k = 0")
    case True
    then show ?thesis
      using txn_post_refl [OF less.prems(1)] by (intro exI [of _ s]) (simp add: readi_loop.simps)
  next
    case False
    define m where "m = min k (BSIZE - off mod BSIZE)"
    have bs: "off mod BSIZE < BSIZE" by (simp add: BSIZE_def)
    then have m: "0 < m" "m \<le> k" "m \<le> BSIZE - off mod BSIZE" using False by (auto simp: m_def)
    have n: "off div BSIZE < MAXFILE"
      using less.prems(3) False by (simp add: backed_def less_mult_imp_div_less)
    have a: "file_addr s ?x (off div BSIZE) \<noteq> 0" using less.prems(3) False by (simp add: backed_def)
    let ?a = "file_addr s ?x (off div BSIZE)"
    obtain s1 where 1: "bmap ip (off div BSIZE) s = Ok ?a s1" "txn_post p {} {} (view s) s s1"
      using bmap_mapped [OF less.prems(1,2) n a] by blast
    note d1 = txn_postD [OF 1(2)] txn_post_frame [OF 1(2)] txn_frame_fs [OF txn_postD(2) [OF 1(2)]]
    have dev1: "idev (itable s1 ip) = log_dev s1" using less.prems(2) d1 by simp
    obtain i s2 s3 where 2: "bread (idev (itable s1 ip)) ?a s1 = Ok i s2" "bdata (bufs s2 i) = view s1 ?a" "brelse i s2 = Ok () s3"
      "txn_frame s1 s2" "txn_post p {} {} (view s1) s1 s3"
      using peek_txn [OF d1(1) dev1 apart_empty] txn_room [OF d1(1)] by fastforce
    note d3 = txn_postD [OF 2(5)] txn_post_frame [OF 2(5)] txn_frame_fs [OF txn_postD(2) [OF 2(5)]]
    have calm2: "calm p s2" using txn_calm [OF d1(1)] txn_frame_calm [OF 2(4)] by simp
    have v: "view s3 = view s" using d1(3) d3(3) by simp
    have it: "itable s3 = itable s" using d1(10) d3(10) by simp
    have "backed s3 (itable s3 ip) (off + m + (k - m))" using less.prems(3) m by (simp add: file_view [OF v] it)
    moreover have "idev (itable s3 ip) = log_dev s3" using less.prems(2) d1 d3 by simp
    ultimately obtain s' where IH: "readi_loop ip (xadvance m (Local d)) (off + m) (tot + m) (k - m)
        (acc @ map (file_byte s ?x) [off..<off + m]) s3 =
        Ok (int (tot + m + (k - m)), (acc @ map (file_byte s ?x) [off..<off + m]) @ map (file_byte s3 (itable s3 ip)) [off + m..<off + m + (k - m)]) s'"
      "txn_post p {} {} (view s3) s3 s'"
      using less.IH [of "k - m" s3 "off + m" "drop m d" "tot + m" "acc @ map (file_byte s ?x) [off..<off + m]"] m False d3(1)
      by auto
    have bytes: "take m (drop (off mod BSIZE) (view s ?a)) = map (file_byte s ?x) [off..<off + m]"
      by (rule block_bytes [OF less.prems(1) m(3)])
    have cat: "map (file_byte s ?x) [off..<off + m] @ map (file_byte s ?x) [off + m..<off + k] = map (file_byte s ?x) [off..<off + k]"
      using m(2) upt_add_eq_append [of off "off + m" "k - m"] by (simp flip: map_append)
    have "readi_loop ip (Local d) off tot k acc s = Ok (int (tot + k), acc @ map (file_byte s ?x) [off..<off + k]) s'"
      using False a m(2) 1(1) 2(1-3) IH(1) bytes cat
      by (subst readi_loop.simps)
        (simp add: kexec get_inode_def get_buf_def Let_def copyout_local [OF calm2] m_def [symmetric] d1(3) file_view [OF v] it)
    moreover have "txn_post p {} {} (view s) s s'"
      using txn_post_trans [OF txn_post_trans [OF 1(2) 2(5)] IH(2)] v by simp
    ultimately show ?thesis by blast
  qed
qed


lemma readi_mapped:
  fixes s :: "'z fsst_scheme"
  assumes "txn p {} s" "idev (itable s ip) = log_dev s" "backed s (itable s ip) (unat (isize (itable s ip)))"
    and "unat off + unat n < 2 ^ 32"
  defines "data \<equiv> take (unat n) (drop (unat off) (contents s (itable s ip)))"
  shows "\<exists>s'. readi ip (Local d) off n s = Ok (int (length data), data) s' \<and> txn_post p {} {} (view s) s s'"
proof -
  let ?x = "itable s ip"
  have sum: "unat (off + n) = unat off + unat n" using assms(4) by (simp add: unat_word_ariths)
  have ov: "\<not> off + n < off" using sum by (simp add: word_less_nat_alt)
  show ?thesis
  proof (cases "isize ?x < off")
    case True
    then have "data = []" by (simp add: data_def contents_def word_less_nat_alt)
    then show ?thesis
      using True txn_post_refl [OF assms(1)] by (intro exI [of _ s]) (simp add: readi_def kexec get_inode_def)
  next
    case False
    define k where "k = (if off + n > isize ?x then isize ?x - off else n)"
    have k: "unat off + unat k = min (unat off + unat n) (unat (isize ?x))"
      using False sum by (auto simp: k_def word_less_nat_alt unat_sub_if_size not_less)
    have "data = map (file_byte s ?x) [unat off..<unat off + unat k]"
    proof -
      have "take (unat n) (drop (unat off) [0..<unat (isize ?x)]) = [unat off..<unat off + unat k]"
        unfolding k by (simp add: min_def)
      then show ?thesis by (simp add: data_def contents_def take_map drop_map)
    qed
    moreover have "unat off + unat k \<le> unat (isize ?x)" using k by simp
    then have "backed s ?x (unat off + unat k)" using assms(3) by (auto simp: backed_def)
    ultimately show ?thesis
      using readi_loop_mapped [OF assms(1,2), of "unat off" "unat k" d 0 "[]"] False ov
      by (simp add: readi_def kexec get_inode_def Let_def k_def [symmetric])
  qed
qed


section \<open>Changing the bytes\<close>

lemma BSIZE_pos [simp]: "0 < BSIZE"
  by (simp add: BSIZE_def)

lemma BSIZE_split:
  fixes off :: nat
  shows "off = off div BSIZE * BSIZE + off mod BSIZE" "off mod BSIZE < BSIZE"
  by simp_all

text \<open>The number of blocks that a write of \<open>k\<close> bytes at \<open>off\<close> changes.\<close>

definition touched :: "nat \<Rightarrow> nat \<Rightarrow> nat" where
  "touched off k = (if k = 0 then 0 else (off + k - 1) div BSIZE - off div BSIZE + 1)"

lemma touched_step:
  assumes "0 < k" and m: "m = min k (BSIZE - off mod BSIZE)"
  shows "touched (off + m) (k - m) + 1 \<le> touched off k"
proof (cases "m = k")
  case True
  then show ?thesis using assms(1) by (simp add: touched_def)
next
  case False
  then have "m = BSIZE - off mod BSIZE" using m by auto
  then have "off + m = (off div BSIZE + 1) * BSIZE"
    using BSIZE_split [of off] by (metis add.assoc add_mult_distrib le_add_diff_inverse less_imp_le mult_1)
  then have d: "(off + m) div BSIZE = off div BSIZE + 1" by simp
  have "m < k" using False m by simp
  then have "(off + m) div BSIZE \<le> (off + k - 1) div BSIZE" by (intro div_le_mono) simp
  then show ?thesis using \<open>m < k\<close> d by (simp add: touched_def)
qed

lemma div_mod_offset:
  fixes off i :: nat
  assumes "m \<le> BSIZE - off mod BSIZE"
  shows "(i div BSIZE = off div BSIZE \<and> off mod BSIZE \<le> i mod BSIZE \<and> i mod BSIZE < off mod BSIZE + m) \<longleftrightarrow> off \<le> i \<and> i < off + m"
    "off \<le> i \<Longrightarrow> i div BSIZE = off div BSIZE \<Longrightarrow> i mod BSIZE - off mod BSIZE = i - off"
proof -
  note o = BSIZE_split [of off] and i = BSIZE_split [of i]
  show "off \<le> i \<Longrightarrow> i div BSIZE = off div BSIZE \<Longrightarrow> i mod BSIZE - off mod BSIZE = i - off"
    using o(1) i(1) by (metis diff_cancel2 add.commute)
  have same: "i div BSIZE = off div BSIZE" if "off \<le> i" "i < off + m"
  proof -
    have "i < off div BSIZE * BSIZE + BSIZE" using that(2) assms o by linarith
    moreover have "off div BSIZE * BSIZE \<le> i" using that(1) o by linarith
    ultimately show ?thesis by (simp add: div_nat_eqI mult.commute)
  qed
  show "(i div BSIZE = off div BSIZE \<and> off mod BSIZE \<le> i mod BSIZE \<and> i mod BSIZE < off mod BSIZE + m) \<longleftrightarrow> off \<le> i \<and> i < off + m"
    (is "?l \<longleftrightarrow> ?r")
  proof
    assume l: ?l
    then have "i div BSIZE * BSIZE = off div BSIZE * BSIZE" by simp
    then show ?r using l o i by linarith
  next
    assume r: ?r
    then have d: "i div BSIZE = off div BSIZE" using same by blast
    then have "i div BSIZE * BSIZE = off div BSIZE * BSIZE" by simp
    then show ?l using r d o i by linarith
  qed
qed



text \<open>A block of the file, or the one of its inode, gets new contents.\<close>

lemma write_used:
  fixes s :: "'z fsst_scheme"
  assumes ok: "file_ok s x ib" and a: "a \<in> insert ib (data_addrs s x)" and same: "same_fs s s'" and v: "view s' = (view s)(a := bs)"
  shows "file_addr s' x = file_addr s x" "bitmaps s' = bitmaps s" "free_set s' = free_set s" "file_ok s' x ib" "foot s' x = foot s x"
    "fs_layout s' = fs_layout s" "space k B s \<Longrightarrow> budget k C s' \<Longrightarrow> B \<subseteq> C \<Longrightarrow> space k C s'"
proof -
  have used: "used_block s a" using file_ok_used [OF ok] a by blast
  have "a \<notin> ind_addrs x" using ok a by (auto simp: file_ok_def)
  then show fa: "file_addr s' x = file_addr s x" by (intro ext) (auto simp: file_addr_def v ind_addrs_def)
  show bm: "bitmaps s' = bitmaps s" by (rule same_fs_bitmaps [OF same])
  have "view s' (bitmap_block (sb s) c) = view s (bitmap_block (sb s) c)" if "c < unat (sb_size (sb s))" for c
    using used that by (auto simp: v used_block_def bitmaps_def)
  then show free: "free_set s' = free_set s" using same by (auto simp: free_set_def same_fs_def)
  have "used_block s' = used_block s" using same by (simp add: used_block_def fun_eq_iff bm free same_fs_def)
  then show "file_ok s' x ib" using ok by (simp add: file_ok_def data_addrs_def fa)
  show "foot s' x = foot s x" by (simp add: foot_def bm free data_addrs_def fa)
  have "data_block s' = data_block s" using same by (simp add: data_block_def same_fs_def fun_eq_iff)
  then show lay: "fs_layout s' = fs_layout s" using same by (simp add: fs_layout_def free same_fs_def)
  show "space k B s \<Longrightarrow> budget k C s' \<Longrightarrow> B \<subseteq> C \<Longrightarrow> space k C s'"
    by (auto simp: space_def lay bm free)
qed

text \<open>The file \<open>x\<close> of \<open>s\<close> has become \<open>x'\<close> in \<open>s'\<close> by a write of \<open>d\<close> at \<open>off\<close>.\<close>

definition wrote :: "inode \<Rightarrow> inode \<Rightarrow> nat \<Rightarrow> byte list \<Rightarrow> 'z fsst_scheme \<Rightarrow> 'z fsst_scheme \<Rightarrow> bool" where
  "wrote x x' off d s s' \<longleftrightarrow> x' = x\<lparr>addrs := addrs x'\<rparr> \<and> same_fs s s' \<and> foot s' x' \<subseteq> foot s x \<and>
     (\<forall>i < MAXFILE * BSIZE. off \<le> i \<longrightarrow> i < off + length d \<longrightarrow> file_addr s' x' (i div BSIZE) \<noteq> 0 \<and> file_byte s' x' i = d ! (i - off)) \<and>
     (\<forall>i < MAXFILE * BSIZE. \<not> (off \<le> i \<and> i < off + length d) \<longrightarrow> file_addr s x (i div BSIZE) \<noteq> 0 \<longrightarrow>
        file_addr s' x' (i div BSIZE) \<noteq> 0 \<and> file_byte s' x' i = file_byte s x i) \<and>
     (\<forall>b. b \<notin> foot s x \<longrightarrow> view s' b = view s b)"

lemma wroteD:
  assumes "wrote x x' off d s s'"
  shows "x' = x\<lparr>addrs := addrs x'\<rparr>" "same_fs s s'" "foot s' x' \<subseteq> foot s x"
    "i < MAXFILE * BSIZE \<Longrightarrow> off \<le> i \<Longrightarrow> i < off + length d \<Longrightarrow> file_addr s' x' (i div BSIZE) \<noteq> 0 \<and> file_byte s' x' i = d ! (i - off)"
    "i < MAXFILE * BSIZE \<Longrightarrow> \<not> (off \<le> i \<and> i < off + length d) \<Longrightarrow> file_addr s x (i div BSIZE) \<noteq> 0 \<Longrightarrow>
      file_addr s' x' (i div BSIZE) \<noteq> 0 \<and> file_byte s' x' i = file_byte s x i"
    "b \<notin> foot s x \<Longrightarrow> view s' b = view s b"
  using assms unfolding wrote_def by blast+

lemma wrote_intro:
  assumes "x' = x\<lparr>addrs := addrs x'\<rparr>" "same_fs s s'" "foot s' x' \<subseteq> foot s x"
    and "\<And>i. i < MAXFILE * BSIZE \<Longrightarrow> off \<le> i \<Longrightarrow> i < off + length d \<Longrightarrow>
      file_addr s' x' (i div BSIZE) \<noteq> 0 \<and> file_byte s' x' i = d ! (i - off)"
    and "\<And>i. i < MAXFILE * BSIZE \<Longrightarrow> \<not> (off \<le> i \<and> i < off + length d) \<Longrightarrow> file_addr s x (i div BSIZE) \<noteq> 0 \<Longrightarrow>
      file_addr s' x' (i div BSIZE) \<noteq> 0 \<and> file_byte s' x' i = file_byte s x i"
    and "\<And>b. b \<notin> foot s x \<Longrightarrow> view s' b = view s b"
  shows "wrote x x' off d s s'"
  unfolding wrote_def by (intro conjI allI impI assms) (use assms(4,5) in simp_all)

lemma wrote_trans:
  assumes 1: "wrote x y off d s t" and 2: "wrote y z (off + length d) e t u"
  shows "wrote x z off (d @ e) s u"
proof (rule wrote_intro)
  note d1 = wroteD [OF 1] and d2 = wroteD [OF 2]
  show "z = x\<lparr>addrs := addrs z\<rparr>" using d1(1) d2(1) by (metis inode.surjective inode.update_convs(10))
  show "same_fs s u" by (rule same_fs_trans [OF d1(2) d2(2)])
  show "foot u z \<subseteq> foot s x" by (rule order_trans [OF d2(3) d1(3)])
  show "view u b = view s b" if b: "b \<notin> foot s x" for b
  proof -
    have "b \<notin> foot t y" using d1(3) b by blast
    then show ?thesis using d1(6) [OF b] d2(6) by simp
  qed
  show "file_addr u z (i div BSIZE) \<noteq> 0 \<and> file_byte u z i = (d @ e) ! (i - off)"
    if i: "i < MAXFILE * BSIZE" "off \<le> i" "i < off + length (d @ e)" for i
  proof (cases "i < off + length d")
    case True
    then have "file_addr t y (i div BSIZE) \<noteq> 0 \<and> file_byte t y i = d ! (i - off)" using d1(4) i by blast
    moreover have "\<not> (off + length d \<le> i \<and> i < off + length d + length e)" using True by simp
    moreover have "i - off < length d" using True i(2) by linarith
    then have "(d @ e) ! (i - off) = d ! (i - off)" by (simp add: nth_append)
    ultimately show ?thesis using d2(5) [OF i(1)] by simp
  next
    case False
    then have "\<not> i - off < length d" "i - off - length d = i - (off + length d)" using i(2) by linarith+
    then have "(d @ e) ! (i - off) = e ! (i - (off + length d))" by (simp add: nth_append)
    then show ?thesis using d2(4) [OF i(1)] i(3) False by simp
  qed
  show "file_addr u z (i div BSIZE) \<noteq> 0 \<and> file_byte u z i = file_byte s x i"
    if i: "i < MAXFILE * BSIZE" "\<not> (off \<le> i \<and> i < off + length (d @ e))" "file_addr s x (i div BSIZE) \<noteq> 0" for i
  proof -
    have "\<not> (off \<le> i \<and> i < off + length d)" "\<not> (off + length d \<le> i \<and> i < off + length d + length e)" using i(2) by auto
    then show ?thesis using d1(5) [OF i(1) _ i(3)] d2(5) [OF i(1)] by simp
  qed
qed

lemma file_offset: "i < MAXFILE * BSIZE \<Longrightarrow> i div BSIZE < MAXFILE"
  by (simp add: less_mult_imp_div_less)

lemma grew_wrote:
  fixes s :: "'z fsst_scheme"
  assumes ok: "file_ok s x ib" and g: "grew N x x' s s'"
  shows "wrote x x' off [] s s'"
proof (rule wrote_intro)
  note d = grewD [OF g]
  show "x' = x\<lparr>addrs := addrs x'\<rparr>" "same_fs s s'" "foot s' x' \<subseteq> foot s x" by (rule d)+
  show "view s' b = view s b" if "b \<notin> foot s x" for b using d(9) [of b] that by (simp add: foot_def)
  show "file_addr s' x' (i div BSIZE) \<noteq> 0 \<and> file_byte s' x' i = file_byte s x i"
    if i: "i < MAXFILE * BSIZE" "file_addr s x (i div BSIZE) \<noteq> 0" for i
  proof -
    have n: "i div BSIZE < MAXFILE" by (rule file_offset [OF i(1)])
    have a: "file_addr s' x' (i div BSIZE) = file_addr s x (i div BSIZE)" using d(5) [OF n] i(2) by simp
    have "view s' (file_addr s x (i div BSIZE)) = view s (file_addr s x (i div BSIZE))"
      by (rule grew_view [OF ok g]) (use n i(2) in \<open>simp add: data_addrs_def\<close>)
    then show ?thesis using i(2) a by (simp add: file_byte_def)
  qed
qed simp


text \<open>Writing within one block.\<close>

lemma write_block:
  fixes s :: "'z fsst_scheme"
  assumes t: "txn p {} s" "dev = log_dev s" and ok: "file_ok s x ib" and n: "off div BSIZE < MAXFILE" "file_addr s x (off div BSIZE) \<noteq> 0"
    and m: "length d \<le> BSIZE - off mod BSIZE" and sp: "space k B s" "file_addr s x (off div BSIZE) \<in> B"
  defines "a \<equiv> file_addr s x (off div BSIZE)"
  shows "\<exists>i s1 s2 s3 s'. bread dev a s = Ok i s1 \<and> txn_frame s s1 \<and> upd_data i (put_bytes (off mod BSIZE) d) s1 = Ok () s2 \<and>
    log_write i s2 = Ok () s3 \<and> brelse i s3 = Ok () s' \<and> txn p {} s' \<and> txn_frame s s' \<and>
    wrote x x off d s s' \<and> file_ok s' x ib \<and> space k B s'"
proof -
  have len: "length (view s a) = BSIZE" by (rule view_length [OF t(1)])
  have fits: "off mod BSIZE + length d \<le> length (view s a)" using m BSIZE_split(2) [of off] unfolding len by linarith
  have da: "a \<in> insert ib (data_addrs s x)" "a \<in> data_addrs s x" using n by (auto simp: a_def data_addrs_def)
  have area: "a \<notin> log_area s" using file_ok_used [OF ok] da by (auto simp: used_block_def)
  have bud: "budget k B s" using sp(1) by (simp add: space_def)
  have room: "0 < log_room s" using budget_room [OF bud t(1)] by simp
  from change_txn [OF t apart_empty area room, of "put_bytes (off mod BSIZE) d"] obtain i s1 s2 s3 s' where
    r: "bread dev a s = Ok i s1" "txn_frame s s1" "upd_data i (put_bytes (off mod BSIZE) d) s1 = Ok () s2"
      "log_write i s2 = Ok () s3" "brelse i s3 = Ok () s'"
      "txn_post p {} {a} ((view s)(a := put_bytes (off mod BSIZE) d (view s a))) s s'"
    using fits len by auto
  note post = txn_postD [OF r(6)]
  have same: "same_fs s s'" by (rule same_fs_frame [OF post(2)])
  note w = write_used [OF ok da(1) same post(3)]
  have byte: "file_byte s' x i = (if off \<le> i \<and> i < off + length d then d ! (i - off) else file_byte s x i)"
    if i: "i < MAXFILE * BSIZE" "file_addr s x (i div BSIZE) \<noteq> 0" for i
  proof (cases "i div BSIZE = off div BSIZE")
    case True
    have "file_byte s' x i = put_bytes (off mod BSIZE) d (view s a) ! (i mod BSIZE)"
      by (simp add: file_byte_def w(1) True post(3) a_def)
    also have "\<dots> = (if off mod BSIZE \<le> i mod BSIZE \<and> i mod BSIZE < off mod BSIZE + length d then d ! (i mod BSIZE - off mod BSIZE)
        else view s a ! (i mod BSIZE))"
      by (rule nth_put_bytes [OF fits]) (simp add: len)
    finally show ?thesis using True div_mod_offset [OF m, of i] by (auto simp: file_byte_def a_def)
  next
    case False
    have "file_addr s x (i div BSIZE) \<noteq> a"
      using ok file_offset [OF i(1)] i(2) n False unfolding a_def by (auto simp: file_ok_def dest: inj_onD)
    then have "file_byte s' x i = file_byte s x i" by (simp add: file_byte_def w(1) post(3))
    then show ?thesis using False div_mod_offset(1) [OF m, of i] by auto
  qed
  have "wrote x x off d s s'"
  proof (rule wrote_intro)
    show "file_addr s' x (i div BSIZE) \<noteq> 0 \<and> file_byte s' x i = d ! (i - off)"
      if i: "i < MAXFILE * BSIZE" "off \<le> i" "i < off + length d" for i
    proof -
      have "i div BSIZE = off div BSIZE" using div_mod_offset(1) [OF m, of i] i by blast
      then show ?thesis using byte [of i] i n(2) by (simp add: w(1))
    qed
    show "view s' b = view s b" if "b \<notin> foot s x" for b using that da(2) post(3) by (auto simp: foot_def)
  qed (use same w(1,5) byte in auto)
  moreover have "space k B s'"
    using w(7) [OF sp(1) budget_post [OF r(6) _ bud]] sp(2) by (simp add: a_def)
  ultimately show ?thesis using r(1-5) post(1,2) w(4) by blast
qed


section \<open>writei\<close>

lemma space_mono: "space k B s \<Longrightarrow> j \<le> k \<Longrightarrow> space j B s"
  by (auto simp: space_def intro: budget_mono)

lemma wrote_same: "same_fs s s' \<Longrightarrow> wrote x x' off d s s' \<Longrightarrow> idev x' = idev x \<and> inum x' = inum x \<and> isize x' = isize x"
  by (metis wroteD(1) inode.select_convs(1,2,9) inode.surjective inode.update_convs(10))

lemma writei_loop_grows:
  fixes s :: "'z fsst_scheme"
  assumes "txn p {} s" "idev (itable s ip) = log_dev s" "file_ok s (itable s ip) ib" "off + k \<le> MAXFILE * BSIZE" "k \<le> length d"
    and "space (touched off k + missing (itable s ip)) B s" "ind_addrs (itable s ip) \<subseteq> B"
  shows "\<exists>s' x' C. writei_loop ip (Local d) off tot k s = Ok (tot + k, off + k) s' \<and> txn p {} s' \<and>
    itable s' = (itable s)(ip := x') \<and> wrote (itable s ip) x' off (take k d) s s' \<and> file_ok s' x' ib \<and> space 0 C s' \<and> B \<subseteq> C"
  using assms
proof (induction k arbitrary: s off tot d B rule: less_induct)
  case (less k)
  let ?x = "itable s ip"
  show ?case
  proof (cases "k = 0")
    case True
    moreover have "wrote ?x ?x off [] s s" by (rule grew_wrote [OF less.prems(3) grew_refl])
    moreover have "space 0 B s" using space_mono [OF less.prems(6)] by simp
    ultimately show ?thesis using less.prems(1,3)
      by (intro exI [of _ s] exI [of _ ?x] exI [of _ B]) (simp add: writei_loop.simps)
  next
    case False
    define m where "m = min k (BSIZE - off mod BSIZE)"
    have m: "0 < m" "m \<le> k" "m \<le> BSIZE - off mod BSIZE" using False BSIZE_split(2) [of off] by (auto simp: m_def)
    have step: "touched (off + m) (k - m) + 1 \<le> touched off k" using touched_step [OF _ m_def] False by simp
    have n: "off div BSIZE < MAXFILE" using less.prems(4) False by (intro file_offset) simp
    have sp: "space (touched (off + m) (k - m) + 1 + missing ?x) B s" using space_mono [OF less.prems(6)] step by simp
    obtain s1 y C where 1: "bmap ip (off div BSIZE) s = Ok (file_addr s1 y (off div BSIZE)) s1"
      "bmap_post p {off div BSIZE} ip ib (touched (off + m) (k - m) + missing y) C s y s1" "file_addr s1 y (off div BSIZE) \<in> C" "B \<subseteq> C"
      using bmap_grows [OF less.prems(1-3) n sp less.prems(7)] by blast
    have d1: "txn p {} s1" "itable s1 = (itable s)(ip := y)" "grew {off div BSIZE} ?x y s s1" "file_ok s1 y ib"
      "space (touched (off + m) (k - m) + missing y) C s1" "ind_addrs y \<subseteq> C"
      using 1(2) by (simp_all add: bmap_post_def)
    let ?a = "file_addr s1 y (off div BSIZE)"
    have a: "?a \<noteq> 0" by (rule grewD(8) [OF d1(3)]) simp
    have w1: "wrote ?x y off [] s s1" by (rule grew_wrote [OF less.prems(3) d1(3)])
    have dev1: "idev y = log_dev s1" using wrote_same [OF wroteD(2) [OF w1] w1] wroteD(2) [OF w1] less.prems(2) by (simp add: same_fs_def)
    have lm: "length (take m d) = m" using m(2) less.prems(5) by simp
    have md: "length (take m d) \<le> BSIZE - off mod BSIZE" using m(3) lm by simp
    obtain i s2 s3 s4 s5 where 2: "bread (idev y) ?a s1 = Ok i s2" "txn_frame s1 s2"
      "upd_data i (put_bytes (off mod BSIZE) (take m d)) s2 = Ok () s3" "log_write i s3 = Ok () s4" "brelse i s4 = Ok () s5"
      "txn p {} s5" "txn_frame s1 s5" "wrote y y off (take m d) s1 s5" "file_ok s5 y ib"
      "space (touched (off + m) (k - m) + missing y) C s5"
      using write_block [OF d1(1) dev1 d1(4) n a md d1(5) 1(3)] by blast
    have it5: "itable s5 = (itable s)(ip := y)" using d1(2) txn_frame_fs(2) [OF 2(7)] by simp
    have w5: "wrote ?x y off (take m d) s s5" using wrote_trans [OF w1] 2(8) by simp
    have y5: "itable s5 ip = y" by (simp add: it5)
    have "\<exists>s' x' C'. writei_loop ip (Local (drop m d)) (off + m) (tot + m) (k - m) s5 =
        Ok (tot + m + (k - m), off + m + (k - m)) s' \<and> txn p {} s' \<and> itable s' = (itable s5)(ip := x') \<and>
        wrote (itable s5 ip) x' (off + m) (take (k - m) (drop m d)) s5 s' \<and> file_ok s' x' ib \<and> space 0 C' s' \<and> C \<subseteq> C'"
      by (rule less.IH)
        (use m False less.prems(4,5) dev1 wroteD(2) [OF 2(8)] 2(6,9,10) d1(6) in \<open>simp_all add: y5 same_fs_def\<close>)
    then obtain s' x' C' where 3: "writei_loop ip (Local (drop m d)) (off + m) (tot + m) (k - m) s5 = Ok (tot + k, off + k) s'"
      "txn p {} s'" "itable s' = (itable s5)(ip := x')" "wrote y x' (off + m) (take (k - m) (drop m d)) s5 s'"
      "file_ok s' x' ib" "space 0 C' s'" "C \<subseteq> C'"
      using m(2) unfolding y5 by auto
    have "take m d @ take (k - m) (drop m d) = take k d" using m(2) by (metis le_add_diff_inverse take_add)
    then have w: "wrote ?x x' off (take k d) s s'" using wrote_trans [OF w5, unfolded lm, OF 3(4)] by simp
    have calm2: "calm p s2" using txn_calm [OF d1(1)] txn_frame_calm [OF 2(2)] by simp
    have "writei_loop ip (Local d) off tot k s = Ok (tot + k, off + k) s'"
      using False a 1(1) 2(1,3-5) 3(1) d1(2)
      by (subst writei_loop.simps) (simp add: kexec get_inode_def Let_def copyin_local [OF calm2] m_def [symmetric])
    then show ?thesis using 3 w it5 1(4) by (intro exI [of _ s'] exI [of _ x'] exI [of _ C']) auto
  qed
qed


lemma iupdate_txn:
  fixes s :: "'z fsst_scheme"
  assumes t: "txn p {} s" "idev (itable s ip) = log_dev s" and l: "length (addrs (itable s ip)) = NDIRECT + 1"
    and ib: "IBLOCK (inum (itable s ip)) (sb s) = ib" "ib \<notin> log_area s" "0 < log_room s"
  shows "\<exists>s'. iupdate ip s = Ok () s' \<and>
    txn_post p {} {ib} ((view s)(ib := put_dinode (dip_off (inum (itable s ip))) (itable s ip) (view s ib))) s s'"
proof -
  let ?x = "itable s ip"
  have "dip_off (inum ?x) + DINODE_SIZE \<le> length (view s ib)"
    using dip_off_fits view_length [OF t(1)] by simp
  then have "length (put_dinode (dip_off (inum ?x)) ?x (view s ib)) = BSIZE"
    using dinode_roundtrip_lemma(2) [OF _ l] view_length [OF t(1)] by simp
  from change_txn [OF t apart_empty ib(2,3), of "put_dinode (dip_off (inum ?x)) ?x", OF this] show ?thesis
    using ib(1) by (auto simp: iupdate_def kexec get_inode_def)
qed

text \<open>
  Inode \<open>ip\<close> is at hand in a transaction: its blocks are in use and different from each other and from the one
  that holds the inode on disk, and all its bytes have blocks.
\<close>

definition file_ready :: "nat \<Rightarrow> nat \<Rightarrow> 'z fsst_scheme \<Rightarrow> bool" where
  "file_ready p ip s \<longleftrightarrow> (let x = itable s ip in
     txn p {} s \<and> idev x = log_dev s \<and> file_ok s x (IBLOCK (inum x) (sb s)) \<and> backed s x (unat (isize x)))"

text \<open>
  There is room for a write of \<open>n\<close> bytes at \<open>off\<close>: \<open>B\<close> has the blocks of the bitmap, the block of the inode and
  the indirect block.
\<close>

definition write_room :: "nat \<Rightarrow> nat \<Rightarrow> nat \<Rightarrow> uint set \<Rightarrow> 'z fsst_scheme \<Rightarrow> bool" where
  "write_room ip off n B s \<longleftrightarrow> (let x = itable s ip in
     space (touched off n + missing x) B s \<and> insert (IBLOCK (inum x) (sb s)) (ind_addrs x) \<subseteq> B)"

lemma contents_splice:
  assumes "off \<le> n" "m = max n (off + length d)"
    and "\<And>i. i < max n (off + length d) \<Longrightarrow> f i = (if off \<le> i \<and> i < off + length d then d ! (i - off) else g i)"
  shows "map f [0..<m] = take off (map g [0..<n]) @ d @ drop (off + length d) (map g [0..<n])"
  using assms by (intro nth_equalityI) (auto simp: nth_append max_def not_less split: if_splits)



text \<open>The steps of \<open>writei\<close>: the loop, the size in the table, the inode on disk.\<close>

lemma writei_steps:
  fixes s :: "'z fsst_scheme" and off :: nat and d :: "byte list"
  assumes r: "file_ready p ip s" and off: "off \<le> unat (isize (itable s ip))" "off + length d \<le> MAXFILE * BSIZE"
    and room: "write_room ip off (length d) B s"
  defines "x \<equiv> itable s ip" and "ib \<equiv> IBLOCK (inum (itable s ip)) (sb s)"
  shows "\<exists>s1 y C x' s'. writei ip (Local d) (of_nat off) (of_nat (length d)) s = Ok (int (length d)) s' \<and>
    txn p {} s1 \<and> wrote x y off d s s1 \<and> file_ok s1 y ib \<and> space 0 C s1 \<and> B \<subseteq> C \<and>
    x' = y\<lparr>isize := max (isize x) (of_nat (off + length d))\<rparr> \<and> unat (isize x') = max (unat (isize x)) (off + length d) \<and>
    view s' = (view s1)(ib := put_dinode (dip_off (inum x')) x' (view s1 ib)) \<and> same_fs s1 s' \<and> budget 0 C s' \<and>
    txn p {} s' \<and> itable s' = (itable s)(ip := x')"
proof -
  let ?n = "off + length d"
  have t: "txn p {} s" "idev x = log_dev s" "file_ok s x ib" using r by (simp_all add: file_ready_def Let_def x_def ib_def)
  have K: "?n \<le> MAXFILE * BSIZE" using off(2) .
  then have big: "?n < 2 ^ 32" by (simp add: MAXFILE_def NDIRECT_def NINDIRECT_def BSIZE_def)
  have u: "unat (of_nat off :: uint) = off" "unat (of_nat (length d) :: uint) = length d" "unat (of_nat ?n :: uint) = ?n"
    "unat (of_nat (MAXFILE * BSIZE) :: uint) = MAXFILE * BSIZE"
    using big by (simp_all add: unat_of_nat del: of_nat_add) (simp_all add: unat_of_nat MAXFILE_def NDIRECT_def NINDIRECT_def BSIZE_def)
  have sum: "(of_nat off + of_nat (length d) :: uint) = of_nat ?n" by simp
  have guards: "\<not> isize x < of_nat off" "\<not> (of_nat ?n :: uint) < of_nat off" "\<not> of_nat (MAXFILE * BSIZE) < (of_nat ?n :: uint)"
    using off K unfolding word_less_nat_alt u x_def by simp_all
  have sp: "space (touched off (length d) + missing x) B s" "ind_addrs x \<subseteq> B" "ib \<in> B"
    using room by (simp_all add: write_room_def Let_def x_def ib_def)
  obtain s1 y C where 1: "writei_loop ip (Local d) off 0 (length d) s = Ok (length d, ?n) s1" "txn p {} s1"
    "itable s1 = (itable s)(ip := y)" "wrote x y off d s s1" "file_ok s1 y ib" "space 0 C s1" "B \<subseteq> C"
    using writei_loop_grows [OF t [unfolded x_def] off(2) le_refl sp(1,2) [unfolded x_def], where tot = 0] by (auto simp: x_def)
  have y: "idev y = idev x" "inum y = inum x" "isize y = isize x" and same1: "same_fs s s1"
    using wrote_same [OF wroteD(2) [OF 1(4)] 1(4)] wroteD(2) [OF 1(4)] by simp_all
  define x' where "x' = y\<lparr>isize := max (isize x) (of_nat ?n)\<rparr>"
  define s2 where "s2 = s1\<lparr>itable := (itable s1)(ip := x')\<rparr>"
  note it = txn_itable [where s = s1 and t = "(itable s1)(ip := x')", folded s2_def]
  have s2: "itable s2 ip = x'" "itable s2 = (itable s)(ip := x')" "sb s2 = sb s" "log_dev s2 = log_dev s"
    using same1 by (simp_all add: s2_def 1(3) same_fs_def)
  have grow: "kwhen (of_nat ?n > isize y) (upd_inode ip (\<lambda>x. x\<lparr>isize := of_nat ?n\<rparr>)) s1 = Ok () s2"
  proof -
    have "y = x'" if "\<not> of_nat ?n > isize y" using that by (simp add: x'_def y(3) [symmetric] max_def not_less del: of_nat_add)
    moreover have "y\<lparr>isize := of_nat ?n\<rparr> = x'" if "of_nat ?n > isize y" using that by (simp add: x'_def y(3) [symmetric] max_def del: of_nat_add)
    ultimately show ?thesis by (auto simp: kwhen_def upd_inode_def kexec s2_def 1(3) simp del: of_nat_add)
  qed
  have ib: "ib \<notin> log_area s1" using file_ok_used [OF 1(5)] by (simp add: used_block_def)
  have inums: "idev (itable s2 ip) = log_dev s2" "length (addrs (itable s2 ip)) = NDIRECT + 1" "IBLOCK (inum (itable s2 ip)) (sb s2) = ib"
    "ib \<notin> log_area s2"
    using t(2) 1(5) ib it y unfolding s2 by (simp_all add: x'_def ib_def x_def file_ok_def)
  have bud: "budget 0 C s2" using 1(6) it by (simp add: space_def)
  have t2: "txn p {} s2" using 1(2) it by simp
  have room2: "0 < log_room s2" using budget_room [OF bud t2] by simp
  obtain s' where 2: "iupdate ip s2 = Ok () s'"
    "txn_post p {} {ib} ((view s2)(ib := put_dinode (dip_off (inum x')) x' (view s2 ib))) s2 s'"
    using iupdate_txn [OF t2 inums room2] unfolding s2(1) by blast
  note post = txn_postD [OF 2(2)]
  have "writei ip (Local d) (of_nat off) (of_nat (length d)) s = Ok (int (length d)) s'"
    using guards 1(1) grow 2(1) u(1,2) unfolding writei_def x_def
    by (simp add: kexec get_inode_def sum 1(3) del: of_nat_add)
  moreover have "unat (isize x') = max (unat (isize x)) ?n"
    using u(3) by (simp add: x'_def max_def word_le_nat_alt del: of_nat_add)
  moreover have "budget 0 C s'" using budget_post [OF 2(2) _ bud] sp(3) 1(7) by blast
  moreover have "same_fs s1 s'" using same_fs_frame [OF post(2)] by (simp add: same_fs_def s2_def txn_itable)
  ultimately show ?thesis
    using 1(2,4-7) post(1,3) it(2) x'_def s2(2) txn_frame_fs(2) [OF post(2)]
    by (intro exI [of _ s1] exI [of _ y] exI [of _ C] exI [of _ x'] exI [of _ s']) simp
qed


lemma inode_same_blocks:
  assumes "addrs x' = addrs x"
  shows "file_addr s x' = file_addr s x" "file_byte s x' = file_byte s x" "file_ok s x' ib = file_ok s x ib" "ind_addrs x' = ind_addrs x"
proof -
  show f: "file_addr s x' = file_addr s x" by (intro ext) (simp only: file_addr_def assms)
  then show "file_byte s x' = file_byte s x" by (intro ext) (simp add: file_byte_def)
  show i: "ind_addrs x' = ind_addrs x" by (simp add: ind_addrs_def assms)
  show "file_ok s x' ib = file_ok s x ib" by (simp add: file_ok_def data_addrs_def f i assms)
qed

lemma writei_ready:
  fixes s :: "'z fsst_scheme" and off :: nat and d :: "byte list"
  assumes r: "file_ready p ip s" and off: "off \<le> unat (isize (itable s ip))" "off + length d \<le> MAXFILE * BSIZE"
    and room: "write_room ip off (length d) B s"
  defines "x \<equiv> itable s ip" and "ib \<equiv> IBLOCK (inum (itable s ip)) (sb s)"
  shows "\<exists>s' x'. writei ip (Local d) (of_nat off) (of_nat (length d)) s = Ok (int (length d)) s' \<and> file_ready p ip s' \<and>
    itable s' = (itable s)(ip := x') \<and> x' = x\<lparr>isize := max (isize x) (of_nat (off + length d)), addrs := addrs x'\<rparr> \<and>
    contents s' x' = take off (contents s x) @ d @ drop (off + length d) (contents s x) \<and>
    load_dinode (dip_off (inum x')) (view s' ib) x' = x' \<and> same_fs s s' \<and>
    {b. view s' b \<noteq> view s b} \<subseteq> insert ib (foot s x) \<and> (\<exists>C. B \<subseteq> C \<and> budget 0 C s')"
proof -
  let ?n = "off + length d"
  have bk: "backed s x (unat (isize x))" and dev: "idev x = log_dev s" using r by (simp_all add: file_ready_def Let_def x_def)
  obtain s1 y C x' s' where 1: "writei ip (Local d) (of_nat off) (of_nat (length d)) s = Ok (int (length d)) s'"
    "txn p {} s1" "wrote x y off d s s1" "file_ok s1 y ib" "space 0 C s1" "B \<subseteq> C"
    and x': "x' = y\<lparr>isize := max (isize x) (of_nat ?n)\<rparr>" and sz: "unat (isize x') = max (unat (isize x)) ?n"
    and v: "view s' = (view s1)(ib := put_dinode (dip_off (inum x')) x' (view s1 ib))" and same: "same_fs s1 s'"
    and bud: "budget 0 C s'" and fields: "txn p {} s'" "itable s' = (itable s)(ip := x')"
    using writei_steps [OF r off room] unfolding x_def ib_def by blast
  note w = wroteD [OF 1(3)] and u = write_used [OF 1(4) insertI1 same v]
  have y: "idev y = idev x" "inum y = inum x" using wrote_same [OF w(2) 1(3)] by simp_all
  note b = inode_same_blocks [of x' y]
  have ad: "addrs x' = addrs y" "inum x' = inum x" "idev x' = idev x" using y by (simp_all add: x')
  have ss: "same_fs s s'" by (rule same_fs_trans [OF w(2) same])
  have it': "itable s' ip = x'" using fields by simp
  have big: "max (unat (isize x)) ?n \<le> MAXFILE * BSIZE" using bk off(2) by (simp add: backed_def)
  have byte: "file_addr s' x' (i div BSIZE) \<noteq> 0 \<and> file_byte s' x' i = (if off \<le> i \<and> i < ?n then d ! (i - off) else file_byte s x i)"
    if i: "i < max (unat (isize x)) ?n" for i
  proof -
    have iK: "i < MAXFILE * BSIZE" by (rule less_le_trans [OF i big])
    have "file_addr s1 y (i div BSIZE) \<noteq> 0 \<and> file_byte s1 y i = (if off \<le> i \<and> i < ?n then d ! (i - off) else file_byte s x i)"
    proof (cases "off \<le> i \<and> i < ?n")
      case True
      then show ?thesis using w(4) [OF iK] by simp
    next
      case False
      then have "i < unat (isize x)" using i off(1) by (auto simp: x_def)
      then have "file_addr s x (i div BSIZE) \<noteq> 0" using bk by (simp add: backed_def)
      then show ?thesis using w(5) [OF iK False] False by auto
    qed
    moreover from this have "file_addr s1 y (i div BSIZE) \<in> data_addrs s1 y" using file_offset [OF iK] by (simp add: data_addrs_def)
    then have "file_addr s1 y (i div BSIZE) \<noteq> ib" using 1(4) by (auto simp: file_ok_def)
    ultimately show ?thesis unfolding b(1,2) [OF ad(1)] u(1) by (simp add: file_byte_def u(1) v)
  qed
  have "backed s' x' (unat (isize x'))" using byte big by (simp add: backed_def sz)
  moreover have "file_ok s' x' (IBLOCK (inum x') (sb s'))"
    using u(4) ss by (simp add: b(3) [OF ad(1)] ad(2) same_fs_def ib_def x_def)
  ultimately have "file_ready p ip s'"
    using fields(1) dev ss ad(3) unfolding file_ready_def Let_def it' by (simp add: same_fs_def)
  moreover have "contents s' x' = take off (contents s x) @ d @ drop ?n (contents s x)"
    unfolding contents_def
    by (rule contents_splice [OF _ sz]) (use off(1) byte in \<open>simp_all add: x_def\<close>)
  moreover have "load_dinode (dip_off (inum x')) (view s' ib) x' = x'"
  proof -
    have l: "dip_off (inum x') + DINODE_SIZE \<le> length (view s1 ib)" "length (addrs x') = NDIRECT + 1"
      using dip_off_fits view_length [OF 1(2)] 1(4) by (simp_all add: ad(1) file_ok_def)
    from dinode_roundtrip_lemma(1) [OF l, of x'] show ?thesis using v by simp
  qed
  moreover have "{b. view s' b \<noteq> view s b} \<subseteq> insert ib (foot s x)" using v w(6) by (auto split: if_splits)
  moreover have "x' = x\<lparr>isize := max (isize x) (of_nat ?n), addrs := addrs x'\<rparr>"
  proof -
    have "x' = (x\<lparr>addrs := addrs y\<rparr>)\<lparr>isize := max (isize x) (of_nat ?n)\<rparr>" using x' w(1) by metis
    then show ?thesis by (simp add: ad(1))
  qed
  ultimately show ?thesis using 1(1,6) fields(2) ss bud by blast
qed


lemma readi_ready:
  fixes s :: "'z fsst_scheme" and off n :: nat
  assumes r: "file_ready p ip s" and off: "off + n < 2 ^ 32"
  defines "data \<equiv> take n (drop off (contents s (itable s ip)))"
  shows "\<exists>s'. readi ip (Local d) (of_nat off) (of_nat n) s = Ok (int (length data), data) s' \<and> txn_post p {} {} (view s) s s'"
proof -
  have u: "unat (of_nat off :: uint) = off" "unat (of_nat n :: uint) = n" using off by (simp_all add: unat_of_nat)
  have "txn p {} s" "idev (itable s ip) = log_dev s" "backed s (itable s ip) (unat (isize (itable s ip)))"
    using r by (simp_all add: file_ready_def Let_def)
  from readi_mapped [OF this, of "of_nat off" "of_nat n" d] show ?thesis using off u by (simp add: data_def)
qed

lemma file_ready_post:
  fixes s :: "'z fsst_scheme"
  assumes "file_ready p ip s" "txn_post p {} {} (view s) s s'"
  shows "file_ready p ip s'" "contents s' (itable s' ip) = contents s (itable s ip)"
proof -
  note d = txn_postD [OF assms(2)] txn_frame_fs [OF txn_postD(2) [OF assms(2)]]
  have same: "same_fs s s'" by (rule same_fs_frame [OF d(2)])
  have f: "file_addr s' x = file_addr s x" for x by (intro ext) (rule file_view(1) [OF d(3)])
  have free: "free_set s' = free_set s" using same by (simp add: free_set_def d(3) same_fs_def)
  have "used_block s' = used_block s" using same by (simp add: used_block_def fun_eq_iff same_fs_bitmaps [OF same] free same_fs_def)
  then have "file_ok s' x ib = file_ok s x ib" for x ib by (simp add: file_ok_def data_addrs_def f)
  then show "file_ready p ip s'"
    using assms(1) d(1,7) same unfolding file_ready_def Let_def by (simp add: file_view(4) [OF d(3)] same_fs_def)
  show "contents s' (itable s' ip) = contents s (itable s ip)" by (simp add: file_view(3) [OF d(3)] d(7))
qed

section \<open>Properties\<close>

text \<open>
  C2: Writing a file refines the replacement of bytes in a list.  For an inode at hand in a transaction and a
  range that starts within the file, with room for it on the disk and in the log, \<open>writei\<close> writes all the bytes
  \<open>d\<close>, whether the file has the blocks or \<open>bmap\<close> has to allocate them, the indirect block included: the
  contents become the old contents with \<open>d\<close> in place of the bytes at \<open>off\<close>, longer if \<open>d\<close> ends behind
  them; the blocks of the file stay different from each other and in use; the inode on disk is the one of the
  table.  No block changes but those of the file, of its inode and of the bitmap, and blocks that were free.
\<close>

theorem writei_replaces_bytes:
  fixes s :: "'z fsst_scheme" and off :: nat and d :: "byte list"
  assumes "file_ready p ip s" "off \<le> unat (isize (itable s ip))" "off + length d \<le> MAXFILE * BSIZE"
    and "write_room ip off (length d) B s"
  shows "\<exists>s'. writei ip (Local d) (of_nat off) (of_nat (length d)) s = Ok (int (length d)) s' \<and> file_ready p ip s' \<and>
    contents s' (itable s' ip) = take off (contents s (itable s ip)) @ d @ drop (off + length d) (contents s (itable s ip)) \<and>
    (let x = itable s' ip in load_dinode (dip_off (inum x)) (view s' (IBLOCK (inum x) (sb s))) x = x) \<and>
    {b. view s' b \<noteq> view s b} \<subseteq> insert (IBLOCK (inum (itable s ip)) (sb s)) (foot s (itable s ip))"
proof -
  obtain s' x' where r: "writei ip (Local d) (of_nat off) (of_nat (length d)) s = Ok (int (length d)) s'" "file_ready p ip s'"
    "itable s' = (itable s)(ip := x')" "x' = (itable s ip)\<lparr>isize := max (isize (itable s ip)) (of_nat (off + length d)), addrs := addrs x'\<rparr>"
    "contents s' x' = take off (contents s (itable s ip)) @ d @ drop (off + length d) (contents s (itable s ip))"
    "load_dinode (dip_off (inum x')) (view s' (IBLOCK (inum (itable s ip)) (sb s))) x' = x'"
    "{b. view s' b \<noteq> view s b} \<subseteq> insert (IBLOCK (inum (itable s ip)) (sb s)) (foot s (itable s ip))"
    using writei_ready [OF assms] by blast
  have "inum x' = inum (itable s ip)" by (subst r(4)) simp
  then show ?thesis using r(1-3,5-7) by (intro exI [of _ s']) (simp add: Let_def)
qed


text \<open>What was written is read back.\<close>

theorem write_read_back:
  fixes s :: "'z fsst_scheme" and off :: nat and d :: "byte list"
  assumes "file_ready p ip s" "off \<le> unat (isize (itable s ip))" "off + length d \<le> MAXFILE * BSIZE"
    and "write_room ip off (length d) B s"
  shows "\<exists>s'. bind (writei ip (Local d) (of_nat off) (of_nat (length d))) (\<lambda>n. readi ip (Local b) (of_nat off) (of_int n)) s =
    Ok (int (length d), d) s'"
proof -
  obtain s1 x' where s1: "writei ip (Local d) (of_nat off) (of_nat (length d)) s = Ok (int (length d)) s1" "file_ready p ip s1"
    "itable s1 = (itable s)(ip := x')"
    "contents s1 x' = take off (contents s (itable s ip)) @ d @ drop (off + length d) (contents s (itable s ip))"
    using writei_ready [OF assms] by blast
  have "length (take off (contents s (itable s ip))) = off" using assms(2) by (simp add: contents_def)
  then have data: "take (length d) (drop off (contents s1 (itable s1 ip))) = d" by (simp add: s1(3,4))
  have "off + length d < 2 ^ 32" using assms(3) by (simp add: MAXFILE_def NDIRECT_def NINDIRECT_def BSIZE_def)
  from readi_ready [OF s1(2) this, of b] show ?thesis using s1(1) unfolding data by (auto simp: bind_apply)
qed

text \<open>The blocks of a write as \<open>filewrite\<close> makes them.\<close>

lemma touched_max:
  assumes "k \<le> write_max"
  shows "touched off k \<le> 4"
proof (cases "k = 0")
  case False
  have "k \<le> 3 * BSIZE" using assms by (simp add: write_max_def MAXOPBLOCKS_def)
  moreover have "off < off div BSIZE * BSIZE + BSIZE" using BSIZE_split [of off] by linarith
  ultimately have "off + k - 1 < (off div BSIZE + 4) * BSIZE" by (simp add: distrib_right)
  then have "(off + k - 1) div BSIZE < off div BSIZE + 4" by (simp add: less_mult_imp_div_less)
  moreover have "touched off k = (off + k - 1) div BSIZE - off div BSIZE + 1" using False by (simp add: touched_def)
  ultimately show ?thesis by linarith
qed (simp add: touched_def)

lemma one_bitmap:
  assumes "unat (sb_size (sb s)) \<le> BPB"
  shows "card (bitmaps s) \<le> 1" "finite (bitmaps s)"
proof -
  have "bitmaps s \<subseteq> {bmapstart (sb s)}"
  proof
    fix b assume "b \<in> bitmaps s"
    then obtain c where c: "c < unat (sb_size (sb s))" "b = bitmap_block (sb s) c" by (auto simp: bitmaps_def)
    then show "b \<in> {bmapstart (sb s)}" using assms unat_bound [OF c(1)] by (simp add: bitmap_block_div)
  qed
  then show "card (bitmaps s) \<le> 1" "finite (bitmaps s)" using card_mono [of "{bmapstart (sb s)}"] finite_subset by fastforce+
qed



section \<open>A concrete file\<close>

text \<open>A file of 1,500 bytes in the blocks 46 and 47.\<close>

definition demo_file :: inode where
  "demo_file = demo_inode\<lparr>isize := 1500, addrs := [46, 47] @ replicate (NDIRECT - 1) 0\<rparr>"

lemma demo_file_fields:
  "idev demo_file = 1" "length (addrs demo_file) = NDIRECT + 1" "isize demo_file = 1500" "addrs demo_file ! NDIRECT = 0"
  "inum demo_file = 5"
  by (simp_all add: demo_file_def demo_inode_def NDIRECT_def)

lemma demo_file_addr: "file_addr s demo_file n = (if n = 0 then 46 else if n = 1 then 47 else 0)"
proof (cases "n < NDIRECT")
  case True
  then show ?thesis by (auto simp: file_addr_def demo_file_def nth_append nth_Cons NDIRECT_def split: nat.splits)
next
  case False
  then have "n \<noteq> 0" "n \<noteq> 1" by (simp_all add: NDIRECT_def)
  with False show ?thesis by (simp add: file_addr_def demo_file_fields(4))
qed

lemma demo_file_data: "data_addrs s demo_file = {46, 47}"
proof -
  have "0 < MAXFILE" "1 < MAXFILE" by (simp_all add: MAXFILE_def NDIRECT_def)
  then have "file_addr s demo_file 0 \<in> file_addr s demo_file ` {..<MAXFILE}" "file_addr s demo_file 1 \<in> file_addr s demo_file ` {..<MAXFILE}"
    by (blast, blast)
  then have "{46, 47} \<subseteq> data_addrs s demo_file" by (simp add: data_addrs_def demo_file_addr)
  moreover have "data_addrs s demo_file \<subseteq> {46, 47}" unfolding data_addrs_def demo_file_addr [abs_def] by auto
  ultimately show ?thesis by blast
qed

lemma demo_file_ind: "ind_addrs demo_file = {}" "missing demo_file = 1"
  by (simp_all add: ind_addrs_def missing_def demo_file_fields)

abbreviation demo_state :: kernst where
  "demo_state \<equiv> demo_fs (\<lambda>_. demo_file)"

lemma demo_iblock: "IBLOCK 5 (sb (demo_fs t)) = 32"
  by (simp add: IBLOCK_def demo_fs_fields demo_sb_def IPB_def BSIZE_def DINODE_SIZE_def)

lemma demo_used: "b \<in> {32, 46, 47} \<Longrightarrow> used_block (demo_fs t) b"
proof -
  assume b: "b \<in> {32, 46, 47}"
  then have u: "32 \<le> uint b" "unat b < 50" "b \<noteq> 45" by auto
  have "b \<noteq> of_nat c" if "c \<in> {50..<60}" for c
  proof
    assume "b = of_nat c"
    then have "unat b = c" using that by (simp add: unat_of_nat)
    then show False using u(2) that by simp
  qed
  then have "b \<notin> of_nat ` free_set (demo_fs t)" unfolding demo_fs_free by blast
  then show ?thesis using demo_fs_area [OF u(1)] u(3) by (simp add: used_block_def demo_fs_bitmaps)
qed

lemma demo_file_ready: "file_ready 0 3 demo_state"
proof -
  have "file_ok demo_state demo_file 32"
    unfolding file_ok_def demo_file_data demo_file_ind
    using demo_used [of 32] demo_used [of 46] demo_used [of 47] by (auto simp: demo_file_fields inj_on_def demo_file_addr split: if_splits)
  moreover have "backed demo_state demo_file 1500"
  proof -
    have "i div BSIZE = 0 \<or> i div BSIZE = 1" if "i < 1500" for i using that by (auto simp: BSIZE_def)
    then show ?thesis by (fastforce simp: backed_def demo_file_addr MAXFILE_def NDIRECT_def NINDIRECT_def BSIZE_def)
  qed
  ultimately show ?thesis
    using demo_fs_txn(1) [of "\<lambda>_. demo_file"]
    by (simp add: file_ready_def Let_def demo_fs_fields(1,11) demo_file_fields demo_iblock)
qed

lemma demo_room: "write_room 3 1000 3000 {32, 45} demo_state"
proof -
  have "touched 1000 3000 = 4" by (simp add: touched_def BSIZE_def)
  then show ?thesis
    by (simp add: write_room_def Let_def space_def demo_fs_layout demo_fs_bitmaps demo_fs_free demo_fs_fields demo_file_fields demo_file_ind
        budget_def logged_def demo_iblock [of "\<lambda>_. demo_file", unfolded demo_fs_fields])
qed

theorem writei_replaces_bytes_witness:
  "\<exists>s'. writei 3 (Local (replicate 3000 7)) 1000 3000 demo_state = Ok 3000 s' \<and>
     contents s' (itable s' 3) = take 1000 (contents demo_state demo_file) @ replicate 3000 7"
  using writei_replaces_bytes [OF demo_file_ready, of 1000 "replicate 3000 7" "{32, 45}"] demo_room
  by (auto simp: demo_fs_fields(11) demo_file_fields contents_def MAXFILE_def NDIRECT_def NINDIRECT_def BSIZE_def)


theorem write_read_back_witness:
  "\<exists>s'. bind (writei 3 (Local (replicate 3000 7)) 1000 3000) (\<lambda>n. readi 3 (Local []) 1000 (of_int n)) demo_state =
     Ok (3000, replicate 3000 7) s'"
  using write_read_back [OF demo_file_ready, of 1000 "replicate 3000 7" "{32, 45}" "[]"] demo_room
  by (auto simp: demo_fs_fields(11) demo_file_fields MAXFILE_def NDIRECT_def NINDIRECT_def BSIZE_def)


end
