(* ===== verification/Xv6_Ring.thy ===== *)
theory Xv6_Ring
  imports Xv6_Prelude
begin

text \<open>
  Ring buffers with free-running indices, as \<open>pipe.c\<close>, \<open>console.c\<close> and \<open>uart.c\<close> use them: an array
  of \<open>N\<close> slots, a read index and a write index that are never reduced and wrap around at the word
  size; slot \<open>i % N\<close> holds item \<open>i\<close>.  \<open>N\<close> divides the range of the indices.

  The locale \<open>fifo\<close> is the contract such a buffer gives to its clients: a queue of at most \<open>cap\<close>
  items.
\<close>

definition ring_items :: "nat \<Rightarrow> (nat \<Rightarrow> 'b) \<Rightarrow> 'a::len word \<Rightarrow> 'a word \<Rightarrow> 'b list" where
  "ring_items n buf r w = map (\<lambda>i. buf ((unat r + i) mod n)) [0..<unat (w - r)]"

definition ring_inv :: "nat \<Rightarrow> 'a::len word \<Rightarrow> 'a word \<Rightarrow> bool" where
  "ring_inv n r w \<longleftrightarrow> unat (w - r) \<le> n"

lemma length_ring_items [simp]: "length (ring_items n buf r w) = unat (w - r)"
  by (simp add: ring_items_def)

lemma ring_items_Nil_iff: "ring_items n buf r w = [] \<longleftrightarrow> r = w"
  by (metis eq_iff_diff_eq_0 length_0_conv length_ring_items unat_eq_zero)

lemma unat_add_mod_dvd:
  assumes "n dvd 2 ^ LENGTH('a)"
  shows "unat ((r :: 'a::len word) + k) mod n = (unat r + unat k) mod n"
  using assms by (simp add: unat_word_ariths mod_mod_cancel)

lemma unat_write_index:
  assumes "n dvd 2 ^ LENGTH('a)"
  shows "unat (w :: 'a::len word) mod n = (unat r + unat (w - r)) mod n"
  using unat_add_mod_dvd [OF assms, of r "w - r"] by simp

lemma unat_Suc_diff:
  assumes "unat ((w :: 'a::len word) - r) < n" "n < 2 ^ LENGTH('a)"
  shows "unat (w + 1 - r) = Suc (unat (w - r))"
proof -
  have "w + 1 - r = (w - r) + 1" by simp
  moreover have "unat ((w - r) + 1) = Suc (unat (w - r))"
    using assms by (simp add: unat_word_ariths)
  ultimately show ?thesis by (simp only:)
qed

lemma mod_inj_less: "i < n \<Longrightarrow> j < n \<Longrightarrow> (a + i) mod n = (a + j) mod n \<Longrightarrow> i = (j :: nat)"
proof (induction i j rule: linorder_wlog)
  case (le i j)
  then have "n dvd (a + j) - (a + i)" using mod_eq_dvd_iff_nat [of "a + i" "a + j" n] by simp
  then have "n dvd j - i" by simp
  then show ?case using le dvd_imp_le [of n "j - i"] by (cases "j - i = 0") auto
next
  case (sym i j)
  then show ?case by simp
qed

lemma ring_put:
  assumes "n dvd 2 ^ LENGTH('a)" "n < 2 ^ LENGTH('a)" "unat ((w :: 'a::len word) - r) < n"
  shows "ring_items n (buf(unat w mod n := x)) r (w + 1) = ring_items n buf r w @ [x]"
proof -
  let ?k = "unat (w - r)"
  have slot: "unat w mod n = (unat r + ?k) mod n" by (rule unat_write_index [OF assms(1)])
  have keep: "(buf(unat w mod n := x)) ((unat r + i) mod n) = buf ((unat r + i) mod n)" if "i < ?k" for i
    using mod_inj_less [of i n ?k "unat r"] that assms(3) unfolding slot by auto
  have "ring_items n (buf(unat w mod n := x)) r (w + 1) =
      map (\<lambda>i. (buf(unat w mod n := x)) ((unat r + i) mod n)) [0..<?k] @ [x]"
    by (simp add: ring_items_def unat_Suc_diff [OF assms(3,2)] slot)
  also have "map (\<lambda>i. (buf(unat w mod n := x)) ((unat r + i) mod n)) [0..<?k] = ring_items n buf r w"
    unfolding ring_items_def using keep by (intro map_cong) auto
  finally show ?thesis .
qed

lemma unat_diff_Suc:
  assumes "(r :: 'a::len word) \<noteq> w"
  shows "unat (w - r) = Suc (unat (w - (r + 1)))"
proof -
  have "w - r \<noteq> 0" using assms by simp
  then have "unat (w - r - 1) = unat (w - r) - 1" "0 < unat (w - r)"
    by (simp_all add: unat_minus_one unat_gt_0)
  then show ?thesis by (simp add: algebra_simps)
qed

lemma ring_take:
  assumes "n dvd 2 ^ LENGTH('a)" "(r :: 'a::len word) \<noteq> w"
  shows "ring_items n buf r w = buf (unat r mod n) # ring_items n buf (r + 1) w"
proof -
  let ?k = "unat (w - (r + 1))"
  have "ring_items n buf r w = map (\<lambda>i. buf ((unat r + i) mod n)) (0 # map Suc [0..<?k])"
    unfolding ring_items_def unat_diff_Suc [OF assms(2)] by (simp only: upt_conv_Cons zero_less_Suc map_Suc_upt)
  moreover have "unat (r + 1) mod n = (unat r + 1) mod n"
    using unat_add_mod_dvd [OF assms(1), of r 1] by simp
  then have "(unat (r + 1) + i) mod n = (unat r + Suc i) mod n" for i
    by (metis add_Suc_right add_Suc_shift mod_add_left_eq plus_1_eq_Suc add.commute)
  ultimately show ?thesis by (simp add: ring_items_def comp_def)
qed

lemma ring_cong:
  "(\<And>i. i < n \<Longrightarrow> buf i = buf' i) \<Longrightarrow> 0 < n \<Longrightarrow> ring_items n buf r w = ring_items n buf' r w"
  by (simp add: ring_items_def)

section \<open>The contract\<close>

locale fifo =
  fixes items :: "'q \<Rightarrow> 'b list" and cap :: nat and inv :: "'q \<Rightarrow> bool"
    and empty :: "'q \<Rightarrow> bool" and full :: "'q \<Rightarrow> bool"
    and put :: "'b \<Rightarrow> 'q \<Rightarrow> 'q" and head :: "'q \<Rightarrow> 'b" and pop :: "'q \<Rightarrow> 'q"
  assumes bounded: "inv q \<Longrightarrow> length (items q) \<le> cap"
    and empty_iff: "inv q \<Longrightarrow> empty q \<longleftrightarrow> items q = []"
    and full_iff: "inv q \<Longrightarrow> full q \<longleftrightarrow> length (items q) = cap"
    and put_law: "inv q \<Longrightarrow> \<not> full q \<Longrightarrow> inv (put x q) \<and> items (put x q) = items q @ [x]"
    and pop_law: "inv q \<Longrightarrow> \<not> empty q \<Longrightarrow> inv (pop q) \<and> items q = head q # items (pop q)"
begin

lemma put_all:
  "inv q \<Longrightarrow> length (items q) + length xs \<le> cap \<Longrightarrow>
   inv (fold put xs q) \<and> items (fold put xs q) = items q @ xs"
proof (induction xs arbitrary: q)
  case (Cons x xs)
  have "\<not> full q" using Cons.prems by (auto simp: full_iff)
  with Cons.prems(1) have "inv (put x q)" "items (put x q) = items q @ [x]" by (simp_all add: put_law)
  with Cons show ?case by simp
qed simp

lemma room: "inv q \<Longrightarrow> length (items q) < cap \<Longrightarrow> \<not> full q"
  by (simp add: full_iff)

lemma head_items: "inv q \<Longrightarrow> items q \<noteq> [] \<Longrightarrow> head q = hd (items q) \<and> items (pop q) = tl (items q)"
  using pop_law [of q] empty_iff [of q] by simp

end

end
