(* ===== verification/Xv6_Pipe.thy ===== *)
theory Xv6_Pipe
  imports Xv6_Demo Xv6_Ring
begin

text \<open>
  Correctness of \<open>pipe.c\<close>: the 512-byte ring of a pipe implements the contract \<open>fifo\<close> for every
  value of its free-running 32-bit counters, \<open>pipewrite\<close> appends to it and \<open>piperead\<close> takes from its
  front.
\<close>

section \<open>The ring of a pipe is a queue\<close>

definition pipe_items :: "pipe \<Rightarrow> byte list" where
  "pipe_items x = ring_items PIPESIZE (pdata x) (nread x) (nwrite x)"

definition pipe_inv :: "pipe \<Rightarrow> bool" where
  "pipe_inv x \<longleftrightarrow> ring_inv PIPESIZE (nread x) (nwrite x)"

lemma PIPESIZE_fits: "PIPESIZE dvd 2 ^ LENGTH(32)" "PIPESIZE < 2 ^ LENGTH(32)" "0 < PIPESIZE"
  by (simp_all add: PIPESIZE_def)

lemma pipe_full_count: "pipe_full x \<longleftrightarrow> unat (nwrite x - nread x) = PIPESIZE"
proof -
  have "pipe_full x \<longleftrightarrow> nwrite x - nread x = of_nat PIPESIZE" by (auto simp: pipe_full_def algebra_simps)
  also have "\<dots> \<longleftrightarrow> unat (nwrite x - nread x) = PIPESIZE"
    using PIPESIZE_fits(2) by (auto simp: unat_of_nat PIPESIZE_def word_unat_eq_iff)
  finally show ?thesis .
qed

interpretation pipe_fifo: fifo pipe_items PIPESIZE pipe_inv pipe_empty pipe_full pipe_put pipe_head pipe_drop
proof
  fix q x
  assume inv: "pipe_inv q"
  show "length (pipe_items q) \<le> PIPESIZE" using inv by (simp add: pipe_items_def pipe_inv_def ring_inv_def)
  show "pipe_empty q \<longleftrightarrow> pipe_items q = []" by (simp add: pipe_empty_def pipe_items_def ring_items_Nil_iff)
  show "pipe_full q \<longleftrightarrow> length (pipe_items q) = PIPESIZE" by (simp add: pipe_full_count pipe_items_def)
  show "pipe_inv (pipe_put x q) \<and> pipe_items (pipe_put x q) = pipe_items q @ [x]" if "\<not> pipe_full q"
  proof -
    have less: "unat (nwrite q - nread q) < PIPESIZE"
      using inv that unfolding pipe_full_count by (simp add: pipe_inv_def ring_inv_def)
    have "pipe_inv (pipe_put x q)"
      using less unat_Suc_diff [OF less PIPESIZE_fits(2)]
      by (simp add: pipe_inv_def pipe_put_def ring_inv_def)
    then show ?thesis using ring_put [OF PIPESIZE_fits(1,2) less] by (simp add: pipe_items_def pipe_put_def)
  qed
  show "pipe_inv (pipe_drop q) \<and> pipe_items q = pipe_head q # pipe_items (pipe_drop q)" if "\<not> pipe_empty q"
  proof -
    have ne: "nread q \<noteq> nwrite q" using that by (simp add: pipe_empty_def)
    then have "pipe_inv (pipe_drop q)"
      using inv unat_diff_Suc [OF ne] by (simp add: pipe_inv_def pipe_drop_def ring_inv_def)
    then show ?thesis
      using ring_take [OF PIPESIZE_fits(1) ne] by (simp add: pipe_items_def pipe_drop_def pipe_head_def)
  qed
qed


section \<open>The state around a pipe operation\<close>

lemma pipes_commute [crit]:
  "restore s (t\<lparr>pipes := f\<rparr>) = (restore s t)\<lparr>pipes := f\<rparr>"
  "same_machine s (t\<lparr>pipes := f\<rparr>) = same_machine s t"
  by (simp_all add: restore_def same_machine_def)

lemma after_acquire_pipes [simp]: "pipes (after_acquire l s) = pipes s"
  by (simp add: after_acquire_def)

lemma upte_cong: "phys s' = phys s \<Longrightarrow> upte s' pt = upte s pt"
  by (rule ext) (simp add: upte_def)

lemma udata_cong: "phys s' = phys s \<Longrightarrow> udata s' pt = udata s pt"
  using upte_cong [of s' s pt] by (auto simp: udata_def)

lemma user_sep_cong: "phys s' = phys s \<Longrightarrow> user_sep s' pt ps = user_sep s pt ps"
  using upte_cong [of s' s pt] by (simp add: user_sep_def)

text \<open>
  Process \<open>p\<close> runs, was not killed, and its address space is represented; the locks the operation
  takes are free, except those in \<open>L\<close>.
\<close>

definition caller :: "nat \<Rightarrow> uint64 \<Rightarrow> uint64 list \<Rightarrow> 'z ptable_scheme \<Rightarrow> bool" where
  "caller p pt ps s \<longleftrightarrow> cpu_quiet s \<and> proc_locks_free s \<and> cur s = Some p \<and> p < NPROC \<and>
     killed_flag (procs s p) = 0 \<and> pagetable (procs s p) = pt \<and> vm_rep s 2 pt ps \<and> user_sep s pt ps"

lemma caller_pipes [simp]: "caller p pt ps (s\<lparr>pipes := f\<rparr>) = caller p pt ps s"
  by (simp add: caller_def cpu_quiet_def intr_enabled_def proc_locks_free_def lock_free_def cur_def vm_rep_def kmem_rep_def
      user_sep_cong [of "s\<lparr>pipes := f\<rparr>" s])

lemma caller_acquired:
  assumes "caller p pt ps s" "\<And>i. l \<noteq> ProcLock i" "l \<noteq> KmemLock"
  shows "caller p pt ps (after_acquire l s)"
proof -
  have "vm_rep (after_acquire l s) 2 pt ps"
    using assms(1) kmem_rep_acquired [OF _ assms(3), of s ps] by (simp add: caller_def vm_rep_def)
  moreover have "proc_locks_free (after_acquire l s)"
    using assms(1,2) by (auto simp: caller_def proc_locks_free_def intro!: after_acquire_lock_free)
  ultimately show ?thesis
    using assms(1) by (simp add: caller_def after_acquire_quiet user_sep_cong [of "after_acquire l s" s])
qed

lemma caller_killed: "caller p pt ps s \<Longrightarrow> killed p s = Ok 0 s"
  using killed_eq [of s p] by (simp add: caller_def proc_locks_free_def)

lemma caller_wakeup: "caller p pt ps s \<Longrightarrow> wakeup ch s = Ok () (s\<lparr>procs := woken {..<NPROC} ch s\<rparr>)"
  by (simp add: caller_def wakeup_eq)

lemma caller_copyin:
  assumes "caller p pt ps s"
    and "\<And>j. j < n \<Longrightarrow> udata s pt (va + of_nat j) = Some (f j)"
  shows "copyin pt va n s = Ok (0, map f [0..<n]) s"
proof -
  have v: "vm_rep s 2 pt ps" "user_sep s pt ps" using assms(1) by (simp_all add: caller_def)
  from copyin_spec [OF v, of va n] obtain r k bs where c: "copyin pt va n s = Ok (r, bs) s" "loaded k va bs pt s"
    "r = 0 \<and> k = n \<or> r = -1 \<and> k < n \<and> udata s pt (va + of_nat k) = None" by blast
  then have "r = 0" "k = n" using assms(2) by auto
  moreover from this c(2) have "bs = map f [0..<n]"
    using assms(2) by (intro nth_equalityI) (auto simp: loaded_def)
  ultimately show ?thesis using c(1) by simp
qed

section \<open>pipewrite\<close>

definition set_pipe :: "uint64 \<Rightarrow> pipe \<Rightarrow> 'z filest_scheme \<Rightarrow> 'z filest_scheme" where
  "set_pipe a x s = s\<lparr>pipes := (pipes s)(a := x)\<rparr>"

lemma set_pipe_facts [simp]:
  "pipes (set_pipe a x s) a = x" "caller p pt ps (set_pipe a x s) = caller p pt ps s"
  "set_pipe a y (set_pipe a x s) = set_pipe a y s" "procs (set_pipe a x s) = procs s" "phys (set_pipe a x s) = phys s"
  "set_pipe a (pipes s a) s = s"
  by (simp_all add: set_pipe_def)

lemma upd_pipe_apply: "upd_pipe a f s = Ok () (set_pipe a (f (pipes s a)) s)"
  by (simp add: upd_pipe_def set_pipe_def)

lemma pipewrite_loop_room:
  assumes "caller p pt ps s" "readopen (pipes s a)" "pipe_inv (pipes s a)"
    and "length (pipe_items (pipes s a)) + length src \<le> PIPESIZE"
    and "\<And>j. j < length src \<Longrightarrow> udata s pt (addr + of_nat (i + j)) = Some (src ! j)"
  shows "pipewrite_loop r a addr p i (length src) s =
    Ok (Some (i + length src)) (set_pipe a (fold pipe_put src (pipes s a)) s)"
  using assms
proof (induction src arbitrary: i s)
  case Nil
  then show ?case by (simp add: set_pipe_def)
next
  case (Cons c src)
  let ?x = "pipes s a" and ?t = "set_pipe a (pipe_put c (pipes s a)) s"
  have nf: "\<not> pipe_full ?x" using pipe_fifo.room [OF Cons.prems(3)] Cons.prems(4) by simp
  note put = pipe_fifo.put_law [OF Cons.prems(3) nf, of c]
  have "udata s pt (addr + of_nat i + of_nat 0) = Some c" using Cons.prems(5) [of 0] by simp
  then have c: "copyin pt (addr + of_nat i) 1 s = Ok (0, [c]) s"
    using caller_copyin [OF Cons.prems(1), of 1 "addr + of_nat i" "\<lambda>_. c"] by simp
  have pt: "pagetable (procs s p) = pt" using Cons.prems(1) by (simp add: caller_def)
  have "pipewrite_loop r a addr p i (length (c # src)) s = pipewrite_loop r a addr p (Suc i) (length src) ?t"
    using Cons.prems(2) nf c pt
    by (simp add: kexec get_pipe_def get_proc_def caller_killed [OF Cons.prems(1)] upd_pipe_apply)
  also have "\<dots> = Ok (Some (Suc i + length src)) (set_pipe a (fold pipe_put src (pipes ?t a)) ?t)"
  proof (rule Cons.IH)
    show "readopen (pipes ?t a)" using Cons.prems(2) by (simp add: pipe_put_def)
    show "pipe_inv (pipes ?t a)" "length (pipe_items (pipes ?t a)) + length src \<le> PIPESIZE"
      using put Cons.prems(4) by simp_all
    show "udata ?t pt (addr + of_nat (Suc i + j)) = Some (src ! j)" if "j < length src" for j
      using Cons.prems(5) [of "Suc j"] that udata_cong [of ?t s pt] by simp
  qed (use Cons.prems in simp)
  finally show ?case by simp
qed


text \<open>The whole call: the bytes are appended, readers waiting on the pipe are made runnable.\<close>

lemma woken_cong: "procs s' = procs s \<Longrightarrow> cur s' = cur s \<Longrightarrow> woken P ch s' = woken P ch s"
  by (rule ext) (simp add: woken_def)

lemma set_pipe_machine:
  "same_machine s (set_pipe a x t) = same_machine s t" "restore s (set_pipe a x t) = set_pipe a x (restore s t)"
  "cur (set_pipe a x s) = cur s"
  by (simp_all add: set_pipe_def same_machine_def restore_def cur_def)

lemma pipewrite_room_lemma:
  assumes "caller p pt ps s" "lock_free (PipeLock a) s" "readopen (pipes s a)" "pipe_inv (pipes s a)"
    and "length (pipe_items (pipes s a)) + length src \<le> PIPESIZE"
    and "\<And>j. j < length src \<Longrightarrow> udata s pt (addr + of_nat j) = Some (src ! j)"
  shows "pipewrite a addr (int (length src)) s = Ok (int (length src))
    ((set_pipe a (fold pipe_put src (pipes s a)) s)\<lparr>procs := woken {..<NPROC} (Some (ChanPipeRead a)) s\<rparr>)"
proof -
  let ?l = "PipeLock a" and ?x = "fold pipe_put src (pipes s a)"
  let ?t = "after_acquire ?l s"
  have q: "cpu_quiet s" "cur s = Some p" using assms(1) by (simp_all add: caller_def)
  have ct: "caller p pt ps ?t" by (rule caller_acquired [OF assms(1)]) simp_all
  have w: "pipewrite_loop ROUNDS a addr p 0 (length src) ?t = Ok (Some (length src)) (set_pipe a ?x ?t)"
    using pipewrite_loop_room [OF ct, of a src addr 0 ROUNDS] assms(3-6) udata_cong [of ?t s pt] by simp
  have wk: "wakeup (Some (ChanPipeRead a)) (set_pipe a ?x ?t) =
      Ok () ((set_pipe a ?x ?t)\<lparr>procs := woken {..<NPROC} (Some (ChanPipeRead a)) s\<rparr>)"
    using caller_wakeup [of p pt ps "set_pipe a ?x ?t"] ct woken_cong [of "set_pipe a ?x ?t" s]
    by (simp add: set_pipe_machine)
  show ?thesis
    by (simp add: pipewrite_def kexec curproc_quiet [OF q] acquire_free [OF q(1) assms(2)] w wk
        release_restores [OF q(1) assms(2)] crit set_pipe_machine)
qed


section \<open>piperead\<close>

text \<open>Bytes stored at \<open>dst\<close> in the address space, nothing else of it changed.\<close>

definition delivered :: "uint64 \<Rightarrow> byte list \<Rightarrow> uint64 \<Rightarrow> 'z kmem_scheme \<Rightarrow> 'z kmem_scheme \<Rightarrow> bool" where
  "delivered dst src pt s s' \<longleftrightarrow> upte s' pt = upte s pt \<and>
     (\<forall>x. udata s' pt x = (if unat (x - dst) < length src then Some (src ! unat (x - dst)) else udata s pt x))"

lemma delivered_Nil [simp]: "delivered dst [] pt s s"
  by (simp add: delivered_def)

lemma delivered_Cons:
  assumes "delivered dst [c] pt s s1" "delivered (dst + 1) src pt s1 s'" "Suc (length src) < 2 ^ 64"
  shows "delivered dst (c # src) pt s s'"
proof -
  have "udata s' pt x = (if unat (x - dst) < length (c # src) then Some ((c # src) ! unat (x - dst)) else udata s pt x)" for x
  proof -
    note sh = unat_shift [of 1 "length src" x dst]
    have "unat (x - (dst + 1)) < length src \<longleftrightarrow> 1 \<le> unat (x - dst) \<and> unat (x - dst) < 1 + length src"
      using sh(1) assms(3) by simp
    moreover have "1 \<le> unat (x - dst) \<Longrightarrow> unat (x - (dst + 1)) = unat (x - dst) - 1"
      using sh(2) assms(3) by simp
    ultimately show ?thesis using assms(1,2) by (auto simp: delivered_def nth_Cons')
  qed
  then show ?thesis using assms by (simp add: delivered_def)
qed

lemma frame_caller:
  fixes s :: "'z filest_scheme"
  assumes "kmem_frame s s'" "caller p pt ps s" "vm_rep s' 2 pt ps" "user_sep s' pt ps"
  shows "caller p pt ps s'" "pipes s' = pipes s"
proof -
  obtain m f where s': "s' = s\<lparr>phys := m, freelist := f\<rparr>" using assms(1) unfolding kmem_frame_def by blast
  show "caller p pt ps s'"
    using assms(2-4) unfolding s' by (simp add: caller_def cpu_quiet_def intr_enabled_def proc_locks_free_def lock_free_def cur_def Let_def split: if_splits)
  show "pipes s' = pipes s" unfolding s' by simp
qed

lemma caller_copyout1:
  fixes s :: "'z filest_scheme"
  assumes "caller p pt ps s" "uwritable s pt dst"
  shows "\<exists>s'. copyout pt dst [c] s = Ok 0 s' \<and> caller p pt ps s' \<and> pipes s' = pipes s \<and> kmem_frame s s' \<and> delivered dst [c] pt s s'"
proof -
  have v: "vm_rep s 2 pt ps" "user_sep s pt ps" using assms(1) by (simp_all add: caller_def)
  from copyout_spec [OF v, of "[c]" dst] obtain r k s' where
    c: "copyout pt dst [c] s = Ok r s'" "copied k dst [c] pt ps s s'"
      "r = 0 \<and> k = 1 \<or> r = -1 \<and> k < 1 \<and> \<not> uwritable s pt (dst + of_nat k)" by auto
  then have "r = 0" "k = 1" using assms(2) by auto
  with c frame_caller [of s s' p pt ps] assms(1) show ?thesis by (auto simp: copied_def delivered_def)
qed

lemma set_pipe_frame:
  assumes "kmem_frame (set_pipe a y s) t" "kmem_frame (set_pipe a z t) s'"
  shows "kmem_frame (set_pipe a z s) s'"
proof -
  obtain m f where t: "t = (set_pipe a y s)\<lparr>phys := m, freelist := f\<rparr>" using assms(1) unfolding kmem_frame_def by blast
  obtain m' f' where s': "s' = (set_pipe a z t)\<lparr>phys := m', freelist := f'\<rparr>" using assms(2) unfolding kmem_frame_def by blast
  have "s' = (set_pipe a z s)\<lparr>phys := m', freelist := f'\<rparr>" unfolding s' t by (simp add: set_pipe_def)
  then show ?thesis by (simp add: kmem_frame_def)
qed

lemma set_pipe_user [simp]: "upte (set_pipe a x s) pt = upte s pt" "udata (set_pipe a x s) pt = udata s pt"
  by (simp_all add: upte_cong [of "set_pipe a x s" s] udata_cong [of "set_pipe a x s" s])

lemma set_pipe_user' [simp]:
  "uwritable (set_pipe a x s) pt = uwritable s pt" "delivered dst src pt (set_pipe a x s) s' = delivered dst src pt s s'"
  by (simp_all add: uwritable_cong [of "set_pipe a x s" pt s] delivered_def)

lemma piperead_loop_items:
  fixes s :: "'z filest_scheme"
  assumes "caller p pt ps s" "pipe_inv (pipes s a)" "m = min k (length (pipe_items (pipes s a)))" "m < 2 ^ 64"
    and "\<And>j. j < m \<Longrightarrow> uwritable s pt (addr + of_nat (i + j))"
  shows "\<exists>s'. piperead_loop k a addr p i s = Ok (i + m) s' \<and> caller p pt ps s' \<and>
    kmem_frame (set_pipe a ((pipe_drop ^^ m) (pipes s a)) s) s' \<and>
    delivered (addr + of_nat i) (take m (pipe_items (pipes s a))) pt s s' \<and>
    pipe_inv (pipes s' a) \<and> pipe_items (pipes s' a) = drop m (pipe_items (pipes s a))"
  using assms
proof (induction k arbitrary: i s m)
  case 0
  then show ?case by simp
next
  case (Suc k)
  let ?x = "pipes s a"
  show ?case
  proof (cases "pipe_empty ?x")
    case True
    then have "pipe_items ?x = []" using pipe_fifo.empty_iff [OF Suc.prems(2)] by simp
    then show ?thesis using Suc.prems True by (simp add: kexec get_pipe_def)
  next
    case False
    note pop = pipe_fifo.pop_law [OF Suc.prems(2) False]
    let ?t = "set_pipe a (pipe_drop ?x) s"
    obtain m' where m: "m = Suc m'" "m' = min k (length (pipe_items (pipe_drop ?x)))" using Suc.prems(3) pop by simp
    have ct: "caller p pt ps ?t" using Suc.prems(1) by simp
    have pt: "pagetable (procs s p) = pt" using Suc.prems(1) by (simp add: caller_def)
    have w: "uwritable ?t pt (addr + of_nat i)" using Suc.prems(5) [of 0] m by simp
    from caller_copyout1 [OF ct w, of "pipe_head ?x"] obtain s1 where
      s1: "copyout pt (addr + of_nat i) [pipe_head ?x] ?t = Ok 0 s1" "caller p pt ps s1" "pipes s1 = pipes ?t"
        "kmem_frame ?t s1" "delivered (addr + of_nat i) [pipe_head ?x] pt ?t s1" by blast
    have eq: "piperead_loop (Suc k) a addr p i s = piperead_loop k a addr p (Suc i) s1"
      using False s1(1) pt by (simp add: kexec get_pipe_def get_proc_def upd_pipe_apply)
    have w1: "uwritable s1 pt = uwritable s pt" using s1(5) by (auto simp: delivered_def uwritable_def)
    have IH: "\<exists>s'. piperead_loop k a addr p (Suc i) s1 = Ok (Suc i + m') s' \<and> caller p pt ps s' \<and>
        kmem_frame (set_pipe a ((pipe_drop ^^ m') (pipes s1 a)) s1) s' \<and>
        delivered (addr + of_nat (Suc i)) (take m' (pipe_items (pipes s1 a))) pt s1 s' \<and>
        pipe_inv (pipes s' a) \<and> pipe_items (pipes s' a) = drop m' (pipe_items (pipes s1 a))"
    proof (rule Suc.IH [OF s1(2)])
      show "pipe_inv (pipes s1 a)" "m' = min k (length (pipe_items (pipes s1 a)))" "m' < 2 ^ 64"
        using pop m s1(3) Suc.prems(4) by simp_all
      show "uwritable s1 pt (addr + of_nat (Suc i + j))" if "j < m'" for j
        using Suc.prems(5) [of "Suc j"] that m(1) w1 by simp
    qed
    have dst: "addr + of_nat (Suc i) = addr + of_nat i + 1" by simp
    from IH obtain s' where s': "piperead_loop k a addr p (Suc i) s1 = Ok (Suc i + m') s'" "caller p pt ps s'"
        "kmem_frame (set_pipe a ((pipe_drop ^^ m') (pipe_drop ?x)) s1) s'"
        "delivered (addr + of_nat i + 1) (take m' (pipe_items (pipe_drop ?x))) pt s1 s'"
        "pipe_inv (pipes s' a)" "pipe_items (pipes s' a) = drop m' (pipe_items (pipe_drop ?x))"
      unfolding s1(3) dst set_pipe_facts by blast
    have len: "Suc (length (take m' (pipe_items (pipe_drop ?x)))) < 2 ^ 64"
      using Suc.prems(4) unfolding m(1) by (simp add: min_def)
    have "delivered (addr + of_nat i) [pipe_head ?x] pt s s1" using s1(5) by simp
    from delivered_Cons [OF this s'(4) len]
    have "delivered (addr + of_nat i) (pipe_head ?x # take m' (pipe_items (pipe_drop ?x))) pt s s'" .
    moreover have "kmem_frame (set_pipe a ((pipe_drop ^^ m) ?x) s) s'"
      using set_pipe_frame [OF s1(4) s'(3)] m(1) by (simp add: funpow_swap1)
    moreover have "pipe_items ?x = pipe_head ?x # pipe_items (pipe_drop ?x)" using pop by simp
    ultimately show ?thesis using s' eq m(1) by auto
  qed
qed


lemma await_done: "c s = Ok False s' \<Longrightarrow> await n c ch l s = Ok True s'"
  by (cases n) (simp_all add: kexec)

lemma kmem_frame_machine:
  fixes s :: "'z filest_scheme"
  assumes "kmem_frame s s'"
  shows "same_machine s s'" "procs s' = procs s" "cur s' = cur s"
proof -
  obtain m f where s': "s' = s\<lparr>phys := m, freelist := f\<rparr>" using assms(1) unfolding kmem_frame_def by blast
  show "same_machine s s'" "procs s' = procs s" "cur s' = cur s" unfolding s' by (simp_all add: same_machine_def cur_def)
qed

lemma piperead_lemma:
  fixes s :: "'z filest_scheme"
  assumes "caller p pt ps s" "lock_free (PipeLock a) s" "pipe_inv (pipes s a)"
    and "\<not> pipe_empty (pipes s a) \<or> \<not> writeopen (pipes s a)"
    and m: "m = min n (length (pipe_items (pipes s a)))" "m < 2 ^ 64"
    and w: "\<And>j. j < m \<Longrightarrow> uwritable s pt (addr + of_nat j)"
  shows "\<exists>s'. piperead a addr (int n) s = Ok (int m) s' \<and>
    delivered addr (take m (pipe_items (pipes s a))) pt s s' \<and>
    pipe_inv (pipes s' a) \<and> pipe_items (pipes s' a) = drop m (pipe_items (pipes s a)) \<and>
    procs s' = woken {..<NPROC} (Some (ChanPipeWrite a)) s \<and> same_machine s s'"
proof -
  let ?l = "PipeLock a" and ?c = "gets (\<lambda>s. pipe_empty (pipes s a) \<and> writeopen (pipes s a))"
  let ?t = "after_acquire ?l s"
  have q: "cpu_quiet s" "cur s = Some p" using assms(1) by (simp_all add: caller_def)
  have ct: "caller p pt ps ?t" by (rule caller_acquired [OF assms(1)]) simp_all
  have aw: "await ROUNDS ?c (ChanPipeRead a) ?l ?t = Ok True ?t" using assms(4) by (intro await_done) auto
  have ut: "upte ?t pt = upte s pt" "udata ?t pt = udata s pt" by (simp_all add: upte_cong [of ?t s] udata_cong [of ?t s])
  obtain s1 where s1: "piperead_loop n a addr p 0 ?t = Ok m s1" "caller p pt ps s1"
      "kmem_frame (set_pipe a ((pipe_drop ^^ m) (pipes ?t a)) ?t) s1"
      "delivered addr (take m (pipe_items (pipes s a))) pt ?t s1"
      "pipe_inv (pipes s1 a)" "pipe_items (pipes s1 a) = drop m (pipe_items (pipes s a))"
    using piperead_loop_items [OF ct, of a m n addr 0] assms(3) m w uwritable_cong [OF ut(1)] by auto
  note fr = kmem_frame_machine [OF s1(3)]
  have sm: "same_machine ?t s1" using fr(1) by (simp add: same_machine_def set_pipe_def)
  let ?w = "woken {..<NPROC} (Some (ChanPipeWrite a)) s"
  have "woken {..<NPROC} (Some (ChanPipeWrite a)) s1 = ?w"
    by (rule woken_cong) (simp_all add: fr(2,3) set_pipe_machine)
  then have wk: "wakeup (Some (ChanPipeWrite a)) s1 = Ok () (s1\<lparr>procs := ?w\<rparr>)"
    using caller_wakeup [OF s1(2), of "Some (ChanPipeWrite a)"] by simp
  let ?r = "restore s (s1\<lparr>procs := ?w\<rparr>)"
  have "piperead a addr (int n) s = Ok (int m) ?r"
    using sm by (simp add: piperead_def kexec curproc_quiet [OF q] acquire_free [OF q(1) assms(2)] aw s1(1) wk
        release_restores [OF q(1) assms(2)] procs_commute(2))
  moreover have "phys ?r = phys s1" "pipes ?r = pipes s1" "procs ?r = ?w" "same_machine s ?r"
    by (simp_all add: restore_def same_machine_def)
  moreover have "delivered addr (take m (pipe_items (pipes s a))) pt s ?r"
    using s1(4) upte_cong [of ?r s1 pt] udata_cong [of ?r s1 pt] \<open>phys ?r = phys s1\<close> ut by (simp add: delivered_def)
  ultimately show ?thesis using s1(5,6) by auto
qed

section \<open>Properties\<close>

text \<open>
  C9: \<open>pipewrite\<close> appends to the queue.  When the process is alive, the read end is open and there is
  room, \<open>pipewrite\<close> of \<open>n\<close> bytes of readable user memory returns \<open>n\<close>, the contents of the pipe
  become the old contents followed by those bytes (also when the 32-bit counters wrap around), and
  exactly the processes that wait to read this pipe become runnable; nothing else changes.
\<close>

theorem pipewrite_appends:
  fixes s :: "'z filest_scheme"
  assumes "caller p pt ps s" "lock_free (PipeLock a) s" "readopen (pipes s a)" "pipe_inv (pipes s a)"
    and "length (pipe_items (pipes s a)) + length src \<le> PIPESIZE"
    and "\<And>j. j < length src \<Longrightarrow> udata s pt (addr + of_nat j) = Some (src ! j)"
  shows "\<exists>x. pipewrite a addr (int (length src)) s = Ok (int (length src))
      (s\<lparr>pipes := (pipes s)(a := x), procs := woken {..<NPROC} (Some (ChanPipeRead a)) s\<rparr>) \<and>
    pipe_inv x \<and> pipe_items x = pipe_items (pipes s a) @ src"
proof -
  let ?x = "fold pipe_put src (pipes s a)"
  from pipewrite_room_lemma [OF assms] have "pipewrite a addr (int (length src)) s = Ok (int (length src))
      (s\<lparr>pipes := (pipes s)(a := ?x), procs := woken {..<NPROC} (Some (ChanPipeRead a)) s\<rparr>)"
    by (simp add: set_pipe_def)
  moreover have "pipe_inv ?x \<and> pipe_items ?x = pipe_items (pipes s a) @ src"
    by (rule pipe_fifo.put_all [OF assms(4,5)])
  ultimately show ?thesis by blast
qed

text \<open>
  C10: \<open>piperead\<close> takes from the front of the queue.  When the pipe holds data or its write end is
  closed, \<open>piperead\<close> does not sleep: it moves the first \<open>min n count\<close> bytes of the pipe, in order, to
  the user address, returns that number (0 at the end of the data), leaves the rest in the pipe, and
  makes exactly the processes that wait to write runnable.  The rest of the address space, the locks
  and the hart are as before.
\<close>

theorem piperead_takes_front:
  fixes s :: "'z filest_scheme"
  assumes "caller p pt ps s" "lock_free (PipeLock a) s" "pipe_inv (pipes s a)"
    and "\<not> pipe_empty (pipes s a) \<or> \<not> writeopen (pipes s a)"
    and m: "m = min n (length (pipe_items (pipes s a)))" "m < 2 ^ 64"
    and w: "\<And>j. j < m \<Longrightarrow> uwritable s pt (addr + of_nat j)"
  shows "\<exists>s'. piperead a addr (int n) s = Ok (int m) s' \<and>
    delivered addr (take m (pipe_items (pipes s a))) pt s s' \<and>
    pipe_inv (pipes s' a) \<and> pipe_items (pipes s' a) = drop m (pipe_items (pipes s a)) \<and>
    procs s' = woken {..<NPROC} (Some (ChanPipeWrite a)) s \<and> same_machine s s'"
  using piperead_lemma [OF assms] .

text \<open>
  Writing to a broken pipe fails.  When the read end is closed or the process was killed,
  \<open>pipewrite\<close> of at least one byte returns -1 and leaves the state, the lock included, as it was.
\<close>

theorem pipewrite_broken:
  fixes s :: "'z filest_scheme"
  assumes "cpu_quiet s" "proc_locks_free s" "cur s = Some p" "p < NPROC" "lock_free (PipeLock a) s" "0 < n"
    and "\<not> readopen (pipes s a) \<or> killed_flag (procs s p) \<noteq> 0"
  shows "pipewrite a addr n s = Ok (-1) s"
proof -
  let ?t = "after_acquire (PipeLock a) s"
  obtain k where k: "nat n = Suc k" using assms(6) by (cases "nat n") auto
  have "lock_free (ProcLock p) ?t" using assms(2,4) by (auto simp: proc_locks_free_def intro!: after_acquire_lock_free)
  from killed_eq [OF after_acquire_quiet [OF assms(1)] this]
  have "killed p ?t = Ok (killed_flag (procs s p)) ?t" by simp
  then have "pipewrite_loop ROUNDS a addr p 0 (Suc k) ?t = Ok None s"
    using assms(7) by (simp add: kexec get_pipe_def release_restores [OF assms(1,5)] crit)
  then show ?thesis
    by (simp add: pipewrite_def kexec curproc_quiet [OF assms(1,3)] acquire_free [OF assms(1,5)] k)
qed

section \<open>Concrete states\<close>

lemma demo_caller:
  "\<exists>s ps. caller 0 0x87ffd000 ps (s :: kernst) \<and> (\<forall>j < 2. uwritable s 0x87ffd000 (0x1ffe + of_nat j)) \<and>
     pipes s = (\<lambda>_. demo_pipe) \<and> (\<forall>l. lock_free l s) \<and> procs s = procs demo_kernel"
proof -
  let ?pt = "0x87ffd000"
  obtain k :: kmem and ps where k: "vm_rep k 2 ?pt ps" "user_sep k ?pt ps" "uwritable k ?pt 0x1ffe"
    using one_user_page by blast
  let ?s = "demo_kernel\<lparr>phys := phys k, freelist := freelist k, kend := kend k\<rparr>"
  have m: "same_machine demo_kernel ?s" by (simp add: same_machine_def)
  have q: "cpu_quiet ?s" "lock_free l ?s" for l
    using demo_kernel_quiet cpu_quiet_same [OF m] lock_free_same [OF m] by simp_all
  have up: "upte ?s ?pt = upte k ?pt" by (rule ext) (simp add: upte_def)
  have v: "vm_rep ?s 2 ?pt ps" using k(1) q by (simp add: vm_rep_def kmem_rep_def)
  have ph: "phys ?s = phys k" by simp
  have "user_sep ?s ?pt ps" using k(2) unfolding user_sep_def up ph .
  with v have "caller 0 ?pt ps ?s"
    using q by (simp add: caller_def proc_locks_free_def cur_def demo_kernel_machine no_proc_def NPROC_def)
  moreover have "uwritable ?s ?pt (0x1ffe + of_nat j)" if "j < 2" for j
    using uwritable_near [OF k(3)] that by (simp add: uwritable_def up)
  moreover have "pipes ?s = (\<lambda>_. demo_pipe)" "procs ?s = procs demo_kernel" by (simp_all add: demo_kernel_machine)
  ultimately show ?thesis using q by blast
qed

lemma demo_pipe_empty: "pipe_inv demo_pipe" "pipe_items demo_pipe = []" "pipe_empty demo_pipe"
  by (simp_all add: demo_pipe_def pipe_inv_def ring_inv_def pipe_items_def ring_items_def pipe_empty_def)

theorem pipewrite_appends_witness:
  "\<exists>s s' :: kernst. \<exists>c d x. pipewrite 0x86000000 0x1ffe 2 s = Ok 2 s' \<and> pipes s' 0x86000000 = x \<and> pipe_items x = [c, d]"
proof -
  let ?pt = "0x87ffd000"
  obtain s :: kernst and ps where s: "caller 0 ?pt ps s" "\<forall>j < 2. uwritable s ?pt (0x1ffe + of_nat j)"
    "pipes s = (\<lambda>_. demo_pipe)" "\<forall>l. lock_free l s" using demo_caller by blast
  define f where "f j = the (udata s ?pt (0x1ffe + of_nat j))" for j
  have f: "udata s ?pt (0x1ffe + of_nat j) = Some (f j)" if "j < 2" for j
    using s(2) that by (simp add: f_def uwritable_def udata_def)
  have u: "udata s ?pt (0x1ffe + of_nat j) = Some ([f 0, f 1] ! j)" if "j < length [f 0, f 1]" for j
    using f [of j] that by (auto simp: less_Suc_eq numeral_2_eq_2)
  have "\<exists>x. pipewrite 0x86000000 0x1ffe (int (length [f 0, f 1])) s = Ok (int (length [f 0, f 1]))
      (s\<lparr>pipes := (pipes s)(0x86000000 := x), procs := woken {..<NPROC} (Some (ChanPipeRead 0x86000000)) s\<rparr>) \<and>
    pipe_inv x \<and> pipe_items x = pipe_items (pipes s 0x86000000) @ [f 0, f 1]"
    by (rule pipewrite_appends [OF s(1) _ _ _ _ u])
      (use s(3,4) demo_pipe_empty in \<open>simp_all add: demo_pipe_def PIPESIZE_def\<close>)
  then show ?thesis using s(3) demo_pipe_empty(2) by fastforce
qed

theorem piperead_takes_front_witness:
  "\<exists>s s' :: kernst. piperead 0x86000000 0x1ffe 5 s = Ok 2 s' \<and> udata s' 0x87ffd000 0x1fff = Some 8 \<and>
     pipe_items (pipes s' 0x86000000) = []"
proof -
  let ?pt = "0x87ffd000" and ?a = "0x86000000 :: uint64"
  obtain s0 :: kernst and ps where s0: "caller 0 ?pt ps s0" "\<forall>j < 2. uwritable s0 ?pt (0x1ffe + of_nat j)"
    "pipes s0 = (\<lambda>_. demo_pipe)" "\<forall>l. lock_free l s0" using demo_caller by blast
  let ?x = "fold pipe_put [7, 8] demo_pipe"
  let ?s = "set_pipe ?a ?x s0"
  have x: "pipe_inv ?x" "pipe_items ?x = [7, 8]"
    using pipe_fifo.put_all [OF demo_pipe_empty(1), of "[7, 8]"] by (simp_all add: demo_pipe_empty(2) PIPESIZE_def)
  have "\<exists>s'. piperead ?a 0x1ffe (int 5) ?s = Ok (int 2) s' \<and>
    delivered 0x1ffe (take 2 (pipe_items (pipes ?s ?a))) ?pt ?s s' \<and>
    pipe_inv (pipes s' ?a) \<and> pipe_items (pipes s' ?a) = drop 2 (pipe_items (pipes ?s ?a)) \<and>
    procs s' = woken {..<NPROC} (Some (ChanPipeWrite ?a)) ?s \<and> same_machine ?s s'"
  proof (rule piperead_takes_front)
    show "caller 0 ?pt ps ?s" using s0(1) by simp
    show "lock_free (PipeLock ?a) ?s" using s0(4) by (simp add: set_pipe_def lock_free_def)
    show "\<not> pipe_empty (pipes ?s ?a) \<or> \<not> writeopen (pipes ?s ?a)"
      using x pipe_fifo.empty_iff [OF x(1)] by simp
  qed (use x s0(2) in simp_all)
  then obtain s' where s': "piperead ?a 0x1ffe 5 ?s = Ok 2 s'" "delivered 0x1ffe [7, 8] ?pt ?s s'" "pipe_items (pipes s' ?a) = []"
    using x(2) by auto
  have "unat (0x1fff - 0x1ffe :: uint64) = 1" by simp
  then have "udata s' ?pt 0x1fff = Some 8" using s'(2) unfolding delivered_def by (metis length_Cons nth_Cons_0 nth_Cons_Suc One_nat_def lessI list.size(3) numeral_2_eq_2)
  then show ?thesis using s' by blast
qed

theorem pipewrite_broken_witness:
  "pipewrite 0x86000000 0x1000 3 (demo_kernel\<lparr>pipes := (\<lambda>_. demo_pipe\<lparr>readopen := False\<rparr>)\<rparr>) =
     Ok (-1) (demo_kernel\<lparr>pipes := (\<lambda>_. demo_pipe\<lparr>readopen := False\<rparr>)\<rparr>)"
  by (rule pipewrite_broken [where p = 0])
    (simp_all add: demo_kernel_machine cpu_quiet_def intr_enabled_def proc_locks_free_def lock_free_def cur_def NPROC_def)

end
