(* ===== verification/Xv6_Output.thy ===== *)
theory Xv6_Output
  imports Xv6_Pipe
begin

unbundle bit_operations_syntax

text \<open>
  Correctness of the output path: \<open>uart.c\<close> sends the bytes it is given in order, \<open>printf.c\<close> prints
  numbers in their usual notation.
\<close>

section \<open>Polled output\<close>

definition uart_ready :: "'z uartst_scheme \<Rightarrow> bool" where
  "uart_ready s \<longleftrightarrow> cpu_quiet s \<and> \<not> panicked s \<and> uart_lcr s AND LCR_BAUD_LATCH = 0"

definition emit :: "byte list \<Rightarrow> 'z uartst_scheme \<Rightarrow> 'z uartst_scheme" where
  "emit bs s = s\<lparr>sent := sent s @ bs, thr_full := thr_full s \<or> bs \<noteq> []\<rparr>"

lemma emit_Nil [simp]: "emit [] s = s"
  by (simp add: emit_def)

lemma emit_emit [simp]: "emit cs (emit bs s) = emit (bs @ cs) s"
  by (simp add: emit_def)

lemma emit_facts [simp]:
  "sent (emit bs s) = sent s @ bs" "uart_ready (emit bs s) = uart_ready s" "pr_locking (emit bs s) = pr_locking s"
  "procs (emit bs s) = procs s" "phys (emit bs s) = phys s" "cpu_quiet (emit bs s) = cpu_quiet s"
  "lock_free l (emit bs s) = lock_free l s" "cur (emit bs s) = cur s" "proc_locks_free (emit bs s) = proc_locks_free s"
  by (simp_all add: emit_def uart_ready_def cpu_quiet_def intr_enabled_def lock_free_def cur_def proc_locks_free_def)

lemma emit_machine [crit]:
  "same_machine s (emit bs t) = same_machine s t" "restore s (emit bs t) = emit bs (restore s t)"
  by (simp_all add: emit_def same_machine_def restore_def)

lemma tx_idle_mask: "LSR_TX_IDLE \<noteq> 0" "LSR_RX_READY AND LSR_TX_IDLE = 0" "LSR_TX_IDLE AND LSR_RX_READY = 0"
  "(LSR_RX_READY OR LSR_TX_IDLE) AND LSR_TX_IDLE \<noteq> 0"
  by (simp_all add: LSR_TX_IDLE_def LSR_RX_READY_def)

lemma line_status_tx: "line_status s AND LSR_TX_IDLE = 0 \<longleftrightarrow> thr_full s"
  by (simp add: line_status_def tx_idle_mask)

lemma uartputc_sync_eq:
  assumes "uart_ready s"
  shows "uartputc_sync c s = Ok () (emit [c] s)"
proof -
  let ?off = "\<lambda>u. u\<lparr>sstatus := sstatus u AND NOT SSTATUS_SIE,
     cpus := (cpus u)(tp u := (cpus u (tp u))\<lparr>noff := noff (cpus u (tp u)) + 1\<rparr>)\<rparr>"
  have q: "cpu_quiet s" "\<not> panicked s" "uart_lcr s AND LCR_BAUD_LATCH = 0" using assms by (simp_all add: uart_ready_def)
  have w: "wait_tx_idle (?off s) = Ok () ((?off s)\<lparr>thr_full := False\<rparr>)"
    by (simp add: wait_tx_idle_def ReadReg_def kexec line_status_tx uart_drain_def)
  have "(?off s)\<lparr>sent := sent s @ [c], thr_full := True\<rparr> = ?off (emit [c] s)" by (simp add: emit_def)
  then show ?thesis
    using q pop_off_push [of "emit [c] s"]
    by (simp add: uartputc_sync_def kexec push_off_quiet w WriteReg_def THR_def)
qed


definition to_bytes :: "string \<Rightarrow> byte list" where
  "to_bytes cs = map (\<lambda>c. of_char c) cs"

lemma to_bytes_simps [simp]: "to_bytes [] = []" "to_bytes (c # cs) = of_char c # to_bytes cs" "to_bytes (xs @ ys) = to_bytes xs @ to_bytes ys"
  by (simp_all add: to_bytes_def)

lemma of_char_not_backspace: "(of_char c :: int) \<noteq> BACKSPACE"
proof -
  have "(of_char c :: nat) < 256" by (rule nat_of_char_less_256)
  moreover have "(of_char c :: int) = int (of_char c)" by (rule of_nat_of_char [symmetric])
  ultimately show ?thesis unfolding BACKSPACE_def by linarith
qed

lemma consputc_char:
  assumes "uart_ready s"
  shows "consputc (of_char c) s = Ok () (emit [of_char c] s)"
proof -
  have "word_of_int (of_char c) = (of_char c :: byte)" by (rule of_int_of_char)
  then show ?thesis using uartputc_sync_eq [OF assms] by (simp add: consputc_def of_char_not_backspace)
qed

lemma for_each_consputc:
  "uart_ready s \<Longrightarrow> for_each cs (\<lambda>c. consputc (of_char c)) s = Ok () (emit (to_bytes cs) s)"
  by (induction cs arbitrary: s) (simp_all add: bind_apply consputc_char)

section \<open>Numbers\<close>

text \<open>The usual notation of a number, most significant digit first.\<close>

fun show_nat :: "nat \<Rightarrow> nat \<Rightarrow> string" where
  "show_nat base x = (if base < 2 \<or> x < base then [digits ! (x mod base)] else show_nat base (x div base) @ [digits ! (x mod base)])"

declare show_nat.simps [simp del]

definition show_int :: "int \<Rightarrow> string" where
  "show_int i = (if i < 0 then ''-'' @ show_nat 10 (nat (- i)) else show_nat 10 (nat i))"

lemma digits_show: "rev (map (\<lambda>d. digits ! d) (digits_rev base x)) = show_nat base x"
proof (induction base x rule: digits_rev.induct)
  case (1 base x)
  then show ?case by (subst digits_rev.simps, subst show_nat.simps) (simp add: rev_map)
qed

lemma length_digits_rev:
  assumes "2 \<le> base" "0 < n"
  shows "length (digits_rev base x) \<le> n \<longleftrightarrow> x < base ^ n"
  using assms(2)
proof (induction n arbitrary: x rule: nat_induct_non_zero)
  case 1
  show ?case using assms(1) by (subst digits_rev.simps) (auto simp: Suc_le_eq digits_rev.simps [of base "x div base"])
next
  case (Suc n)
  show ?case
  proof (cases "x < base")
    case True
    moreover have "base \<le> base ^ Suc n" using assms(1) by simp
    ultimately show ?thesis by (subst digits_rev.simps) (simp add: less_le_trans)
  next
    case False
    then have "length (digits_rev base x) = Suc (length (digits_rev base (x div base)))"
      using assms(1) by (subst digits_rev.simps) simp
    moreover have "x div base < base ^ n \<longleftrightarrow> x < base ^ Suc n"
      using assms(1) by (simp add: div_less_iff_less_mult mult.commute)
    ultimately show ?thesis using Suc by simp
  qed
qed

lemma printint_eq:
  assumes "uart_ready s" "length (printint_buf x base sign) \<le> PRINTINT_BUF"
  shows "printint x base sign s = Ok () (emit (to_bytes (rev (printint_buf x base sign))) s)"
  using assms by (simp add: printint_def for_each_consputc)

lemma printint_buf_unsigned: "rev (printint_buf x base False) = show_nat base (unat x)"
  by (simp add: printint_buf_def digits_show)

lemma int_bounds: "- 2147483648 \<le> sint (w :: uint)" "sint w < 2147483648"
  using sint_greater_eq [of w] sint_less [of w] by simp_all

lemma printint_int_abs:
  fixes w :: uint
  defines "x \<equiv> scast w :: uint64"
  shows "sint x = sint w" "sint w < 0 \<Longrightarrow> unat (- x) = nat (- sint w)" "0 \<le> sint w \<Longrightarrow> unat x = nat (sint w)"
proof -
  note b = int_bounds [of w]
  have x: "x = word_of_int (sint w)" unfolding x_def by (rule scast_eq)
  have u: "uint (word_of_int k :: uint64) = k" if "0 \<le> k" "k \<le> 2147483648" for k
    using that by (simp add: uint_word_of_int)
  show "sint w < 0 \<Longrightarrow> unat (- x) = nat (- sint w)"
    using u [of "- sint w"] b by (simp add: x unat_eq_nat_uint flip: word_of_int_minus)
  show "0 \<le> sint w \<Longrightarrow> unat x = nat (sint w)" using u [of "sint w"] b by (simp add: x unat_eq_nat_uint)
  show "sint x = sint w"
    using b signed_take_bit_int_eq_self [of 63 "sint w"] unfolding x_def by (simp add: signed_scast_eq)
qed

lemma printint_buf_int: "rev (printint_buf (scast (w :: uint)) 10 True) = show_int (sint w)"
proof (cases "sint w < 0")
  case True
  then show ?thesis using printint_int_abs [of w] by (simp add: printint_buf_def show_int_def digits_show)
next
  case False
  then show ?thesis using printint_int_abs [of w] by (simp add: printint_buf_def show_int_def digits_show)
qed

lemma printint_int_fits: "length (printint_buf (scast (w :: uint)) 10 True) \<le> PRINTINT_BUF"
proof -
  have "length (digits_rev 10 n) \<le> 10" if "n \<le> 2147483648" for n
    using length_digits_rev [of 10 10 n] that by simp
  then have "length (digits_rev 10 (nat (- sint w))) \<le> 10" "length (digits_rev 10 (nat (sint w))) \<le> 10"
    using int_bounds [of w] by simp_all
  then show ?thesis
    using printint_int_abs [of w] by (cases "sint w < 0") (simp_all add: printint_buf_def PRINTINT_BUF_def)
qed


section \<open>Formats\<close>

lemma of_char_byte: "(of_char c :: byte) = word_of_int (of_char c)"
  by (rule of_int_of_char [symmetric])

lemma printf_char:
  assumes "uart_ready s" "c \<noteq> CHR ''%''"
  shows "printf_loop (c # r) args s = printf_loop r args (emit [of_char c] s)"
  using assms by (simp add: kexec consputc_char)

lemma printf_plain:
  assumes "uart_ready s" "CHR ''%'' \<notin> set cs"
  shows "printf_loop (cs @ r) args s = printf_loop r args (emit (to_bytes cs) s)"
  using assms
proof (induction cs arbitrary: s)
  case (Cons c cs)
  then show ?case using printf_char [of s c "cs @ r" args] by auto
qed simp

lemma printf_d:
  assumes "uart_ready s"
  shows "printf_loop (CHR ''%'' # CHR ''d'' # r) (VNum w # args) s =
    printf_loop r args (emit (to_bytes (show_int (sint (ucast w :: uint)))) s)"
proof -
  have "printint (scast (ucast w :: uint)) 10 True s = Ok () (emit (to_bytes (show_int (sint (ucast w :: uint)))) s)"
    using printint_eq [OF assms printint_int_fits, of "ucast w"] by (simp only: printint_buf_int)
  then show ?thesis by (simp add: printf_conv_def va_int_def kexec)
qed

lemma printf_s:
  assumes "uart_ready s"
  shows "printf_loop (CHR ''%'' # CHR ''s'' # r) (VStr (Some cs) # args) s = printf_loop r args (emit (to_bytes cs) s)"
  using assms by (simp add: printf_conv_def va_str_def kexec for_each_consputc)

lemma printf_locked:
  fixes s :: "'z uartst_scheme"
  assumes "uart_ready s" "lock_free PrLock s"
    and "\<And>t :: 'z uartst_scheme. uart_ready t \<Longrightarrow> printf_loop fmt args t = Ok () (emit bs t)"
  shows "printf fmt args s = Ok () (emit bs s)"
proof -
  have q: "cpu_quiet s" using assms(1) by (simp add: uart_ready_def)
  have t: "uart_ready (after_acquire PrLock s)"
    using assms(1) after_acquire_quiet [OF q] by (simp add: uart_ready_def after_acquire_def)
  show ?thesis
    by (simp add: printf_def kexec acquire_free [OF q assms(2)] assms(3) [OF assms(1)] assms(3) [OF t]
        release_restores [OF q assms(2)] crit)
qed


section \<open>Buffered output\<close>

definition uart_items :: "'z uartst_scheme \<Rightarrow> byte list" where
  "uart_items s = ring_items UART_TX_BUF_SIZE (uart_tx_buf s) (uart_tx_r s) (uart_tx_w s)"

definition uart_inv :: "'z uartst_scheme \<Rightarrow> bool" where
  "uart_inv s \<longleftrightarrow> ring_inv UART_TX_BUF_SIZE (uart_tx_r s) (uart_tx_w s)"

definition uart_empty :: "'z uartst_scheme \<Rightarrow> bool" where
  "uart_empty s \<longleftrightarrow> uart_tx_w s = uart_tx_r s"

definition uart_full :: "'z uartst_scheme \<Rightarrow> bool" where
  "uart_full s \<longleftrightarrow> uart_tx_w s = uart_tx_r s + of_nat UART_TX_BUF_SIZE"

definition uart_put :: "byte \<Rightarrow> 'z uartst_scheme \<Rightarrow> 'z uartst_scheme" where
  "uart_put c s = s\<lparr>uart_tx_buf := (uart_tx_buf s)(unat (uart_tx_w s) mod UART_TX_BUF_SIZE := c), uart_tx_w := uart_tx_w s + 1\<rparr>"

definition uart_head :: "'z uartst_scheme \<Rightarrow> byte" where
  "uart_head s = uart_tx_buf s (unat (uart_tx_r s) mod UART_TX_BUF_SIZE)"

definition uart_pop :: "'z uartst_scheme \<Rightarrow> 'z uartst_scheme" where
  "uart_pop s = s\<lparr>uart_tx_r := uart_tx_r s + 1\<rparr>"

lemma UART_fits: "UART_TX_BUF_SIZE dvd 2 ^ LENGTH(64)" "UART_TX_BUF_SIZE < 2 ^ LENGTH(64)"
  by (simp_all add: UART_TX_BUF_SIZE_def)

lemma uart_full_count: "uart_full s \<longleftrightarrow> unat (uart_tx_w s - uart_tx_r s) = UART_TX_BUF_SIZE"
proof -
  have "uart_full s \<longleftrightarrow> uart_tx_w s - uart_tx_r s = of_nat UART_TX_BUF_SIZE" by (auto simp: uart_full_def algebra_simps)
  also have "\<dots> \<longleftrightarrow> unat (uart_tx_w s - uart_tx_r s) = UART_TX_BUF_SIZE"
    by (auto simp: UART_TX_BUF_SIZE_def word_unat_eq_iff)
  finally show ?thesis .
qed

interpretation uart_fifo: fifo uart_items UART_TX_BUF_SIZE uart_inv uart_empty uart_full uart_put uart_head uart_pop
proof
  fix q :: "'a uartst_scheme" and x
  assume inv: "uart_inv q"
  show "length (uart_items q) \<le> UART_TX_BUF_SIZE" using inv by (simp add: uart_items_def uart_inv_def ring_inv_def)
  show "uart_empty q \<longleftrightarrow> uart_items q = []" by (auto simp: uart_empty_def uart_items_def ring_items_Nil_iff)
  show "uart_full q \<longleftrightarrow> length (uart_items q) = UART_TX_BUF_SIZE" by (simp add: uart_full_count uart_items_def)
  show "uart_inv (uart_put x q) \<and> uart_items (uart_put x q) = uart_items q @ [x]" if "\<not> uart_full q"
  proof -
    have less: "unat (uart_tx_w q - uart_tx_r q) < UART_TX_BUF_SIZE"
      using inv that unfolding uart_full_count by (simp add: uart_inv_def ring_inv_def)
    have "uart_inv (uart_put x q)"
      using less unat_Suc_diff [OF less UART_fits(2)] by (simp add: uart_inv_def uart_put_def ring_inv_def)
    then show ?thesis using ring_put [OF UART_fits less] by (simp add: uart_items_def uart_put_def)
  qed
  show "uart_inv (uart_pop q) \<and> uart_items q = uart_head q # uart_items (uart_pop q)" if "\<not> uart_empty q"
  proof -
    have ne: "uart_tx_r q \<noteq> uart_tx_w q" using that by (simp add: uart_empty_def)
    then have "uart_inv (uart_pop q)"
      using inv unat_diff_Suc [OF ne] by (simp add: uart_inv_def uart_pop_def ring_inv_def)
    then show ?thesis
      using ring_take [OF UART_fits(1) ne] by (simp add: uart_items_def uart_pop_def uart_head_def)
  qed
qed

text \<open>Everything that went out or is queued, in order.\<close>

definition uart_stream :: "'z uartst_scheme \<Rightarrow> byte list" where
  "uart_stream s = sent s @ uart_items s"

definition uart_ok :: "'z uartst_scheme \<Rightarrow> bool" where
  "uart_ok s \<longleftrightarrow> uart_ready s \<and> proc_locks_free s \<and> uart_inv s"

lemma proc_locks_free_same: "same_machine s t \<Longrightarrow> proc_locks_free t = proc_locks_free s"
  by (simp add: proc_locks_free_def lock_free_same)

lemmas quiet_same = cpu_quiet_same lock_free_same proc_locks_free_same

text \<open>One call of \<open>uartstart\<close> moves at most one byte, because the holding register is full after it.\<close>

lemma uartstart_stream:
  fixes s :: "'z uartst_scheme"
  assumes "uart_ok s"
  shows "\<exists>s'. uartstart s = Ok () s' \<and> uart_stream s' = uart_stream s \<and> uart_ok s' \<and> same_machine s s' \<and>
    length (uart_items s') = (if thr_full s then length (uart_items s) else length (uart_items s) - 1)"
proof -
  have r: "cpu_quiet s" "proc_locks_free s" "uart_inv s" "uart_lcr s AND LCR_BAUD_LATCH = 0"
    using assms by (simp_all add: uart_ok_def uart_ready_def)
  have rr: "ReadReg ISR t = Ok 0 t" for t :: "'z uartst_scheme" by (simp add: ReadReg_def ISR_def LSR_def RHR_def)
  have ls: "ReadReg LSR t = Ok (line_status t) t" for t :: "'z uartst_scheme" by (simp add: ReadReg_def)
  show ?thesis
  proof (cases "uart_items s")
    case Nil
    then have e: "uart_tx_w s = uart_tx_r s" using uart_fifo.empty_iff [OF r(3)] by (simp add: uart_empty_def)
    then have "uartstart s = Ok () s" by (simp add: uartstart_def kexec rr)
    then show ?thesis using assms Nil by simp
  next
    case (Cons c cs)
    then have ne: "\<not> uart_empty s" using uart_fifo.empty_iff [OF r(3)] by simp
    then have ne': "uart_tx_w s \<noteq> uart_tx_r s" by (simp add: uart_empty_def)
    then obtain n where n: "unat (uart_tx_w s - uart_tx_r s) = Suc n" by (metis eq_iff_diff_eq_0 not0_implies_Suc unat_eq_zero)
    show ?thesis
    proof (cases "thr_full s")
      case True
      then have "uartstart s = Ok () s" using ne' by (simp add: uartstart_def kexec n ls line_status_tx)
      then show ?thesis using assms True by simp
    next
      case False
      let ?p = "woken {..<NPROC} (Some ChanUart) s"
      let ?t = "(uart_pop s)\<lparr>procs := ?p\<rparr>"
      let ?u = "?t\<lparr>sent := sent s @ [uart_head s], thr_full := True\<rparr>"
      note pop = uart_fifo.pop_law [OF r(3) ne]
      have "woken {..<NPROC} (Some ChanUart) (uart_pop s) = ?p"
        by (rule woken_cong) (simp_all add: uart_pop_def cur_def)
      then have wk: "wakeup (Some ChanUart) (uart_pop s) = Ok () ?t"
        using wakeup_eq [of "uart_pop s" "Some ChanUart"] r(1,2) quiet_same [of s "uart_pop s"]
        by (simp add: same_machine_def uart_pop_def)
      have last: "uartstart_loop n ?u = Ok () ?u"
        by (cases n) (auto simp: kexec rr ls line_status_tx)
      have "uartstart s = Ok () ?u"
        using ne' False r(4) wk last
        by (simp add: uartstart_def kexec n ls line_status_tx uart_pop_def WriteReg_def THR_def uart_head_def)
      moreover have "uart_items ?u = uart_items (uart_pop s)" "uart_inv ?u = uart_inv (uart_pop s)"
        by (simp_all add: uart_items_def uart_inv_def)
      moreover have m: "same_machine s ?u" by (simp add: same_machine_def uart_pop_def)
      moreover have "panicked ?u = panicked s" "uart_lcr ?u = uart_lcr s" by (simp_all add: uart_pop_def)
      then have "uart_ok ?u"
        using assms pop calculation(3) quiet_same [OF m] by (simp add: uart_ok_def uart_ready_def)
      ultimately show ?thesis using pop False by (simp add: uart_stream_def)
    qed
  qed
qed


lemma uart_fields_acquired:
  "uart_items (after_acquire l s) = uart_items s" "uart_inv (after_acquire l s) = uart_inv s"
  "uart_stream (after_acquire l s) = uart_stream s" "uart_full (after_acquire l s) = uart_full s"
  "thr_full (after_acquire l s) = thr_full s" "panicked (after_acquire l s) = panicked s" "uart_lcr (after_acquire l s) = uart_lcr s"
  by (simp_all add: after_acquire_def uart_items_def uart_inv_def uart_stream_def uart_full_def)

lemma uart_fields_restored:
  "uart_items (restore s t) = uart_items t" "uart_inv (restore s t) = uart_inv t" "uart_stream (restore s t) = uart_stream t"
  "panicked (restore s t) = panicked t" "uart_lcr (restore s t) = uart_lcr t"
  by (simp_all add: restore_def uart_items_def uart_inv_def uart_stream_def)

lemma same_restore: "same_machine s (restore s t)"
  by (simp add: same_machine_def restore_def)

lemma uart_ok_acquired:
  assumes "uart_ok s" "\<And>i. l \<noteq> ProcLock i"
  shows "uart_ok (after_acquire l s)"
  using assms after_acquire_quiet [of s l]
  by (auto simp: uart_ok_def uart_ready_def uart_fields_acquired proc_locks_free_def intro!: after_acquire_lock_free)

lemma uart_ok_put:
  assumes "uart_ok s" "\<not> uart_full s"
  shows "uart_ok (uart_put c s)" "uart_stream (uart_put c s) = uart_stream s @ [c]" "same_machine s (uart_put c s)"
proof -
  have p: "uart_inv (uart_put c s)" "uart_items (uart_put c s) = uart_items s @ [c]"
    using uart_fifo.put_law [of s c] assms by (simp_all add: uart_ok_def)
  show m: "same_machine s (uart_put c s)" by (simp add: same_machine_def uart_put_def)
  have "panicked (uart_put c s) = panicked s" "uart_lcr (uart_put c s) = uart_lcr s" "sent (uart_put c s) = sent s"
    by (simp_all add: uart_put_def)
  then show "uart_ok (uart_put c s)" "uart_stream (uart_put c s) = uart_stream s @ [c]"
    using assms p quiet_same [OF m] by (simp_all add: uart_ok_def uart_ready_def uart_stream_def)
qed

lemma uart_stream_lemma:
  fixes s :: "'z uartst_scheme"
  assumes "uart_ok s" "lock_free UartLock s" "\<not> uart_full s"
  shows "\<exists>s'. uartputc c s = Ok () s' \<and> uart_stream s' = uart_stream s @ [c] \<and> uart_ok s' \<and> same_machine s s'"
proof -
  let ?t = "after_acquire UartLock s"
  have q: "cpu_quiet s" "\<not> panicked s" using assms(1) by (simp_all add: uart_ok_def uart_ready_def)
  have t: "uart_ok ?t" by (rule uart_ok_acquired [OF assms(1)]) simp
  have nf: "\<not> uart_full ?t" using assms(3) by (simp add: uart_fields_acquired)
  note put = uart_ok_put [OF t nf, of c]
  obtain u where u: "uartstart (uart_put c ?t) = Ok () u" "uart_stream u = uart_stream s @ [c]" "uart_ok u" "same_machine ?t u"
    using uartstart_stream [OF put(1)] put(2,3) by (auto simp: uart_fields_acquired same_machine_def)
  have w: "while_rounds ROUNDS (gets (\<lambda>s. uart_tx_w s = uart_tx_r s + of_nat UART_TX_BUF_SIZE)) (sleep ChanUart UartLock) ?t = Ok () ?t"
    using nf by (intro while_rounds_done) (simp add: uart_full_def)
  have e: "uartputc c s = Ok () (restore s u)"
    using u(1) by (simp add: uartputc_def kexec acquire_free [OF q(1) assms(2)] uart_fields_acquired q w uart_put_def
        release_restores [OF q(1) assms(2) u(4)])
  have "uart_ok (restore s u)"
    using u(3) quiet_same [OF same_restore [of s u]] assms(1) by (simp add: uart_ok_def uart_ready_def uart_fields_restored)
  then show ?thesis using e u(2) same_restore [of s u] by (auto simp: uart_fields_restored)
qed

text \<open>The device empties its holding register and interrupts; \<open>uartintr\<close> then calls \<open>uartstart\<close>.\<close>

primrec tx_rounds :: "nat \<Rightarrow> ('z uartst_scheme, unit) kmon" where
  "tx_rounds 0 = skip"
| "tx_rounds (Suc n) = seq uart_drain (seq uartstart (tx_rounds n))"

lemma uart_drain_ok:
  assumes "uart_ok s"
  shows "uart_ok (s\<lparr>thr_full := False\<rparr>)" "uart_items (s\<lparr>thr_full := False\<rparr>) = uart_items s" "uart_stream (s\<lparr>thr_full := False\<rparr>) = uart_stream s"
proof -
  have m: "same_machine s (s\<lparr>thr_full := False\<rparr>)" by (simp add: same_machine_def)
  show "uart_ok (s\<lparr>thr_full := False\<rparr>)"
    using assms quiet_same [OF m] by (simp add: uart_ok_def uart_ready_def uart_inv_def)
  show "uart_items (s\<lparr>thr_full := False\<rparr>) = uart_items s" "uart_stream (s\<lparr>thr_full := False\<rparr>) = uart_stream s"
    by (simp_all add: uart_items_def uart_stream_def)
qed

lemma tx_rounds_lemma:
  fixes s :: "'z uartst_scheme"
  assumes "uart_ok s" "length (uart_items s) \<le> n"
  shows "\<exists>s'. tx_rounds n s = Ok () s' \<and> sent s' = uart_stream s \<and> uart_items s' = []"
  using assms
proof (induction n arbitrary: s)
  case 0
  then show ?case by (simp add: uart_stream_def)
next
  case (Suc n)
  let ?d = "s\<lparr>thr_full := False\<rparr>"
  note d = uart_drain_ok [OF Suc.prems(1)]
  from uartstart_stream [OF d(1)] obtain u where u: "uartstart ?d = Ok () u" "uart_stream u = uart_stream s" "uart_ok u"
    "length (uart_items u) = length (uart_items s) - 1" using d by auto
  from Suc.IH [OF u(3)] u Suc.prems(2) show ?case by (auto simp: kexec uart_drain_def)
qed

section \<open>Properties\<close>


text \<open>
  Every queued byte is sent.  After as many transmit interrupts as bytes are queued, at most 32,
  all of them are out, in order, and the buffer is empty.
\<close>

theorem uart_sends_all:
  fixes s :: "'z uartst_scheme"
  assumes "uart_ok s"
  shows "\<exists>s'. tx_rounds UART_TX_BUF_SIZE s = Ok () s' \<and> sent s' = uart_stream s \<and> uart_items s' = []"
proof -
  have "length (uart_items s) \<le> UART_TX_BUF_SIZE" using uart_fifo.bounded assms by (auto simp: uart_ok_def)
  from tx_rounds_lemma [OF assms this] show ?thesis .
qed

text \<open>
  \<open>%d\<close> prints the decimal notation of its \<open>int\<close> argument.  For every 32-bit value, \<open>INT_MIN\<close>
  included, \<open>printint\<close> sends a minus sign if the value is negative and then the decimal digits of its
  absolute value, and stays within its buffer of 16 characters.
\<close>

theorem printint_prints_int:
  fixes s :: "'z uartst_scheme" and w :: uint
  assumes "uart_ready s"
  shows "printint (scast w) 10 True s = Ok () (emit (to_bytes (show_int (sint w))) s)"
  using printint_eq [OF assms printint_int_fits [of w]] by (simp only: printint_buf_int)


section \<open>Concrete states\<close>

lemma demo_uart_ready: "uart_ready demo_kernel"
  using demo_kernel_quiet by (simp add: uart_ready_def) (simp add: demo_kernel_def LCR_BAUD_LATCH_def)

lemma demo_uart_ok: "uart_ok demo_kernel" "\<not> uart_full demo_kernel" "uart_stream demo_kernel = []"
proof -
  have "uart_tx_r demo_kernel = 0" "uart_tx_w demo_kernel = 0" "sent demo_kernel = []" by (simp_all add: demo_kernel_def)
  then show "uart_ok demo_kernel" "\<not> uart_full demo_kernel" "uart_stream demo_kernel = []"
    using demo_uart_ready demo_kernel_quiet
    by (simp_all add: uart_ok_def uart_inv_def ring_inv_def uart_full_def UART_TX_BUF_SIZE_def uart_stream_def uart_items_def ring_items_def)
qed


theorem uart_sends_all_witness:
  "\<exists>s'. tx_rounds UART_TX_BUF_SIZE (uart_put 66 (uart_put 65 demo_kernel)) = Ok () s' \<and> sent s' = [65, 66]"
proof -
  have nf: "\<not> uart_full (uart_put 65 demo_kernel)"
    by (simp add: uart_full_def uart_put_def UART_TX_BUF_SIZE_def) (simp add: demo_kernel_def)
  note a = uart_ok_put [OF demo_uart_ok(1,2), of 65] and b = uart_ok_put [OF uart_ok_put(1) [OF demo_uart_ok(1,2)] nf, of 66]
  from uart_sends_all [OF b(1)] show ?thesis using a(2) b(2) demo_uart_ok(3) by auto
qed

theorem printint_prints_int_witness:
  "\<exists>s'. printint (scast (- 2147483648 :: uint)) 10 True demo_kernel = Ok () s' \<and> sent s' = to_bytes ''-2147483648''"
proof -
  have "show_int (sint (- 2147483648 :: uint)) = ''-2147483648''"
    by (simp add: show_int_def show_nat.simps digits_def)
  moreover have "sent demo_kernel = []" by (simp add: demo_kernel_def)
  ultimately show ?thesis using printint_prints_int [OF demo_uart_ready, of "- 2147483648"] by simp
qed

end
