(* ===== verification/Xv6_Calls.thy ===== *)
theory Xv6_Calls
  imports Xv6_Output
begin

unbundle bit_operations_syntax

text \<open>
  System calls: the dispatcher of \<open>syscall.c\<close>, with the calls this kernel adds to xv6
  (\<open>hello\<close> and \<open>getsyscallcount\<close>), and how unknown numbers are refused.
\<close>

section \<open>Dispatch\<close>

definition tf_word :: "'z ptable_scheme \<Rightarrow> nat \<Rightarrow> uint64 \<Rightarrow> uint64" where
  "tf_word s p off = read64 (phys s) (trapframe (procs s p) + off)"

definition with_tf :: "nat \<Rightarrow> uint64 \<Rightarrow> uint64 \<Rightarrow> 'z ptable_scheme \<Rightarrow> 'z ptable_scheme" where
  "with_tf p off v s = s\<lparr>phys := write64 (trapframe (procs s p) + off) v (phys s)\<rparr>"

definition counted :: "nat \<Rightarrow> 'z ptable_scheme \<Rightarrow> 'z ptable_scheme" where
  "counted p s = s\<lparr>procs := (procs s)(p := (procs s p)\<lparr>syscall_count := syscall_count (procs s p) + 1\<rparr>)\<rparr>"

lemma get_tf_eq: "get_tf p off s = Ok (tf_word s p off) s"
  by (simp add: get_tf_def get_proc_def kexec load64_def tf_word_def)

lemma set_tf_eq: "set_tf p off v s = Ok () (with_tf p off v s)"
  by (simp add: set_tf_def get_proc_def kexec store64_def upd_phys_def with_tf_def)

lemma tf_with_tf [simp]: "tf_word (with_tf p off v s) p off = v" "procs (with_tf p off v s) = procs s"
  by (simp_all add: tf_word_def with_tf_def)

lemma counted_facts [simp]:
  "syscall_count (procs (counted p s) p) = syscall_count (procs s p) + 1" "cpu_quiet (counted p s) = cpu_quiet s"
  "cur (counted p s) = cur s" "trapframe (procs (counted p s) q) = trapframe (procs s q)" "phys (counted p s) = phys s"
  "lock_free l (counted p s) = lock_free l s"
  by (simp_all add: counted_def)

lemma tf_word_counted [simp]: "tf_word (counted p s) q off = tf_word s q off"
  by (simp add: tf_word_def)

text \<open>The number as the C code sees it: the low half of register \<open>a7\<close>, as a signed integer.\<close>

definition call_num :: "'z ptable_scheme \<Rightarrow> nat \<Rightarrow> int" where
  "call_num s p = sint (ucast (tf_word s p TF_A7) :: uint)"

lemma syscall_known:
  assumes "cpu_quiet s" "cur s = Some p" "0 < call_num s p" "syscalls (nat (call_num s p)) = Some h"
  shows "syscall s = bind h (set_tf p TF_A0) (counted p s)"
  using assms
  by (simp add: syscall_def kexec curproc_quiet get_tf_eq call_num_def Let_def upd_proc_def counted_def)

lemma syscalls_None_iff: "syscalls n = None \<longleftrightarrow> n = 0 \<or> 23 < n"
proof
  assume "n = 0 \<or> 23 < n"
  then show "syscalls n = None" by (auto simp: syscalls_def)
next
  assume "syscalls n = None"
  then have "n \<noteq> 1 \<and> n \<noteq> 2 \<and> n \<noteq> 3 \<and> n \<noteq> 4 \<and> n \<noteq> 5 \<and> n \<noteq> 6 \<and> n \<noteq> 7 \<and> n \<noteq> 8 \<and> n \<noteq> 9 \<and> n \<noteq> 10 \<and> n \<noteq> 11 \<and> n \<noteq> 12 \<and>
    n \<noteq> 13 \<and> n \<noteq> 14 \<and> n \<noteq> 15 \<and> n \<noteq> 16 \<and> n \<noteq> 17 \<and> n \<noteq> 18 \<and> n \<noteq> 19 \<and> n \<noteq> 20 \<and> n \<noteq> 21 \<and> n \<noteq> 22 \<and> n \<noteq> 23"
    unfolding syscalls_def by (auto split: if_splits)
  then show "n = 0 \<or> 23 < n" by arith
qed

lemma printf_unknown:
  fixes s :: "'z kernst_scheme"
  assumes "uart_ready s" "lock_free PrLock s"
  shows "printf ''%s: unknown sys call %d\<newline>'' [VStr (Some nm), VNum w] s =
    Ok () (emit (to_bytes (nm @ '': unknown sys call '' @ show_int (sint (ucast w :: uint)) @ ''\<newline>'')) s)"
proof (rule printf_locked [OF assms])
  fix t :: "'z kernst_scheme" assume t: "uart_ready t"
  have "printf_loop ''%s: unknown sys call %d\<newline>'' [VStr (Some nm), VNum w] t =
      printf_loop ('': unknown sys call '' @ ''%d\<newline>'') [VNum w] (emit (to_bytes nm) t)"
    using printf_s [OF t] by simp
  also have "\<dots> = printf_loop (''%d\<newline>'') [VNum w] (emit (to_bytes (nm @ '': unknown sys call '')) t)"
    using printf_plain [of "emit (to_bytes nm) t" "'': unknown sys call ''" "''%d\<newline>''" "[VNum w]"] t by simp
  also have "\<dots> = printf_loop (''\<newline>'') [] (emit (to_bytes (nm @ '': unknown sys call '' @ show_int (sint (ucast w :: uint)))) t)"
    using printf_d [of "emit (to_bytes (nm @ '': unknown sys call '')) t"] t by simp
  also have "\<dots> = Ok () (emit (to_bytes (nm @ '': unknown sys call '' @ show_int (sint (ucast w :: uint)) @ ''\<newline>'')) t)"
    using printf_plain [of "emit (to_bytes (nm @ '': unknown sys call '' @ show_int (sint (ucast w :: uint)))) t" "''\<newline>''" "[]" "[]"] t by simp
  finally show "printf_loop ''%s: unknown sys call %d\<newline>'' [VStr (Some nm), VNum w] t =
    Ok () (emit (to_bytes (nm @ '': unknown sys call '' @ show_int (sint (ucast w :: uint)) @ ''\<newline>'')) t)" .
qed

lemma ucast_num: "ucast (word_of_int (sint (v :: uint)) :: uint64) = v"
proof -
  have "ucast (word_of_int k :: uint64) = (word_of_int k :: uint)" for k
    by transfer (simp add: take_bit_take_bit)
  then have "ucast (word_of_int (sint v) :: uint64) = (word_of_int (sint v) :: uint)" .
  also have "\<dots> = v" by simp
  finally show ?thesis .
qed

lemma emit_tf [simp]: "tf_word (emit bs s) p off = tf_word s p off"
  by (simp add: tf_word_def)

lemma syscall_unknown:
  fixes s :: "'z kernst_scheme"
  assumes "uart_ready s" "lock_free PrLock s" "cur s = Some p" "call_num s p \<le> 0 \<or> 23 < call_num s p"
  shows "syscall s = Ok () (with_tf p TF_A0 (-1) (emit (to_bytes
    (cname (pname (procs s p)) @ '': unknown sys call '' @ show_int (call_num s p) @ ''\<newline>'')) s))"
proof -
  have q: "cpu_quiet s" using assms(1) by (simp add: uart_ready_def)
  have n: "0 < call_num s p \<Longrightarrow> (syscalls (nat (call_num s p)) :: ('z kernst_scheme, uint64) kmon option) = None"
    using assms(4) by (auto simp: syscalls_None_iff)
  have "syscall s = bind (get_proc p) (\<lambda>x. seq (printf ''%s: unknown sys call %d\<newline>''
      [VStr (Some (cname (pname x))), VNum (word_of_int (call_num s p))]) (set_tf p TF_A0 (-1))) s"
    using n unfolding call_num_def
    by (simp add: syscall_def bind_apply curproc_quiet [OF q assms(3)] get_tf_eq Let_def)
  moreover have "sint (ucast (word_of_int (call_num s p) :: uint64) :: uint) = call_num s p"
    unfolding call_num_def ucast_num ..
  ultimately show ?thesis
    using printf_unknown [OF assms(1,2), of "cname (pname (procs s p))" "word_of_int (call_num s p)"]
    by (simp add: kexec get_proc_def set_tf_eq)
qed

lemma sys_hello_eq:
  fixes s :: "'z kernst_scheme"
  assumes "uart_ready s" "lock_free PrLock s"
  shows "sys_hello s = Ok 46201 (emit (to_bytes ''Hello from xv6 kernel!\<newline>'') s)"
proof -
  have "printf ''Hello from xv6 kernel!\<newline>'' [] s = Ok () (emit (to_bytes ''Hello from xv6 kernel!\<newline>'') s)"
  proof (rule printf_locked [OF assms])
    fix t :: "'z kernst_scheme" assume "uart_ready t"
    from printf_plain [OF this, of "''Hello from xv6 kernel!\<newline>''" "[]" "[]"]
    show "printf_loop ''Hello from xv6 kernel!\<newline>'' [] t = Ok () (emit (to_bytes ''Hello from xv6 kernel!\<newline>'') t)"
      by simp
  qed
  then show ?thesis by (simp add: sys_hello_def kexec)
qed

section \<open>Properties\<close>


text \<open>
  An unknown system call number is refused and not counted.  When the low 32 bits of \<open>a7\<close>, read
  as a signed number, are outside 1 to 23, \<open>syscall\<close> prints the process name and the number, stores
  -1 in \<open>a0\<close>, and leaves the counter and everything else of the process table alone.
\<close>

theorem unknown_call_not_counted:
  fixes s :: "'z kernst_scheme"
  assumes "uart_ready s" "lock_free PrLock s" "cur s = Some p" "call_num s p \<le> 0 \<or> 23 < call_num s p"
  shows "\<exists>s'. syscall s = Ok () s' \<and> tf_word s' p TF_A0 = -1 \<and> procs s' = procs s \<and>
    sent s' = sent s @ to_bytes (cname (pname (procs s p)) @ '': unknown sys call '' @ show_int (call_num s p) @ ''\<newline>'')"
  using syscall_unknown [OF assms] by (simp add: with_tf_def tf_word_def)

text \<open>
  System call 22, \<open>hello\<close>, prints the greeting on the console and returns 46201 to the caller.
\<close>

theorem hello_greets:
  fixes s :: "'z kernst_scheme"
  assumes "uart_ready s" "lock_free PrLock s" "cur s = Some p" "call_num s p = 22"
  shows "\<exists>s'. syscall s = Ok () s' \<and> tf_word s' p TF_A0 = 46201 \<and>
    sent s' = sent s @ to_bytes ''Hello from xv6 kernel!\<newline>''"
proof -
  have q: "cpu_quiet s" using assms(1) by (simp add: uart_ready_def)
  have "syscalls (nat (call_num s p)) = Some sys_hello" by (simp add: assms(4) syscalls_def)
  from syscall_known [OF q assms(3) _ this] assms(4)
  have "syscall s = bind sys_hello (set_tf p TF_A0) (counted p s)" by simp
  moreover have "uart_ready (counted p s)" "lock_free PrLock (counted p s)" "sent (counted p s) = sent s"
    using assms(1,2) by (simp_all add: uart_ready_def counted_def)
  ultimately show ?thesis using sys_hello_eq [of "counted p s"] by (simp add: kexec set_tf_eq with_tf_def tf_word_def)
qed

section \<open>Concrete states\<close>

definition demo_call :: "uint64 \<Rightarrow> kernst" where
  "demo_call n = with_tf 0 TF_A7 n (demo_kernel\<lparr>procs := (procs demo_kernel)(0 := no_proc\<lparr>state := RUNNING, trapframe := 0x87000000,
     syscall_count := 4, pname := [115, 104, 0]\<rparr>)\<rparr>)"

lemma demo_call_facts:
  "uart_ready (demo_call n)" "lock_free l (demo_call n)" "cpu_quiet (demo_call n)" "cur (demo_call n) = Some 0"
  "tf_word (demo_call n) 0 TF_A7 = n" "syscall_count (procs (demo_call n) 0) = 4" "pname (procs (demo_call n) 0) = [115, 104, 0]"
  "sent (demo_call n) = []"
proof -
  have m: "same_machine demo_kernel (demo_call n)" by (simp add: demo_call_def with_tf_def same_machine_def)
  show c: "lock_free l (demo_call n)" "cpu_quiet (demo_call n)" "cur (demo_call n) = Some 0"
    using quiet_same [OF m] demo_kernel_quiet m by (simp_all add: cur_def same_machine_def)
  have "panicked (demo_call n) = panicked demo_kernel" "uart_lcr (demo_call n) = uart_lcr demo_kernel"
    by (simp_all add: demo_call_def with_tf_def)
  then show "uart_ready (demo_call n)" using demo_uart_ready c by (simp add: uart_ready_def)
  show "tf_word (demo_call n) 0 TF_A7 = n" "syscall_count (procs (demo_call n) 0) = 4" "pname (procs (demo_call n) 0) = [115, 104, 0]"
    by (simp_all add: demo_call_def)
  show "sent (demo_call n) = []" by (simp add: demo_call_def with_tf_def) (simp add: demo_kernel_def)
qed


theorem unknown_call_not_counted_witness:
  "\<exists>s'. syscall (demo_call 99) = Ok () s' \<and> tf_word s' 0 TF_A0 = -1 \<and> sent s' = to_bytes ''sh: unknown sys call 99\<newline>''"
proof -
  have n: "call_num (demo_call 99) 0 = 99" by (simp add: call_num_def demo_call_facts)
  have m: "cname [115, 104, 0] = ''sh''" by code_simp
  have "show_int 99 = ''99''" by (simp add: show_int_def show_nat.simps digits_def)
  with unknown_call_not_counted [OF demo_call_facts(1,2,4), of 99] n m show ?thesis by (auto simp: demo_call_facts)
qed

theorem hello_greets_witness:
  "\<exists>s'. syscall (demo_call 22) = Ok () s' \<and> tf_word s' 0 TF_A0 = 46201 \<and> sent s' = to_bytes ''Hello from xv6 kernel!\<newline>''"
  using hello_greets [OF demo_call_facts(1,2,4), of 22] by (auto simp: call_num_def demo_call_facts)

end
