(* ===== verification/User_Grep.thy ===== *)
theory User_Grep
  imports Xv6_Prelude
begin

text \<open>
  \<open>user/grep.c\<close>: the matcher for patterns with the operators \<open>^ . * $\<close>, and the loop that reads a
  file in pieces and prints the matching lines.  Strings are byte lists without the final NUL, so
  that \<open>*text != 0\<close> is \<open>text \<noteq> []\<close>.  \<open>read\<close> returns as many bytes as the kernel has at that moment:
  the input is the rest of the file together with a list of the most bytes each call returns.

  The reference is the usual reading of a pattern: a sequence of pieces, each a character or any
  character, once or any number of times, with anchors at its ends.
\<close>

section \<open>The matcher\<close>

definition star :: byte where "star = 42"
definition dot :: byte where "dot = 46"
definition dollar :: byte where "dollar = 36"
definition caret :: byte where "caret = 94"
definition newline :: byte where "newline = 10"

function (sequential) matchhere :: "byte list \<Rightarrow> byte list \<Rightarrow> bool"
  and matchstar :: "byte \<Rightarrow> byte list \<Rightarrow> byte list \<Rightarrow> bool" where
  "matchhere [] text = True"
| "matchhere (c # r) text =
     (if r \<noteq> [] \<and> hd r = star then matchstar c (tl r) text
      else if c = dollar \<and> r = [] then text = []
      else case text of
        [] \<Rightarrow> False
      | x # t \<Rightarrow> if c = dot \<or> c = x then matchhere r t else False)"
| "matchstar c re text =
     (if matchhere re text then True
      else case text of
        [] \<Rightarrow> False
      | x # t \<Rightarrow> if x = c \<or> c = dot then matchstar c re t else False)"
  by pat_completeness auto
termination
  by (relation "inv_image (less_than <*lex*> less_than <*lex*> less_than)
      (\<lambda>a. case a of Inl (re, t) \<Rightarrow> (length re, length t, 0) | Inr (c, re, t) \<Rightarrow> (length re, length t, 1 :: nat))")
    auto

fun match_from :: "byte list \<Rightarrow> byte list \<Rightarrow> bool" where
  "match_from re [] = matchhere re []"
| "match_from re (x # t) = (if matchhere re (x # t) then True else match_from re t)"

definition match :: "byte list \<Rightarrow> byte list \<Rightarrow> bool" where
  "match re text = (if re \<noteq> [] \<and> hd re = caret then matchhere (tl re) text else match_from re text)"

section \<open>Reading\<close>

text \<open>\<open>strchr(p, '\n')\<close> in a buffer that ends with a NUL: the bytes before the newline.\<close>

definition find_newline :: "byte list \<Rightarrow> byte list option" where
  "find_newline p =
     (let l = takeWhile (\<lambda>c. c \<noteq> 0 \<and> c \<noteq> newline) p in
      if length l < length p \<and> p ! length l = newline then Some l else None)"

lemma find_newline_less: "find_newline p = Some l \<Longrightarrow> length l < length p"
  by (auto simp: find_newline_def Let_def split: if_splits)

text \<open>The inner loop: the bytes written, and what is left in the buffer.\<close>

function grep_scan :: "byte list \<Rightarrow> byte list \<Rightarrow> byte list \<times> byte list" where
  "grep_scan pattern p =
     (case find_newline p of
        None \<Rightarrow> ([], p)
      | Some l \<Rightarrow>
          let (out, rest) = grep_scan pattern (drop (Suc (length l)) p) in
          ((if match pattern l then l @ [newline] else []) @ out, rest))"
  by pat_completeness auto
termination by (relation "measure (\<lambda>(_, p). length p)") (auto dest: find_newline_less)

declare grep_scan.simps [simp del]

text \<open>
  \<open>read(fd, _, n)\<close>: the bytes returned, or \<open>None\<close> for -1, the rest of the file and the rest of the
  limits; a negative limit makes the call fail.
\<close>

definition read_some :: "nat \<Rightarrow> byte list \<times> int list \<Rightarrow> byte list option \<times> byte list \<times> int list" where
  "read_some n = (\<lambda>(inp, caps).
     case caps of
       [] \<Rightarrow> (Some (take n inp), drop n inp, [])
     | c # cs \<Rightarrow>
         if c < 0 then (None, inp, cs)
         else let k = min n (nat c) in (Some (take k inp), drop k inp, cs))"

definition GREP_BUF :: nat where "GREP_BUF = 1024"

lemma read_some_less: "read_some n (inp, caps) = (Some bs, inp', caps') \<Longrightarrow> bs \<noteq> [] \<Longrightarrow> length inp' < length inp"
  by (cases caps) (auto simp: read_some_def Let_def split: if_splits)

lemma read_some_ok:
  assumes "\<forall>c \<in> set caps. 0 < c" "0 < n"
  obtains bs inp' caps' where "read_some n (inp, caps) = (Some bs, inp', caps')" "inp = bs @ inp'" "\<forall>c \<in> set caps'. 0 < c"
    "bs = [] \<Longrightarrow> inp = []"
proof (cases caps)
  case Nil
  then show ?thesis using that [of "take n inp" "drop n inp" "[]"] assms(2) by (auto simp: read_some_def)
next
  case (Cons c cs)
  let ?k = "min n (nat c)"
  have "0 < c" using Cons assms(1) by simp
  then have "0 < ?k" using assms(2) by simp
  then show ?thesis
    using that [of "take ?k inp" "drop ?k inp" cs] Cons assms(1) \<open>0 < c\<close>
    by (auto simp: read_some_def Let_def simp del: min_less_iff_conj)
qed

text \<open>The outer loop with \<open>m = length carry\<close> bytes kept from before; the result is what is written to fd 1.\<close>

function grep_loop :: "byte list \<Rightarrow> byte list \<Rightarrow> byte list \<times> int list \<Rightarrow> byte list" where
  "grep_loop pattern carry (inp, caps) =
     (case read_some (GREP_BUF - length carry - 1) (inp, caps) of
        (None, _) \<Rightarrow> []
      | (Some bs, inp', caps') \<Rightarrow>
          if bs = [] then []
          else let (out, rest) = grep_scan pattern (carry @ bs) in
            out @ grep_loop pattern rest (inp', caps'))"
  by pat_completeness auto
termination
  by (relation "measure (\<lambda>(_, _, inp, _). length inp)") (auto dest!: read_some_less [OF sym])

declare grep_loop.simps [simp del]

definition grep :: "byte list \<Rightarrow> byte list \<times> int list \<Rightarrow> byte list" where
  "grep pattern fd = grep_loop pattern [] fd"

text \<open>
  \<open>main\<close>: the arguments after the program name, the files that \<open>open\<close> finds, and the standard input.
  The result is what is written to fd 1 and to fd 2, and the exit status.
\<close>

definition bytes :: "string \<Rightarrow> byte list" where
  "bytes cs = map of_char cs"

fun grep_files :: "byte list \<Rightarrow> byte list list \<Rightarrow> (byte list \<Rightarrow> (byte list \<times> int list) option) \<Rightarrow> byte list \<times> nat" where
  "grep_files pattern [] fs = ([], 0)"
| "grep_files pattern (f # rest) fs =
     (case fs f of
        None \<Rightarrow> (bytes ''grep: cannot open '' @ f @ [newline], 1)
      | Some fd \<Rightarrow> let (out, st) = grep_files pattern rest fs in (grep pattern fd @ out, st))"

definition grep_main :: "byte list list \<Rightarrow> (byte list \<Rightarrow> (byte list \<times> int list) option) \<Rightarrow> byte list \<times> int list \<Rightarrow>
    byte list \<times> byte list \<times> nat" where
  "grep_main args fs stdin =
     (case args of
        [] \<Rightarrow> ([], bytes ''usage: grep pattern [file ...]\<newline>'', 1)
      | pattern # files \<Rightarrow>
          if files = [] then (grep pattern stdin, [], 0)
          else let (out, st) = grep_files pattern files fs in (out, [], st))"

section \<open>The meaning of a pattern\<close>

text \<open>A piece is a character (or a dot) and whether it is starred; the flag is the anchor at the end.\<close>

fun pieces :: "byte list \<Rightarrow> (byte \<times> bool) list \<times> bool" where
  "pieces [] = ([], False)"
| "pieces [c] = (if c = dollar then ([], True) else ([(c, False)], False))"
| "pieces (c # d # r) =
     (if d = star then apfst (Cons (c, True)) (pieces r) else apfst (Cons (c, False)) (pieces (d # r)))"

definition accepts :: "byte \<Rightarrow> byte \<Rightarrow> bool" where
  "accepts c x \<longleftrightarrow> c = dot \<or> c = x"

fun lang :: "(byte \<times> bool) list \<Rightarrow> byte list set" where
  "lang [] = {[]}"
| "lang ((c, False) # ps) = {x # u | x u. accepts c x \<and> u \<in> lang ps}"
| "lang ((c, True) # ps) = {v @ u | v u. (\<forall>x \<in> set v. accepts c x) \<and> u \<in> lang ps}"

definition matches_prefix :: "byte list \<Rightarrow> byte list \<Rightarrow> bool" where
  "matches_prefix re text \<longleftrightarrow>
     (\<exists>u w. text = u @ w \<and> u \<in> lang (fst (pieces re)) \<and> (snd (pieces re) \<longrightarrow> w = []))"


lemma matches_prefix_Nil [simp]: "matches_prefix [] tx"
  by (auto simp: matches_prefix_def)

lemma matches_prefix_dollar: "matches_prefix [dollar] tx \<longleftrightarrow> tx = []"
  by (auto simp: matches_prefix_def)

lemma matches_prefix_star:
  "matches_prefix (c # star # r) tx \<longleftrightarrow> (\<exists>v t. tx = v @ t \<and> (\<forall>x \<in> set v. accepts c x) \<and> matches_prefix r t)"
proof
  assume "matches_prefix (c # star # r) tx"
  then obtain u' w where p: "tx = u' @ w" "u' \<in> lang (fst (pieces (c # star # r)))" "snd (pieces (c # star # r)) \<longrightarrow> w = []"
    unfolding matches_prefix_def by blast
  then obtain v u where "u' = v @ u" "\<forall>x \<in> set v. accepts c x" "u \<in> lang (fst (pieces r))" by auto
  with p have "tx = (v @ u) @ w" "\<forall>x \<in> set v. accepts c x" "u \<in> lang (fst (pieces r))" "snd (pieces r) \<longrightarrow> w = []"
    by simp_all
  then have "tx = v @ (u @ w)" "matches_prefix r (u @ w)" "\<forall>x \<in> set v. accepts c x"
    by (auto simp: matches_prefix_def)
  then show "\<exists>v t. tx = v @ t \<and> (\<forall>x \<in> set v. accepts c x) \<and> matches_prefix r t" by blast
next
  assume "\<exists>v t. tx = v @ t \<and> (\<forall>x \<in> set v. accepts c x) \<and> matches_prefix r t"
  then obtain v u w where "tx = v @ u @ w" "\<forall>x \<in> set v. accepts c x" "u \<in> lang (fst (pieces r))" "snd (pieces r) \<longrightarrow> w = []"
    unfolding matches_prefix_def by blast
  then show "matches_prefix (c # star # r) tx"
    unfolding matches_prefix_def by (intro exI [of _ "v @ u"] exI [of _ w]) auto
qed

lemma pieces_plain: "\<not> (r \<noteq> [] \<and> hd r = star) \<Longrightarrow> \<not> (c = dollar \<and> r = []) \<Longrightarrow> pieces (c # r) = apfst (Cons (c, False)) (pieces r)"
  by (cases r) auto

lemma matches_prefix_plain:
  assumes "\<not> (r \<noteq> [] \<and> hd r = star)" "\<not> (c = dollar \<and> r = [])"
  shows "matches_prefix (c # r) tx \<longleftrightarrow> (\<exists>x t. tx = x # t \<and> accepts c x \<and> matches_prefix r t)"
  proof
  assume "matches_prefix (c # r) tx"
  then obtain u' w where p: "tx = u' @ w" "u' \<in> lang (fst (pieces (c # r)))" "snd (pieces (c # r)) \<longrightarrow> w = []"
    unfolding matches_prefix_def by blast
  then obtain x u where "u' = x # u" "accepts c x" "u \<in> lang (fst (pieces r))" by (auto simp: pieces_plain [OF assms])
  with p have "tx = (x # u) @ w" "accepts c x" "u \<in> lang (fst (pieces r))" "snd (pieces r) \<longrightarrow> w = []"
    by (simp_all add: pieces_plain [OF assms])
  then show "\<exists>x t. tx = x # t \<and> accepts c x \<and> matches_prefix r t"
    unfolding matches_prefix_def by auto
next
  assume "\<exists>x t. tx = x # t \<and> accepts c x \<and> matches_prefix r t"
  then obtain x u w where "tx = x # u @ w" "accepts c x" "u \<in> lang (fst (pieces r))" "snd (pieces r) \<longrightarrow> w = []"
    unfolding matches_prefix_def by blast
  then show "matches_prefix (c # r) tx"
    unfolding matches_prefix_def by (intro exI [of _ "x # u"] exI [of _ w]) (auto simp: pieces_plain [OF assms])
qed

lemma some_prefix_Cons:
  "(\<exists>v t. x # xs = v @ t \<and> (\<forall>y \<in> set v. accepts c y) \<and> P t) \<longleftrightarrow>
   P (x # xs) \<or> accepts c x \<and> (\<exists>v t. xs = v @ t \<and> (\<forall>y \<in> set v. accepts c y) \<and> P t)"
proof
  assume "\<exists>v t. x # xs = v @ t \<and> (\<forall>y \<in> set v. accepts c y) \<and> P t"
  then obtain v t where "x # xs = v @ t" "\<forall>y \<in> set v. accepts c y" "P t" by blast
  then show "P (x # xs) \<or> accepts c x \<and> (\<exists>v t. xs = v @ t \<and> (\<forall>y \<in> set v. accepts c y) \<and> P t)"
    by (cases v) auto
next
  assume "P (x # xs) \<or> accepts c x \<and> (\<exists>v t. xs = v @ t \<and> (\<forall>y \<in> set v. accepts c y) \<and> P t)"
  then show "\<exists>v t. x # xs = v @ t \<and> (\<forall>y \<in> set v. accepts c y) \<and> P t"
  proof (elim disjE conjE exE)
    assume "P (x # xs)" then show ?thesis by (intro exI [of _ "[]"] exI [of _ "x # xs"]) simp
  next
    fix v t assume "accepts c x" "xs = v @ t" "\<forall>y \<in> set v. accepts c y" "P t"
    then show ?thesis by (intro exI [of _ "x # v"] exI [of _ t]) simp
  qed
qed

lemma matchstar_Cons: "matchstar c re (x # t) \<longleftrightarrow> matchhere re (x # t) \<or> accepts c x \<and> matchstar c re t"
  by (subst matchstar.simps) (auto simp: accepts_def simp del: matchhere.simps matchstar.simps)

lemma matchstar_Nil: "matchstar c re [] \<longleftrightarrow> matchhere re []"
  by (subst matchstar.simps) (simp del: matchhere.simps matchstar.simps)

lemma matchhere_correct:
  "matchhere re tx \<longleftrightarrow> matches_prefix re tx"
  "matchstar c re' tx' \<longleftrightarrow> (\<exists>v t. tx' = v @ t \<and> (\<forall>x \<in> set v. accepts c x) \<and> matches_prefix re' t)"
proof (induction re tx and c re' tx' rule: matchhere_matchstar.induct)
  case (1 tx)
  then show ?case by simp
next
  case (2 c r tx)
  show ?case
  proof (cases "r \<noteq> [] \<and> hd r = star")
    case True
    then obtain r' where r: "r = star # r'" by (cases r) auto
    then show ?thesis using 2(1) [OF True] by (simp add: matches_prefix_star)
  next
    case False
    note ns = this
    show ?thesis
    proof (cases "c = dollar \<and> r = []")
      case True
      then show ?thesis by (simp add: matches_prefix_dollar)
    next
      case False
      show ?thesis
      proof (cases tx)
        case Nil
        then show ?thesis using ns False by (simp add: matches_prefix_plain [OF ns False])
      next
        case (Cons x t)
        then show ?thesis
          using ns False 2(2) [OF ns False Cons] by (auto simp: matches_prefix_plain [OF ns False] accepts_def)
      qed
    qed
  qed
next
  case (3 c re tx)
  show ?case
  proof (cases tx)
    case Nil
    then show ?thesis using 3(1) by (simp add: matchstar_Nil del: matchhere.simps matchstar.simps)
  next
    case (Cons x t)
    have ih: "accepts c x \<Longrightarrow> \<not> matchhere re tx \<Longrightarrow>
        matchstar c re t \<longleftrightarrow> (\<exists>v u. t = v @ u \<and> (\<forall>x \<in> set v. accepts c x) \<and> matches_prefix re u)"
      using 3(2) [OF _ Cons] unfolding accepts_def by blast
    have "(\<exists>v u. tx = v @ u \<and> (\<forall>x \<in> set v. accepts c x) \<and> matches_prefix re u) \<longleftrightarrow>
        matches_prefix re tx \<or> accepts c x \<and> (\<exists>v u. t = v @ u \<and> (\<forall>x \<in> set v. accepts c x) \<and> matches_prefix re u)"
      unfolding Cons by (rule some_prefix_Cons)
    moreover have "matchstar c re tx \<longleftrightarrow> matches_prefix re tx \<or> accepts c x \<and> matchstar c re t"
      using matchstar_Cons [of c re x t] 3(1) unfolding Cons by simp
    ultimately show ?thesis using ih 3(1) by blast
  qed
qed

lemma match_from_iff: "match_from re tx \<longleftrightarrow> (\<exists>p t. tx = p @ t \<and> matchhere re t)"
proof (induction re tx rule: match_from.induct)
  case (1 re)
  then show ?case by auto
next
  case (2 re x t)
  show ?case
  proof (cases "matchhere re (x # t)")
    case True
    then show ?thesis by (auto intro: exI [of _ "[]"])
  next
    case False
    with 2 have "match_from re (x # t) \<longleftrightarrow> (\<exists>p u. t = p @ u \<and> matchhere re u)" by simp
    moreover have "(\<exists>p u. x # t = p @ u \<and> matchhere re u) \<longleftrightarrow> (\<exists>p u. t = p @ u \<and> matchhere re u)"
      using False by (metis append_Cons append_eq_Cons_conv)
    ultimately show ?thesis by simp
  qed
qed


section \<open>Lines\<close>

text \<open>The pieces between newlines; the last one is not a complete line.\<close>

fun split_lines :: "byte list \<Rightarrow> byte list list" where
  "split_lines [] = [[]]"
| "split_lines (c # cs) = (if c = newline then [] # split_lines cs
     else (c # hd (split_lines cs)) # tl (split_lines cs))"

lemma split_lines_ne [simp]: "split_lines xs \<noteq> []"
  by (cases xs) simp_all

lemma split_lines_plain: "newline \<notin> set xs \<Longrightarrow> split_lines xs = [xs]"
  by (induction xs) auto

lemma split_lines_line: "newline \<notin> set l \<Longrightarrow> split_lines (l @ newline # r) = l # split_lines r"
  by (induction l) auto

lemma split_lines_append: "split_lines (xs @ ys) = butlast (split_lines xs) @ split_lines (last (split_lines xs) @ ys)"
proof (induction xs)
  case (Cons c xs)
  show ?case
  proof (cases "c = newline")
    case True
    then show ?thesis using Cons by simp
  next
    case False
    obtain e es where es: "split_lines xs = e # es" by (cases "split_lines xs") simp_all
    show ?thesis
    proof (cases "es = []")
      case True
      then show ?thesis using Cons False es by simp
    next
      case es': False
      then show ?thesis using Cons False es by simp
    qed
  qed
qed simp

lemma last_split_plain: "newline \<notin> set (last (split_lines xs))"
proof (induction xs)
  case (Cons c xs)
  then show ?case by (cases "split_lines xs") auto
qed simp

lemma last_split_set: "set (last (split_lines xs)) \<subseteq> set xs"
proof (induction xs)
  case (Cons c xs)
  obtain e es where "split_lines xs = e # es" by (cases "split_lines xs") simp_all
  then show ?case using Cons by auto
qed simp

definition grep_line :: "byte list \<Rightarrow> byte list \<Rightarrow> byte list" where
  "grep_line pattern l = (if match pattern l then l @ [newline] else [])"

lemma find_newline_None:
  assumes "0 \<notin> set p" "find_newline p = None"
  shows "newline \<notin> set p"
proof
  assume "newline \<in> set p"
  let ?l = "takeWhile (\<lambda>c. c \<noteq> 0 \<and> c \<noteq> newline) p"
  have "\<exists>x \<in> set p. \<not> (x \<noteq> 0 \<and> x \<noteq> newline)" using \<open>newline \<in> set p\<close> by blast
  then have len: "length ?l < length p" by (induction p) auto
  then have "\<not> (p ! length ?l \<noteq> 0 \<and> p ! length ?l \<noteq> newline)" by (rule nth_length_takeWhile)
  moreover have "p ! length ?l \<noteq> 0" using assms(1) len nth_mem by metis
  ultimately show False using assms(2) len by (simp add: find_newline_def Let_def)
qed

lemma find_newline_Some:
  assumes "find_newline p = Some l"
  shows "p = l @ newline # drop (Suc (length l)) p" "newline \<notin> set l"
proof -
  have l: "l = takeWhile (\<lambda>c. c \<noteq> 0 \<and> c \<noteq> newline) p" "length l < length p" "p ! length l = newline"
    using assms by (auto simp: find_newline_def Let_def split: if_splits)
  then have "take (length l) p = l" by (metis takeWhile_eq_take)
  then show "p = l @ newline # drop (Suc (length l)) p" using id_take_nth_drop [OF l(2)] l(3) by simp
  show "newline \<notin> set l" using l(1) by (auto dest: set_takeWhileD)
qed

lemma grep_scan_lines:
  "0 \<notin> set p \<Longrightarrow> grep_scan pattern p =
     (concat (map (grep_line pattern) (butlast (split_lines p))), last (split_lines p))"
proof (induction pattern p rule: grep_scan.induct)
  case (1 pattern p)
  show ?case
  proof (cases "find_newline p")
    case None
    then have "split_lines p = [p]" using find_newline_None [OF "1.prems"] by (simp add: split_lines_plain)
    then show ?thesis using None by (simp add: grep_scan.simps [of pattern p])
  next
    case (Some l)
    let ?r = "drop (Suc (length l)) p"
    note p = find_newline_Some [OF Some]
    have "0 \<notin> set ?r" using "1.prems" by (meson in_set_dropD)
    with 1 Some have ih: "grep_scan pattern ?r = (concat (map (grep_line pattern) (butlast (split_lines ?r))), last (split_lines ?r))"
      by blast
    have "split_lines p = l # split_lines ?r" using p split_lines_line [OF p(2), of ?r] by simp
    then show ?thesis using Some ih by (simp add: grep_scan.simps [of pattern p] grep_line_def [of pattern l])
  qed
qed

lemma grep_loop_lines:
  assumes "newline \<notin> set carry" "0 \<notin> set (carry @ inp)" "\<forall>c \<in> set caps. 0 < c"
    and "\<forall>l \<in> set (split_lines (carry @ inp)). length l < GREP_BUF - 1"
  shows "grep_loop pattern carry (inp, caps) = concat (map (grep_line pattern) (butlast (split_lines (carry @ inp))))"
  using assms
proof (induction pattern carry "(inp, caps)" arbitrary: inp caps rule: grep_loop.induct)
  case (1 pattern carry inp caps)
  let ?n = "GREP_BUF - length carry - 1"
  have "hd (split_lines (carry @ inp)) \<in> set (split_lines (carry @ inp))" by (rule hd_in_set) simp
  moreover have "length carry \<le> length (hd (split_lines (carry @ inp)))"
    using "1.prems"(1) by (induction carry) auto
  ultimately have room: "0 < ?n" using "1.prems"(4) by fastforce
  obtain bs inp' caps' where rd: "read_some ?n (inp, caps) = (Some bs, inp', caps')" and app: "inp = bs @ inp'"
    "\<forall>c \<in> set caps'. 0 < c" and fin: "bs = [] \<Longrightarrow> inp = []"
    using read_some_ok [OF "1.prems"(3) room, of inp] by blast
  show ?case
  proof (cases "bs = []")
    case True
    then show ?thesis using fin True rd "1.prems"(1) by (simp add: grep_loop.simps split_lines_plain)
  next
    case False
    let ?b = "carry @ bs"
    let ?out = "concat (map (grep_line pattern) (butlast (split_lines ?b)))" and ?rest = "last (split_lines ?b)"
    have sp: "split_lines (carry @ inp) = butlast (split_lines ?b) @ split_lines (?rest @ inp')"
      using split_lines_append [of ?b inp'] app(1) by simp
    have z: "0 \<notin> set ?b" using "1.prems"(2) app(1) by simp
    have sc: "grep_scan pattern ?b = (?out, ?rest)" by (rule grep_scan_lines [OF z])
    have rz: "0 \<notin> set ?rest" using z last_split_set by blast
    have "grep_loop pattern ?rest (inp', caps') = concat (map (grep_line pattern) (butlast (split_lines (?rest @ inp'))))"
    proof (rule 1(1) [OF rd [symmetric] refl refl False sc [symmetric] refl])
      show "newline \<notin> set ?rest" by (rule last_split_plain)
      show "0 \<notin> set (?rest @ inp')" using rz "1.prems"(2) app(1) by simp
      show "\<forall>c \<in> set caps'. 0 < c" by (rule app(2))
      show "\<forall>l \<in> set (split_lines (?rest @ inp')). length l < GREP_BUF - 1" using "1.prems"(4) sp by simp
    qed
    then show ?thesis using False rd sc sp by (subst grep_loop.simps) (simp add: butlast_append)
  qed
qed


section \<open>Properties\<close>

text \<open>
  C23: The matcher implements the meaning of patterns: \<open>match\<close> accepts a text exactly when some part of
  it, starting at the beginning if the pattern begins with \<open>^\<close> and ending at the end if it ends with
  an unstarred \<open>$\<close>, is a concatenation of the pieces of the pattern.  The recursion of \<open>matchhere\<close>
  and \<open>matchstar\<close> ends on every input.
\<close>

theorem match_iff_meaning:
  "match re t \<longleftrightarrow>
     (let anchored = re \<noteq> [] \<and> hd re = caret; (ps, at_end) = pieces (if anchored then tl re else re) in
      \<exists>p u w. t = p @ u @ w \<and> u \<in> lang ps \<and> (anchored \<longrightarrow> p = []) \<and> (at_end \<longrightarrow> w = []))"
proof (cases "re \<noteq> [] \<and> hd re = caret")
  case True
  then show ?thesis
    by (simp add: match_def matchhere_correct matches_prefix_def split_beta)
next
  case False
  then have "match re t \<longleftrightarrow> (\<exists>p t'. t = p @ t' \<and> matches_prefix re t')"
    unfolding match_def if_not_P [OF False] by (simp add: match_from_iff matchhere_correct)
  also have "\<dots> \<longleftrightarrow> (\<exists>p u w. t = p @ u @ w \<and> u \<in> lang (fst (pieces re)) \<and> (snd (pieces re) \<longrightarrow> w = []))"
    unfolding matches_prefix_def by blast
  finally show ?thesis unfolding if_not_P [OF False] Let_def split_beta using False by blast
qed

text \<open>
  C24: \<open>grep\<close> prints exactly the matching complete lines, whatever pieces \<open>read\<close> delivers the file in.
  For a file without NUL bytes whose lines are all shorter than 1023 bytes the output is the
  concatenation of the matching lines with their newlines, in order; a last line without a newline
  is not looked at.
\<close>

theorem grep_prints_matching_lines:
  assumes "0 \<notin> set inp" "\<forall>c \<in> set caps. 0 < c" "\<forall>l \<in> set (split_lines inp). length l < GREP_BUF - 1"
  shows "grep pattern (inp, caps) =
    concat (map (\<lambda>l. l @ [newline]) (filter (match pattern) (butlast (split_lines inp))))"
proof -
  have "concat (map (grep_line pattern) ls) = concat (map (\<lambda>l. l @ [newline]) (filter (match pattern) ls))" for ls
    by (induction ls) (auto simp: grep_line_def)
  then show ?thesis using grep_loop_lines [of "[]" inp caps pattern] assms by (simp add: grep_def)
qed

theorem match_iff_meaning_witness:
  "match [97, star, 98] [120, 97, 97, 98, 99]"
proof -
  have "\<exists>v u. [97, 97, 98] = v @ u \<and> (\<forall>x \<in> set v. accepts 97 x) \<and> u \<in> lang [(98, False)]"
    by (intro exI [of _ "[97, 97]"] exI [of _ "[98]"]) (simp add: accepts_def)
  then have "[97, 97, 98] \<in> lang [(97, True), (98, False)]" unfolding lang.simps(3) by blast
  then have "\<exists>p u w. [120, 97, 97, 98, 99] = p @ u @ w \<and> u \<in> lang [(97, True), (98, False)] \<and> (False \<longrightarrow> p = []) \<and> (False \<longrightarrow> w = [])"
    by (intro exI [of _ "[120]"] exI [of _ "[97, 97, 98]"] exI [of _ "[99]"]) (simp del: lang.simps)
  then show ?thesis
    using match_iff_meaning [of "[97, star, 98]"] by (simp add: star_def caret_def dollar_def del: lang.simps)
qed

theorem grep_prints_matching_lines_witness:
  "grep [98, dollar] ([97, 98, 10, 99, 10, 98, 10, 98], [1, 2, 3, 1, 1, 1]) = [97, 98, 10, 98, 10]"
proof -
  let ?i = "[97, 98, 10, 99, 10, 98, 10, 98]"
  have "split_lines ?i = [[97, 98], [99], [98], [98]]" by (simp add: newline_def)
  moreover have "filter (match [98, dollar]) [[97, 98], [99], [98]] = [[97, 98], [98]]"
    by (simp add: match_def dollar_def caret_def star_def dot_def)
  ultimately show ?thesis
    using grep_prints_matching_lines [of ?i "[1, 2, 3, 1, 1, 1]" "[98, dollar]"]
    by (simp add: GREP_BUF_def newline_def)
qed

end
