(* ===== verification/User_Wc.thy ===== *)
theory User_Wc
  imports User_Grep Xv6_Output
begin

text \<open>
  \<open>user/wc.c\<close>: lines, words and characters of a file, read in pieces of at most 512 bytes.  The
  counters are C integers of 32 bits.
\<close>

record wc_counts =
  wl :: uint
  ww :: uint
  wchars :: uint
  inword :: bool

definition wc_init :: wc_counts where
  "wc_init = \<lparr>wl = 0, ww = 0, wchars = 0, inword = False\<rparr>"

text \<open>\<open>strchr(" \r\t\n\v", c)\<close>.\<close>

definition is_space :: "byte \<Rightarrow> bool" where
  "is_space c \<longleftrightarrow> c \<in> {32, 13, 9, 10, 11}"

text \<open>The body of the inner loop for one character.\<close>

definition wc_char :: "byte \<Rightarrow> wc_counts \<Rightarrow> wc_counts" where
  "wc_char b s =
     (let s = s\<lparr>wchars := wchars s + 1\<rparr>;
          s = (if b = newline then s\<lparr>wl := wl s + 1\<rparr> else s) in
      if is_space b then s\<lparr>inword := False\<rparr>
      else if \<not> inword s then s\<lparr>ww := ww s + 1, inword := True\<rparr>
      else s)"

definition WC_BUF :: nat where "WC_BUF = 512"

text \<open>The outer loop: \<open>read\<close> until it returns no bytes; the flag tells that it did not fail.\<close>

function wc_loop :: "wc_counts \<Rightarrow> byte list \<times> int list \<Rightarrow> wc_counts \<times> bool" where
  "wc_loop s (inp, caps) =
     (case read_some WC_BUF (inp, caps) of
        (None, _) \<Rightarrow> (s, False)
      | (Some bs, inp', caps') \<Rightarrow>
          if bs = [] then (s, True) else wc_loop (fold wc_char bs s) (inp', caps'))"
  by pat_completeness auto
termination
  by (relation "measure (\<lambda>(_, inp, _). length inp)") (auto dest!: read_some_less [OF sym])

declare wc_loop.simps [simp del]

text \<open>The line \<open>wc\<close> prints, or \<open>None\<close> after a read error.\<close>

definition decimal :: "uint \<Rightarrow> byte list" where
  "decimal w = bytes (show_int (sint w))"

definition wc_line :: "uint \<times> uint \<times> uint \<Rightarrow> byte list \<Rightarrow> byte list" where
  "wc_line = (\<lambda>(l, w, c) name. decimal l @ [32] @ decimal w @ [32] @ decimal c @ [32] @ name @ [newline])"

definition wc :: "byte list \<times> int list \<Rightarrow> byte list \<Rightarrow> byte list option" where
  "wc fd name =
     (let (s, ok) = wc_loop wc_init fd in
      if ok then Some (wc_line (wl s, ww s, wchars s) name) else None)"

text \<open>\<open>main\<close>: what is written to fd 1 and the exit status.\<close>

fun wc_files :: "byte list list \<Rightarrow> (byte list \<Rightarrow> (byte list \<times> int list) option) \<Rightarrow> byte list \<times> nat" where
  "wc_files [] fs = ([], 0)"
| "wc_files (f # rest) fs =
     (case fs f of
        None \<Rightarrow> (bytes ''wc: cannot open '' @ f @ [newline], 1)
      | Some fd \<Rightarrow>
          (case wc fd f of
             None \<Rightarrow> (bytes ''wc: read error\<newline>'', 1)
           | Some out \<Rightarrow> let (out', st) = wc_files rest fs in (out @ out', st)))"

definition wc_main :: "byte list list \<Rightarrow> (byte list \<Rightarrow> (byte list \<times> int list) option) \<Rightarrow> byte list \<times> int list \<Rightarrow> byte list \<times> nat" where
  "wc_main args fs stdin =
     (if args = [] then
        (case wc stdin [] of
           None \<Rightarrow> (bytes ''wc: read error\<newline>'', 1)
         | Some out \<Rightarrow> (out, 0))
      else wc_files args fs)"

section \<open>Counting\<close>

text \<open>The number of words: the maximal runs of characters that are not white space.\<close>

fun count_words :: "bool \<Rightarrow> byte list \<Rightarrow> nat" where
  "count_words after [] = 0"
| "count_words after (b # bs) =
     (if is_space b then count_words False bs
      else (if after then 0 else 1) + count_words True bs)"

lemma wc_char_fields:
  "wl (wc_char b s) = wl s + (if b = newline then 1 else 0)" "wchars (wc_char b s) = wchars s + 1"
  "ww (wc_char b s) = ww s + (if is_space b \<or> inword s then 0 else 1)" "inword (wc_char b s) = (\<not> is_space b)"
  by (auto simp: wc_char_def Let_def)

lemma fold_wc_char:
  "fold wc_char bs s = \<lparr>wl = wl s + of_nat (count_list bs newline), ww = ww s + of_nat (count_words (inword s) bs),
     wchars = wchars s + of_nat (length bs), inword = (if bs = [] then inword s else \<not> is_space (last bs))\<rparr>"
proof (induction bs arbitrary: s)
  case (Cons b bs)
  have "fold wc_char (b # bs) s = fold wc_char bs (wc_char b s)" by simp
  then show ?case unfolding Cons by (auto simp: wc_char_fields)
qed simp

lemma wc_loop_all:
  "\<forall>c \<in> set caps. 0 < c \<Longrightarrow> wc_loop s (inp, caps) = (fold wc_char inp s, True)"
proof (induction s "(inp, caps)" arbitrary: inp caps rule: wc_loop.induct)
  case (1 s inp caps)
  obtain bs inp' caps' where rd: "read_some WC_BUF (inp, caps) = (Some bs, inp', caps')" and app: "inp = bs @ inp'"
    "\<forall>c \<in> set caps'. 0 < c" and fin: "bs = [] \<Longrightarrow> inp = []"
    using read_some_ok [OF "1.prems", of WC_BUF inp] by (auto simp: WC_BUF_def)
  show ?case
  proof (cases "bs = []")
    case True
    then show ?thesis using fin rd by (simp add: wc_loop.simps)
  next
    case False
    have "wc_loop (fold wc_char bs s) (inp', caps') = (fold wc_char inp' (fold wc_char bs s), True)"
      by (rule 1(1) [OF rd [symmetric] refl refl False app(2)])
    then show ?thesis using False rd app(1) by (subst wc_loop.simps) simp
  qed
qed

section \<open>Properties\<close>

text \<open>
  \<open>wc\<close> prints the number of newlines, words and bytes of the whole file, whatever pieces \<open>read\<close>
  delivers it in: a word that is split between two reads is counted once.  The counts are modulo
  \<open>2 ^ 32\<close>.
\<close>

theorem wc_counts_file:
  assumes "\<forall>c \<in> set caps. 0 < c"
  shows "wc (inp, caps) name =
    Some (wc_line (of_nat (count_list inp newline), of_nat (count_words False inp), of_nat (length inp)) name)"
  by (simp add: wc_def wc_loop_all [OF assms] fold_wc_char wc_init_def)

theorem wc_counts_file_witness: "wc ([97, 98, 32, 99, 100, 10], [1, 1, 1, 1, 2]) [120] = Some (wc_line (1, 2, 6) [120])"
  using wc_counts_file [of "[1, 1, 1, 1, 2]" "[97, 98, 32, 99, 100, 10]"] by (simp add: newline_def is_space_def)

end
