(* ===== verification/User_Malloc.thy ===== *)
theory User_Malloc
  imports Xv6_Prelude
begin

text \<open>
  \<open>user/umalloc.c\<close>: the allocator of Kernighan and Ritchie.  A header is 16 bytes, the pointer to the
  next free block and the size of the block in headers; \<open>p + n\<close> on headers is \<open>p + 16 * n\<close> on
  addresses.  The heap is the two fields of the headers by address.  \<open>sbrk\<close> is the system call: the
  kernel grants up to \<open>room\<close> more bytes.

  The loops that follow the circular list are \<open>option\<close>-valued partial functions; that they end is
  proved from the invariant.
\<close>

record uheap =
  hptr :: "uint64 \<Rightarrow> uint64"
  hsize :: "uint64 \<Rightarrow> uint"
  freep :: uint64
  base :: uint64
  brk :: uint64
  room :: nat

definition hadd :: "uint64 \<Rightarrow> uint \<Rightarrow> uint64" where
  "hadd p n = p + 16 * ucast n"

definition set_ptr :: "uint64 \<Rightarrow> uint64 \<Rightarrow> uheap \<Rightarrow> uheap" where
  "set_ptr p v h = h\<lparr>hptr := (hptr h)(p := v)\<rparr>"

definition set_size :: "uint64 \<Rightarrow> uint \<Rightarrow> uheap \<Rightarrow> uheap" where
  "set_size p v h = h\<lparr>hsize := (hsize h)(p := v)\<rparr>"

section \<open>free\<close>

text \<open>The loop that finds the free block before \<open>bp\<close>.\<close>

partial_function (option) free_find :: "uheap \<Rightarrow> uint64 \<Rightarrow> uint64 \<Rightarrow> uint64 option" where
  "free_find h bp p =
     (if bp > p \<and> bp < hptr h p then Some p
      else if p \<ge> hptr h p \<and> (bp > p \<or> bp < hptr h p) then Some p
      else free_find h bp (hptr h p))"

definition free_link :: "uint64 \<Rightarrow> uint64 \<Rightarrow> uheap \<Rightarrow> uheap" where
  "free_link bp p h =
     (let nx = hptr h p;
          h = (if hadd bp (hsize h bp) = nx
               then set_ptr bp (hptr h nx) (set_size bp (hsize h bp + hsize h nx) h)
               else set_ptr bp nx h);
          h = (if hadd p (hsize h p) = bp
               then set_ptr p (hptr h bp) (set_size p (hsize h p + hsize h bp) h)
               else set_ptr p bp h) in
      h\<lparr>freep := p\<rparr>)"

definition ufree :: "uint64 \<Rightarrow> uheap \<Rightarrow> uheap option" where
  "ufree ap h =
     (let bp = ap - 16 in
      case free_find h bp (freep h) of None \<Rightarrow> None | Some p \<Rightarrow> Some (free_link bp p h))"

section \<open>malloc\<close>

text \<open>\<open>sbrk\<close> takes an \<open>int\<close>; the result is the old break, or -1.\<close>

definition sbrk :: "int \<Rightarrow> uheap \<Rightarrow> uint64 \<times> uheap" where
  "sbrk n h =
     (if n \<le> int (room h)
      then (brk h, h\<lparr>brk := brk h + word_of_int n, room := nat (int (room h) - n)\<rparr>)
      else (-1, h))"

definition morecore :: "uint \<Rightarrow> uheap \<Rightarrow> (uint64 \<times> uheap) option" where
  "morecore nu h =
     (let nu = (if nu < 4096 then 4096 else nu);
          (p, h) = sbrk (sint (ucast (ucast nu * 16 :: uint64) :: uint)) h in
      if p = -1 then Some (0, h)
      else case ufree (hadd p 1) (set_size p nu h) of None \<Rightarrow> None | Some h \<Rightarrow> Some (freep h, h))"

definition take_block :: "uint \<Rightarrow> uint64 \<Rightarrow> uint64 \<Rightarrow> uheap \<Rightarrow> uint64 \<times> uheap" where
  "take_block n prevp p h =
     (if hsize h p = n then (hadd p 1, (set_ptr prevp (hptr h p) h)\<lparr>freep := prevp\<rparr>)
      else
        let h = set_size p (hsize h p - n) h;
            q = hadd p (hsize h p);
            h = set_size q n h in
        (hadd q 1, h\<lparr>freep := prevp\<rparr>))"

partial_function (option) malloc_loop :: "uint \<Rightarrow> uint64 \<Rightarrow> uint64 \<Rightarrow> uheap \<Rightarrow> (uint64 \<times> uheap) option" where
  "malloc_loop n prevp p h =
     (if hsize h p \<ge> n then Some (take_block n prevp p h)
      else if p = freep h then
        Option.bind (morecore n h) (\<lambda>(q, h).
        if q = 0 then Some (0, h) else malloc_loop n q (hptr h q) h)
      else malloc_loop n p (hptr h p) h)"

definition malloc_units :: "uint \<Rightarrow> uint" where
  "malloc_units nbytes = ucast ((ucast nbytes + 16 - 1) div 16 + 1 :: uint64)"

definition malloc_init :: "uheap \<Rightarrow> uheap" where
  "malloc_init h =
     (if freep h = 0 then set_size (base h) 0 ((set_ptr (base h) (base h) h)\<lparr>freep := base h\<rparr>) else h)"

definition malloc :: "uint \<Rightarrow> uheap \<Rightarrow> (uint64 \<times> uheap) option" where
  "malloc nbytes h =
     (let h = malloc_init h in malloc_loop (malloc_units nbytes) (freep h) (hptr h (freep h)) h)"


section \<open>The free list\<close>

definition blk_end :: "uheap \<Rightarrow> uint64 \<Rightarrow> nat" where
  "blk_end h a = unat a + 16 * unat (hsize h a)"

definition before :: "uheap \<Rightarrow> uint64 \<Rightarrow> uint64 \<Rightarrow> bool" where
  "before h a b \<longleftrightarrow> unat a < unat b \<and> blk_end h a \<le> unat b"

definition apart :: "uheap \<Rightarrow> uint64 \<Rightarrow> uint64 \<Rightarrow> bool" where
  "apart h a b \<longleftrightarrow> before h a b \<or> before h b a"

text \<open>The addresses \<open>as\<close> are linked in this order, the last one to \<open>z\<close>.\<close>

fun linked :: "uheap \<Rightarrow> uint64 list \<Rightarrow> uint64 \<Rightarrow> bool" where
  "linked h [] z \<longleftrightarrow> True"
| "linked h [a] z \<longleftrightarrow> hptr h a = z"
| "linked h (a # b # r) z \<longleftrightarrow> hptr h a = b \<and> linked h (b # r) z"

lemma linked_append: "linked h (us @ v # vs) z \<longleftrightarrow> linked h us v \<and> linked h (v # vs) z"
proof (induction us)
  case (Cons a us)
  then show ?case by (cases us) auto
qed simp

lemma linked_cong: "(\<And>a. a \<in> set as \<Longrightarrow> hptr h' a = hptr h a) \<Longrightarrow> linked h' as z = linked h as z"
  by (induction h as z rule: linked.induct) auto

lemma linked_head: "linked h (a # r) z \<Longrightarrow> hptr h a = hd (r @ [z])"
  by (cases r) auto

text \<open>A block of the heap, free or in use.\<close>

definition is_block :: "uheap \<Rightarrow> uint64 \<Rightarrow> bool" where
  "is_block h a \<longleftrightarrow> unat (base h) + 16 \<le> unat a \<and> 0 < unat (hsize h a) \<and> blk_end h a \<le> unat (brk h)"

text \<open>
  The free list: the base followed by the free blocks in the order of their addresses, linked in a
  circle.
\<close>

definition flist :: "uheap \<Rightarrow> uint64 list \<Rightarrow> bool" where
  "flist h as \<longleftrightarrow> linked h (base h # as) (base h) \<and> sorted_wrt (before h) as \<and> (\<forall>a \<in> set as. is_block h a) \<and>
     freep h \<in> insert (base h) (set as) \<and> hsize h (base h) = 0 \<and> 0 < unat (base h) \<and>
     unat (base h) + 16 \<le> unat (brk h) \<and> unat (brk h) + room h < 2 ^ 36"

text \<open>The blocks in use \<open>L\<close> overlap neither each other nor a free block.\<close>

definition alloc_ok :: "uheap \<Rightarrow> uint64 list \<Rightarrow> uint64 list \<Rightarrow> bool" where
  "alloc_ok h as L \<longleftrightarrow> flist h as \<and> sorted_wrt (apart h) L \<and> (\<forall>x \<in> set L. is_block h x \<and> (\<forall>a \<in> set as. apart h x a))"

lemma apart_sym: "apart h a b = apart h b a"
  by (auto simp: apart_def)

lemma base_before: "is_block h a \<Longrightarrow> hsize h (base h) = 0 \<Longrightarrow> before h (base h) a"
  by (simp add: before_def is_block_def blk_end_def)

section \<open>Finding the place\<close>

lemma free_find_up:
  assumes "linked h us nx" "sorted_wrt (before h) us" "us = xs @ p # ys"
    and "\<forall>u \<in> set us. u < bp" and "bp < nx \<or> nx \<le> hd us"
  shows "free_find h bp p = Some (last us)"
  using assms(3)
proof (induction ys arbitrary: xs p)
  case Nil
  have "hptr h p = nx" "p \<in> set us" "last us = p" using assms(1) Nil by (simp_all add: linked_append)
  moreover have "nx \<le> hd us \<Longrightarrow> nx \<le> p"
    using assms(2) Nil by (cases xs) (auto simp: before_def word_le_nat_alt)
  ultimately show ?case using assms(4,5) by (subst free_find.simps) auto
next
  case (Cons y ys)
  have "linked h (xs @ p # y # ys) nx" using assms(1) Cons.prems by simp
  then have "hptr h p = y" by (simp add: linked_append)
  moreover have "p < y" "y < bp" "p < bp"
    using assms(2,4) Cons.prems by (simp_all add: sorted_wrt_append before_def word_less_nat_alt)
  ultimately have "free_find h bp p = free_find h bp y" by (subst free_find.simps) auto
  with Cons.IH [of "xs @ [p]" y] Cons.prems show ?case by simp
qed

lemma free_find_down:
  assumes "linked h vs b" "sorted_wrt (before h) vs" "vs = xs @ p # ys"
    and "\<forall>v \<in> set vs. bp < v" and "b < bp"
  shows "free_find h bp p = free_find h bp b"
  using assms(3)
proof (induction ys arbitrary: xs p)
  case Nil
  have "hptr h p = b" "bp < p" using assms(1,4) Nil by (simp_all add: linked_append)
  then show ?case using assms(5) by (subst free_find.simps) auto
next
  case (Cons y ys)
  have "linked h (xs @ p # y # ys) b" using assms(1) Cons.prems by simp
  then have "hptr h p = y" by (simp add: linked_append)
  moreover have "p < y" "bp < p"
    using assms(2,4) Cons.prems by (simp_all add: sorted_wrt_append before_def word_less_nat_alt)
  ultimately have "free_find h bp p = free_find h bp y" by (subst free_find.simps) auto
  with Cons.IH [of "xs @ [p]" y] Cons.prems show ?case by simp
qed

lemma free_find_spec:
  assumes "linked h (base h # us @ vs) (base h)" "sorted_wrt (before h) (us @ vs)" "\<forall>a \<in> set (us @ vs). is_block h a"
    and "hsize h (base h) = 0" "p \<in> insert (base h) (set (us @ vs))"
    and "\<forall>u \<in> set us. u < bp" "\<forall>v \<in> set vs. bp < v" "base h < bp"
  shows "free_find h bp p = Some (last (base h # us))"
proof -
  let ?us = "base h # us" and ?nx = "hd (vs @ [base h])"
  have l: "linked h ?us ?nx" "linked h vs (base h)"
    using assms(1) linked_append [of h ?us "hd vs" "tl vs" "base h"] by (cases vs; simp)+
  have s: "sorted_wrt (before h) ?us" "sorted_wrt (before h) vs"
    using assms(2,3,4) base_before by (auto simp: sorted_wrt_append)
  have nx: "bp < ?nx \<or> ?nx \<le> hd ?us" using assms(7) by (cases vs) auto
  have lt: "\<forall>u \<in> set ?us. u < bp" using assms(6,8) by simp
  have up: "free_find h bp q = Some (last ?us)" if "q \<in> set ?us" for q
  proof -
    from split_list [OF that] obtain xs ys where "?us = xs @ q # ys" by blast
    from free_find_up [OF l(1) s(1) this lt nx] show ?thesis .
  qed
  show ?thesis
  proof (cases "p \<in> set vs")
    case True
    then obtain xs ys where "vs = xs @ p # ys" using split_list by metis
    from free_find_down [OF l(2) s(2) this assms(7,8)] up [of "base h"] show ?thesis by simp
  next
    case False
    then have "p \<in> set ?us" using assms(5) by auto
    then show ?thesis by (rule up)
  qed
qed


section \<open>Linking the block\<close>

lemma hadd_eq_iff:
  assumes "blk_end h a < 2 ^ 64"
  shows "hadd a (hsize h a) = b \<longleftrightarrow> blk_end h a = unat b"
proof -
  have e: "unat (16 * ucast (hsize h a) :: uint64) = 16 * unat (hsize h a)"
    using assms by (simp add: unat_word_ariths blk_end_def unsigned_ucast_eq take_bit_nat_eq_self)
  have "unat (hadd a (hsize h a)) = blk_end h a"
    using assms e by (simp add: hadd_def blk_end_def unat_word_ariths)
  then show ?thesis by (metis word_unat_eq_iff)
qed

text \<open>
  The two merges of \<open>free\<close>, as one step each: block \<open>a\<close> absorbs its neighbour \<open>b\<close>, or is linked to it.
\<close>

definition join :: "uint64 \<Rightarrow> uint64 \<Rightarrow> uheap \<Rightarrow> uheap" where
  "join a b h =
     (if hadd a (hsize h a) = b
      then set_ptr a (hptr h b) (set_size a (hsize h a + hsize h b) h)
      else set_ptr a b h)"

lemma free_link_join: "free_link bp p h = (join p bp (join bp (hptr h p) h))\<lparr>freep := p\<rparr>"
  by (simp add: free_link_def join_def Let_def)

definition joined :: "uheap \<Rightarrow> uint64 \<Rightarrow> uint64 \<Rightarrow> bool" where
  "joined h a b \<longleftrightarrow> blk_end h a = unat b"

lemma join_fields [simp]:
  "base (join a b h) = base h" "brk (join a b h) = brk h" "room (join a b h) = room h" "freep (join a b h) = freep h"
  "x \<noteq> a \<Longrightarrow> hptr (join a b h) x = hptr h x" "x \<noteq> a \<Longrightarrow> hsize (join a b h) x = hsize h x"
  by (simp_all add: join_def set_ptr_def set_size_def)

lemma blk_end_join_other [simp]: "x \<noteq> a \<Longrightarrow> blk_end (join a b h) x = blk_end h x"
  by (simp add: blk_end_def)

lemma unat_size_add:
  assumes "blk_end h b < 2 ^ 36" "blk_end h a = unat b"
  shows "unat (hsize h a + hsize h b) = unat (hsize h a) + unat (hsize h b)"
  using assms by (simp add: blk_end_def unat_word_ariths)

lemma join_self:
  assumes "blk_end h a < 2 ^ 36" "blk_end h b < 2 ^ 36"
  shows "hptr (join a b h) a = (if joined h a b then hptr h b else b)"
    "blk_end (join a b h) a = (if joined h a b then blk_end h b else blk_end h a)"
    "unat (hsize h a) \<le> unat (hsize (join a b h) a)"
proof -
  have i: "hadd a (hsize h a) = b \<longleftrightarrow> joined h a b" using hadd_eq_iff [of h a b] assms(1) by (simp add: joined_def)
  show "hptr (join a b h) a = (if joined h a b then hptr h b else b)"
    unfolding join_def i by (simp add: set_ptr_def set_size_def)
  show "blk_end (join a b h) a = (if joined h a b then blk_end h b else blk_end h a)"
    "unat (hsize h a) \<le> unat (hsize (join a b h) a)"
    using unat_size_add [OF assms(2)] unfolding join_def i joined_def
    by (auto simp: set_ptr_def set_size_def blk_end_def)
qed


lemma join_size: "blk_end h a < 2 ^ 36 \<Longrightarrow> \<not> joined h a b \<Longrightarrow> hsize (join a b h) a = hsize h a"
  using hadd_eq_iff [of h a b] by (simp add: join_def joined_def set_ptr_def)

lemma freep_upd [simp]:
  "blk_end (h\<lparr>freep := p\<rparr>) = blk_end h" "before (h\<lparr>freep := p\<rparr>) = before h" "apart (h\<lparr>freep := p\<rparr>) = apart h"
  "is_block (h\<lparr>freep := p\<rparr>) = is_block h" "linked (h\<lparr>freep := p\<rparr>) as z = linked h as z"
proof -
  show e: "blk_end (h\<lparr>freep := p\<rparr>) = blk_end h" by (rule ext) (simp add: blk_end_def)
  show b: "before (h\<lparr>freep := p\<rparr>) = before h" by (intro ext) (simp add: before_def e)
  show "apart (h\<lparr>freep := p\<rparr>) = apart h" by (intro ext) (simp add: apart_def b)
  show "is_block (h\<lparr>freep := p\<rparr>) = is_block h" by (rule ext) (simp add: is_block_def e)
  show "linked (h\<lparr>freep := p\<rparr>) as z = linked h as z" by (rule linked_cong) simp
qed

lemma before_neq: "before h a b \<Longrightarrow> a \<noteq> b"
  by (auto simp: before_def)

lemma before_join_other: "x \<noteq> a \<Longrightarrow> before (join a b h) x y = before h x y"
  by (simp add: before_def)

lemma join_stage:
  assumes l: "linked h vs z" and s: "sorted_wrt (before h) (a # vs)" and z: "vs = [] \<Longrightarrow> \<not> joined h a z"
    and b: "\<forall>x \<in> insert z (set (a # vs)). blk_end h x < 2 ^ 36"
    and nx: "nx = hd (vs @ [z])" and vs1: "vs1 = (if joined h a nx then tl vs else vs)"
  shows "linked (join a nx h) (a # vs1) z" "sorted_wrt (before (join a nx h)) (a # vs1)" "set vs1 \<subseteq> set vs"
proof -
  have na: "a \<notin> set vs" using s by (auto simp: before_def)
  have nb: "blk_end h a < 2 ^ 36" "blk_end h nx < 2 ^ 36" using b nx by (cases vs; simp)+
  note js = join_self [OF nb]
  show sub: "set vs1 \<subseteq> set vs" using vs1 list.set_sel(2) by (cases vs) (auto split: if_splits)
  have l': "linked (join a nx h) vs1 z"
  proof -
    have "linked h vs1 z" using l vs1 by (cases vs; cases "tl vs") (auto split: if_splits)
    moreover have "hptr (join a nx h) x = hptr h x" if "x \<in> set vs1" for x using that na sub by (intro join_fields) blast
    ultimately show ?thesis using linked_cong [of vs1 "join a nx h" h z] by blast
  qed
  show "linked (join a nx h) (a # vs1) z"
  proof (cases "joined h a nx")
    case True
    then obtain v vs' where vs: "vs = v # vs'" using z nx by (cases vs) auto
    then have "hptr (join a nx h) a = hd (vs' @ [z])" using True js(1) nx linked_head [of h v vs' z] l by simp
    then show ?thesis using l' vs vs1 True by (cases vs') simp_all
  next
    case False
    then have "hptr (join a nx h) a = hd (vs1 @ [z])" using js(1) nx vs1 by simp
    then show ?thesis using l' by (cases vs1) simp_all
  qed
  have "sorted_wrt (before h) vs1" using s vs1 by (cases vs) (auto split: if_splits)
  moreover have "before (join a nx h) x y = before h x y" if "x \<in> set vs1" for x y
    using that na sub by (intro before_join_other) blast
  ultimately have "sorted_wrt (before (join a nx h)) vs1"
    using sorted_wrt_mono_rel [of vs1 "before h" "before (join a nx h)"] by blast
  moreover have "before (join a nx h) a y" if y: "y \<in> set vs1" for y
  proof -
    have ay: "before h a y" using s sub y by auto
    have "blk_end (join a nx h) a \<le> unat y"
    proof (cases "joined h a nx")
      case True
      then obtain v vs' where "vs = v # vs'" using z nx by (cases vs) auto
      then have "before h nx y" using s y vs1 True nx by simp
      then show ?thesis using js(2) True by (simp add: before_def)
    next
      case False
      then show ?thesis using js(2) ay by (simp add: before_def)
    qed
    then show ?thesis using ay by (simp add: before_def)
  qed
  ultimately show "sorted_wrt (before (join a nx h)) (a # vs1)" by simp
qed

lemma apart_join:
  assumes "apart h x a" "joined h a b \<Longrightarrow> apart h x b" "0 < unat (hsize h x)" "0 < unat (hsize h a)"
    and "blk_end h a < 2 ^ 36" "blk_end h b < 2 ^ 36"
  shows "apart (join a b h) x a"
proof -
  have x: "x \<noteq> a" using assms(1) by (auto simp: apart_def before_def)
  show ?thesis
    using assms x join_self(2) [OF assms(5,6)]
    by (auto simp: apart_def before_def joined_def blk_end_join_other blk_end_def split: if_splits)
qed

lemma split_around:
  assumes "sorted_wrt (before h) as" "\<forall>a \<in> set as. apart h x a" "0 < unat (hsize h x)"
  shows "\<exists>us vs. as = us @ vs \<and> (\<forall>u \<in> set us. before h u x) \<and> (\<forall>v \<in> set vs. before h x v)"
  using assms(1,2)
proof (induction as)
  case (Cons a as)
  show ?case
  proof (cases "before h a x")
    case True
    from Cons obtain us vs where "as = us @ vs" "\<forall>u \<in> set us. before h u x" "\<forall>v \<in> set vs. before h x v" by auto
    then show ?thesis using True by (intro exI [of _ "a # us"] exI [of _ vs]) simp
  next
    case False
    then have xa: "before h x a" using Cons.prems(2) by (simp add: apart_def)
    then have "\<forall>v \<in> set as. before h x v" using Cons.prems(1) by (auto simp: before_def)
    then show ?thesis using xa by (intro exI [of _ "[]"] exI [of _ "a # as"]) simp
  qed
qed simp


lemma is_block_join:
  assumes "is_block h a" "joined h a b \<Longrightarrow> blk_end h b \<le> unat (brk h)" "blk_end h a < 2 ^ 36" "blk_end h b < 2 ^ 36"
  shows "is_block (join a b h) a"
  using assms(1,2) join_self(2,3) [OF assms(3,4)] by (auto simp: is_block_def)

lemma is_block_join_other: "x \<noteq> a \<Longrightarrow> is_block (join a b h) x = is_block h x"
  by (simp add: is_block_def)

lemma apart_join_other: "x \<noteq> a \<Longrightarrow> y \<noteq> a \<Longrightarrow> apart (join a b h) x y = apart h x y"
  by (simp add: apart_def before_join_other)

lemma apart_neq: "apart h a b \<Longrightarrow> a \<noteq> b"
  by (auto simp: apart_def before_def)

text \<open>
  The place of a block \<open>bp\<close> in the list: the free blocks \<open>us\<close> before it and \<open>vs\<close> after it.  Its
  predecessor is \<open>pred\<close>, which may be the base, its successor \<open>succ\<close>; \<open>upper\<close> is the list after
  the first merge, \<open>lower\<close> after the second.
\<close>

definition place :: "uheap \<Rightarrow> uint64 list \<Rightarrow> uint64 \<Rightarrow> uint64 list \<Rightarrow> bool" where
  "place h us bp vs \<longleftrightarrow> flist h (us @ vs) \<and> is_block h bp \<and> (\<forall>u \<in> set us. before h u bp) \<and> (\<forall>v \<in> set vs. before h bp v)"

definition pred :: "uheap \<Rightarrow> uint64 list \<Rightarrow> uint64" where "pred h us = last (base h # us)"
definition succ :: "uheap \<Rightarrow> uint64 list \<Rightarrow> uint64" where "succ h vs = hd (vs @ [base h])"

definition h_up :: "uheap \<Rightarrow> uint64 \<Rightarrow> uint64 list \<Rightarrow> uheap" where
  "h_up h bp vs = join bp (succ h vs) h"

definition upper :: "uheap \<Rightarrow> uint64 \<Rightarrow> uint64 list \<Rightarrow> uint64 list" where
  "upper h bp vs = (if joined h bp (succ h vs) then tl vs else vs)"

definition h_down :: "uheap \<Rightarrow> uint64 list \<Rightarrow> uint64 \<Rightarrow> uint64 list \<Rightarrow> uheap" where
  "h_down h us bp vs = join (pred h us) bp (h_up h bp vs)"

definition lower :: "uheap \<Rightarrow> uint64 list \<Rightarrow> uint64 \<Rightarrow> uint64 list \<Rightarrow> uint64 list" where
  "lower h us bp vs = (if joined (h_up h bp vs) (pred h us) bp then upper h bp vs else bp # upper h bp vs)"

lemma placeD:
  assumes "place h us bp vs"
  shows "sorted_wrt (before h) (us @ vs)" "\<And>a. a \<in> set us \<or> a \<in> set vs \<or> a = bp \<Longrightarrow> is_block h a" "hsize h (base h) = 0"
    "0 < unat (base h)" "unat (base h) + 16 \<le> unat (brk h)" "unat (brk h) + room h < 2 ^ 36"
    "linked h (base h # us @ vs) (base h)" "base h \<noteq> bp" "unat (base h) + 16 \<le> unat bp"
    "\<And>u. u \<in> set us \<Longrightarrow> before h u bp" "\<And>v. v \<in> set vs \<Longrightarrow> before h bp v"
  using assms by (auto simp: place_def flist_def is_block_def)

lemma place_small:
  assumes "place h us bp vs" "x = base h \<or> x = bp \<or> x \<in> set us \<or> x \<in> set vs"
  shows "blk_end h x < 2 ^ 36"
proof -
  note d = placeD [OF assms(1)]
  have "is_block h x \<Longrightarrow> blk_end h x < 2 ^ 36" using d(6) by (simp add: is_block_def)
  moreover have "blk_end h (base h) < 2 ^ 36" using d(3,5,6) by (simp add: blk_end_def)
  ultimately show ?thesis using assms(2) d(2) by auto
qed

lemma pred_cases: "pred h us = base h \<and> us = [] \<or> pred h us \<in> set us"
  by (cases us) (simp_all add: pred_def)

lemma succ_cases: "succ h vs = base h \<and> vs = [] \<or> succ h vs \<in> set vs"
  by (cases vs) (simp_all add: succ_def)

lemma place_before:
  assumes "place h us bp vs" "x = base h \<or> x \<in> set us"
  shows "before h x bp" "\<And>v. v \<in> set vs \<Longrightarrow> before h x v" "x \<noteq> bp"
proof -
  note d = placeD [OF assms(1)]
  show "before h x bp" using assms(2) d(10) base_before [OF d(2) d(3), of bp] by auto
  then show "x \<noteq> bp" by (rule before_neq)
  show "before h x v" if "v \<in> set vs" for v
    using assms(2) d(1,3) d(2) [of v] base_before [of h v] that by (auto simp: sorted_wrt_append)
qed

lemma place_links:
  assumes "place h us bp vs"
  shows "linked h vs (base h)" "hptr h (pred h us) = succ h vs" "linked h (butlast (base h # us)) (pred h us)"
    "sorted_wrt (before h) (butlast (base h # us) @ [pred h us])" "base h # us = butlast (base h # us) @ [pred h us]"
proof -
  note d = placeD [OF assms]
  let ?us0 = "butlast (base h # us)" and ?p = "pred h us"
  show bu: "base h # us = ?us0 @ [?p]" by (simp add: pred_def)
  have "base h # us @ vs = ?us0 @ ?p # vs" using arg_cong [OF bu, of "\<lambda>xs. xs @ vs"] by (simp only: append_Cons append_assoc append_Nil)
  then have "linked h (?us0 @ ?p # vs) (base h)" using d(7) by (simp only:)
  then show "linked h vs (base h)" "hptr h ?p = succ h vs" "linked h ?us0 ?p"
    using linked_head [of h ?p vs "base h"] by (cases vs; simp add: linked_append succ_def)+
  have "sorted_wrt (before h) (base h # us)" using d(1) d(2) base_before [OF _ d(3)] by (auto simp: sorted_wrt_append)
  then show "sorted_wrt (before h) (?us0 @ [?p])" unfolding bu [symmetric] .
qed

lemma joined_succ: "place h us bp vs \<Longrightarrow> joined h bp (succ h vs) \<Longrightarrow> succ h vs \<in> set vs"
  using succ_cases [of h vs] placeD(9) [of h us bp vs] by (auto simp: joined_def blk_end_def)

text \<open>The first merge.\<close>

lemma place_up:
  assumes "place h us bp vs"
  shows "linked (h_up h bp vs) (bp # upper h bp vs) (base h)" "sorted_wrt (before (h_up h bp vs)) (bp # upper h bp vs)"
    "set (upper h bp vs) \<subseteq> set vs" "is_block (h_up h bp vs) bp"
    "\<forall>x \<in> insert (base h) (set (pred h us # bp # upper h bp vs)). blk_end (h_up h bp vs) x < 2 ^ 36"
proof -
  note d = placeD [OF assms] and small = place_small [OF assms] and l = place_links [OF assms]
  let ?nx = "succ h vs"
  have sn: "blk_end h bp < 2 ^ 36" "blk_end h ?nx < 2 ^ 36" using small succ_cases [of h vs] by auto
  have s1: "sorted_wrt (before h) (bp # vs)" using d(1,11) by (simp add: sorted_wrt_append)
  have z1: "vs = [] \<Longrightarrow> \<not> joined h bp (base h)" using d(9) by (simp add: joined_def blk_end_def)
  have m1: "\<forall>x \<in> insert (base h) (set (bp # vs)). blk_end h x < 2 ^ 36" using small by auto
  note st = join_stage [OF l(1) s1 z1 m1 succ_def upper_def, folded h_up_def]
  show "linked (h_up h bp vs) (bp # upper h bp vs) (base h)" by (rule st(1))
  show "sorted_wrt (before (h_up h bp vs)) (bp # upper h bp vs)" by (rule st(2))
  show "set (upper h bp vs) \<subseteq> set vs" by (rule st(3))
  show "is_block (h_up h bp vs) bp" unfolding h_up_def
    using d(2) joined_succ [OF assms] sn by (intro is_block_join) (auto simp: is_block_def)
  have "blk_end (h_up h bp vs) bp < 2 ^ 36" using join_self(2) [OF sn] sn by (simp add: h_up_def)
  moreover have "blk_end (h_up h bp vs) x < 2 ^ 36" if "x \<noteq> bp" "x \<in> insert (base h) (set (pred h us # upper h bp vs))" for x
    using that small [of x] pred_cases [of h us] st(3) by (auto simp: h_up_def)
  ultimately show "\<forall>x \<in> insert (base h) (set (pred h us # bp # upper h bp vs)). blk_end (h_up h bp vs) x < 2 ^ 36"
    by (metis insertE insert_iff list.simps(15))
qed

text \<open>The second merge.\<close>

lemma place_down:
  assumes "place h us bp vs"
  shows "linked (h_down h us bp vs) (pred h us # lower h us bp vs) (base h)"
    "sorted_wrt (before (h_down h us bp vs)) (pred h us # lower h us bp vs)"
    "set (lower h us bp vs) \<subseteq> insert bp (set vs)"
proof -
  note up = place_up [OF assms]
  let ?p = "pred h us" and ?h1 = "h_up h bp vs"
  have p: "?p = base h \<or> ?p \<in> set us" using pred_cases [of h us] by auto
  note b = place_before [OF assms p]
  have "before ?h1 ?p y" if "y \<in> set (bp # upper h bp vs)" for y
    using that up(3) b by (auto simp: h_up_def before_join_other)
  then have s2: "sorted_wrt (before ?h1) (?p # bp # upper h bp vs)" using up(2) by simp
  have hd: "bp = hd ((bp # upper h bp vs) @ [base h])" "lower h us bp vs = (if joined ?h1 ?p bp then tl (bp # upper h bp vs) else bp # upper h bp vs)"
    by (simp_all add: lower_def)
  note st = join_stage [OF up(1) s2 _ up(5) hd, folded h_down_def]
  show "linked (h_down h us bp vs) (?p # lower h us bp vs) (base h)" by (rule st(1)) simp
  show "sorted_wrt (before (h_down h us bp vs)) (?p # lower h us bp vs)" by (rule st(2)) simp
  show "set (lower h us bp vs) \<subseteq> insert bp (set vs)" using up(3) by (auto simp: lower_def)
qed

lemma h_down_other:
  assumes "x \<noteq> pred h us" "x \<noteq> bp"
  shows "hptr (h_down h us bp vs) x = hptr h x" "hsize (h_down h us bp vs) x = hsize h x"
    "blk_end (h_down h us bp vs) x = blk_end h x" "before (h_down h us bp vs) x y = before h x y"
    "is_block (h_down h us bp vs) x = is_block h x"
  using assms by (simp_all add: h_down_def h_up_def before_join_other is_block_join_other)

lemma h_down_fields [simp]: "base (h_down h us bp vs) = base h" "brk (h_down h us bp vs) = brk h" "room (h_down h us bp vs) = room h"
  by (simp_all add: h_down_def h_up_def)

text \<open>The list after \<open>free\<close>.\<close>

definition flist_after :: "uheap \<Rightarrow> uint64 list \<Rightarrow> uint64 \<Rightarrow> uint64 list \<Rightarrow> uint64 list" where
  "flist_after h us bp vs = tl (butlast (base h # us) @ pred h us # lower h us bp vs)"

lemma flist_after_eq: "base h # flist_after h us bp vs = butlast (base h # us) @ pred h us # lower h us bp vs"
  by (cases us) (simp_all add: flist_after_def pred_def)

lemma place_list:
  assumes "place h us bp vs"
  shows "linked (h_down h us bp vs) (base h # flist_after h us bp vs) (base h)"
    "sorted_wrt (before (h_down h us bp vs)) (base h # flist_after h us bp vs)"
proof -
  note l = place_links [OF assms] and dn = place_down [OF assms]
  let ?us0 = "butlast (base h # us)" and ?p = "pred h us" and ?h2 = "h_down h us bp vs"
  have us0: "x = base h \<or> x \<in> set us" "x \<noteq> ?p" "x \<noteq> bp" "before h x ?p" if "x \<in> set ?us0" for x
  proof -
    show x: "x = base h \<or> x \<in> set us" using in_set_butlastD [OF that] by simp
    show "before h x ?p" using l(4) that by (simp add: sorted_wrt_append del: butlast.simps)
    then show "x \<noteq> ?p" by (rule before_neq)
    show "x \<noteq> bp" using place_before(3) [OF assms x] .
  qed
  have "linked ?h2 ?us0 ?p" using l(3) linked_cong [of ?us0 ?h2 h ?p] h_down_other(1) us0(2,3) by metis
  then show "linked ?h2 (base h # flist_after h us bp vs) (base h)"
    unfolding flist_after_eq using dn(1) by (simp add: linked_append del: butlast.simps)
  have "sorted_wrt (before h) ?us0" using l(4) by (simp add: sorted_wrt_append del: butlast.simps)
  then have "sorted_wrt (before ?h2) ?us0"
    using sorted_wrt_mono_rel [of ?us0 "before h" "before ?h2"] h_down_other(4) us0(2,3) by metis
  moreover have "before ?h2 x y" if "x \<in> set ?us0" "y \<in> set (?p # lower h us bp vs)" for x y
    using us0 [OF that(1)] that(2) dn(3) place_before [OF assms us0(1) [OF that(1)]]
    by (auto simp: h_down_other(4))
  ultimately show "sorted_wrt (before ?h2) (base h # flist_after h us bp vs)"
    unfolding flist_after_eq using dn(2) by (simp add: sorted_wrt_append del: butlast.simps)
qed

lemma flist_after_elems:
  assumes "place h us bp vs" "a \<in> set (flist_after h us bp vs)"
  obtains (pred) "a = pred h us" "pred h us \<in> set us" | (new) "a = bp" "a \<noteq> pred h us"
    | (old) "a \<noteq> pred h us" "a \<noteq> bp" "a \<in> set us \<or> a \<in> set vs"
proof -
  have nb: "a \<noteq> base h" using place_list(2) [OF assms(1)] assms(2) by (auto simp: before_def)
  have "a \<in> set (butlast (base h # us)) \<or> a = pred h us \<or> a \<in> set (lower h us bp vs)"
    using assms(2) flist_after_eq [of h us bp vs] by (metis UnE list.set_intros(2) set_append set_ConsD)
  then have "a \<in> set us \<or> a = pred h us \<or> a = bp \<or> a \<in> set vs"
    using place_down(3) [OF assms(1)] in_set_butlastD [of a "base h # us"] nb by auto
  then show ?thesis using that pred_cases [of h us] nb by blast
qed

lemma place_blocks:
  assumes "place h us bp vs" "a \<in> set (flist_after h us bp vs)"
  shows "is_block (h_down h us bp vs) a"
  using assms
proof (cases rule: flist_after_elems)
  case pred
  note up = place_up [OF assms(1)]
  have "pred h us \<noteq> bp" using place_before(3) [OF assms(1)] pred by blast
  then have "is_block (h_up h bp vs) (pred h us)"
    using placeD(2) [OF assms(1)] pred by (simp add: h_up_def is_block_join_other)
  then show ?thesis unfolding pred(1) h_down_def
    using up(4,5) by (intro is_block_join) (simp_all add: is_block_def)
next
  case new
  then show ?thesis using place_up(4) [OF assms(1)] by (simp add: h_down_def is_block_join_other)
next
  case old
  then show ?thesis using placeD(2) [OF assms(1)] by (simp add: h_down_other)
qed

lemma place_base_size:
  assumes "place h us bp vs"
  shows "hsize (h_down h us bp vs) (base h) = 0"
proof (cases "pred h us = base h")
  case True
  note d = placeD [OF assms]
  let ?h1 = "h_up h bp vs"
  have h1: "hsize ?h1 (base h) = 0" using d(3,8) by (simp add: h_up_def)
  then have "\<not> joined ?h1 (base h) bp" using d(9) by (simp add: joined_def blk_end_def)
  then show ?thesis using h1 place_up(5) [OF assms] True by (simp add: h_down_def join_size)
next
  case False
  then show ?thesis using placeD(3,8) [OF assms] h_down_other(2) [of "base h"] by simp
qed

lemma place_apart:
  assumes "place h us bp vs" "is_block h x" "apart h x bp" "\<forall>a \<in> set (us @ vs). apart h x a"
  shows "hsize (h_down h us bp vs) x = hsize h x" "a \<in> set (flist_after h us bp vs) \<Longrightarrow> apart (h_down h us bp vs) x a"
proof -
  note d = placeD [OF assms(1)] and up = place_up [OF assms(1)] and small = place_small [OF assms(1)]
  let ?nx = "succ h vs" and ?p = "pred h us" and ?h1 = "h_up h bp vs" and ?h2 = "h_down h us bp vs"
  have sn: "blk_end h bp < 2 ^ 36" "blk_end h ?nx < 2 ^ 36" using small succ_cases [of h vs] by auto
  have xn: "x \<noteq> bp" "x \<noteq> ?p" using assms(2-4) pred_cases [of h us] apart_neq by (auto simp: is_block_def)
  then show "hsize ?h2 x = hsize h x" by (simp add: h_down_other)
  have sz: "0 < unat (hsize h x)" "0 < unat (hsize h bp)" using assms(2) d(2) by (simp_all add: is_block_def)
  have a1: "apart ?h1 x bp" unfolding h_up_def
    using assms(3,4) joined_succ [OF assms(1)] sz sn by (intro apart_join) auto
  show "apart ?h2 x a" if "a \<in> set (flist_after h us bp vs)"
    using assms(1) that
  proof (cases rule: flist_after_elems)
    case pred
    have pn: "?p \<noteq> bp" using place_before(3) [OF assms(1)] pred by blast
    have "apart ?h1 x ?p" using assms(4) pred xn pn by (simp add: h_up_def apart_join_other)
    moreover have "0 < unat (hsize ?h1 ?p)" using pred d(2) pn by (simp add: is_block_def h_up_def)
    ultimately show ?thesis unfolding pred(1) h_down_def
      using a1 xn sz up(5) by (intro apart_join) (simp_all add: h_up_def)
  next
    case new
    then show ?thesis using a1 xn by (simp add: h_down_def apart_join_other)
  next
    case old
    then show ?thesis using assms(4) xn by (auto simp: h_down_def h_up_def apart_join_other)
  qed
qed

lemma free_link_place:
  assumes "place h us bp vs"
  shows "free_link bp (pred h us) h = (h_down h us bp vs)\<lparr>freep := pred h us\<rparr>"
    "flist (free_link bp (pred h us) h) (flist_after h us bp vs)"
proof -
  note d = placeD [OF assms]
  show e: "free_link bp (pred h us) h = (h_down h us bp vs)\<lparr>freep := pred h us\<rparr>"
    by (simp add: free_link_join h_down_def h_up_def place_links(2) [OF assms])
  have "pred h us \<in> insert (base h) (set (flist_after h us bp vs))"
    using flist_after_eq [of h us bp vs] by (metis in_set_conv_decomp list.simps(15))
  then show "flist (free_link bp (pred h us) h) (flist_after h us bp vs)"
    unfolding e using place_list [OF assms] place_blocks [OF assms] place_base_size [OF assms] d by (simp add: flist_def)
qed

lemma place_size:
  assumes "place h us bp vs"
  shows "\<exists>b \<in> set (flist_after h us bp vs). hsize h bp \<le> hsize (h_down h us bp vs) b"
proof -
  note up = place_up [OF assms] and d = placeD [OF assms] and small = place_small [OF assms]
  let ?p = "pred h us" and ?h1 = "h_up h bp vs" and ?h2 = "h_down h us bp vs"
  have pn: "?p \<noteq> bp" using place_before(3) [OF assms] pred_cases [of h us] by blast
  have "blk_end h bp < 2 ^ 36" "blk_end h (succ h vs) < 2 ^ 36" using small succ_cases [of h vs] by auto
  then have s1: "hsize h bp \<le> hsize ?h1 bp" using join_self(3) [of h bp "succ h vs"] by (simp add: h_up_def word_le_nat_alt)
  show ?thesis
  proof (cases "joined ?h1 ?p bp")
    case True
    have "?p \<noteq> base h" using True d(3,8,9) by (auto simp: joined_def blk_end_def h_up_def)
    then have "?p \<in> set (flist_after h us bp vs)"
      using flist_after_eq [of h us bp vs] by (metis in_set_conv_decomp set_ConsD)
    moreover have m: "blk_end ?h1 ?p < 2 ^ 36" "blk_end ?h1 bp < 2 ^ 36" using up(5) by simp_all
    have "hsize ?h1 bp \<le> hsize ?h2 ?p"
      using unat_size_add [OF m(2), of ?p] hadd_eq_iff [of ?h1 ?p bp] True m
      by (simp add: joined_def h_down_def join_def set_ptr_def set_size_def word_le_nat_alt)
    ultimately show ?thesis using s1 by (meson order_trans)
  next
    case False
    have "bp \<in> set (base h # flist_after h us bp vs)" unfolding flist_after_eq using False by (simp add: lower_def)
    then have "bp \<in> set (flist_after h us bp vs)" using d(8) by simp
    moreover have "hsize ?h2 bp = hsize ?h1 bp" using pn by (simp add: h_down_def)
    ultimately show ?thesis using s1 by metis
  qed
qed

lemma ufree_spec:
  assumes "alloc_ok h as (bp # L)"
  shows "\<exists>h' as'. ufree (bp + 16) h = Some h' \<and> alloc_ok h' as' L \<and> base h' = base h \<and> brk h' = brk h \<and> room h' = room h \<and>
    (\<forall>x \<in> set L. hsize h' x = hsize h x) \<and> (\<exists>b \<in> set as'. hsize h bp \<le> hsize h' b)"
proof -
  have f: "flist h as" "is_block h bp" "\<forall>a \<in> set as. apart h bp a" "0 < unat (hsize h bp)"
    using assms by (simp_all add: alloc_ok_def is_block_def)
  have "sorted_wrt (before h) as" using f(1) by (simp add: flist_def)
  from split_around [OF this f(3,4)] obtain us vs where
    as: "as = us @ vs" "\<forall>u \<in> set us. before h u bp" "\<forall>v \<in> set vs. before h bp v" by blast
  then have pl: "place h us bp vs" using f by (simp add: place_def)
  let ?h = "free_link bp (pred h us) h" and ?as = "flist_after h us bp vs"
  have "free_find h bp (freep h) = Some (last (base h # us))"
  proof (rule free_find_spec)
    show "base h < bp" using placeD(9) [OF pl] by (simp add: word_less_nat_alt)
    show "\<forall>u \<in> set us. u < bp" "\<forall>v \<in> set vs. bp < v" using as by (simp_all add: before_def word_less_nat_alt)
  qed (use f(1) as in \<open>simp_all add: flist_def\<close>)
  then have "ufree (bp + 16) h = Some ?h" by (simp add: ufree_def Let_def pred_def)
  moreover have x: "hsize (h_down h us bp vs) x = hsize h x" "\<forall>a \<in> set ?as. apart (h_down h us bp vs) x a"
    if "x \<in> set L" for x
    using place_apart [OF pl, of x] assms as that by (auto simp: alloc_ok_def apart_sym [of h bp])
  have "alloc_ok ?h ?as L"
  proof -
    have "is_block (h_down h us bp vs) x" if "x \<in> set L" for x
      using x(1) [OF that] assms that by (simp add: alloc_ok_def is_block_def blk_end_def)
    moreover have "sorted_wrt (apart (h_down h us bp vs)) L"
    proof (rule sorted_wrt_mono_rel)
      show "sorted_wrt (apart h) L" using assms by (simp add: alloc_ok_def)
      show "apart (h_down h us bp vs) y z" if "y \<in> set L" "z \<in> set L" "apart h y z" for y z
        using that x(1) by (simp add: apart_def before_def blk_end_def)
    qed
    ultimately show ?thesis
      using free_link_place [OF pl] x(2) by (simp add: alloc_ok_def)
  qed
  moreover have "\<exists>b \<in> set ?as. hsize h bp \<le> hsize ?h b" using place_size [OF pl] free_link_place(1) [OF pl] by simp
  ultimately show ?thesis using x(1) free_link_place(1) [OF pl] by auto
qed


section \<open>Taking a block\<close>

lemma hadd_1: "hadd p 1 = p + 16"
  by (simp add: hadd_def)

lemma flist_split:
  assumes "flist h as" "hptr h prv = q" "prv \<in> insert (base h) (set as)" "q \<noteq> base h"
  shows "\<exists>xs vs. base h # as = xs @ prv # q # vs"
proof -
  have "prv \<in> set (base h # as)" using assms(3) by simp
  then obtain xs ys where e: "base h # as = xs @ prv # ys" by (meson split_list)
  have "linked h (prv # ys) (base h)" using assms(1) unfolding flist_def e by (simp add: linked_append)
  then have "hd (ys @ [base h]) = q" using linked_head assms(2) by metis
  then show ?thesis using assms(4) e by (cases ys) auto
qed

lemma take_exact:
  assumes "alloc_ok h as L" "base h # as = xs @ prv # q # vs" "hsize h q = n"
  defines "h' \<equiv> (set_ptr prv (hptr h q) h)\<lparr>freep := prv\<rparr>"
  shows "alloc_ok h' (tl (xs @ prv # vs)) (q # L)"
proof -
  have f: "flist h as" using assms(1) by (simp add: alloc_ok_def)
  let ?as = "tl (xs @ prv # vs)"
  have b: "base h # ?as = xs @ prv # vs" using assms(2) by (cases xs) auto
  have sub: "set ?as \<subseteq> set as" "q \<in> set as" using assms(2) by (cases xs; auto)+
  have eqs: "blk_end h' = blk_end h" "before h' = before h" "apart h' = apart h" "is_block h' = is_block h" "hsize h' = hsize h"
    "base h' = base h" "brk h' = brk h" "room h' = room h" "freep h' = prv"
    by (simp_all add: h'_def set_ptr_def fun_eq_iff blk_end_def before_def apart_def is_block_def)
  have sb: "sorted_wrt (before h) (base h # as)" using f base_before by (auto simp: flist_def)
  then have dis: "prv \<noteq> q" "prv \<notin> set xs" "q \<notin> set xs" "prv \<notin> set vs" "q \<notin> set vs"
    unfolding assms(2) by (auto simp: sorted_wrt_append dest: before_neq)
  have "linked h (xs @ prv # q # vs) (base h)" using f unfolding flist_def assms(2) by simp
  then have l: "linked h xs prv" "hptr h q = hd (vs @ [base h])" "linked h vs (base h)"
    using linked_head [of h q vs "base h"] by (cases vs; simp add: linked_append)+
  have keep: "hptr h' a = hptr h a" if "a \<noteq> prv" for a using that by (simp add: h'_def set_ptr_def)
  have "linked h' xs prv = linked h xs prv" "linked h' vs (base h) = linked h vs (base h)"
    by (rule linked_cong; use keep dis in metis)+
  then have "linked h' xs prv" "linked h' vs (base h)" using l by simp_all
  moreover have "hptr h' prv = hd (vs @ [base h])" using l(2) by (simp add: h'_def set_ptr_def)
  then have "linked h' (prv # vs) (base h)" using calculation(2) by (cases vs) simp_all
  ultimately have "linked h' (base h # ?as) (base h)" unfolding b by (simp add: linked_append)
  moreover have "sorted_wrt (before h) (base h # ?as)"
    using sb unfolding assms(2) b by (simp add: sorted_wrt_append)
  then have "sorted_wrt (before h) ?as" by simp
  moreover have "prv \<in> set (base h # ?as)" unfolding b by simp
  then have "prv \<in> insert (base h) (set ?as)" by simp
  ultimately have "flist h' ?as" using f sub unfolding flist_def eqs by auto
  moreover have "apart h q a" if "a \<in> set ?as" for a
  proof -
    have "a \<in> set xs \<or> a = prv \<or> a \<in> set vs" using that b by (metis UnE list.set_intros(2) set_append set_ConsD)
    then show ?thesis using sb unfolding assms(2) by (auto simp: sorted_wrt_append apart_def)
  qed
  ultimately show ?thesis
    using assms(1) sub f unfolding alloc_ok_def eqs by (auto simp: apart_sym [of h q] flist_def)
qed


lemma split_sizes:
  assumes "is_block h q" "unat (brk h) < 2 ^ 36" "0 < n" "n < hsize h q"
  shows "unat (hadd q (hsize h q - n)) = unat q + 16 * (unat (hsize h q) - unat n)"
    "unat (hsize h q - n) = unat (hsize h q) - unat n" "unat n < unat (hsize h q)" "0 < unat n"
proof -
  show n: "unat n < unat (hsize h q)" "0 < unat n" using assms(3,4) by (simp_all add: word_less_nat_alt)
  show s: "unat (hsize h q - n) = unat (hsize h q) - unat n" using n by (simp add: unat_sub word_le_nat_alt)
  let ?h = "set_size q (hsize h q - n) h"
  have "16 * (unat (hsize h q) - unat n) \<le> 16 * unat (hsize h q)" by simp
  moreover have "unat q + 16 * unat (hsize h q) < 2 ^ 64" using assms(1,2) by (simp add: is_block_def blk_end_def)
  ultimately have "unat q + 16 * (unat (hsize h q) - unat n) < 2 ^ 64" by (meson add_left_mono order_le_less_trans)
  then have "blk_end ?h q < 2 ^ 64" using s by (simp add: blk_end_def set_size_def)
  from hadd_eq_iff [OF this, of "hadd q (hsize h q - n)"]
  have "unat (hadd q (hsize h q - n)) = blk_end ?h q" by (simp add: set_size_def)
  then show "unat (hadd q (hsize h q - n)) = unat q + 16 * (unat (hsize h q) - unat n)"
    using s by (simp add: blk_end_def set_size_def)
qed

lemma take_split:
  assumes ok: "alloc_ok h as L" and q: "q \<in> set as" and prv: "prv \<in> insert (base h) (set as)" and n: "0 < n" "n < hsize h q"
  defines "q' \<equiv> hadd q (hsize h q - n)"
  defines "h' \<equiv> (set_size q' n (set_size q (hsize h q - n) h))\<lparr>freep := prv\<rparr>"
  shows "alloc_ok h' as (q' # L)" "hsize h' q' = n" "\<forall>x \<in> set L. hsize h' x = hsize h x"
proof -
  have f: "flist h as" "is_block h q" "unat (brk h) < 2 ^ 36" using ok q by (auto simp: alloc_ok_def flist_def)
  note sz = split_sizes [OF f(2,3) n, folded q'_def]
  have qq: "unat q < unat q'" "unat q' < blk_end h q" using sz by (auto simp: blk_end_def)
  have "hsize h' q' = n" by (simp add: h'_def set_size_def)
  moreover have "16 * (unat (hsize h q) - unat n) + 16 * unat n = 16 * unat (hsize h q)" using sz(3) by simp
  ultimately have eq': "blk_end h' q' = blk_end h q" using sz(1) by (simp add: blk_end_def)
  have other: "before h q a \<and> before h' q' a \<and> a \<noteq> q' \<or> before h a q \<and> unat a < unat q'" if "apart h a q" for a
    using that qq eq' by (auto simp: apart_def before_def)
  have ap: "apart h a q" if "a \<in> set as" "a \<noteq> q" for a
  proof -
    obtain xs ys where as: "as = xs @ q # ys" using q by (meson split_list)
    then show ?thesis using f(1) that by (auto simp: flist_def sorted_wrt_append apart_def)
  qed
  have bq: "before h (base h) q" using base_before f by (auto simp: flist_def)
  have ne: "x \<noteq> q'" if "x = base h \<or> x \<in> set as \<or> x \<in> set L" for x
  proof -
    have "x = q \<or> apart h x q" using that ap bq ok q by (auto simp: alloc_ok_def apart_def)
    then show ?thesis using other [of x] qq by auto
  qed
  have size: "hsize h' x = hsize h x" if "x \<noteq> q" "x \<noteq> q'" for x using that by (simp add: h'_def set_size_def)
  have qs: "hsize h' q = hsize h q - n" "hsize h' q' = n" using qq by (auto simp: h'_def set_size_def)
  have ends: "blk_end h' q = unat q'" "blk_end h' q' = blk_end h q" using qs sz eq' by (simp_all add: blk_end_def)
  have Lq: "x \<noteq> q" if "x \<in> set L" for x
    using ok q that by (intro apart_neq [of h]) (simp add: alloc_ok_def)
  show "hsize h' q' = n" "\<forall>x \<in> set L. hsize h' x = hsize h x" using qs size ne Lq by auto
  have low: "before h x y \<Longrightarrow> before h' x y" if "x \<noteq> q'" for x y
    using that size [of x] ends(1) qq by (cases "x = q") (auto simp: before_def blk_end_def)
  have blk: "is_block h' x" if "is_block h x" "x \<noteq> q'" for x
    using that size [of x] ends(1) qs sz f(2) qq by (cases "x = q") (auto simp: is_block_def blk_end_def h'_def set_size_def)
  have flds: "base h' = base h" "brk h' = brk h" "room h' = room h" "freep h' = prv" "hptr h' = hptr h"
    by (simp_all add: h'_def set_size_def)
  have l: "linked h' (base h # as) (base h) = linked h (base h # as) (base h)" by (rule linked_cong) (simp add: flds)
  have "sorted_wrt (before h') as"
    using sorted_wrt_mono_rel [of as "before h" "before h'"] low ne f(1) by (metis flist_def)
  then have "flist h' as"
    using f(1) l blk ne prv size [of "base h"] before_neq [OF bq] unfolding flist_def flds by auto
  moreover have "is_block h' q'" using f(2) qq ends(2) qs(2) sz(4) by (simp add: is_block_def flds)
  moreover have q'_apart: "apart h' q' x" if "x = q \<or> apart h x q" "x \<noteq> q'" for x
    using that other [of x] low [of x q] ends qq size [of x] by (auto simp: apart_def before_def blk_end_def)
  have "apart h' x y" if "apart h x y" "x \<noteq> q'" "y \<noteq> q'" for x y using that low by (auto simp: apart_def)
  then have "sorted_wrt (apart h') L" "\<forall>x \<in> set L. \<forall>a \<in> set as. apart h' x a"
    using ok ne sorted_wrt_mono_rel [of L "apart h" "apart h'"] by (auto simp: alloc_ok_def)
  moreover have "\<forall>x \<in> set L. apart h' q' x" "\<forall>a \<in> set as. apart h' q' a"
    using q'_apart ok ne ap q by (auto simp: alloc_ok_def)
  ultimately show "alloc_ok h' as (q' # L)" using ok blk ne by (auto simp: alloc_ok_def)
qed

text \<open>What a successful \<open>malloc\<close> gives: a block of at least \<open>n\<close> headers, taken out of the free list.\<close>

definition served :: "uint \<Rightarrow> uheap \<Rightarrow> uint64 list \<Rightarrow> uint64 \<Rightarrow> uheap \<Rightarrow> bool" where
  "served n h L r h' \<longleftrightarrow> r \<noteq> 0 \<and> (\<exists>as'. alloc_ok h' as' ((r - 16) # L)) \<and> hsize h' (r - 16) = n \<and>
     (\<forall>x \<in> set L. hsize h' x = hsize h x) \<and> base h' = base h"

lemma block_data_neq0:
  assumes "alloc_ok h as (q # L)"
  shows "q + 16 \<noteq> 0"
proof -
  have b: "is_block h q" "unat (brk h) < 2 ^ 36" using assms by (auto simp: alloc_ok_def flist_def)
  then have "unat q + 16 < 2 ^ 64" by (simp add: is_block_def blk_end_def)
  then have "unat (q + 16) = unat q + 16" by (simp add: unat_word_ariths)
  then show ?thesis by (metis add_is_0 unat_0 zero_neq_numeral)
qed

lemma take_block_served:
  assumes ok: "alloc_ok h as L" and prv: "prv \<in> insert (base h) (set as)" "hptr h prv = q" and n: "0 < n" "n \<le> hsize h q"
  shows "\<exists>r h'. take_block n prv q h = (r, h') \<and> served n h L r h'"
proof -
  have f: "flist h as" using ok by (simp add: alloc_ok_def)
  have q: "q \<noteq> base h" using f n by (auto simp: flist_def)
  from flist_split [OF f prv(2,1) this] obtain xs vs where e: "base h # as = xs @ prv # q # vs" by blast
  then have qa: "q \<in> set as" using q by (metis in_set_conv_decomp list.set_intros(2) set_ConsD append.assoc append_Cons append_Nil)
  show ?thesis
  proof (cases "hsize h q = n")
    case True
    let ?h = "(set_ptr prv (hptr h q) h)\<lparr>freep := prv\<rparr>"
    note t = take_exact [OF ok e True]
    have "take_block n prv q h = (q + 16, ?h)" using True by (simp add: take_block_def hadd_1)
    moreover have "served n h L (q + 16) ?h"
      using t block_data_neq0 [OF t] True by (auto simp: served_def set_ptr_def)
    ultimately show ?thesis by blast
  next
    case False
    then have n': "n < hsize h q" using n by simp
    note t = take_split [OF ok qa prv(1) n(1) n']
    let ?q = "hadd q (hsize h q - n)"
    let ?h = "(set_size ?q n (set_size q (hsize h q - n) h))\<lparr>freep := prv\<rparr>"
    have "take_block n prv q h = (?q + 16, ?h)" using False by (simp add: take_block_def hadd_1 Let_def set_size_def)
    moreover have "served n h L (?q + 16) ?h"
      using t block_data_neq0 [OF t(1)] by (auto simp: served_def set_size_def)
    ultimately show ?thesis by blast
  qed
qed

section \<open>Going round the list\<close>

text \<open>
  The scan goes along \<open>ps\<close>, which ends with the block where it began.  It stops at the first block that
  is large enough; when there is none it asks for more memory.
\<close>

lemma malloc_scan:
  assumes "linked h (prv # ps) z" "ps \<noteq> []" "last ps = freep h" "distinct ps"
  shows "(\<exists>u q. u \<in> set (prv # ps) \<and> q \<in> set ps \<and> hptr h u = q \<and> n \<le> hsize h q \<and>
        malloc_loop n prv (hptr h prv) h = Some (take_block n u q h)) \<or>
    ((\<forall>q \<in> set ps. hsize h q < n) \<and>
     malloc_loop n prv (hptr h prv) h =
       Option.bind (morecore n h) (\<lambda>(q, h). if q = 0 then Some (0, h) else malloc_loop n q (hptr h q) h))"
  using assms
proof (induction ps arbitrary: prv)
  case (Cons p ps)
  then have p: "hptr h prv = p" "linked h (p # ps) z" by simp_all
  show ?case
  proof (cases "n \<le> hsize h p")
    case True
    then have "malloc_loop n prv (hptr h prv) h = Some (take_block n prv p h)"
      unfolding p(1) by (subst malloc_loop.simps) simp
    with True p(1) show ?thesis by auto
  next
    case small: False
    show ?thesis
    proof (cases "ps = []")
      case True
      then have "p = freep h" using Cons.prems by simp
      then show ?thesis unfolding p(1) using small True by (subst (2) malloc_loop.simps) simp
    next
      case False
      then have "p \<noteq> freep h" "last ps = freep h" using Cons.prems last_in_set [of ps] by (auto split: if_splits)
      then have "malloc_loop n prv (hptr h prv) h = malloc_loop n p (hptr h p) h"
        unfolding p(1) using small by (subst malloc_loop.simps) simp
      with Cons.IH [OF p(2) False] Cons.prems False small show ?thesis by auto
    qed
  qed
qed simp

text \<open>The order in which the blocks are visited when the scan begins after \<open>freep\<close>.\<close>

lemma flist_cycle:
  assumes "flist h as" "p \<in> insert (base h) (set as)"
  shows "\<exists>ps. linked h (p # ps) (hptr h p) \<and> ps \<noteq> [] \<and> last ps = p \<and> distinct ps \<and> set ps = insert (base h) (set as)"
proof -
  from assms(2) obtain us vs where e: "base h # as = us @ p # vs" by (metis list.simps(15) split_list)
  have l: "linked h (us @ p # vs) (base h)" using assms(1) unfolding flist_def e by simp
  have "sorted_wrt (before h) (base h # as)" using assms(1) base_before by (auto simp: flist_def)
  then have "distinct (base h # as)" unfolding distinct_conv_nth sorted_wrt_iff_nth_less
    by (metis before_neq nat_neq_iff)
  then have d: "distinct (vs @ us @ [p])" unfolding e by auto
  have "linked h (p # vs @ us @ [p]) (hptr h p)"
  proof (cases us)
    case Nil
    then have "p = base h" using e by simp
    then show ?thesis using l Nil linked_append [of h "p # vs" p "[]"] by simp
  next
    case (Cons u us')
    then have "u = base h" using e by simp
    then show ?thesis using l Cons linked_append [of h "p # vs" u "us' @ [p]"] linked_append [of h us p vs]
      linked_append [of h us p "[]"] by simp
  qed
  moreover have "set (vs @ us @ [p]) = insert (base h) (set as)" using arg_cong [OF e, of set] by auto
  ultimately show ?thesis using d by (intro exI [of _ "vs @ us @ [p]"]) simp
qed

section \<open>More memory\<close>

lemma morecore_bytes:
  assumes "16 * unat nu < 2 ^ 31"
  shows "sint (ucast (ucast (nu :: uint) * 16 :: uint64) :: uint) = int (16 * unat nu)"
proof -
  have "ucast nu * 16 = (of_nat (16 * unat nu) :: uint64)" by (simp add: mult.commute)
  moreover have "ucast (of_nat (16 * unat nu) :: uint64) = (of_nat (16 * unat nu) :: uint)"
    using assms by (intro word_unat_eq_iff [THEN iffD2]) (simp only: unsigned_ucast_eq unsigned_of_nat, simp add: take_bit_nat_eq_self)
  ultimately show ?thesis using sint_small [OF assms] by (simp only:)
qed

text \<open>The memory above the old break, as a block in use.\<close>

lemma new_block:
  assumes ok: "alloc_ok h as L" and nu: "0 < nu" "16 * unat nu \<le> room h" "16 * unat nu < 2 ^ 31"
  defines "h' \<equiv> set_size (brk h) nu (h\<lparr>brk := brk h + word_of_int (int (16 * unat nu)), room := room h - 16 * unat nu\<rparr>)"
  shows "alloc_ok h' as (brk h # L)" "\<forall>x \<in> set L. hsize h' x = hsize h x" "hsize h' (brk h) = nu" "base h' = base h"
proof -
  have f: "flist h as" using ok by (simp add: alloc_ok_def)
  have bounds: "unat (base h) + 16 \<le> unat (brk h)" "unat (brk h) + room h < 2 ^ 36" using f by (simp_all add: flist_def)
  have "unat (word_of_int (int (16 * unat nu)) :: uint64) = 16 * unat nu"
    using nu(3) by (simp only: of_int_of_nat_eq unsigned_of_nat) (simp add: take_bit_nat_eq_self)
  then have "unat (brk h + word_of_int (int (16 * unat nu))) = unat (brk h) + 16 * unat nu"
    using bounds nu(2) by (simp only: unat_word_ariths) simp
  then have b': "unat (brk h') = unat (brk h) + 16 * unat nu" by (simp add: h'_def set_size_def)
  have ne: "x \<noteq> brk h \<and> before h x (brk h)" if "is_block h x" for x
    using that by (auto simp: is_block_def before_def blk_end_def)
  have fl: "base h' = base h" "freep h' = freep h" "hptr h' = hptr h" "room h' = room h - 16 * unat nu"
    by (simp_all add: h'_def set_size_def)
  have sz: "hsize h' x = hsize h x" if "x \<noteq> brk h" for x using that by (simp add: h'_def set_size_def)
  show "hsize h' (brk h) = nu" "base h' = base h" by (simp_all add: h'_def set_size_def)
  have blk: "is_block h' x" if "is_block h x" for x
    using that ne [OF that] sz [of x] b' fl by (auto simp: is_block_def blk_end_def)
  have bef: "before h' x y = before h x y" if "is_block h x" for x y
    using ne [OF that] sz [of x] by (simp add: before_def blk_end_def)
  show "\<forall>x \<in> set L. hsize h' x = hsize h x" using ok ne sz by (auto simp: alloc_ok_def)
  have blks: "\<forall>a \<in> set as. is_block h a" "\<forall>x \<in> set L. is_block h x" using ok f by (auto simp: flist_def alloc_ok_def)
  have l: "linked h' (base h # as) (base h) = linked h (base h # as) (base h)" by (rule linked_cong) (simp add: fl)
  have "sorted_wrt (before h') as"
    using f bef blks(1) sorted_wrt_mono_rel [of as "before h" "before h'"] by (auto simp: flist_def)
  moreover have "base h \<noteq> brk h" using bounds(1) by auto
  then have "hsize h' (base h) = 0" using sz [of "base h"] f by (simp add: flist_def)
  ultimately have "flist h' as" using f l blk b' bounds nu(2) unfolding flist_def fl by auto
  moreover have "is_block h' (brk h)"
    using b' bounds nu(1) fl by (simp add: is_block_def blk_end_def h'_def set_size_def word_less_nat_alt)
  moreover have ap: "apart h' x y = apart h x y" if "is_block h x" "is_block h y" for x y
    using that bef by (simp add: apart_def)
  have "sorted_wrt (apart h') L"
    using ok blks(2) ap sorted_wrt_mono_rel [of L "apart h" "apart h'"] by (auto simp: alloc_ok_def)
  moreover have "apart h' (brk h) x" if "is_block h x" for x using ne [OF that] bef [OF that] by (simp add: apart_def)
  ultimately show "alloc_ok h' as (brk h # L)" using ok blk blks ap by (auto simp: alloc_ok_def)
qed

text \<open>
  \<open>morecore\<close> fails only when the kernel grants no more memory; otherwise the free list has a block of the
  size asked for.
\<close>

lemma morecore_spec:
  assumes ok: "alloc_ok h as L" and n: "16 * unat n < 2 ^ 31"
  shows "morecore n h = Some (0, h) \<and> room h < 16 * max (unat n) 4096 \<or>
    (\<exists>h' as'. morecore n h = Some (freep h', h') \<and> freep h' \<noteq> 0 \<and> alloc_ok h' as' L \<and> base h' = base h \<and>
      (\<forall>x \<in> set L. hsize h' x = hsize h x) \<and> (\<exists>b \<in> set as'. n \<le> hsize h' b))"
proof -
  define nu where "nu = (if n < 4096 then 4096 else n)"
  have u: "unat nu = max (unat n) 4096" "n \<le> nu" "0 < nu" by (auto simp: nu_def word_less_nat_alt word_le_nat_alt)
  then have b: "16 * unat nu < 2 ^ 31" using n by auto
  have f: "flist h as" using ok by (simp add: alloc_ok_def)
  have m: "brk h \<noteq> -1"
  proof
    assume "brk h = -1"
    then have "unat (brk h) = 2 ^ 64 - 1" by (simp add: unsigned_minus_1_eq_mask mask_eq_exp_minus_1)
    then show False using f by (simp add: flist_def)
  qed
  show ?thesis
  proof (cases "16 * unat nu \<le> room h")
    case False
    then have "sbrk (int (16 * unat nu)) h = (-1, h)" by (simp only: sbrk_def of_nat_le_iff if_False)
    then have "morecore n h = Some (0, h)"
      unfolding morecore_def Let_def nu_def [symmetric] morecore_bytes [OF b] by simp
    then show ?thesis using False u by simp
  next
    case True
    let ?h1 = "h\<lparr>brk := brk h + word_of_int (int (16 * unat nu)), room := room h - 16 * unat nu\<rparr>"
    let ?h2 = "set_size (brk h) nu ?h1"
    note nb = new_block [OF ok u(3) True b]
    have "nat (int (room h) - int (16 * unat nu)) = room h - 16 * unat nu" by linarith
    then have "sbrk (int (16 * unat nu)) h = (brk h, ?h1)" using True unfolding sbrk_def by (simp only: of_nat_le_iff if_True)
    then have mc: "morecore n h = (case ufree (brk h + 16) ?h2 of None \<Rightarrow> None | Some h \<Rightarrow> Some (freep h, h))"
      unfolding morecore_def Let_def nu_def [symmetric] morecore_bytes [OF b] using m by (simp add: hadd_1)
    from ufree_spec [OF nb(1)] obtain h' as' where
      r: "ufree (brk h + 16) ?h2 = Some h'" "alloc_ok h' as' L" "base h' = base ?h2"
        "\<forall>x \<in> set L. hsize h' x = hsize ?h2 x" "\<exists>b \<in> set as'. hsize ?h2 (brk h) \<le> hsize h' b" by blast
    have "freep h' \<noteq> 0" using r(2) by (auto simp: alloc_ok_def flist_def is_block_def)
    then show ?thesis using r nb u(2) mc by (auto intro: order_trans)
  qed
qed

section \<open>malloc\<close>

lemma malloc_units_spec:
  assumes "unat nbytes < 2 ^ 31 - 32"
  shows "0 < malloc_units nbytes" "16 * unat (malloc_units nbytes) < 2 ^ 31"
    "unat nbytes \<le> 16 * (unat (malloc_units nbytes) - 1)"
proof -
  have "unat (ucast nbytes + 16 - 1 :: uint64) = unat nbytes + 15"
    using assms by (simp add: unat_word_ariths unsigned_ucast_eq take_bit_nat_eq_self)
  then have d: "unat ((ucast nbytes + 16 - 1) div 16 + 1 :: uint64) = (unat nbytes + 15) div 16 + 1"
    using assms by (simp add: unat_word_ariths unat_div)
  have "(unat nbytes + 15) div 16 + 1 < 2 ^ 32" using assms by simp
  then have e: "unat (malloc_units nbytes) = (unat nbytes + 15) div 16 + 1"
    unfolding malloc_units_def using d by (simp add: unsigned_ucast_eq take_bit_nat_eq_self)
  show "0 < malloc_units nbytes" using e by (simp add: word_less_nat_alt)
  show "16 * unat (malloc_units nbytes) < 2 ^ 31" using e assms by simp
  show "unat nbytes \<le> 16 * (unat (malloc_units nbytes) - 1)" unfolding e by presburger
qed

lemma malloc_found:
  assumes "alloc_ok h as L" "0 < n" "p \<in> insert (base h) (set as)" "p = freep h" "\<exists>b \<in> set as. n \<le> hsize h b"
  shows "\<exists>r h'. malloc_loop n p (hptr h p) h = Some (r, h') \<and> served n h L r h'"
proof -
  have f: "flist h as" using assms(1) by (simp add: alloc_ok_def)
  from flist_cycle [OF f assms(3)] obtain ps where
    ps: "linked h (p # ps) (hptr h p)" "ps \<noteq> []" "last ps = p" "distinct ps" "set ps = insert (base h) (set as)" by blast
  from malloc_scan [OF ps(1,2) _ ps(4), of n] assms(4,5) ps(3,5) obtain u q where
    u: "u \<in> insert (base h) (set as)" "hptr h u = q" "n \<le> hsize h q" "malloc_loop n p (hptr h p) h = Some (take_block n u q h)"
    using assms(3) by (auto simp: not_less [symmetric])
  from take_block_served [OF assms(1) u(1,2) assms(2) u(3)] u(4) show ?thesis by auto
qed

lemma malloc_spec:
  assumes ok: "alloc_ok (malloc_init h) as L" and n: "unat nbytes < 2 ^ 31 - 32"
  shows "\<exists>r h'. malloc nbytes h = Some (r, h') \<and>
    (r = 0 \<and> h' = malloc_init h \<and> room h < 16 * max (unat (malloc_units nbytes)) 4096 \<or>
     served (malloc_units nbytes) (malloc_init h) L r h')"
proof -
  let ?h = "malloc_init h" and ?n = "malloc_units nbytes"
  note u = malloc_units_spec [OF n]
  have f: "flist ?h as" "freep ?h \<in> insert (base ?h) (set as)" using ok by (simp_all add: alloc_ok_def flist_def)
  have m: "malloc nbytes h = malloc_loop ?n (freep ?h) (hptr ?h (freep ?h)) ?h" by (simp add: malloc_def Let_def)
  have rm: "room ?h = room h" by (simp add: malloc_init_def set_size_def set_ptr_def)
  show ?thesis
  proof (cases "\<exists>b \<in> set as. ?n \<le> hsize ?h b")
    case True
    from malloc_found [OF ok u(1) f(2) refl this] show ?thesis using m by auto
  next
    case False
    from flist_cycle [OF f] obtain ps where
      ps: "linked ?h (freep ?h # ps) (hptr ?h (freep ?h))" "ps \<noteq> []" "last ps = freep ?h" "distinct ps"
        "set ps = insert (base ?h) (set as)" by blast
    have "\<forall>q \<in> set ps. \<not> ?n \<le> hsize ?h q" using False ps(5) f(1) u(1) by (auto simp: flist_def)
    with malloc_scan [OF ps(1-4), of ?n]
    have ml: "malloc nbytes h =
        Option.bind (morecore ?n ?h) (\<lambda>(q, h). if q = 0 then Some (0, h) else malloc_loop ?n q (hptr h q) h)"
      unfolding m by blast
    from morecore_spec [OF ok u(2)] show ?thesis
    proof (elim disjE exE conjE)
      assume "morecore ?n ?h = Some (0, ?h)" "room ?h < 16 * max (unat ?n) 4096"
      then show ?thesis using ml rm by simp
    next
      fix h' as'
      assume mc: "morecore ?n ?h = Some (freep h', h')" "freep h' \<noteq> 0" "alloc_ok h' as' L" "base h' = base ?h"
        "\<forall>x \<in> set L. hsize h' x = hsize ?h x" "\<exists>b \<in> set as'. ?n \<le> hsize h' b"
      have "freep h' \<in> insert (base h') (set as')" using mc(3) by (simp add: alloc_ok_def flist_def)
      from malloc_found [OF mc(3) u(1) this refl mc(6)] obtain r h'' where
        "malloc_loop ?n (freep h') (hptr h' (freep h')) h' = Some (r, h'')" "served ?n h' L r h''" by blast
      then show ?thesis using ml mc by (auto simp: served_def)
    qed
  qed
qed

section \<open>Properties\<close>

text \<open>
  C21: \<open>malloc\<close> always returns, for every size below 2 GiB.  It returns 0, leaving the heap as it is, only
  when the kernel grants less than the memory asked for; otherwise the block it returns has room for the
  bytes asked for, overlaps neither a block in use nor a free block, keeps the free list circular and in
  the order of the addresses, and leaves the sizes of the blocks in use alone.
\<close>

theorem malloc_safe:
  assumes "alloc_ok (malloc_init h) as L" "unat nbytes < 2 ^ 31 - 32"
  shows "\<exists>r h'. malloc nbytes h = Some (r, h') \<and>
    (r = 0 \<and> h' = malloc_init h \<and> room h < 16 * max (unat (malloc_units nbytes)) 4096 \<or>
     r \<noteq> 0 \<and> (\<exists>as'. alloc_ok h' as' ((r - 16) # L)) \<and>
     unat nbytes \<le> 16 * (unat (hsize h' (r - 16)) - 1) \<and>
     (\<forall>x \<in> set L. hsize h' x = hsize (malloc_init h) x))"
proof -
  from malloc_spec [OF assms] obtain r h' where m: "malloc nbytes h = Some (r, h')"
    and c: "r = 0 \<and> h' = malloc_init h \<and> room h < 16 * max (unat (malloc_units nbytes)) 4096 \<or>
      served (malloc_units nbytes) (malloc_init h) L r h'" by blast
  show ?thesis
    by (intro exI [of _ r] exI [of _ h']) (use m c malloc_units_spec(3) [OF assms(2)] in \<open>auto simp: served_def\<close>)
qed

text \<open>A heap before the first call, and one with a block of three headers in use at \<open>0x2100\<close>.\<close>

definition fresh_heap :: uheap where
  "fresh_heap = \<lparr>hptr = (\<lambda>_. 0), hsize = (\<lambda>_. 0), freep = 0, base = 0x2000, brk = 0x3000, room = 0x20000\<rparr>"

definition busy_heap :: uheap where
  "busy_heap = \<lparr>hptr = (\<lambda>_. 0x2000), hsize = (\<lambda>_. 0)(0x2100 := 3), freep = 0x2000, base = 0x2000, brk = 0x3000, room = 0x20000\<rparr>"

theorem malloc_safe_witness:
  "alloc_ok (malloc_init fresh_heap) [] [] \<and>
   (\<exists>r h'. malloc 100 fresh_heap = Some (r, h') \<and> r \<noteq> 0 \<and> (\<exists>as'. alloc_ok h' as' [r - 16]) \<and>
     100 \<le> 16 * (unat (hsize h' (r - 16)) - 1))"
proof -
  have ok: "alloc_ok (malloc_init fresh_heap) [] []"
    by (simp add: alloc_ok_def flist_def malloc_init_def fresh_heap_def set_size_def set_ptr_def)
  have "malloc_units 100 = 8" by (simp add: malloc_units_def)
  then have "\<not> room fresh_heap < 16 * max (unat (malloc_units 100)) 4096" by (simp add: fresh_heap_def)
  with malloc_safe [OF ok, of 100] show ?thesis using ok by auto
qed



end
