(* ===== verification/User_Shell.thy ===== *)
theory User_Shell
  imports Xv6_Prelude
begin

unbundle bit_operations_syntax

text \<open>
  The parser of the shell, \<open>user/sh.c\<close>.  It works in place: a command holds pointers into the line, and
  \<open>nulterminate\<close> finally writes the NULs that end the words.  The line is the string \<open>bs\<close> without its
  NUL; a \<open>char *\<close> into it is an index, \<open>es\<close> is \<open>length bs\<close>, and reading at \<open>es\<close> gives NUL.

  The cells of a command come from \<open>malloc\<close> and are only reachable from the command, so a command is
  a tree; the assignments to \<open>cmd->argv[argc]\<close> in \<open>parseexec\<close>, below the redirections collected so far,
  are updates of its innermost node.  A line has at most 99 characters, and the 64 KiB that \<open>malloc\<close>
  obtains first hold the cells of every such line.
\<close>

section \<open>Data\<close>

datatype cmd =
    EXEC "(nat \<times> nat) list"
  | REDIR cmd nat nat int nat
  | PIPE cmd cmd
  | LIST cmd cmd
  | BACK cmd

definition MAXARGS :: nat where "MAXARGS = 10"

abbreviation NUL :: char where "NUL \<equiv> CHR 0x00"

definition whitespace :: string where
  "whitespace = [CHR '' '', CHR 0x09, CHR 0x0D, CHR 0x0A, CHR 0x0B]"

definition symbols :: string where
  "symbols = ''<|>&;()''"

text \<open>Reading through a pointer, and \<open>strchr\<close> as a test; \<open>strchr\<close> does not find NUL.\<close>

definition ch :: "string \<Rightarrow> nat \<Rightarrow> char" where
  "ch bs s = (if s < length bs then bs ! s else NUL)"

definition strchr :: "string \<Rightarrow> char \<Rightarrow> bool" where
  "strchr t c \<longleftrightarrow> c \<noteq> NUL \<and> c \<in> set t"

section \<open>Tokens\<close>

function skip_white :: "string \<Rightarrow> nat \<Rightarrow> nat" where
  "skip_white bs s = (if s < length bs \<and> strchr whitespace (ch bs s) then skip_white bs (s + 1) else s)"
  by auto
termination by (relation "measure (\<lambda>(bs, s). length bs - s)") auto

function skip_word :: "string \<Rightarrow> nat \<Rightarrow> nat" where
  "skip_word bs s =
     (if s < length bs \<and> \<not> strchr whitespace (ch bs s) \<and> \<not> strchr symbols (ch bs s) then skip_word bs (s + 1) else s)"
  by auto
termination by (relation "measure (\<lambda>(bs, s). length bs - s)") auto

declare skip_white.simps [simp del] skip_word.simps [simp del]

text \<open>The kind of the token, its beginning and end, and the position after the white space that follows.\<close>

definition single :: "char \<Rightarrow> bool" where
  "single c \<longleftrightarrow> c \<in> set ''|();&<''"

definition scan_token :: "string \<Rightarrow> nat \<Rightarrow> char \<times> nat" where
  "scan_token bs s =
     (let c = ch bs s in
      if c = NUL then (c, s)
      else if single c then (c, s + 1)
      else if c = CHR ''>'' then (if ch bs (s + 1) = CHR ''>'' then (CHR ''+'', s + 2) else (c, s + 1))
      else (CHR ''a'', skip_word bs s))"

definition gettoken :: "string \<Rightarrow> nat \<Rightarrow> char \<times> nat \<times> nat \<times> nat" where
  "gettoken bs s =
     (let q = skip_white bs s;
          (ret, eq) = scan_token bs q in
      (ret, q, eq, skip_white bs eq))"

definition peek :: "string \<Rightarrow> string \<Rightarrow> nat \<Rightarrow> bool \<times> nat" where
  "peek bs toks s = (let s = skip_white bs s in (ch bs s \<noteq> NUL \<and> strchr toks (ch bs s), s))"

abbreviation after_token :: "string \<Rightarrow> nat \<Rightarrow> nat" where
  "after_token bs s \<equiv> snd (snd (snd (gettoken bs s)))"

section \<open>Commands\<close>

text \<open>A parser ends at a position, or in \<open>panic\<close>, which prints a message and leaves the process.\<close>

datatype 'a parse = Parsed 'a nat | Died string | OutOfFuel

definition bindp :: "'a parse \<Rightarrow> ('a \<Rightarrow> nat \<Rightarrow> 'b parse) \<Rightarrow> 'b parse" where
  "bindp x f = (case x of Parsed a s \<Rightarrow> f a s | Died m \<Rightarrow> Died m | OutOfFuel \<Rightarrow> OutOfFuel)"

lemma bindp_simps [simp]:
  "bindp (Parsed a s) f = f a s" "bindp (Died m) f = Died m" "bindp OutOfFuel f = OutOfFuel"
  by (simp_all add: bindp_def)

lemma skip_white_ge: "s \<le> skip_white bs s"
  by (induction bs s rule: skip_white.induct) (subst skip_white.simps, auto)

lemma skip_white_le: "s \<le> length bs \<Longrightarrow> skip_white bs s \<le> length bs"
  by (induction bs s rule: skip_white.induct) (subst skip_white.simps, auto)

lemma ch_nul: "s \<ge> length bs \<Longrightarrow> ch bs s = NUL"
  by (simp add: ch_def)

lemma skip_white_stops: "\<not> strchr whitespace (ch bs (skip_white bs s))"
proof (induction bs s rule: skip_white.induct)
  case (1 bs s)
  then show ?case
    by (cases "s < length bs \<and> strchr whitespace (ch bs s)")
      (auto simp: skip_white.simps [of bs s] ch_def strchr_def)
qed

text \<open>The characters of a word, and a word of the line: a maximal run of them.\<close>

definition plain :: "char \<Rightarrow> bool" where
  "plain c \<longleftrightarrow> c \<noteq> NUL \<and> \<not> strchr whitespace c \<and> \<not> strchr symbols c"

definition word_at :: "string \<Rightarrow> nat \<times> nat \<Rightarrow> bool" where
  "word_at bs t \<longleftrightarrow> fst t < snd t \<and> snd t \<le> length bs \<and> (\<forall>k \<in> {fst t..<snd t}. plain (ch bs k)) \<and> \<not> plain (ch bs (snd t))"

lemma skip_word_spec:
  "s \<le> skip_word bs s \<and> (s \<le> length bs \<longrightarrow> skip_word bs s \<le> length bs) \<and>
   (NUL \<notin> set bs \<longrightarrow> (\<forall>k \<in> {s..<skip_word bs s}. plain (ch bs k)) \<and> \<not> plain (ch bs (skip_word bs s)))"
proof (induction bs s rule: skip_word.induct)
  case (1 bs s)
  show ?case
  proof (cases "s < length bs \<and> \<not> strchr whitespace (ch bs s) \<and> \<not> strchr symbols (ch bs s)")
    case True
    then have e: "skip_word bs s = skip_word bs (s + 1)" by (simp add: skip_word.simps [of bs s])
    have p: "NUL \<notin> set bs \<longrightarrow> plain (ch bs s)" using True by (auto simp: plain_def ch_def in_set_conv_nth)
    note ih = 1 [OF True]
    have "plain (ch bs k)" if "NUL \<notin> set bs" "k \<in> {s..<skip_word bs (s + 1)}" for k
      using that p ih by (cases "k = s") auto
    with ih True show ?thesis unfolding e by auto
  next
    case False
    then have e: "skip_word bs s = s" by (simp only: skip_word.simps [of bs s] if_False)
    from False have "\<not> plain (ch bs s)" by (auto simp: plain_def ch_def)
    with e show ?thesis by simp
  qed
qed

lemma not_single: "\<not> single c \<Longrightarrow> c \<noteq> CHR ''>'' \<Longrightarrow> \<not> strchr symbols c"
  by (auto simp: single_def strchr_def symbols_def)

lemma scan_token_spec:
  assumes "scan_token bs s = (ret, e)" "s \<le> length bs" "\<not> strchr whitespace (ch bs s)"
  shows "s \<le> e" "e \<le> length bs" "ret \<noteq> NUL \<Longrightarrow> s < e" "ret = NUL \<Longrightarrow> ch bs s = NUL" "NUL \<notin> set bs \<Longrightarrow> ret = CHR ''a'' \<Longrightarrow> word_at bs (s, e)"
proof -
  have n: "ch bs k \<noteq> NUL \<Longrightarrow> k < length bs" for k by (auto simp: ch_def split: if_splits)
  note sw = skip_word_spec [of s bs]
  have w: "s < skip_word bs s" if "ch bs s \<noteq> NUL" "\<not> single (ch bs s)" "ch bs s \<noteq> CHR ''>''"
  proof -
    have "skip_word bs s = skip_word bs (s + 1)"
      using that n [of s] assms(3) not_single by (subst skip_word.simps) simp
    then show ?thesis using skip_word_spec [of "s + 1" bs] by simp
  qed
  have na: "\<not> single (CHR ''a'')" "\<not> single NUL" by (simp_all add: single_def)
  show "s \<le> e" "e \<le> length bs" "ret \<noteq> NUL \<Longrightarrow> s < e" "ret = NUL \<Longrightarrow> ch bs s = NUL" "NUL \<notin> set bs \<Longrightarrow> ret = CHR ''a'' \<Longrightarrow> word_at bs (s, e)"
    using assms(1,2) n [of s] n [of "s + 1"] sw w na
    by (auto simp: scan_token_def Let_def word_at_def split: if_splits)
qed

lemma gettoken_spec:
  assumes "gettoken bs s = (ret, q, e, s')" "s \<le> length bs"
  shows "s \<le> s'" "s' \<le> length bs" "ret \<noteq> NUL \<Longrightarrow> s < s'" "NUL \<notin> set bs \<Longrightarrow> ret = CHR ''a'' \<Longrightarrow> word_at bs (q, e)"
proof -
  from assms(1) have q: "q = skip_white bs s" "scan_token bs q = (ret, e)" "s' = skip_white bs e"
    by (auto simp: gettoken_def Let_def split: prod.splits)
  have "q \<le> length bs" "\<not> strchr whitespace (ch bs q)" "s \<le> q"
    unfolding q(1) using skip_white_le [OF assms(2)] skip_white_stops skip_white_ge by auto
  from scan_token_spec [OF q(2) this(1,2)] this(3) skip_white_ge [of e bs] skip_white_le [of e bs]
  show "s \<le> s'" "s' \<le> length bs" "ret \<noteq> NUL \<Longrightarrow> s < s'" "NUL \<notin> set bs \<Longrightarrow> ret = CHR ''a'' \<Longrightarrow> word_at bs (q, e)"
    unfolding q(3) by auto
qed

lemma peek_spec:
  assumes "peek bs toks s = (b, s')" "s \<le> length bs"
  shows "s \<le> s'" "s' \<le> length bs" "b \<Longrightarrow> s' < length bs" "b \<Longrightarrow> strchr toks (ch bs s')" "\<not> strchr whitespace (ch bs s')"
  using assms skip_white_ge [of s bs] skip_white_le [of s bs] skip_white_stops [of bs s]
  by (auto simp: peek_def Let_def ch_def split: if_splits)


lemma peek_bound: "peek bs toks s = (True, s') \<Longrightarrow> s \<le> s' \<and> s' < length bs \<and> s' < after_token bs s'"
proof -
  assume p: "peek bs toks s = (True, s')"
  then have s': "s' = skip_white bs s" "ch bs s' \<noteq> NUL" "\<not> strchr whitespace (ch bs s')"
    using skip_white_stops by (auto simp: peek_def Let_def)
  then have l: "s' < length bs" "s \<le> s'" using skip_white_ge by (auto simp: ch_def split: if_splits)
  obtain ret q e s2 where g: "gettoken bs s' = (ret, q, e, s2)" by (metis prod_cases4)
  have "skip_white bs s' = s'" using s'(3) by (simp add: skip_white.simps [of bs s'])
  then have "scan_token bs s' = (ret, e)" using g by (auto simp: gettoken_def Let_def split: prod.splits)
  from scan_token_spec(4) [OF this _ s'(3)] s'(2) l have "ret \<noteq> NUL" by auto
  with gettoken_spec(3) [OF g] l g show ?thesis by auto
qed

lemma bindp_cong [fundef_cong]:
  "x = y \<Longrightarrow> (\<And>a s. y = Parsed a s \<Longrightarrow> f a s = g a s) \<Longrightarrow> bindp x f = bindp y g"
  by (cases y) auto

lemma redirs_step:
  assumes "peek bs toks s = (True, s1)" "gettoken bs s1 = (tok, q1, e1, s2)" "gettoken bs s2 = (CHR ''a'', q, e, s3)"
  shows "length bs - s3 < length bs - s"
  using peek_bound [OF assms(1)] gettoken_spec [OF assms(2)] gettoken_spec [OF assms(3)] by auto

function parseredirs :: "string \<Rightarrow> cmd \<Rightarrow> nat \<Rightarrow> cmd parse" where
  "parseredirs bs cmd s =
     (case peek bs ''<>'' s of (b, s) \<Rightarrow>
      if \<not> b then Parsed cmd s
      else case gettoken bs s of (tok, _, _, s) \<Rightarrow>
           case gettoken bs s of (tok', q, eq, s) \<Rightarrow>
           if tok' \<noteq> CHR ''a'' then Died ''missing file for redirection''
           else parseredirs bs
             (if tok = CHR ''<'' then REDIR cmd q eq O_RDONLY 0
              else if tok = CHR ''>'' then REDIR cmd q eq (O_WRONLY OR O_CREATE OR O_TRUNC) 1
              else if tok = CHR ''+'' then REDIR cmd q eq (O_WRONLY OR O_CREATE) 1
              else cmd) s)"
  by auto
termination by (relation "measure (\<lambda>(bs, cmd, s). length bs - s)") (auto dest: redirs_step [OF sym sym sym])

declare parseredirs.simps [simp del]

text \<open>The cell that \<open>parseexec\<close> fills: the innermost node, below the redirections.\<close>

primrec add_arg :: "nat \<times> nat \<Rightarrow> cmd \<Rightarrow> cmd" where
  "add_arg t (EXEC ts) = EXEC (ts @ [t])"
| "add_arg t (REDIR c q e m fd) = REDIR (add_arg t c) q e m fd"
| "add_arg t (PIPE l r) = PIPE l r"
| "add_arg t (LIST l r) = LIST l r"
| "add_arg t (BACK c) = BACK c"

text \<open>
  The words of a command, the number of arguments of its innermost node, and what holds of the
  numbers in every command that is parsed.
\<close>

primrec words :: "cmd \<Rightarrow> (nat \<times> nat) list" where
  "words (EXEC ts) = ts"
| "words (REDIR c q e m fd) = words c @ [(q, e)]"
| "words (PIPE l r) = words l @ words r"
| "words (LIST l r) = words l @ words r"
| "words (BACK c) = words c"

primrec nargs :: "cmd \<Rightarrow> nat" where
  "nargs (EXEC ts) = length ts"
| "nargs (REDIR c q e m fd) = nargs c"
| "nargs (PIPE l r) = 0"
| "nargs (LIST l r) = 0"
| "nargs (BACK c) = 0"

primrec args_fit :: "cmd \<Rightarrow> bool" where
  "args_fit (EXEC ts) \<longleftrightarrow> length ts < MAXARGS"
| "args_fit (REDIR c q e m fd) \<longleftrightarrow> args_fit c"
| "args_fit (PIPE l r) \<longleftrightarrow> args_fit l \<and> args_fit r"
| "args_fit (LIST l r) \<longleftrightarrow> args_fit l \<and> args_fit r"
| "args_fit (BACK c) \<longleftrightarrow> args_fit c"

primrec redirs_low :: "cmd \<Rightarrow> bool" where
  "redirs_low (EXEC ts) \<longleftrightarrow> True"
| "redirs_low (REDIR c q e m fd) \<longleftrightarrow> redirs_low c \<and> fd < 2"
| "redirs_low (PIPE l r) \<longleftrightarrow> redirs_low l \<and> redirs_low r"
| "redirs_low (LIST l r) \<longleftrightarrow> redirs_low l \<and> redirs_low r"
| "redirs_low (BACK c) \<longleftrightarrow> redirs_low c"

definition cmd_ok :: "string \<Rightarrow> cmd \<Rightarrow> bool" where
  "cmd_ok bs c \<longleftrightarrow> (NUL \<notin> set bs \<longrightarrow> (\<forall>t \<in> set (words c). word_at bs t)) \<and> args_fit c \<and> redirs_low c"

lemma cmd_ok_simps [simp]:
  "cmd_ok bs (PIPE l r) \<longleftrightarrow> cmd_ok bs l \<and> cmd_ok bs r" "cmd_ok bs (LIST l r) \<longleftrightarrow> cmd_ok bs l \<and> cmd_ok bs r"
  "cmd_ok bs (BACK c) \<longleftrightarrow> cmd_ok bs c" "cmd_ok bs (EXEC [])"
  "cmd_ok bs (REDIR c q e m fd) \<longleftrightarrow> cmd_ok bs c \<and> fd < 2 \<and> (NUL \<notin> set bs \<longrightarrow> word_at bs (q, e))"
  by (auto simp: cmd_ok_def MAXARGS_def)

lemma nargs_add_arg: "nargs (add_arg t c) \<le> nargs c + 1"
  by (induction c) auto

lemma words_add_arg: "set (words (add_arg t c)) \<subseteq> insert t (set (words c))"
  by (induction c) auto

lemma args_fit_add_arg: "args_fit c \<Longrightarrow> nargs c + 1 < MAXARGS \<Longrightarrow> args_fit (add_arg t c)"
  by (induction c) auto

lemma redirs_low_add_arg: "redirs_low c \<Longrightarrow> redirs_low (add_arg t c)"
  by (induction c) auto

lemma cmd_ok_add_arg:
  "cmd_ok bs c \<Longrightarrow> nargs c + 1 < MAXARGS \<Longrightarrow> (NUL \<notin> set bs \<Longrightarrow> word_at bs t) \<Longrightarrow> cmd_ok bs (add_arg t c)"
  using words_add_arg [of t c] by (auto simp: cmd_ok_def args_fit_add_arg redirs_low_add_arg)

lemma parseredirs_spec:
  assumes "parseredirs bs cmd s = r" "s \<le> length bs"
  shows "r \<noteq> OutOfFuel \<and> (\<forall>cmd' s'. r = Parsed cmd' s' \<longrightarrow>
    s \<le> s' \<and> s' \<le> length bs \<and> nargs cmd' = nargs cmd \<and> (cmd_ok bs cmd \<longrightarrow> cmd_ok bs cmd'))"
  using assms
proof (induction bs cmd s rule: parseredirs.induct)
  case (1 bs cmd s)
  obtain b s1 where p: "peek bs ''<>'' s = (b, s1)" by fastforce
  note pb = peek_spec [OF p 1(3)]
  show ?case
  proof (cases b)
    case False
    then show ?thesis using 1(2) p pb by (auto simp: parseredirs.simps [of bs cmd s])
  next
    case True
    obtain tok q1 e1 s2 where g1: "gettoken bs s1 = (tok, q1, e1, s2)" by (metis prod_cases4)
    obtain tok' q e s3 where g2: "gettoken bs s2 = (tok', q, e, s3)" by (metis prod_cases4)
    have b: "s1 \<le> s2" "s2 \<le> s3" "s3 \<le> length bs" using gettoken_spec [OF g1] gettoken_spec [OF g2] pb by auto
    show ?thesis
    proof (cases "tok' = CHR ''a''")
      case a: True
      then have w: "NUL \<notin> set bs \<Longrightarrow> word_at bs (q, e)" using gettoken_spec(4) [OF g2] b by simp
      let ?c = "if tok = CHR ''<'' then REDIR cmd q e O_RDONLY 0
              else if tok = CHR ''>'' then REDIR cmd q e (O_WRONLY OR O_CREATE OR O_TRUNC) 1
              else if tok = CHR ''+'' then REDIR cmd q e (O_WRONLY OR O_CREATE) 1
              else cmd"
      have "parseredirs bs ?c s3 = r" using 1(2) True a p g1 g2 by (simp add: parseredirs.simps [of bs cmd s])
      from 1(1) [OF p [symmetric] _ g1 [symmetric] refl refl g2 [symmetric] refl refl _ this b(3)] True a
      have "r \<noteq> OutOfFuel \<and> (\<forall>cmd' s'. r = Parsed cmd' s' \<longrightarrow>
        s3 \<le> s' \<and> s' \<le> length bs \<and> nargs cmd' = nargs ?c \<and> (cmd_ok bs ?c \<longrightarrow> cmd_ok bs cmd'))" by blast
      moreover have "nargs ?c = nargs cmd" "cmd_ok bs cmd \<Longrightarrow> cmd_ok bs ?c" using w by auto
      ultimately show ?thesis using b pb by auto
    next
      case False
      then show ?thesis using 1(2) True p g1 g2 by (auto simp: parseredirs.simps [of bs cmd s])
    qed
  qed
qed

lemma exec_step:
  assumes "peek bs toks s = (False, s1)" "gettoken bs s1 = (CHR ''a'', q, e, s2)" "parseredirs bs c s2 = Parsed c' s3"
  shows "length bs - s3 < length bs - s"
proof -
  have s1: "s \<le> s1" using assms(1) skip_white_ge [of s bs] by (auto simp: peek_def Let_def)
  have "s1 < length bs"
  proof (rule ccontr)
    assume "\<not> s1 < length bs"
    then have "skip_white bs s1 = s1" "ch bs s1 = NUL" by (simp_all add: skip_white.simps [of bs s1] ch_def)
    then show False using assms(2) by (simp add: gettoken_def scan_token_def Let_def)
  qed
  with gettoken_spec [OF assms(2)] have "s1 < s2" "s2 \<le> length bs" by auto
  with parseredirs_spec [OF assms(3)] s1 show ?thesis by auto
qed

function parseexec_loop :: "string \<Rightarrow> nat \<Rightarrow> cmd \<Rightarrow> nat \<Rightarrow> cmd parse" where
  "parseexec_loop bs argc ret s =
     (case peek bs ''|)&;'' s of (b, s) \<Rightarrow>
      if b then Parsed ret s
      else case gettoken bs s of (tok, q, eq, s) \<Rightarrow>
           if tok = NUL then Parsed ret s
           else if tok \<noteq> CHR ''a'' then Died ''syntax''
           else if argc + 1 \<ge> MAXARGS then Died ''too many args''
           else bindp (parseredirs bs (add_arg (q, eq) ret) s) (\<lambda>ret s. parseexec_loop bs (argc + 1) ret s))"
  by auto
termination by (relation "measure (\<lambda>(bs, argc, ret, s). length bs - s)") (auto dest: exec_step [OF sym sym])

function parse_backs :: "string \<Rightarrow> cmd \<Rightarrow> nat \<Rightarrow> cmd \<times> nat" where
  "parse_backs bs cmd s =
     (case peek bs ''&'' s of (b, s) \<Rightarrow>
      if b then parse_backs bs (BACK cmd) (after_token bs s) else (cmd, s))"
  by auto
termination
  by (relation "measure (\<lambda>(bs, cmd, s). length bs - s)")
    (auto dest!: peek_bound [OF sym] intro!: diff_less_mono2)

declare parseexec_loop.simps [simp del] parse_backs.simps [simp del]

text \<open>
  The recursive descent.  \<open>fuel\<close> bounds the depth of the calls; four calls per character of the line
  are enough, since every cycle of calls consumes one.
\<close>

fun parseline :: "nat \<Rightarrow> string \<Rightarrow> nat \<Rightarrow> cmd parse"
  and parsepipe :: "nat \<Rightarrow> string \<Rightarrow> nat \<Rightarrow> cmd parse"
  and parseexec :: "nat \<Rightarrow> string \<Rightarrow> nat \<Rightarrow> cmd parse"
  and parseblock :: "nat \<Rightarrow> string \<Rightarrow> nat \<Rightarrow> cmd parse" where
  "parseline 0 bs s = OutOfFuel"
| "parseline (Suc fuel) bs s =
     bindp (parsepipe fuel bs s) (\<lambda>cmd s.
     case parse_backs bs cmd s of (cmd, s) \<Rightarrow>
     case peek bs '';'' s of (b, s) \<Rightarrow>
     if b then bindp (parseline fuel bs (after_token bs s)) (\<lambda>r s. Parsed (LIST cmd r) s)
     else Parsed cmd s)"
| "parsepipe 0 bs s = OutOfFuel"
| "parsepipe (Suc fuel) bs s =
     bindp (parseexec fuel bs s) (\<lambda>cmd s.
     case peek bs ''|'' s of (b, s) \<Rightarrow>
     if b then bindp (parsepipe fuel bs (after_token bs s)) (\<lambda>r s. Parsed (PIPE cmd r) s)
     else Parsed cmd s)"
| "parseexec 0 bs s = OutOfFuel"
| "parseexec (Suc fuel) bs s =
     (case peek bs ''('' s of (b, s) \<Rightarrow>
      if b then parseblock fuel bs s
      else bindp (parseredirs bs (EXEC []) s) (\<lambda>ret s. parseexec_loop bs 0 ret s))"
| "parseblock 0 bs s = OutOfFuel"
| "parseblock (Suc fuel) bs s =
     (case peek bs ''('' s of (b, s) \<Rightarrow>
      if \<not> b then Died ''parseblock''
      else bindp (parseline fuel bs (after_token bs s)) (\<lambda>cmd s.
           case peek bs '')'' s of (b, s) \<Rightarrow>
           if \<not> b then Died ''syntax - missing )''
           else parseredirs bs cmd (after_token bs s)))"

section \<open>Terminating the words\<close>

primrec nulterminate :: "cmd \<Rightarrow> string \<Rightarrow> string" where
  "nulterminate (EXEC ts) buf = foldl (\<lambda>buf t. buf[snd t := NUL]) buf ts"
| "nulterminate (REDIR c q e m fd) buf = (nulterminate c buf)[e := NUL]"
| "nulterminate (PIPE l r) buf = nulterminate r (nulterminate l buf)"
| "nulterminate (LIST l r) buf = nulterminate r (nulterminate l buf)"
| "nulterminate (BACK c) buf = nulterminate c buf"

text \<open>
  \<open>parsecmd\<close> of a buffer gives the command together with the changed buffer, or the text that \<open>panic\<close>
  writes before the process exits with status 1.
\<close>

definition FUEL :: "string \<Rightarrow> nat" where
  "FUEL bs = 4 * length bs + 4"

definition parsecmd :: "string \<Rightarrow> (string + cmd \<times> string) option" where
  "parsecmd buf =
     (let bs = takeWhile (\<lambda>c. c \<noteq> NUL) buf in
      case parseline (FUEL bs) bs 0 of
        OutOfFuel \<Rightarrow> None
      | Died m \<Rightarrow> Some (Inl (m @ ''\<newline>''))
      | Parsed cmd s \<Rightarrow>
          (case peek bs [] s of (_, s) \<Rightarrow>
           if s \<noteq> length bs then Some (Inl (''leftovers: '' @ drop s bs @ ''\<newline>'' @ ''syntax\<newline>''))
           else Some (Inr (cmd, nulterminate cmd buf))))"


section \<open>The parser returns, and its pointers delimit words\<close>

definition good :: "string \<Rightarrow> nat \<Rightarrow> cmd parse \<Rightarrow> bool" where
  "good bs s r \<longleftrightarrow> (case r of Parsed c s' \<Rightarrow> s \<le> s' \<and> s' \<le> length bs \<and> cmd_ok bs c | Died _ \<Rightarrow> True | OutOfFuel \<Rightarrow> False)"

lemma good_simps [simp]:
  "good bs s (Parsed c s') \<longleftrightarrow> s \<le> s' \<and> s' \<le> length bs \<and> cmd_ok bs c" "good bs s (Died m)" "\<not> good bs s OutOfFuel"
  by (simp_all add: good_def)

lemma good_mono: "good bs s' r \<Longrightarrow> s \<le> s' \<Longrightarrow> good bs s r"
  by (cases r) auto

lemma good_bind:
  assumes "good bs s x" "\<And>c s'. x = Parsed c s' \<Longrightarrow> s \<le> s' \<Longrightarrow> s' \<le> length bs \<Longrightarrow> cmd_ok bs c \<Longrightarrow> good bs s' (f c s')"
  shows "good bs s (bindp x f)"
  using assms by (cases x) (auto intro: good_mono)

lemma parseredirs_good: "s \<le> length bs \<Longrightarrow> cmd_ok bs c \<Longrightarrow> good bs s (parseredirs bs c s)"
proof -
  assume a: "s \<le> length bs" "cmd_ok bs c"
  obtain r where r: "parseredirs bs c s = r" by simp
  show ?thesis unfolding r using parseredirs_spec [OF r a(1)] a(2) by (cases r) simp_all
qed

lemma parseexec_loop_good:
  "s \<le> length bs \<Longrightarrow> cmd_ok bs c \<Longrightarrow> nargs c \<le> argc \<Longrightarrow> good bs s (parseexec_loop bs argc c s)"
proof (induction bs argc c s rule: parseexec_loop.induct)
  case (1 bs argc ret s)
  obtain b s1 where p: "peek bs ''|)&;'' s = (b, s1)" by fastforce
  note pb = peek_spec [OF p 1(2)]
  obtain tok q e s2 where g: "gettoken bs s1 = (tok, q, e, s2)" by (metis prod_cases4)
  note gb = gettoken_spec [OF g pb(2)]
  have step: "parseexec_loop bs argc ret s =
     (if b then Parsed ret s1 else if tok = NUL then Parsed ret s2 else if tok \<noteq> CHR ''a'' then Died ''syntax''
      else if argc + 1 \<ge> MAXARGS then Died ''too many args''
      else bindp (parseredirs bs (add_arg (q, e) ret) s2) (\<lambda>ret s. parseexec_loop bs (argc + 1) ret s))"
    by (subst parseexec_loop.simps) (simp only: p g prod.case)
  show ?case
  proof (cases "\<not> b \<and> tok = CHR ''a'' \<and> argc + 1 < MAXARGS")
    case False
    then show ?thesis using 1(3) pb gb unfolding step by auto
  next
    case True
    then have w: "NUL \<notin> set bs \<Longrightarrow> word_at bs (q, e)" using gb(4) by simp
    have c: "cmd_ok bs (add_arg (q, e) ret)" using True 1(3,4) w by (intro cmd_ok_add_arg) auto
    have e: "parseexec_loop bs argc ret s =
        bindp (parseredirs bs (add_arg (q, e) ret) s2) (\<lambda>ret s. parseexec_loop bs (argc + 1) ret s)"
      using True unfolding step by simp
    have "good bs s2 (parseexec_loop bs argc ret s)" unfolding e
    proof (rule good_bind)
      show "good bs s2 (parseredirs bs (add_arg (q, e) ret) s2)" using parseredirs_good [OF gb(2) c] .
      show "good bs s' (parseexec_loop bs (argc + 1) c' s')"
        if r: "parseredirs bs (add_arg (q, e) ret) s2 = Parsed c' s'" "s' \<le> length bs" "cmd_ok bs c'" for c' s'
      proof (rule 1(1) [OF p [symmetric] _ g [symmetric] refl refl _ _ _ r])
        show "nargs c' \<le> argc + 1"
          using parseredirs_spec [OF r(1) gb(2)] nargs_add_arg [of "(q, e)" ret] 1(4) by simp
      qed (use True in auto)
    qed
    then show ?thesis using good_mono pb gb by (meson order_trans)
  qed
qed

lemma parse_backs_good:
  "s \<le> length bs \<Longrightarrow> cmd_ok bs c \<Longrightarrow> parse_backs bs c s = (c', s') \<Longrightarrow> s \<le> s' \<and> s' \<le> length bs \<and> cmd_ok bs c'"
proof (induction bs c s rule: parse_backs.induct)
  case (1 bs c s)
  obtain b s1 where p: "peek bs ''&'' s = (b, s1)" by fastforce
  note pb = peek_spec [OF p 1(2)]
  show ?case
  proof (cases b)
    case True
    obtain tok q e s2 where g: "gettoken bs s1 = (tok, q, e, s2)" by (metis prod_cases4)
    have "parse_backs bs (BACK c) s2 = (c', s')" using 1(4) p g True by (simp add: parse_backs.simps [of bs c s])
    then show ?thesis using 1(1) [OF p [symmetric] True] 1(3) g gettoken_spec [OF g pb(2)] pb by auto
  next
    case False
    then show ?thesis using 1(3,4) p pb by (simp add: parse_backs.simps [of bs c s])
  qed
qed

text \<open>Reading the token that \<open>peek\<close> has seen consumes a character.\<close>

lemma peek_then_token:
  assumes "peek bs toks s = (True, s1)"
  shows "s < after_token bs s1" "after_token bs s1 \<le> length bs"
proof -
  obtain tok q e s2 where g: "gettoken bs s1 = (tok, q, e, s2)" by (metis prod_cases4)
  then show "s < after_token bs s1" "after_token bs s1 \<le> length bs"
    using peek_bound [OF assms] gettoken_spec [OF g] by auto
qed

lemma parsers_good:
  shows "s \<le> length bs \<Longrightarrow> 4 * (length bs - s) + 4 \<le> fuel \<Longrightarrow> good bs s (parseline fuel bs s)"
    and "s \<le> length bs \<Longrightarrow> 4 * (length bs - s) + 3 \<le> fuel \<Longrightarrow> good bs s (parsepipe fuel bs s)"
    and "s \<le> length bs \<Longrightarrow> 4 * (length bs - s) + 2 \<le> fuel \<Longrightarrow> good bs s (parseexec fuel bs s)"
    and "s \<le> length bs \<Longrightarrow> 4 * (length bs - s) + 1 \<le> fuel \<Longrightarrow> good bs s (parseblock fuel bs s)"
proof (induction fuel arbitrary: s)
  case (Suc k)
  note line = Suc.IH(1) and pipe = Suc.IH(2) and ex = Suc.IH(3) and block = Suc.IH(4)
  { case 1
    have "good bs s (parsepipe k bs s)" using pipe 1 by simp
    then show ?case unfolding parseline.simps
    proof (rule good_bind)
      fix c s1 assume c: "s \<le> s1" "s1 \<le> length bs" "cmd_ok bs c"
      obtain c2 s2 where b: "parse_backs bs c s1 = (c2, s2)" by fastforce
      obtain t s3 where p: "peek bs '';'' s2 = (t, s3)" by fastforce
      note bb = parse_backs_good [OF c(2,3) b]
      note pb = peek_spec [OF p, simplified bb]
      have "good bs (after_token bs s3) (parseline k bs (after_token bs s3))" if t
        using that 1 c bb peek_then_token [of bs "'';''" s2 s3] p by (intro line) auto
      then have "good bs s1 (bindp (parseline k bs (after_token bs s3)) (\<lambda>r s. Parsed (LIST c2 r) s))" if t
        using that c bb peek_then_token [of bs "'';''" s2 s3] p by (intro good_mono [OF good_bind]) auto
      then show "good bs s1 (case parse_backs bs c s1 of (cmd, s) \<Rightarrow> case peek bs '';'' s of (b, s) \<Rightarrow>
          if b then bindp (parseline k bs (after_token bs s)) (\<lambda>r s. Parsed (LIST cmd r) s) else Parsed cmd s)"
        using b p bb pb by auto
    qed
  next
    case 2
    have "good bs s (parseexec k bs s)" using ex 2 by simp
    then show ?case unfolding parsepipe.simps
    proof (rule good_bind)
      fix c s2 assume c: "s \<le> s2" "s2 \<le> length bs" "cmd_ok bs c"
      obtain t s3 where p: "peek bs ''|'' s2 = (t, s3)" by fastforce
      note pb = peek_spec [OF p, simplified c]
      have "good bs (after_token bs s3) (parsepipe k bs (after_token bs s3))" if t
        using that 2 c peek_then_token [of bs "''|''" s2 s3] p by (intro pipe) auto
      then have "good bs s2 (bindp (parsepipe k bs (after_token bs s3)) (\<lambda>r s. Parsed (PIPE c r) s))" if t
        using that c peek_then_token [of bs "''|''" s2 s3] p by (intro good_mono [OF good_bind]) auto
      then show "good bs s2 (case peek bs ''|'' s2 of (b, s) \<Rightarrow>
          if b then bindp (parsepipe k bs (after_token bs s)) (\<lambda>r s. Parsed (PIPE c r) s) else Parsed c s)"
        using p c pb by auto
    qed
  next
    case 3
    obtain t s1 where p: "peek bs ''('' s = (t, s1)" by fastforce
    note pb = peek_spec [OF p 3(1)]
    have "good bs s1 (parseblock k bs s1)" using 3 pb by (intro block) auto
    moreover have "good bs s1 (bindp (parseredirs bs (EXEC []) s1) (\<lambda>ret s. parseexec_loop bs 0 ret s))"
    proof (rule good_bind)
      show "good bs s1 (parseredirs bs (EXEC []) s1)" using pb by (intro parseredirs_good) auto
      show "good bs s' (parseexec_loop bs 0 c s')"
        if "parseredirs bs (EXEC []) s1 = Parsed c s'" "s' \<le> length bs" "cmd_ok bs c" for c s'
        using that parseredirs_spec [OF that(1)] pb by (intro parseexec_loop_good) auto
    qed
    ultimately show ?case using p pb(1) by (auto intro: good_mono)
  next
    case 4
    obtain t s1 where p: "peek bs ''('' s = (t, s1)" by fastforce
    show ?case
    proof (cases t)
      case True
      note pt = peek_then_token [of bs "''(''" s s1, unfolded p, simplified True, OF refl]
      have "good bs (after_token bs s1) (parseline k bs (after_token bs s1))" using 4 pt by (intro line) auto
      then have "good bs (after_token bs s1) (bindp (parseline k bs (after_token bs s1)) (\<lambda>cmd s.
           case peek bs '')'' s of (b, s) \<Rightarrow>
           if \<not> b then Died ''syntax - missing )'' else parseredirs bs cmd (after_token bs s)))"
      proof (rule good_bind)
        fix c s2 assume c: "s2 \<le> length bs" "cmd_ok bs c"
        obtain u s3 where q: "peek bs '')'' s2 = (u, s3)" by fastforce
        have "good bs s2 (parseredirs bs c (after_token bs s3))" if u
          using that c peek_then_token [of bs "'')''" s2 s3] q by (intro good_mono [OF parseredirs_good]) auto
        then show "good bs s2 (case peek bs '')'' s2 of (b, s) \<Rightarrow>
           if \<not> b then Died ''syntax - missing )'' else parseredirs bs c (after_token bs s))"
          using q by auto
      qed
      then show ?thesis using p True pt(1) by (auto intro: good_mono [OF _ less_imp_le])
    qed (simp add: p)
  }
qed simp_all


section \<open>Terminating the words does not damage them\<close>

text \<open>The C string at a pointer into the buffer, and the word before it is terminated.\<close>

definition cstring :: "string \<Rightarrow> nat \<Rightarrow> string" where
  "cstring buf q = takeWhile (\<lambda>c. c \<noteq> NUL) (drop q buf)"

definition slice :: "string \<Rightarrow> nat \<times> nat \<Rightarrow> string" where
  "slice bs t = take (snd t - fst t) (drop (fst t) bs)"

lemma foldl_nul:
  "length (foldl (\<lambda>buf t. buf[snd t := NUL]) buf ts) = length buf \<and>
   (\<forall>k < length buf. foldl (\<lambda>buf t. buf[snd t := NUL]) buf ts ! k = (if k \<in> snd ` set ts then NUL else buf ! k))"
  by (induction ts arbitrary: buf) (auto simp: nth_list_update)

lemma nth_update_nul: "k < length xs \<Longrightarrow> xs[e := NUL] ! k = (if k = e then NUL else xs ! k)"
  by simp

lemma nulterminate_nth:
  "length (nulterminate c buf) = length buf \<and>
   (\<forall>k < length buf. nulterminate c buf ! k = (if k \<in> snd ` set (words c) then NUL else buf ! k))"
proof (induction c arbitrary: buf)
  case (REDIR c q e m fd)
  then show ?case by (auto simp: nth_update_nul simp del: nth_list_update)
qed (simp_all add: foldl_nul image_Un)

text \<open>The line is the part of the buffer before the first NUL.\<close>

definition line_of :: "string \<Rightarrow> string" where
  "line_of buf = takeWhile (\<lambda>c. c \<noteq> NUL) buf"

lemma line_of_buf:
  assumes "NUL \<in> set buf"
  shows "length (line_of buf) < length buf" "buf ! length (line_of buf) = NUL" "NUL \<notin> set (line_of buf)"
    "k < length (line_of buf) \<Longrightarrow> buf ! k = line_of buf ! k"
proof -
  show l: "length (line_of buf) < length buf" unfolding line_of_def
    using assms by (induction buf) auto
  show "buf ! length (line_of buf) = NUL" using nth_length_takeWhile [of "\<lambda>c. c \<noteq> NUL" buf] l by (simp add: line_of_def)
  show "NUL \<notin> set (line_of buf)" unfolding line_of_def by (auto dest: set_takeWhileD)
  show "k < length (line_of buf) \<Longrightarrow> buf ! k = line_of buf ! k" by (simp add: line_of_def takeWhile_nth)
qed

lemma cstring_eqI:
  assumes "q \<le> e" "e < length buf" "\<And>k. q \<le> k \<Longrightarrow> k < e \<Longrightarrow> buf ! k \<noteq> NUL" "buf ! e = NUL"
  shows "cstring buf q = take (e - q) (drop q buf)"
  unfolding cstring_def
  by (rule takeWhile_eq_take_P_nth) (use assms in \<open>auto simp: min_def\<close>)

text \<open>
  A NUL is only ever written where a word ends, and no word contains the end of another: the ends are
  not characters of words.
\<close>

lemma words_survive:
  assumes nul: "NUL \<in> set buf" and ok: "cmd_ok (line_of buf) c" and t: "(q, e) \<in> set (words c)"
  shows "cstring (nulterminate c buf) q = slice (line_of buf) (q, e)"
proof -
  let ?bs = "line_of buf" and ?buf = "nulterminate c buf"
  note lb = line_of_buf [OF nul]
  have w: "\<forall>t \<in> set (words c). word_at ?bs t" using ok lb(3) by (simp add: cmd_ok_def)
  then have q: "q < e" "e \<le> length ?bs" "\<And>k. q \<le> k \<Longrightarrow> k < e \<Longrightarrow> plain (?bs ! k)"
    using t by (force simp: word_at_def ch_def)+
  have keep: "?buf ! k = ?bs ! k \<and> ?bs ! k \<noteq> NUL" if "q \<le> k" "k < e" for k
  proof -
    have p: "plain (ch ?bs k)" using q that by (simp add: ch_def)
    then have "k \<notin> snd ` set (words c)" using w by (auto simp: word_at_def)
    then show ?thesis using nulterminate_nth [of c buf] that q lb(1,4) p by (auto simp: plain_def ch_def)
  qed
  have "?buf ! e = NUL" using nulterminate_nth [of c buf] t q(2) lb(1) by (metis image_eqI le_less_trans snd_conv)
  then have "cstring ?buf q = take (e - q) (drop q ?buf)"
    using q(1,2) lb(1) nulterminate_nth [of c buf] keep by (intro cstring_eqI) auto
  also have "\<dots> = slice ?bs (q, e)"
    using q(1,2) lb(1) nulterminate_nth [of c buf] keep by (auto simp: slice_def intro!: nth_equalityI)
  finally show ?thesis .
qed

lemma parsecmd_unfold:
  "parsecmd buf =
     (let bs = line_of buf in
      case parseline (FUEL bs) bs 0 of
        OutOfFuel \<Rightarrow> None
      | Died m \<Rightarrow> Some (Inl (m @ ''\<newline>''))
      | Parsed cmd s \<Rightarrow>
          (case peek bs [] s of (_, s) \<Rightarrow>
           if s \<noteq> length bs then Some (Inl (''leftovers: '' @ drop s bs @ ''\<newline>'' @ ''syntax\<newline>''))
           else Some (Inr (cmd, nulterminate cmd buf))))"
  by (simp add: parsecmd_def line_of_def)

lemma parsecmd_spec:
  "parsecmd buf \<noteq> None \<and> (\<forall>c b. parsecmd buf = Some (Inr (c, b)) \<longrightarrow> cmd_ok (line_of buf) c \<and> b = nulterminate c buf)"
proof -
  let ?bs = "line_of buf"
  obtain r where r: "parseline (FUEL ?bs) ?bs 0 = r" by simp
  have "good ?bs 0 r" unfolding r [symmetric] by (rule parsers_good(1)) (simp_all add: FUEL_def)
  then show ?thesis unfolding parsecmd_unfold Let_def r by (cases r) (auto split: prod.splits)
qed


section \<open>Properties\<close>

text \<open>
  C31: whatever is typed, \<open>parsecmd\<close> returns a command or ends in one of its messages; the depth of the
  recursive descent is bounded by four times the length of the line.
\<close>

theorem parsecmd_returns:
  "(\<exists>m. parsecmd buf = Some (Inl m)) \<or> (\<exists>c buf'. parsecmd buf = Some (Inr (c, buf')) \<and> length buf' = length buf)"
proof (cases "parsecmd buf")
  case (Some r)
  then show ?thesis using parsecmd_spec [of buf] nulterminate_nth by (cases r) auto
qed (use parsecmd_spec [of buf] in blast)

text \<open>
  C30: in a parsed command every pointer is the beginning of a word of the line, made of ordinary
  characters only, and after the NULs have been written the C string there is exactly this word: no
  word loses its end to another.  No command has more arguments than \<open>argv\<close> has room for, with its
  final null pointer.
\<close>

theorem parsecmd_words:
  assumes "NUL \<in> set buf" "parsecmd buf = Some (Inr (c, buf'))"
  shows "args_fit c \<and> (\<forall>t \<in> set (words c). word_at (line_of buf) t \<and> cstring buf' (fst t) = slice (line_of buf) t)"
proof (intro conjI ballI)
  have c: "cmd_ok (line_of buf) c" "buf' = nulterminate c buf" using parsecmd_spec [of buf] assms(2) by blast+
  then show "args_fit c" by (simp add: cmd_ok_def)
  fix t assume t: "t \<in> set (words c)"
  then show "word_at (line_of buf) t" using c(1) line_of_buf(3) [OF assms(1)] by (simp add: cmd_ok_def)
  show "cstring buf' (fst t) = slice (line_of buf) t"
    using words_survive [OF assms(1) c(1), of "fst t" "snd t"] t c(2) by simp
qed

theorem parsecmd_words_witness:
  "\<exists>c buf'. parsecmd (''a>b'' @ [NUL]) = Some (Inr (c, buf')) \<and> words c = [(0, 1), (2, 3)] \<and>
    cstring buf' 0 = ''a'' \<and> cstring buf' 2 = ''b''"
proof -
  let ?buf = "''a>b'' @ [NUL]"
  have "parsecmd ?buf = Some (Inr (REDIR (EXEC [(0, 1)]) 2 3 (O_WRONLY OR O_CREATE OR O_TRUNC) 1, ''a'' @ [NUL, CHR ''b'', NUL]))"
    by code_simp
  with parsecmd_words [OF _ this] show ?thesis by (simp add: line_of_def slice_def)
qed

end
