(* ===== verification/User_Shell_Grammar.thy ===== *)
theory User_Shell_Grammar
  imports User_Shell
begin

unbundle bit_operations_syntax

text \<open>
  The language of the shell: commands over strings, how they are written, and that the parser of
  \<open>sh.c\<close> reads every command back from what is written.
\<close>

section \<open>Commands over strings\<close>

datatype scmd =
    SExec "string list"
  | SRedir scmd string int nat
  | SPipe scmd scmd
  | SList scmd scmd
  | SBack scmd

text \<open>The command behind the pointers, when \<open>f\<close> gives the string of a word.\<close>

primrec view :: "(nat \<times> nat \<Rightarrow> string) \<Rightarrow> cmd \<Rightarrow> scmd" where
  "view f (EXEC ts) = SExec (map f ts)"
| "view f (REDIR c q e m fd) = SRedir (view f c) (f (q, e)) m fd"
| "view f (PIPE l r) = SPipe (view f l) (view f r)"
| "view f (LIST l r) = SList (view f l) (view f r)"
| "view f (BACK c) = SBack (view f c)"

lemma view_cong: "(\<And>t. t \<in> set (words c) \<Longrightarrow> f t = g t) \<Longrightarrow> view f c = view g c"
  by (induction c) auto

datatype tok = Word string | Sym string

primrec tok_text :: "tok \<Rightarrow> string" where
  "tok_text (Word w) = w"
| "tok_text (Sym w) = w"

definition word_ok :: "string \<Rightarrow> bool" where
  "word_ok w \<longleftrightarrow> w \<noteq> [] \<and> (\<forall>c \<in> set w. plain c)"

definition SYMS :: "string list" where
  "SYMS = [''|'', ''&'', '';'', ''('', '')'', ''<'', ''>'', ''>>'']"

primrec tok_ok :: "tok \<Rightarrow> bool" where
  "tok_ok (Word w) \<longleftrightarrow> word_ok w"
| "tok_ok (Sym w) \<longleftrightarrow> w \<in> set SYMS"

definition render :: "tok list \<Rightarrow> string" where
  "render ts = concat (map (\<lambda>t. tok_text t @ '' '') ts)"

definition redir_sym :: "int \<Rightarrow> string" where
  "redir_sym m = (if m = O_RDONLY then ''<'' else if m = (O_WRONLY OR O_CREATE OR O_TRUNC) then ''>'' else ''>>'')"

definition redir_ok :: "int \<Rightarrow> nat \<Rightarrow> bool" where
  "redir_ok m fd \<longleftrightarrow> (m, fd) \<in> {(O_RDONLY, 0), (O_WRONLY OR O_CREATE OR O_TRUNC, 1), (O_WRONLY OR O_CREATE, 1)}"

text \<open>The levels of the grammar: line, background, pipe, simple command; parentheses where they are needed.\<close>

definition par :: "bool \<Rightarrow> tok list \<Rightarrow> tok list" where
  "par b ts = (if b then Sym ''('' # ts @ [Sym '')''] else ts)"

primrec pr :: "nat \<Rightarrow> scmd \<Rightarrow> tok list" where
  "pr l (SExec ws) = map Word ws"
| "pr l (SRedir a f m fd) = pr 3 a @ [Sym (redir_sym m), Word f]"
| "pr l (SPipe a b) = par (l > 2) (pr 3 a @ Sym ''|'' # pr 2 b)"
| "pr l (SBack a) = par (l > 1) (pr 1 a @ [Sym ''&''])"
| "pr l (SList a b) = par (l > 0) (pr 1 a @ Sym '';'' # pr 0 b)"

primrec scmd_ok :: "scmd \<Rightarrow> bool" where
  "scmd_ok (SExec ws) \<longleftrightarrow> length ws < MAXARGS \<and> (\<forall>w \<in> set ws. word_ok w)"
| "scmd_ok (SRedir a f m fd) \<longleftrightarrow> scmd_ok a \<and> word_ok f \<and> redir_ok m fd"
| "scmd_ok (SPipe a b) \<longleftrightarrow> scmd_ok a \<and> scmd_ok b"
| "scmd_ok (SList a b) \<longleftrightarrow> scmd_ok a \<and> scmd_ok b"
| "scmd_ok (SBack a) \<longleftrightarrow> scmd_ok a"

lemma pr_tok_ok: "scmd_ok a \<Longrightarrow> \<forall>t \<in> set (pr l a). tok_ok t"
  by (induction a arbitrary: l) (auto simp: par_def redir_sym_def SYMS_def split: if_splits)

section \<open>Tokens of a written line\<close>

text \<open>At position \<open>s\<close> the rest of the line is exactly the tokens \<open>ts\<close>.\<close>

definition at_toks :: "string \<Rightarrow> nat \<Rightarrow> tok list \<Rightarrow> bool" where
  "at_toks bs s ts \<longleftrightarrow> s \<le> length bs \<and> drop s bs = render ts \<and> (\<forall>t \<in> set ts. tok_ok t)"

definition kind :: "tok \<Rightarrow> char" where
  "kind t = (case t of Word _ \<Rightarrow> CHR ''a'' | Sym w \<Rightarrow> if w = ''>>'' then CHR ''+'' else hd w)"

lemma render_simps [simp]: "render [] = []" "render (t # ts) = tok_text t @ CHR '' '' # render ts"
  by (simp_all add: render_def)

lemma tok_text_hd:
  assumes "tok_ok t"
  shows "tok_text t \<noteq> []" "hd (tok_text t) \<noteq> NUL" "\<not> strchr whitespace (hd (tok_text t))"
  using assms
  by (cases t; auto simp: word_ok_def plain_def SYMS_def strchr_def whitespace_def hd_in_set)+

lemma ch_drop: "ch bs (s + i) = (if i < length (drop s bs) then drop s bs ! i else NUL)"
  by (auto simp: ch_def)

lemma at_toks_ch:
  assumes "at_toks bs s ts" "i < length (render ts)"
  shows "ch bs (s + i) = render ts ! i"
  using assms by (simp add: ch_drop at_toks_def)

lemma at_toks_nil: "at_toks bs s [] \<Longrightarrow> s = length bs \<and> ch bs s = NUL"
  by (simp add: at_toks_def ch_def)

lemma at_toks_hd:
  assumes "at_toks bs s (t # ts)"
  shows "ch bs s = hd (tok_text t)" "ch bs s \<noteq> NUL" "\<not> strchr whitespace (ch bs s)" "s < length bs"
proof -
  have t: "tok_ok t" using assms by (simp add: at_toks_def)
  from at_toks_ch [OF assms, of 0] tok_text_hd(1) [OF t]
  show c: "ch bs s = hd (tok_text t)" by (cases "tok_text t") auto
  show "ch bs s \<noteq> NUL" "\<not> strchr whitespace (ch bs s)" unfolding c using tok_text_hd [OF t] by auto
  then show "s < length bs" by (auto simp: ch_def split: if_splits)
qed

lemma at_toks_skip: "at_toks bs s ts \<Longrightarrow> skip_white bs s = s"
  using at_toks_hd at_toks_nil by (cases ts) (auto simp: skip_white.simps [of bs s])

lemma at_toks_next:
  assumes "at_toks bs s (t # ts)"
  shows "at_toks bs (s + length (tok_text t) + 1) ts" "slice bs (s, s + length (tok_text t)) = tok_text t"
    "skip_white bs (s + length (tok_text t)) = s + length (tok_text t) + 1"
proof -
  have d: "drop s bs = tok_text t @ CHR '' '' # render ts" "s \<le> length bs" using assms by (simp_all add: at_toks_def)
  have l: "length bs = s + length (tok_text t) + 1 + length (render ts)"
    using arg_cong [OF d(1), of length] d(2) by simp
  have "drop (s + length (tok_text t) + 1) bs = drop (length (tok_text t) + 1) (drop s bs)" by (simp add: ac_simps)
  then show a: "at_toks bs (s + length (tok_text t) + 1) ts" using assms l unfolding d(1) by (simp add: at_toks_def)
  show "slice bs (s, s + length (tok_text t)) = tok_text t" using d(1) by (simp add: slice_def)
  have "ch bs (s + length (tok_text t)) = CHR '' ''"
    using at_toks_ch [OF assms, of "length (tok_text t)"] by (simp add: nth_append)
  moreover have "strchr whitespace (CHR '' '')" by (simp add: strchr_def whitespace_def)
  ultimately have "skip_white bs (s + length (tok_text t)) = skip_white bs (s + length (tok_text t) + 1)"
    using l by (subst skip_white.simps) simp
  then show "skip_white bs (s + length (tok_text t)) = s + length (tok_text t) + 1" using at_toks_skip [OF a] by simp
qed

lemma skip_word_run:
  assumes "\<And>i. i < n \<Longrightarrow> plain (ch bs (s + i))" "strchr whitespace (ch bs (s + n))" "s + n \<le> length bs"
  shows "skip_word bs s = s + n"
  using assms
proof (induction n arbitrary: s)
  case 0
  then show ?case by (auto simp: skip_word.simps [of bs s] plain_def ch_def)
next
  case (Suc n)
  have "plain (ch bs s)" using Suc.prems(1) [of 0] by simp
  then have "skip_word bs s = skip_word bs (s + 1)" using Suc.prems(3) by (subst skip_word.simps) (simp add: plain_def)
  also have "\<dots> = s + 1 + n"
    using Suc.prems(1) [of "Suc i" for i] Suc.prems(2,3) by (intro Suc.IH) auto
  finally show ?case by simp
qed

lemma plain_not_sym: "plain c \<Longrightarrow> \<not> single c \<and> c \<noteq> CHR ''>'' \<and> c \<noteq> NUL"
  by (auto simp: plain_def single_def strchr_def symbols_def)

lemma scan_word:
  assumes "at_toks bs s (Word w # ts)"
  shows "scan_token bs s = (CHR ''a'', s + length w)"
proof -
  have w: "w \<noteq> []" "\<And>i. i < length w \<Longrightarrow> plain (w ! i)" using assms by (auto simp: at_toks_def word_ok_def)
  have c: "ch bs (s + i) = w ! i" if "i < length w" for i
    using at_toks_ch [OF assms, of i] that by (simp add: nth_append)
  have "ch bs (s + length w) = CHR '' ''" using at_toks_ch [OF assms, of "length w"] by (simp add: nth_append)
  then have "strchr whitespace (ch bs (s + length w))" by (simp add: strchr_def whitespace_def)
  moreover have "s + length w \<le> length bs" using at_toks_next(1) [OF assms] by (simp add: at_toks_def)
  ultimately have "skip_word bs s = s + length w" using c w(2) by (intro skip_word_run) auto
  moreover have "plain (ch bs s)" using c [of 0] w by simp
  ultimately show ?thesis using plain_not_sym [of "ch bs s"] by (simp add: scan_token_def Let_def)
qed

lemma scan_sym:
  assumes "at_toks bs s (Sym w # ts)"
  shows "scan_token bs s = (kind (Sym w), s + length w)"
proof -
  have w: "w \<in> set SYMS" using assms by (simp add: at_toks_def)
  have c: "ch bs s = hd w" using at_toks_hd(1) [OF assms] by simp
  have d: "ch bs (s + 1) = (w @ CHR '' '' # render ts) ! 1"
    using w at_toks_ch [OF assms, of 1] by (auto simp: SYMS_def)
  show ?thesis using w c d by (auto simp: SYMS_def scan_token_def Let_def single_def kind_def)
qed

lemma gettoken_at:
  assumes "at_toks bs s (t # ts)"
  shows "gettoken bs s = (kind t, s, s + length (tok_text t), s + length (tok_text t) + 1)"
proof -
  have "scan_token bs s = (kind t, s + length (tok_text t))"
    using scan_word [of bs s _ ts] scan_sym [of bs s _ ts] assms by (cases t) (auto simp: kind_def)
  then show ?thesis using at_toks_skip [OF assms] at_toks_next(3) [OF assms] by (simp add: gettoken_def)
qed

definition starts :: "tok list \<Rightarrow> string \<Rightarrow> bool" where
  "starts ts toks \<longleftrightarrow> ts \<noteq> [] \<and> strchr toks (hd (tok_text (hd ts)))"

lemma peek_at: "at_toks bs s ts \<Longrightarrow> peek bs toks s = (starts ts toks, s)"
  using at_toks_skip [of bs s ts] at_toks_hd at_toks_nil
  by (cases ts) (auto simp: peek_def Let_def starts_def)

lemma gettoken_nil: "at_toks bs s [] \<Longrightarrow> gettoken bs s = (NUL, s, s, s)"
  using at_toks_skip [of bs s "[]"] at_toks_nil [of bs s] by (auto simp: gettoken_def scan_token_def Let_def)


section \<open>Parsing a written command\<close>

abbreviation meaning :: "string \<Rightarrow> cmd \<Rightarrow> scmd" where
  "meaning bs \<equiv> view (slice bs)"

lemma parseredirs_stop: "at_toks bs s ts \<Longrightarrow> \<not> starts ts ''<>'' \<Longrightarrow> parseredirs bs c s = Parsed c s"
  by (simp add: parseredirs.simps [of bs c s] peek_at)

lemma redir_sym_cases:
  assumes "redir_ok m fd"
  shows "(if kind (Sym (redir_sym m)) = CHR ''<'' then REDIR c q e O_RDONLY 0
      else if kind (Sym (redir_sym m)) = CHR ''>'' then REDIR c q e (O_WRONLY OR O_CREATE OR O_TRUNC) 1
      else if kind (Sym (redir_sym m)) = CHR ''+'' then REDIR c q e (O_WRONLY OR O_CREATE) 1
      else c) = REDIR c q e m fd"
  using assms
  by (auto simp: redir_ok_def redir_sym_def kind_def O_RDONLY_def O_WRONLY_def O_CREATE_def O_TRUNC_def)

lemma parseredirs_redir:
  assumes "at_toks bs s (Sym (redir_sym m) # Word f # ts)" "redir_ok m fd"
  shows "\<exists>q e s'. parseredirs bs c s = parseredirs bs (REDIR c q e m fd) s' \<and> slice bs (q, e) = f \<and> at_toks bs s' ts \<and> s \<le> s'"
proof -
  let ?r = "redir_sym m"
  let ?s1 = "s + length ?r + 1"
  have p: "peek bs ''<>'' s = (True, s)"
    using peek_at [OF assms(1)] by (simp add: starts_def redir_sym_def strchr_def)
  note g1 = gettoken_at [OF assms(1)] and a1 = at_toks_next(1) [OF assms(1)]
  have a1': "at_toks bs ?s1 (Word f # ts)" using a1 by simp
  note g2 = gettoken_at [OF a1'] and a2 = at_toks_next [OF a1']
  have "parseredirs bs c s = parseredirs bs (REDIR c ?s1 (?s1 + length f) m fd) (?s1 + length f + 1)"
    by (subst parseredirs.simps)
      (simp only: p g1 tok_text.simps g2 prod.case redir_sym_cases [OF assms(2)] if_False if_True not_True_eq_False, simp add: kind_def)
  then show ?thesis using a2(1,2) by (intro exI) auto
qed

lemma parseexec_loop_stop:
  assumes "at_toks bs s ts" "ts = [] \<or> starts ts ''|)&;''"
  shows "parseexec_loop bs argc c s = Parsed c s"
  using assms(2) gettoken_nil [of bs s] assms(1)
  by (subst parseexec_loop.simps) (auto simp: peek_at [OF assms(1)])

lemma starts_word: "tok_ok (Word w) \<Longrightarrow> (\<forall>c \<in> set toks. \<not> plain c) \<Longrightarrow> \<not> starts (Word w # ts) toks"
  by (auto simp: starts_def word_ok_def strchr_def)

lemma not_plain_syms:
  "\<forall>c \<in> set ''|)&;''. \<not> plain c" "\<forall>c \<in> set ''<>''. \<not> plain c" "\<forall>c \<in> set ''(''. \<not> plain c"
  by (auto simp: plain_def strchr_def symbols_def)

lemma parseexec_loop_words:
  assumes "at_toks bs s (map Word (w # ws) @ ts)" "argc + length (w # ws) < MAXARGS"
  shows "\<exists>us s' argc'. parseexec_loop bs argc (EXEC vs) s =
      bindp (parseredirs bs (EXEC (vs @ us)) s') (\<lambda>c s. parseexec_loop bs argc' c s) \<and>
    map (slice bs) us = w # ws \<and> at_toks bs s' ts \<and> s \<le> s'"
  using assms(1,2)
proof (induction ws arbitrary: w s vs argc)
  case Nil
  then have a: "at_toks bs s (Word w # ts)" by simp
  have p: "peek bs ''|)&;'' s = (False, s)"
    using peek_at [OF a] starts_word [of w] not_plain_syms(1) a by (simp add: at_toks_def)
  note g = gettoken_at [OF a] and n = at_toks_next [OF a]
  let ?t = "(s, s + length w)"
  have "parseexec_loop bs argc (EXEC vs) s =
      bindp (parseredirs bs (EXEC (vs @ [?t])) (s + length w + 1)) (\<lambda>c s. parseexec_loop bs (argc + 1) c s)"
    using Nil(2) by (subst parseexec_loop.simps) (simp add: p g kind_def)
  then show ?case using n by (intro exI [of _ "[?t]"] exI [of _ "s + length w + 1"] exI [of _ "argc + 1"]) simp
next
  case (Cons w' ws)
  then have a: "at_toks bs s (Word w # map Word (w' # ws) @ ts)" by simp
  have p: "peek bs ''|)&;'' s = (False, s)"
    using peek_at [OF a] starts_word [of w] not_plain_syms(1) a by (simp add: at_toks_def)
  note g = gettoken_at [OF a] and n = at_toks_next [OF a]
  let ?t = "(s, s + length w)" and ?s = "s + length w + 1"
  have a': "at_toks bs ?s (map Word (w' # ws) @ ts)" using n(1) by simp
  have "\<not> starts (map Word (w' # ws) @ ts) ''<>''"
    using a' starts_word [of w'] not_plain_syms(2) by (simp add: at_toks_def)
  from parseredirs_stop [OF a' this]
  have "parseexec_loop bs argc (EXEC vs) s = parseexec_loop bs (argc + 1) (EXEC (vs @ [?t])) ?s"
    using Cons.prems(2) by (subst parseexec_loop.simps) (simp add: p g kind_def)
  moreover obtain us s' argc' where "parseexec_loop bs (argc + 1) (EXEC (vs @ [?t])) ?s =
      bindp (parseredirs bs (EXEC ((vs @ [?t]) @ us)) s') (\<lambda>c s. parseexec_loop bs argc' c s)"
    "map (slice bs) us = w' # ws" "at_toks bs s' ts" "?s \<le> s'"
    using Cons.IH [OF a', of "argc + 1" "vs @ [?t]"] Cons.prems(2) by auto
  ultimately show ?case using n(2) by (intro exI [of _ "?t # us"] exI [of _ s'] exI [of _ argc']) simp
qed


text \<open>
  What the parsers do on a written command, for the levels of the grammar; \<open>rest\<close> is what follows it.
  A simple command may be followed by redirections, which still belong to it; at the second level the
  ampersands that follow are left to \<open>parse_backs\<close>.
\<close>

definition follow :: "string \<Rightarrow> tok list \<Rightarrow> bool" where
  "follow toks ts \<longleftrightarrow> ts = [] \<or> starts ts toks"

definition reads3 :: "string \<Rightarrow> scmd \<Rightarrow> bool" where
  "reads3 bs a \<longleftrightarrow> (\<forall>s rest fuel. at_toks bs s (pr 3 a @ rest) \<longrightarrow> 4 * (length bs - s) + 2 \<le> fuel \<longrightarrow> follow ''|)&;<>'' rest \<longrightarrow>
     (\<exists>c s1 k. parseexec fuel bs s = bindp (parseredirs bs c s1) k \<and> meaning bs c = a \<and> at_toks bs s1 rest \<and> s \<le> s1 \<and>
       (\<forall>s2 ts c2. at_toks bs s2 ts \<longrightarrow> follow ''|)&;'' ts \<longrightarrow> k c2 s2 = Parsed c2 s2)))"

definition reads2 :: "string \<Rightarrow> scmd \<Rightarrow> bool" where
  "reads2 bs a \<longleftrightarrow> (\<forall>s rest fuel. at_toks bs s (pr 2 a @ rest) \<longrightarrow> 4 * (length bs - s) + 3 \<le> fuel \<longrightarrow> follow '')&;'' rest \<longrightarrow>
     (\<exists>c s1. parsepipe fuel bs s = Parsed c s1 \<and> meaning bs c = a \<and> at_toks bs s1 rest \<and> s \<le> s1))"

definition reads1 :: "string \<Rightarrow> scmd \<Rightarrow> bool" where
  "reads1 bs a \<longleftrightarrow> (\<forall>s rest fuel. at_toks bs s (pr 1 a @ rest) \<longrightarrow> 4 * (length bs - s) + 3 \<le> fuel \<longrightarrow> follow '')&;'' rest \<longrightarrow>
     (\<exists>c0 s0 c s1. parsepipe fuel bs s = Parsed c0 s0 \<and> parse_backs bs c0 s0 = parse_backs bs c s1 \<and>
       meaning bs c = a \<and> at_toks bs s1 rest \<and> s \<le> s1))"

definition reads0 :: "string \<Rightarrow> scmd \<Rightarrow> bool" where
  "reads0 bs a \<longleftrightarrow> (\<forall>s rest fuel. at_toks bs s (pr 0 a @ rest) \<longrightarrow> 4 * (length bs - s) + 4 \<le> fuel \<longrightarrow> follow '')'' rest \<longrightarrow>
     (\<exists>c s1. parseline fuel bs s = Parsed c s1 \<and> meaning bs c = a \<and> at_toks bs s1 rest \<and> s \<le> s1))"

lemma follow_not: "follow xs ts \<Longrightarrow> set xs \<inter> set ys = {} \<Longrightarrow> \<not> starts ts ys"
  by (auto simp: follow_def starts_def strchr_def)

lemma follow_mono: "follow xs ts \<Longrightarrow> set xs \<subseteq> set ys \<Longrightarrow> follow ys ts"
  by (auto simp: follow_def starts_def strchr_def)

lemma follow_sym: "follow xs (Sym [c] # ts) \<longleftrightarrow> strchr xs c" "starts (Sym [c] # ts) xs \<longleftrightarrow> strchr xs c"
  by (auto simp: follow_def starts_def)

lemma at_toks_len: "at_toks bs s ts \<Longrightarrow> s \<le> length bs"
  by (simp add: at_toks_def)

lemma sym_after:
  assumes "at_toks bs s (Sym [c] # ts)"
  shows "after_token bs s = s + 2" "at_toks bs (s + 2) ts" "s + 2 \<le> length bs"
  using gettoken_at [OF assms] at_toks_next(1) [OF assms] at_toks_len by (auto simp: numeral_2_eq_2)

lemma reads3_exec:
  assumes "reads3 bs a" "at_toks bs s (pr 3 a @ rest)" "4 * (length bs - s) + 2 \<le> fuel" "follow ''|)&;'' rest"
  shows "\<exists>c s1. parseexec fuel bs s = Parsed c s1 \<and> meaning bs c = a \<and> at_toks bs s1 rest \<and> s \<le> s1"
proof -
  have "follow ''|)&;<>'' rest" using assms(4) by (rule follow_mono) simp
  with assms obtain c s1 k where r: "parseexec fuel bs s = bindp (parseredirs bs c s1) k" "meaning bs c = a"
    "at_toks bs s1 rest" "s \<le> s1"
    "\<forall>s2 ts c2. at_toks bs s2 ts \<longrightarrow> follow ''|)&;'' ts \<longrightarrow> k c2 s2 = Parsed c2 s2" unfolding reads3_def by blast
  have "k c s1 = Parsed c s1" using r(3,5) assms(4) by blast
  moreover have "\<not> starts rest ''<>''" using assms(4) by (rule follow_not) simp
  then have "parseredirs bs c s1 = Parsed c s1" by (rule parseredirs_stop [OF r(3)])
  ultimately have "parseexec fuel bs s = Parsed c s1" using r(1) by simp
  with r show ?thesis by blast
qed

lemma reads3_reads2:
  assumes "reads3 bs a" "pr 2 a = pr 3 a"
  shows "reads2 bs a"
  unfolding reads2_def assms(2)
proof (intro allI impI)
  fix s rest fuel assume a: "at_toks bs s (pr 3 a @ rest)" "4 * (length bs - s) + 3 \<le> fuel" "follow '')&;'' rest"
  obtain k where k: "fuel = Suc k" using a(2) by (cases fuel) auto
  have "follow ''|)&;'' rest" using a(3) by (rule follow_mono) simp
  from reads3_exec [OF assms(1) a(1) _ this, of k] a(2) k obtain c s1 where
    r: "parseexec k bs s = Parsed c s1" "meaning bs c = a" "at_toks bs s1 rest" "s \<le> s1" by auto
  have "\<not> starts rest ''|''" using a(3) by (rule follow_not) simp
  then have "parsepipe fuel bs s = Parsed c s1" using r(1) peek_at [OF r(3)] by (simp add: k)
  with r show "\<exists>c s1. parsepipe fuel bs s = Parsed c s1 \<and> meaning bs c = a \<and> at_toks bs s1 rest \<and> s \<le> s1" by blast
qed

lemma reads2_reads1:
  assumes "reads2 bs a" "pr 1 a = pr 2 a"
  shows "reads1 bs a"
  using assms(1) unfolding reads1_def reads2_def assms(2) by blast

lemma parse_backs_stop: "at_toks bs s ts \<Longrightarrow> \<not> starts ts ''&'' \<Longrightarrow> parse_backs bs c s = (c, s)"
  by (simp add: parse_backs.simps [of bs c s] peek_at)

lemma reads1_line:
  assumes "reads1 bs a" "at_toks bs s (pr 1 a @ rest)" "4 * (length bs - s) + 3 \<le> fuel" "follow '');'' rest"
  shows "\<exists>c s1. parseline (Suc fuel) bs s = (case peek bs '';'' s1 of (b, s) \<Rightarrow>
      if b then bindp (parseline fuel bs (after_token bs s)) (\<lambda>r s. Parsed (LIST c r) s) else Parsed c s) \<and>
    meaning bs c = a \<and> at_toks bs s1 rest \<and> s \<le> s1"
proof -
  have "follow '')&;'' rest" using assms(4) by (rule follow_mono) simp
  with assms obtain c0 s0 c s1 where r: "parsepipe fuel bs s = Parsed c0 s0" "parse_backs bs c0 s0 = parse_backs bs c s1"
    "meaning bs c = a" "at_toks bs s1 rest" "s \<le> s1" unfolding reads1_def by blast
  have "\<not> starts rest ''&''" using assms(4) by (rule follow_not) simp
  then have "parse_backs bs c0 s0 = (c, s1)" using r(2) parse_backs_stop [OF r(4)] by simp
  with r(1,3-5) show ?thesis by (intro exI [of _ c] exI [of _ s1]) simp
qed

lemma reads1_reads0:
  assumes "reads1 bs a" "pr 0 a = pr 1 a"
  shows "reads0 bs a"
  unfolding reads0_def assms(2)
proof (intro allI impI)
  fix s rest fuel assume a: "at_toks bs s (pr 1 a @ rest)" "4 * (length bs - s) + 4 \<le> fuel" "follow '')'' rest"
  obtain k where k: "fuel = Suc k" using a(2) by (cases fuel) auto
  have f: "follow '');'' rest" using a(3) by (rule follow_mono) simp
  have "4 * (length bs - s) + 3 \<le> k" using a(2) k by simp
  from reads1_line [OF assms(1) a(1) this f] obtain c s1 where
    r: "parseline (Suc k) bs s = (case peek bs '';'' s1 of (b, s) \<Rightarrow>
      if b then bindp (parseline k bs (after_token bs s)) (\<lambda>r s. Parsed (LIST c r) s) else Parsed c s)"
      "meaning bs c = a" "at_toks bs s1 rest" "s \<le> s1" by (elim exE conjE)
  have "\<not> starts rest '';''" using a(3) by (rule follow_not) simp
  then have "parseline fuel bs s = Parsed c s1" unfolding k r(1) using peek_at [OF r(3)] by simp
  with r(2-4) show "\<exists>c s1. parseline fuel bs s = Parsed c s1 \<and> meaning bs c = a \<and> at_toks bs s1 rest \<and> s \<le> s1" by blast
qed

lemma reads0_reads3:
  assumes "reads0 bs a" "pr 3 a = Sym ''('' # pr 0 a @ [Sym '')'']"
  shows "reads3 bs a"
  unfolding reads3_def assms(2)
proof (intro allI impI)
  fix s rest fuel
  assume "at_toks bs s ((Sym ''('' # pr 0 a @ [Sym '')'']) @ rest)" and fuel: "4 * (length bs - s) + 2 \<le> fuel"
  then have a: "at_toks bs s (Sym ''('' # pr 0 a @ Sym '')'' # rest)" by simp
  have "2 \<le> fuel" using fuel by simp
  then obtain k where k: "fuel = Suc (Suc k)" using le_Suc_ex [of 2 fuel] by auto
  note o = sym_after [OF a]
  have f: "follow '')'' (Sym '')'' # rest)" "starts (Sym '')'' # rest) '')''" by (simp_all add: follow_sym strchr_def)
  have "4 * (length bs - (s + 2)) + 4 \<le> k" using fuel o(3) k by auto
  with assms(1) o(2) f(1) obtain c s1 where
    r: "parseline k bs (s + 2) = Parsed c s1" "meaning bs c = a" "at_toks bs s1 (Sym '')'' # rest)" "s + 2 \<le> s1"
    unfolding reads0_def by blast
  note q = sym_after [OF r(3)]
  have p: "peek bs ''('' s = (True, s)" "peek bs '')'' s1 = (True, s1)"
    using peek_at [OF a] peek_at [OF r(3)] f(2) by (simp_all add: follow_sym strchr_def)
  have "parseexec fuel bs s = bindp (parseredirs bs c (s1 + 2)) Parsed"
    using r(1) p o(1) q(1) by (cases "parseredirs bs c (s1 + 2)") (simp_all add: k)
  then show "\<exists>c s1 k. parseexec fuel bs s = bindp (parseredirs bs c s1) k \<and> meaning bs c = a \<and> at_toks bs s1 rest \<and> s \<le> s1 \<and>
      (\<forall>s2 ts c2. at_toks bs s2 ts \<longrightarrow> follow ''|)&;'' ts \<longrightarrow> k c2 s2 = Parsed c2 s2)"
    using r q(2) by (intro exI [of _ c] exI [of _ "s1 + 2"] exI [of _ Parsed]) simp
qed


text \<open>The three commands with an operator, at their own level.\<close>

lemma reads2_pipe:
  assumes "reads3 bs a" "reads2 bs b"
  shows "reads2 bs (SPipe a b)"
  unfolding reads2_def
proof (intro allI impI)
  fix s rest fuel
  assume "at_toks bs s (pr 2 (SPipe a b) @ rest)" and fuel: "4 * (length bs - s) + 3 \<le> fuel" and f: "follow '')&;'' rest"
  then have a: "at_toks bs s (pr 3 a @ Sym ''|'' # pr 2 b @ rest)" by (simp add: par_def)
  obtain k where k: "fuel = Suc k" using fuel by (cases fuel) auto
  have fo: "follow ''|)&;'' (Sym ''|'' # pr 2 b @ rest)" "starts (Sym ''|'' # pr 2 b @ rest) ''|''"
    by (simp_all add: follow_sym strchr_def)
  have "4 * (length bs - s) + 2 \<le> k" using fuel k by simp
  from reads3_exec [OF assms(1) a this fo(1)] obtain c s1 where
    r: "parseexec k bs s = Parsed c s1" "meaning bs c = a" "at_toks bs s1 (Sym ''|'' # pr 2 b @ rest)" "s \<le> s1" by blast
  note q = sym_after [OF r(3)]
  have "4 * (length bs - (s1 + 2)) + 3 \<le> k" using fuel q(3) k r(4) by auto
  with assms(2) q(2) f obtain d s2 where
    d: "parsepipe k bs (s1 + 2) = Parsed d s2" "meaning bs d = b" "at_toks bs s2 rest" "s1 + 2 \<le> s2"
    unfolding reads2_def by blast
  have "parsepipe fuel bs s = Parsed (PIPE c d) s2" using r(1) d(1) peek_at [OF r(3)] fo(2) q(1) by (simp add: k)
  then show "\<exists>c s1. parsepipe fuel bs s = Parsed c s1 \<and> meaning bs c = SPipe a b \<and> at_toks bs s1 rest \<and> s \<le> s1"
    using r(2,4) d by (intro exI [of _ "PIPE c d"] exI [of _ s2]) simp
qed

lemma reads1_back:
  assumes "reads1 bs a"
  shows "reads1 bs (SBack a)"
  unfolding reads1_def
proof (intro allI impI)
  fix s rest fuel
  assume "at_toks bs s (pr 1 (SBack a) @ rest)" and fuel: "4 * (length bs - s) + 3 \<le> fuel" and f: "follow '')&;'' rest"
  then have a: "at_toks bs s (pr 1 a @ Sym ''&'' # rest)" by (simp add: par_def)
  have fo: "follow '')&;'' (Sym ''&'' # rest)" "starts (Sym ''&'' # rest) ''&''" by (simp_all add: follow_sym strchr_def)
  from assms a fuel fo(1) obtain c0 s0 c s1 where
    r: "parsepipe fuel bs s = Parsed c0 s0" "parse_backs bs c0 s0 = parse_backs bs c s1"
    "meaning bs c = a" "at_toks bs s1 (Sym ''&'' # rest)" "s \<le> s1" unfolding reads1_def by blast
  note q = sym_after [OF r(4)]
  have "parse_backs bs c s1 = parse_backs bs (BACK c) (s1 + 2)"
    by (subst parse_backs.simps) (simp add: peek_at [OF r(4)] fo(2) q(1))
  then show "\<exists>c0 s0 c s1. parsepipe fuel bs s = Parsed c0 s0 \<and> parse_backs bs c0 s0 = parse_backs bs c s1 \<and>
      meaning bs c = SBack a \<and> at_toks bs s1 rest \<and> s \<le> s1"
    using r q(2) by (intro exI [of _ c0] exI [of _ s0] exI [of _ "BACK c"] exI [of _ "s1 + 2"]) simp
qed

lemma reads0_list:
  assumes "reads1 bs a" "reads0 bs b"
  shows "reads0 bs (SList a b)"
  unfolding reads0_def
proof (intro allI impI)
  fix s rest fuel
  assume "at_toks bs s (pr 0 (SList a b) @ rest)" and fuel: "4 * (length bs - s) + 4 \<le> fuel" and f: "follow '')'' rest"
  then have a: "at_toks bs s (pr 1 a @ Sym '';'' # pr 0 b @ rest)" by (simp add: par_def)
  obtain k where k: "fuel = Suc k" using fuel by (cases fuel) auto
  have fo: "follow '');'' (Sym '';'' # pr 0 b @ rest)" "starts (Sym '';'' # pr 0 b @ rest) '';''"
    by (simp_all add: follow_sym strchr_def)
  have "4 * (length bs - s) + 3 \<le> k" using fuel k by simp
  from reads1_line [OF assms(1) a this fo(1)] obtain c s1 where
    r: "parseline (Suc k) bs s = (case peek bs '';'' s1 of (b, s) \<Rightarrow>
      if b then bindp (parseline k bs (after_token bs s)) (\<lambda>r s. Parsed (LIST c r) s) else Parsed c s)"
      "meaning bs c = a" "at_toks bs s1 (Sym '';'' # pr 0 b @ rest)" "s \<le> s1" by (elim exE conjE)
  note q = sym_after [OF r(3)]
  have "4 * (length bs - (s1 + 2)) + 4 \<le> k" using fuel q(3) k r(4) by auto
  with assms(2) q(2) f obtain d s2 where
    d: "parseline k bs (s1 + 2) = Parsed d s2" "meaning bs d = b" "at_toks bs s2 rest" "s1 + 2 \<le> s2"
    unfolding reads0_def by blast
  have "parseline fuel bs s = Parsed (LIST c d) s2" unfolding k r(1) using d(1) peek_at [OF r(3)] fo(2) q(1) by simp
  then show "\<exists>c s1. parseline fuel bs s = Parsed c s1 \<and> meaning bs c = SList a b \<and> at_toks bs s1 rest \<and> s \<le> s1"
    using r(2,4) d by (intro exI [of _ "LIST c d"] exI [of _ s2]) simp
qed


lemma reads3_redir:
  assumes "reads3 bs a" "redir_ok m fd"
  shows "reads3 bs (SRedir a f m fd)"
  unfolding reads3_def
proof (intro allI impI)
  fix s rest fuel
  assume "at_toks bs s (pr 3 (SRedir a f m fd) @ rest)" and fuel: "4 * (length bs - s) + 2 \<le> fuel"
  then have a: "at_toks bs s (pr 3 a @ Sym (redir_sym m) # Word f # rest)" by simp
  have "follow ''|)&;<>'' (Sym (redir_sym m) # Word f # rest)"
    by (auto simp: follow_def starts_def redir_sym_def strchr_def)
  with assms(1) a fuel obtain c s1 k where
    r: "parseexec fuel bs s = bindp (parseredirs bs c s1) k" "meaning bs c = a"
    "at_toks bs s1 (Sym (redir_sym m) # Word f # rest)" "s \<le> s1"
    "\<forall>s2 ts c2. at_toks bs s2 ts \<longrightarrow> follow ''|)&;'' ts \<longrightarrow> k c2 s2 = Parsed c2 s2"
    unfolding reads3_def by blast
  from parseredirs_redir [OF r(3) assms(2)] obtain q e s2 where
    d: "parseredirs bs c s1 = parseredirs bs (REDIR c q e m fd) s2" "slice bs (q, e) = f" "at_toks bs s2 rest" "s1 \<le> s2"
    by blast
  have "meaning bs (REDIR c q e m fd) = SRedir a f m fd" using r(2) d(2) by simp
  with r(1,4,5) d show "\<exists>c s1 k. parseexec fuel bs s = bindp (parseredirs bs c s1) k \<and> meaning bs c = SRedir a f m fd \<and>
      at_toks bs s1 rest \<and> s \<le> s1 \<and> (\<forall>s2 ts c2. at_toks bs s2 ts \<longrightarrow> follow ''|)&;'' ts \<longrightarrow> k c2 s2 = Parsed c2 s2)"
    by (intro exI [of _ "REDIR c q e m fd"] exI [of _ s2] exI [of _ k]) simp
qed

lemma reads3_args:
  assumes "length ws < MAXARGS"
  shows "reads3 bs (SExec ws)"
  unfolding reads3_def
proof (intro allI impI)
  fix s rest fuel
  assume "at_toks bs s (pr 3 (SExec ws) @ rest)" and fuel: "4 * (length bs - s) + 2 \<le> fuel" and f: "follow ''|)&;<>'' rest"
  then have a: "at_toks bs s (map Word ws @ rest)" by simp
  obtain k where k: "fuel = Suc k" using fuel by (cases fuel) auto
  have "\<not> starts rest ''(''" using f by (rule follow_not) simp
  then have "\<not> starts (map Word ws @ rest) ''(''"
    using a starts_word [of "hd ws" "''(''"] not_plain_syms(3) by (cases ws) (auto simp: at_toks_def)
  then have x: "parseexec fuel bs s = bindp (parseredirs bs (EXEC []) s) (\<lambda>ret s. parseexec_loop bs 0 ret s)"
    using peek_at [OF a] by (simp add: k)
  have stop: "\<forall>s2 ts c2. at_toks bs s2 ts \<longrightarrow> follow ''|)&;'' ts \<longrightarrow> parseexec_loop bs n c2 s2 = Parsed c2 s2" for n
    using parseexec_loop_stop unfolding follow_def by blast
  show "\<exists>c s1 k. parseexec fuel bs s = bindp (parseredirs bs c s1) k \<and> meaning bs c = SExec ws \<and>
      at_toks bs s1 rest \<and> s \<le> s1 \<and> (\<forall>s2 ts c2. at_toks bs s2 ts \<longrightarrow> follow ''|)&;'' ts \<longrightarrow> k c2 s2 = Parsed c2 s2)"
  proof (cases ws)
    case Nil
    then show ?thesis using x a stop
      by (intro exI [of _ "EXEC []"] exI [of _ s] exI [of _ "\<lambda>c s. parseexec_loop bs 0 c s"]) simp
  next
    case (Cons w ws')
    have a': "at_toks bs s (map Word (w # ws') @ rest)" using a Cons by simp
    have "\<not> starts (map Word (w # ws') @ rest) ''<>''"
      using a' starts_word [of w] not_plain_syms(2) by (simp add: at_toks_def)
    from parseredirs_stop [OF a' this] have y: "parseexec fuel bs s = parseexec_loop bs 0 (EXEC []) s" using x by simp
    have "0 + length (w # ws') < MAXARGS" using assms Cons by simp
    from parseexec_loop_words [OF a' this, of "[]"] obtain us s' n where
      l: "parseexec_loop bs 0 (EXEC []) s = bindp (parseredirs bs (EXEC us) s') (\<lambda>c s. parseexec_loop bs n c s)"
      "map (slice bs) us = w # ws'" "at_toks bs s' rest" "s \<le> s'" by auto
    then show ?thesis using y Cons stop
      by (intro exI [of _ "EXEC us"] exI [of _ s'] exI [of _ "\<lambda>c s. parseexec_loop bs n c s"]) simp
  qed
qed

lemma reads_all: "scmd_ok a \<Longrightarrow> reads3 bs a \<and> reads2 bs a \<and> reads1 bs a \<and> reads0 bs a"
proof (induction a)
  case (SExec ws)
  then have 3: "reads3 bs (SExec ws)" using reads3_args by simp
  then have 2: "reads2 bs (SExec ws)" by (rule reads3_reads2) simp
  then have 1: "reads1 bs (SExec ws)" by (rule reads2_reads1) simp
  then have "reads0 bs (SExec ws)" by (rule reads1_reads0) simp
  with 1 2 3 show ?case by blast
next
  case (SRedir a f m fd)
  then have 3: "reads3 bs (SRedir a f m fd)" using reads3_redir by simp
  then have 2: "reads2 bs (SRedir a f m fd)" by (rule reads3_reads2) simp
  then have 1: "reads1 bs (SRedir a f m fd)" by (rule reads2_reads1) simp
  then have "reads0 bs (SRedir a f m fd)" by (rule reads1_reads0) simp
  with 1 2 3 show ?case by blast
next
  case (SPipe a b)
  then have 2: "reads2 bs (SPipe a b)" using reads2_pipe by simp
  then have 1: "reads1 bs (SPipe a b)" by (rule reads2_reads1) (simp add: par_def)
  then have 0: "reads0 bs (SPipe a b)" by (rule reads1_reads0) (simp add: par_def)
  then have "reads3 bs (SPipe a b)" by (rule reads0_reads3) (simp add: par_def)
  with 0 1 2 show ?case by blast
next
  case (SList a b)
  then have 0: "reads0 bs (SList a b)" using reads0_list by simp
  then have 3: "reads3 bs (SList a b)" by (rule reads0_reads3) (simp add: par_def)
  then have 2: "reads2 bs (SList a b)" by (rule reads3_reads2) (simp add: par_def)
  then have "reads1 bs (SList a b)" by (rule reads2_reads1) (simp add: par_def)
  with 0 2 3 show ?case by blast
next
  case (SBack a)
  then have 1: "reads1 bs (SBack a)" using reads1_back by simp
  then have 0: "reads0 bs (SBack a)" by (rule reads1_reads0) (simp add: par_def)
  then have 3: "reads3 bs (SBack a)" by (rule reads0_reads3) (simp add: par_def)
  then have "reads2 bs (SBack a)" by (rule reads3_reads2) (simp add: par_def)
  with 0 1 3 show ?case by blast
qed

section \<open>Round trip\<close>

definition print :: "scmd \<Rightarrow> string" where
  "print a = render (pr 0 a)"

lemma render_no_nul: "\<forall>t \<in> set ts. tok_ok t \<Longrightarrow> NUL \<notin> set (render ts)"
proof (induction ts)
  case (Cons t ts)
  then have "NUL \<notin> set (tok_text t)" by (cases t) (auto simp: word_ok_def plain_def SYMS_def)
  with Cons show ?case by simp
qed simp

text \<open>
  C25: every command whose words are made of ordinary characters, with at most nine arguments each, is
  read back from its printed form: \<open>parsecmd\<close> succeeds, and the C strings at the pointers of its result,
  in the buffer with the NULs it has written, are the words of the command.
\<close>

theorem shell_roundtrip:
  assumes "scmd_ok a"
  shows "\<exists>c buf. parsecmd (print a @ NUL # junk) = Some (Inr (c, buf)) \<and> view (\<lambda>t. cstring buf (fst t)) c = a"
proof -
  let ?bs = "print a" and ?buf = "print a @ NUL # junk"
  have ok: "\<forall>t \<in> set (pr 0 a). tok_ok t" using pr_tok_ok [OF assms] .
  have n: "NUL \<notin> set ?bs" unfolding print_def by (rule render_no_nul [OF ok])
  then have line: "line_of ?buf = ?bs" unfolding line_of_def by (subst takeWhile_append2) auto
  have "at_toks ?bs 0 (pr 0 a @ [])" using ok by (simp add: at_toks_def print_def)
  moreover have "4 * (length ?bs - 0) + 4 \<le> FUEL ?bs" by (simp add: FUEL_def)
  moreover have "follow '')'' []" by (simp add: follow_def)
  ultimately obtain c s1 where r: "parseline (FUEL ?bs) ?bs 0 = Parsed c s1" "meaning ?bs c = a" "at_toks ?bs s1 []"
    using reads_all [OF assms, of ?bs] unfolding reads0_def by blast
  have "peek ?bs [] s1 = (starts [] [], length ?bs)" using at_toks_nil [OF r(3)] peek_at [OF r(3), of "[]"] by simp
  then have p: "parsecmd ?buf = Some (Inr (c, nulterminate c ?buf))"
    unfolding parsecmd_unfold line Let_def r(1) by simp
  have c: "cmd_ok (line_of ?buf) c" using parsecmd_spec [of ?buf] p by blast
  have "view (\<lambda>t. cstring (nulterminate c ?buf) (fst t)) c = meaning ?bs c"
  proof (rule view_cong)
    fix t assume "t \<in> set (words c)"
    then show "cstring (nulterminate c ?buf) (fst t) = slice ?bs t"
      using words_survive [OF _ c, of "fst t" "snd t"] line by simp
  qed
  with p r(2) show ?thesis by (intro exI [of _ c] exI [of _ "nulterminate c ?buf"]) simp
qed

text \<open>\<open>(cat < in | wc) & ; ls -l >> out\<close>\<close>

definition demo_scmd :: scmd where
  "demo_scmd = SList (SBack (SPipe (SRedir (SExec [''cat'']) ''in'' O_RDONLY 0) (SExec [''wc''])))
     (SRedir (SExec [''ls'', ''-l'']) ''out'' (O_WRONLY OR O_CREATE) 1)"

theorem shell_roundtrip_witness:
  "print demo_scmd = ''cat < in | wc & ; ls -l >> out '' \<and>
   (\<exists>c buf. parsecmd (print demo_scmd @ [NUL]) = Some (Inr (c, buf)) \<and> view (\<lambda>t. cstring buf (fst t)) c = demo_scmd)"
proof -
  have "scmd_ok demo_scmd"
    by (auto simp: demo_scmd_def MAXARGS_def word_ok_def redir_ok_def plain_def strchr_def whitespace_def symbols_def)
  moreover have "print demo_scmd = ''cat < in | wc & ; ls -l >> out ''"
    by (simp add: print_def demo_scmd_def par_def redir_sym_def O_RDONLY_def O_WRONLY_def O_CREATE_def O_TRUNC_def)
  ultimately show ?thesis using shell_roundtrip [of demo_scmd "[]"] by simp
qed

end
