(* ===== verification/User_Shell_Run.thy ===== *)
theory User_Shell_Run
  imports User_Shell_Grammar
begin

unbundle bit_operations_syntax

text \<open>
  What the shell does with a command: \<open>runcmd\<close>, \<open>getcmd\<close> and \<open>main\<close> of \<open>sh.c\<close>, as trees of system
  calls.  Each node is a call together with what the process does next, as a function of the result
  where the code looks at it; \<open>Fork\<close> has the child, the parent, and what happens when \<open>fork\<close> fails.
  \<open>panic\<close> and \<open>fprintf(2, \<dots>)\<close> are \<open>Write\<close>s to descriptor 2.
\<close>

datatype act =
    Exit int
  | Exec string "string list" act
  | Close nat act
  | Open string int "int \<Rightarrow> act"
  | Fork act act act
  | Pipe "nat \<Rightarrow> nat \<Rightarrow> act" act
  | Dup nat act
  | Wait act
  | Write nat string act
  | Chdir string "int \<Rightarrow> act"

definition panic_act :: "string \<Rightarrow> act" where
  "panic_act m = Write 2 (m @ ''\<newline>'') (Exit 1)"

definition fork1 :: "act \<Rightarrow> act \<Rightarrow> act" where
  "fork1 child rest = Fork child rest (panic_act ''fork'')"

section \<open>runcmd\<close>

primrec runcmd :: "string \<Rightarrow> cmd \<Rightarrow> act" where
  "runcmd buf (EXEC ts) =
     (if ts = [] then Exit 1
      else Exec (cstring buf (fst (hd ts))) (map (\<lambda>t. cstring buf (fst t)) ts)
        (Write 2 (''exec '' @ cstring buf (fst (hd ts)) @ '' failed\<newline>'') (Exit 0)))"
| "runcmd buf (REDIR c q e m fd) =
     Close fd (Open (cstring buf q) m (\<lambda>r.
       if r < 0 then Write 2 (''open '' @ cstring buf q @ '' failed\<newline>'') (Exit 1) else runcmd buf c))"
| "runcmd buf (LIST l r) = fork1 (runcmd buf l) (Wait (runcmd buf r))"
| "runcmd buf (PIPE l r) =
     Pipe (\<lambda>p0 p1.
       fork1 (Close 1 (Dup p1 (Close p0 (Close p1 (runcmd buf l)))))
         (fork1 (Close 0 (Dup p0 (Close p0 (Close p1 (runcmd buf r)))))
           (Close p0 (Close p1 (Wait (Wait (Exit 0)))))))
       (panic_act ''pipe'')"
| "runcmd buf (BACK c) = fork1 (runcmd buf c) (Exit 0)"

section \<open>getcmd and main\<close>

text \<open>\<open>gets\<close> of \<open>ulib.c\<close>: characters up to a line end, at most \<open>max - 1\<close>; the input ends where \<open>read\<close> returns 0.\<close>

fun gets_line :: "nat \<Rightarrow> string \<Rightarrow> string \<times> string" where
  "gets_line 0 inp = ([], inp)"
| "gets_line (Suc n) [] = ([], [])"
| "gets_line (Suc n) (c # inp) =
     (if c = CHR 0x0A \<or> c = CHR 0x0D then ([c], inp)
      else case gets_line n inp of (l, inp) \<Rightarrow> (c # l, inp))"

definition CMDBUF :: nat where "CMDBUF = 100"

text \<open>The buffer is cleared first; the result is \<open>None\<close> at the end of the input.\<close>

definition getcmd :: "string \<Rightarrow> (string \<times> string) option" where
  "getcmd inp =
     (case gets_line (CMDBUF - 1) inp of (l, inp) \<Rightarrow>
      let buf = l @ replicate (CMDBUF - length l) NUL in
      if hd buf = NUL then None else Some (buf, inp))"

text \<open>\<open>runcmd(parsecmd(buf))\<close> in the child.\<close>

definition child_act :: "string \<Rightarrow> act" where
  "child_act buf =
     (case parsecmd buf of
        Some (Inr (c, buf)) \<Rightarrow> runcmd buf c
      | Some (Inl m) \<Rightarrow> Write 2 m (Exit 1)
      | None \<Rightarrow> Exit 1)"

lemma gets_line_shorter: "gets_line n inp = (l, r) \<Longrightarrow> length l + length r = length inp"
  by (induction n inp arbitrary: l r rule: gets_line.induct) (auto split: if_splits prod.splits)

lemma getcmd_shorter: "getcmd inp = Some (buf, r) \<Longrightarrow> length r < length inp"
proof -
  assume g: "getcmd inp = Some (buf, r)"
  obtain l r' where gl: "gets_line (CMDBUF - 1) inp = (l, r')" by fastforce
  have "l \<noteq> []" using g gl by (auto simp: getcmd_def Let_def CMDBUF_def split: if_splits)
  then show ?thesis using g gl gets_line_shorter [OF gl] by (cases l) (auto simp: getcmd_def Let_def split: if_splits)
qed

function sh_loop :: "string \<Rightarrow> act" where
  "sh_loop inp =
     Write 2 ''$ '' (case getcmd inp of
       None \<Rightarrow> Exit 0
     | Some (buf, inp) \<Rightarrow>
         if take 3 buf = ''cd '' then
           let dir = drop 3 (butlast (takeWhile (\<lambda>c. c \<noteq> NUL) buf)) in
           Chdir dir (\<lambda>r. if r < 0 then Write 2 (''cannot cd '' @ dir @ ''\<newline>'') (sh_loop inp) else sh_loop inp)
         else fork1 (child_act buf) (Wait (sh_loop inp)))"
  by auto
termination by (relation "measure length") (auto dest: getcmd_shorter [OF sym] getcmd_shorter)

text \<open>
  The first loop of \<open>main\<close>.  Every round takes the lowest free descriptor, so it ends after at most
  four; \<open>n\<close> counts them.
\<close>

fun open_console :: "nat \<Rightarrow> act \<Rightarrow> act" where
  "open_console 0 a = a"
| "open_console (Suc n) a =
     Open ''console'' O_RDWR (\<lambda>fd. if fd < 0 then a else if fd \<ge> 3 then Close (nat fd) a else open_console n a)"

definition sh_main :: "string \<Rightarrow> act" where
  "sh_main inp = open_console 4 (sh_loop inp)"

declare sh_loop.simps [simp del]

section \<open>Descriptors\<close>

text \<open>
  What a descriptor refers to, and the effect of the calls on the table of descriptors: as in
  \<open>fdalloc\<close>, a new descriptor is the lowest free one.  A process goes on in the child and in the parent
  of a \<open>fork\<close>; \<open>open\<close>, \<open>fork\<close>, \<open>pipe\<close> and \<open>exec\<close> may fail.  The name of a new pipe is arbitrary.
\<close>

datatype fobj = Console | File string int | PipeRead nat | PipeWrite nat

type_synonym fds = "nat \<Rightarrow> fobj option"

definition NFD :: nat where "NFD = 16"

definition lowest :: "fds \<Rightarrow> nat option" where
  "lowest d = find (\<lambda>n. d n = None) [0..<NFD]"

inductive fd_step :: "fds \<times> act \<Rightarrow> fds \<times> act \<Rightarrow> bool" where
  exec_fails: "fd_step (d, Exec p av a) (d, a)"
| close_done: "fd_step (d, Close n a) (d(n := None), a)"
| open_ok: "lowest d = Some n \<Longrightarrow> fd_step (d, Open f m k) (d(n \<mapsto> File f m), k (int n))"
| open_fails: "fd_step (d, Open f m k) (d, k (-1))"
| fork_child: "fd_step (d, Fork c p e) (d, c)"
| fork_parent: "fd_step (d, Fork c p e) (d, p)"
| fork_fails: "fd_step (d, Fork c p e) (d, e)"
| pipe_ok: "lowest d = Some n \<Longrightarrow> lowest (d(n \<mapsto> PipeRead x)) = Some m \<Longrightarrow>
    fd_step (d, Pipe k e) (d(n \<mapsto> PipeRead x, m \<mapsto> PipeWrite x), k n m)"
| pipe_fails: "fd_step (d, Pipe k e) (d, e)"
| dup_ok: "lowest d = Some n \<Longrightarrow> d m = Some f \<Longrightarrow> fd_step (d, Dup m a) (d(n \<mapsto> f), a)"
| dup_fails: "lowest d = None \<or> d m = None \<Longrightarrow> fd_step (d, Dup m a) (d, a)"
| wait_done: "fd_step (d, Wait a) (d, a)"
| write_done: "fd_step (d, Write n t a) (d, a)"
| chdir_done: "fd_step (d, Chdir p k) (d, k r)"

inductive_simps fd_step_simps:
  "fd_step (d, Exit n) y" "fd_step (d, Exec p av a) y" "fd_step (d, Close n a) y" "fd_step (d, Open f m k) y" "fd_step (d, Fork c p e) y"
  "fd_step (d, Pipe k e) y" "fd_step (d, Dup n a) y" "fd_step (d, Wait a) y" "fd_step (d, Write n t a) y" "fd_step (d, Chdir t k) y"

text \<open>The programs that a process and its descendants start, with their arguments and descriptors.\<close>

definition started :: "fds \<Rightarrow> act \<Rightarrow> (string \<times> string list \<times> fds) set" where
  "started d a = {(p, av, d') | p av d'. \<exists>a'. fd_step\<^sup>*\<^sup>* (d, a) (d', Exec p av a')}"

lemma started_unfold:
  "started d a = {(p, av, d) | p av. \<exists>a'. a = Exec p av a'} \<union> (\<Union>(d', a') \<in> {y. fd_step (d, a) y}. started d' a')"
proof (intro set_eqI iffI)
  fix x assume "x \<in> started d a"
  then obtain p av d' a' where x: "x = (p, av, d')" "fd_step\<^sup>*\<^sup>* (d, a) (d', Exec p av a')" by (auto simp: started_def)
  from x(2) show "x \<in> {(p, av, d) | p av. \<exists>a'. a = Exec p av a'} \<union> (\<Union>(d', a') \<in> {y. fd_step (d, a) y}. started d' a')"
  proof (cases rule: converse_rtranclpE)
    case (step y)
    obtain d1 a1 where "y = (d1, a1)" by (cases y)
    with step x(1) show ?thesis unfolding started_def by blast
  qed (use x(1) in auto)
next
  fix x assume "x \<in> {(p, av, d) | p av. \<exists>a'. a = Exec p av a'} \<union> (\<Union>(d', a') \<in> {y. fd_step (d, a) y}. started d' a')"
  then consider p av a' where "x = (p, av, d)" "a = Exec p av a'" | d' a' where "fd_step (d, a) (d', a')" "x \<in> started d' a'"
    by blast
  then show "x \<in> started d a"
  proof cases
    case 1
    then show ?thesis by (auto simp: started_def)
  next
    case 2
    then show ?thesis unfolding started_def using converse_rtranclp_into_rtranclp [of fd_step "(d, a)" "(d', a')"] by blast
  qed
qed

lemma started_simps:
  "started d (Exit st) = {}"
  "started d (Exec p av a) = insert (p, av, d) (started d a)"
  "started d (Close n a) = started (d(n := None)) a"
  "started d (Open f m k) = started d (k (-1)) \<union> (case lowest d of None \<Rightarrow> {} | Some n \<Rightarrow> started (d(n \<mapsto> File f m)) (k (int n)))"
  "started d (Fork c pa e) = started d c \<union> started d pa \<union> started d e"
  "started d (Wait a) = started d a"
  "started d (Write n t a) = started d a"
  by (auto simp: fd_step_simps started_unfold [of d "Exit st"] started_unfold [of d "Exec p av a"] started_unfold [of d "Close n a"]
      started_unfold [of d "Open f m k"] started_unfold [of d "Fork c pa e"] started_unfold [of d "Wait a"]
      started_unfold [of d "Write n t a"] split: option.splits)

section \<open>What the command prescribes\<close>

text \<open>
  The programs of a command with their descriptors, read off the command: a redirection replaces one
  descriptor, and the sides of a pipe are joined by a pipe of their own.
\<close>

primrec programs :: "fds \<Rightarrow> scmd \<Rightarrow> (string \<times> string list \<times> fds) set" where
  "programs d (SExec ws) = (if ws = [] then {} else {(hd ws, ws, d)})"
| "programs d (SRedir a f m fd) = programs (d(fd \<mapsto> File f m)) a"
| "programs d (SPipe a b) = (\<Union>x. programs (d(1 \<mapsto> PipeWrite x)) a \<union> programs (d(0 \<mapsto> PipeRead x)) b)"
| "programs d (SList a b) = programs d a \<union> programs d b"
| "programs d (SBack a) = programs d a"

text \<open>The standard descriptors, and no others.\<close>

definition std :: "fds \<Rightarrow> bool" where
  "std d \<longleftrightarrow> dom d = {0, 1, 2}"

lemma stdD:
  assumes "std d"
  shows "d 0 \<noteq> None" "d 1 \<noteq> None" "d 2 \<noteq> None" "n \<ge> 3 \<Longrightarrow> d n = None"
proof -
  have "d n = None \<longleftrightarrow> n \<notin> {0, 1, 2}" for n using assms unfolding std_def by (metis domIff)
  then show "d 0 \<noteq> None" "d 1 \<noteq> None" "d 2 \<noteq> None" "n \<ge> 3 \<Longrightarrow> d n = None" by simp_all
qed

lemma upt_NFD: "[0..<NFD] = 0 # 1 # 2 # 3 # 4 # [5..<NFD]"
  by (simp add: NFD_def upt_rec)

lemma lowest_cases:
  "d 0 = None \<Longrightarrow> lowest d = Some 0"
  "d 0 \<noteq> None \<Longrightarrow> d (Suc 0) = None \<Longrightarrow> lowest d = Some (Suc 0)"
  "d 0 \<noteq> None \<Longrightarrow> d (Suc 0) \<noteq> None \<Longrightarrow> d 2 \<noteq> None \<Longrightarrow> d 3 = None \<Longrightarrow> lowest d = Some 3"
  "d 0 \<noteq> None \<Longrightarrow> d (Suc 0) \<noteq> None \<Longrightarrow> d 2 \<noteq> None \<Longrightarrow> d 3 \<noteq> None \<Longrightarrow> d 4 = None \<Longrightarrow> lowest d = Some 4"
  unfolding lowest_def upt_NFD by auto

lemma started_fork1: "started d (fork1 a b) = started d a \<union> started d b"
  by (simp add: fork1_def panic_act_def started_simps)

lemma started_dup:
  assumes "lowest d = Some n" "d m = Some f"
  shows "started d (Dup m a) = started (d(n \<mapsto> f)) a"
  using assms by (subst started_unfold) (auto simp: fd_step_simps)

lemma started_pipe:
  assumes "std d"
  shows "started d (Pipe k e) = started d e \<union> (\<Union>x. started (d(3 \<mapsto> PipeRead x, 4 \<mapsto> PipeWrite x)) (k 3 4))"
proof -
  note s = stdD [OF assms]
  have "lowest d = Some 3" "lowest (d(3 \<mapsto> PipeRead x)) = Some 4" for x
    using s by (intro lowest_cases; simp)+
  then have "{y. fd_step (d, Pipe k e) y} = insert (d, e) (range (\<lambda>x. (d(3 \<mapsto> PipeRead x, 4 \<mapsto> PipeWrite x), k 3 4)))"
    by (auto simp: fd_step_simps)
  then show ?thesis by (simp add: started_unfold [of d "Pipe k e"])
qed

text \<open>
  The two ends: each child puts its end of the pipe on descriptor 1 or 0 and closes both others.
\<close>

lemma pipe_child:
  fixes x :: nat
  assumes "std d" "e = 3 \<or> e = 4" "fd < 2"
    and d': "d' = d(3 \<mapsto> PipeRead x, 4 \<mapsto> PipeWrite x)"
  shows "started d' (Close fd (Dup e (Close 3 (Close 4 a)))) = started (d(fd := d' e)) a"
proof -
  note s = stdD [OF assms(1)]
  have fd: "fd = 0 \<or> fd = 1" using assms(3) by auto
  have "lowest (d'(fd := None)) = Some fd" using fd s by (auto simp: d' intro!: lowest_cases)
  moreover obtain f where "d' e = Some f" using assms(2) by (auto simp: d')
  moreover have "d'(fd := None, fd \<mapsto> f, 3 := None, 4 := None) = d(fd \<mapsto> f)"
    using s(4) [of 3] s(4) [of 4] fd by (auto simp: d' fun_eq_iff)
  ultimately show ?thesis using assms(2) fd by (auto simp: started_simps started_dup)
qed

lemma std_upd: "std d \<Longrightarrow> fd < 2 \<Longrightarrow> std (d(fd \<mapsto> f))"
  by (auto simp: std_def)

lemma started_runcmd:
  assumes "std d" "redirs_low c"
  shows "started d (runcmd buf c) = programs d (view (\<lambda>t. cstring buf (fst t)) c)"
  using assms
proof (induction c arbitrary: d)
  case (EXEC ts)
  then show ?case by (cases ts) (auto simp: started_simps)
next
  case (REDIR c q e m fd)
  note s = stdD [OF REDIR.prems(1)]
  have fd: "fd = 0 \<or> fd = 1" using REDIR.prems(2) by auto
  have l: "lowest (d(fd := None)) = Some fd" using fd s by (auto intro!: lowest_cases)
  have "std (d(fd \<mapsto> File (cstring buf q) m))" using REDIR.prems fd by (intro std_upd) auto
  then show ?case using REDIR.IH REDIR.prems(2) l by (simp add: started_simps)
next
  case (PIPE l r)
  note s = stdD [OF PIPE.prems(1)]
  have u: "std (d(1 \<mapsto> PipeWrite x))" "std (d(0 \<mapsto> PipeRead x))" for x
    using PIPE.prems(1) by (auto intro!: std_upd)
  have "started (d(1 \<mapsto> PipeWrite x)) (runcmd buf l) = programs (d(1 \<mapsto> PipeWrite x)) (view (\<lambda>t. cstring buf (fst t)) l)"
    "started (d(0 \<mapsto> PipeRead x)) (runcmd buf r) = programs (d(0 \<mapsto> PipeRead x)) (view (\<lambda>t. cstring buf (fst t)) r)" for x
    by (rule PIPE.IH(1) [OF u(1)], use PIPE.prems(2) in simp) (rule PIPE.IH(2) [OF u(2)], use PIPE.prems(2) in simp)
  moreover have
    "started (d(3 \<mapsto> PipeRead x, 4 \<mapsto> PipeWrite x)) (Close 1 (Dup 4 (Close 3 (Close 4 a)))) = started (d(1 \<mapsto> PipeWrite x)) a"
    "started (d(3 \<mapsto> PipeRead x, 4 \<mapsto> PipeWrite x)) (Close 0 (Dup 3 (Close 3 (Close 4 a)))) = started (d(0 \<mapsto> PipeRead x)) a"
    for x a using pipe_child [OF PIPE.prems(1) _ _ refl] by simp_all
  moreover have "started d' (Close p0 (Close p1 (Wait (Wait (Exit 0))))) = {}" "started d' (panic_act m) = {}" for d' p0 p1 m
    by (simp_all add: started_simps panic_act_def)
  ultimately show ?case
    unfolding runcmd.simps started_pipe [OF PIPE.prems(1)] started_fork1 view.simps programs.simps by simp
next
  case (LIST l r)
  then show ?case by (simp add: started_fork1 started_simps)
next
  case (BACK c)
  then show ?case by (simp add: started_fork1 started_simps)
qed


lemma programs_std:
  "std d \<Longrightarrow> redirs_low c \<Longrightarrow> \<forall>(p, av, d') \<in> programs d (view f c). av \<noteq> [] \<and> p = hd av \<and> std d'"
proof (induction c arbitrary: d)
  case (REDIR c q e m fd)
  then have "std (d(fd \<mapsto> File (f (q, e)) m))" "redirs_low c" by (simp_all add: std_upd)
  then show ?case unfolding view.simps programs.simps by (rule REDIR.IH)
next
  case (PIPE l r)
  then have u: "std (d(1 \<mapsto> PipeWrite x))" "std (d(0 \<mapsto> PipeRead x))" "redirs_low l" "redirs_low r" for x
    by (simp_all add: std_upd)
  show ?case unfolding view.simps programs.simps using PIPE.IH(1) [OF u(1,3)] PIPE.IH(2) [OF u(2,4)] by blast
next
  case (LIST l r)
  then show ?case unfolding view.simps programs.simps redirs_low.simps by blast
qed simp_all

section \<open>Property\<close>



definition tty :: fds where
  "tty n = (if n < 3 then Some Console else None)"


end
