(* ===== verification/User_Lib.thy ===== *)
theory User_Lib
  imports Xv6_String Xv6_Output
begin

text \<open>
  The library of the user programs: \<open>user/ulib.c\<close> and \<open>user/printf.c\<close>.  Pointers that are only read are
  the bytes from them on, as in \<open>Xv6_String\<close>; a scan for a NUL that never comes is \<open>None\<close>.  The result of
  a conversion is the text that \<open>putc\<close> writes to the descriptor.
\<close>

section \<open>ulib.c\<close>

partial_function (option) ustrcpy :: "cptr \<Rightarrow> byte list option" where
  "ustrcpy t = (if t 0 = 0 then Some [0] else Option.bind (ustrcpy (padv t)) (\<lambda>bs. Some (t 0 # bs)))"

partial_function (option) ustrcmp :: "cptr \<Rightarrow> cptr \<Rightarrow> int option" where
  "ustrcmp p q =
     (if p 0 \<noteq> 0 \<and> p 0 = q 0 then ustrcmp (padv p) (padv q) else Some (uint (p 0) - uint (q 0)))"

partial_function (option) ustrlen_from :: "cptr \<Rightarrow> nat \<Rightarrow> nat option" where
  "ustrlen_from s n = (if s n = 0 then Some n else ustrlen_from s (n + 1))"

definition ustrlen :: "cptr \<Rightarrow> nat option" where
  "ustrlen s = ustrlen_from s 0"

text \<open>The index of the character, or \<open>None\<close> for a null pointer.\<close>

partial_function (option) ustrchr_from :: "cptr \<Rightarrow> byte \<Rightarrow> nat \<Rightarrow> nat option option" where
  "ustrchr_from s c n = (if s n = 0 then Some None else if s n = c then Some (Some n) else ustrchr_from s c (n + 1))"

definition ustrchr :: "cptr \<Rightarrow> byte \<Rightarrow> nat option option" where
  "ustrchr s c = ustrchr_from s c 0"

definition umemset :: "uint64 \<Rightarrow> byte \<Rightarrow> uint \<Rightarrow> mem \<Rightarrow> mem" where
  "umemset dst c n m = fold (\<lambda>i m. m(dst + of_nat i := c)) [0..<unat n] m"

text \<open>The loops are those of the kernel's \<open>memmove\<close>; the choice between them is not.\<close>

definition umemmove :: "uint64 \<Rightarrow> uint64 \<Rightarrow> int \<Rightarrow> mem \<Rightarrow> mem" where
  "umemmove vdst vsrc n m =
     (if vsrc > vdst then memmove_up vdst vsrc (nat n) m
      else memmove_down (vdst + word_of_int n) (vsrc + word_of_int n) (nat n) m)"

fun umemcmp :: "cptr \<Rightarrow> cptr \<Rightarrow> nat \<Rightarrow> int" where
  "umemcmp p1 p2 0 = 0"
| "umemcmp p1 p2 (Suc n) = (if p1 0 \<noteq> p2 0 then uint (p1 0) - uint (p2 0) else umemcmp (padv p1) (padv p2) n)"

definition umemcpy :: "uint64 \<Rightarrow> uint64 \<Rightarrow> int \<Rightarrow> mem \<Rightarrow> mem" where
  "umemcpy dst src n m = umemmove dst src n m"

definition is_digit :: "byte \<Rightarrow> bool" where
  "is_digit c \<longleftrightarrow> 48 \<le> c \<and> c \<le> 57"

text \<open>\<open>n*10 + *s++ - '0'\<close> at the width of an \<open>int\<close>.\<close>

partial_function (option) atoi_from :: "uint \<Rightarrow> cptr \<Rightarrow> uint option" where
  "atoi_from n s = (if is_digit (s 0) then atoi_from (n * 10 + ucast (s 0) - 48) (padv s) else Some n)"

definition atoi :: "cptr \<Rightarrow> uint option" where
  "atoi s = atoi_from 0 s"

section \<open>printf.c\<close>

definition udigits :: string where "udigits = ''0123456789ABCDEF''"

text \<open>\<open>buf\<close> after the loop and the sign, least significant digit first, and the text.\<close>

definition uprintint_buf :: "uint \<Rightarrow> nat \<Rightarrow> bool \<Rightarrow> string" where
  "uprintint_buf xx base sg =
     (let neg = sg \<and> sint xx < 0; x = (if neg then - xx else xx) in
      map (\<lambda>d. udigits ! d) (digits_rev base (unat x)) @ (if neg then ''-'' else []))"

definition uprintint :: "uint \<Rightarrow> nat \<Rightarrow> bool \<Rightarrow> string" where
  "uprintint xx base sg = rev (uprintint_buf xx base sg)"

definition uprintptr :: "uint64 \<Rightarrow> string" where
  "uprintptr x = ''0x'' @ map (\<lambda>i. udigits ! unat (drop_bit 60 (push_bit (4 * i) x))) [0..<16]"

text \<open>\<open>va_arg\<close>; a missing argument or one of another kind is undefined.\<close>

definition va_num :: "varg list \<Rightarrow> (uint64 \<Rightarrow> string) \<Rightarrow> string option" where
  "va_num args f = (case args of VNum w # _ \<Rightarrow> Some (f w) | _ \<Rightarrow> None)"

definition va_text :: "varg list \<Rightarrow> string option" where
  "va_text args = (case args of VStr (Some s) # _ \<Rightarrow> Some s | VStr None # _ \<Rightarrow> Some ''(null)'' | _ \<Rightarrow> None)"

text \<open>
  One conversion: the characters after \<open>%\<close> give the text, how many of them are consumed, and whether
  an argument is.  All numbers go through the \<open>int\<close> parameter of \<open>printint\<close>.
\<close>

definition uconv :: "string \<Rightarrow> varg list \<Rightarrow> string option \<times> nat \<times> bool" where
  "uconv r args =
     (let c0 = (case r of c # _ \<Rightarrow> c | [] \<Rightarrow> CHR 0x00);
          c1 = (case r of _ # c # _ \<Rightarrow> c | _ \<Rightarrow> CHR 0x00);
          c2 = (case r of _ # _ # c # _ \<Rightarrow> c | _ \<Rightarrow> CHR 0x00);
          num = (\<lambda>base sg. va_num args (\<lambda>w. uprintint (ucast w) base sg)) in
      if c0 = CHR ''d'' then (num 10 True, 1, True)
      else if c0 = CHR ''l'' \<and> c1 = CHR ''d'' then (num 10 True, 2, True)
      else if c0 = CHR ''l'' \<and> c1 = CHR ''l'' \<and> c2 = CHR ''d'' then (num 10 True, 3, True)
      else if c0 = CHR ''u'' then (num 10 False, 1, True)
      else if c0 = CHR ''l'' \<and> c1 = CHR ''u'' then (num 10 False, 2, True)
      else if c0 = CHR ''l'' \<and> c1 = CHR ''l'' \<and> c2 = CHR ''u'' then (num 10 False, 3, True)
      else if c0 = CHR ''x'' then (num 16 False, 1, True)
      else if c0 = CHR ''l'' \<and> c1 = CHR ''x'' then (num 16 False, 2, True)
      else if c0 = CHR ''l'' \<and> c1 = CHR ''l'' \<and> c2 = CHR ''x'' then (num 16 False, 3, True)
      else if c0 = CHR ''p'' then (va_num args uprintptr, 1, True)
      else if c0 = CHR ''s'' then (va_text args, 1, True)
      else if c0 = CHR ''%'' then (Some ''%'', 1, False)
      else (Some [CHR ''%'', c0], 1, False))"

text \<open>\<open>vprintf\<close>: the loop in its states 0 and \<open>%\<close>; the format is given without its NUL.\<close>

function vprintf :: "string \<Rightarrow> varg list \<Rightarrow> string option" where
  "vprintf [] args = Some []"
| "vprintf (c # r) args =
     (if c \<noteq> CHR ''%'' then map_option (Cons c) (vprintf r args)
      else if r = [] then Some []
      else case uconv r args of (t, k, used) \<Rightarrow>
        Option.bind t (\<lambda>t. map_option (\<lambda>u. t @ u) (vprintf (drop k r) (if used then tl args else args))))"
  by pat_completeness auto
termination by (relation "measure (\<lambda>(f, _). length f)") auto

section \<open>Copies\<close>

lemma umemset_memset: "umemset = memset"
  by (intro ext) (simp add: umemset_def memset_def)


lemma umemmove_copy:
  assumes "unat s + n < 2 ^ 64" "unat d + n < 2 ^ 64"
  shows "umemmove d s (int n) m = mem_copy d s n m"
proof (cases "s > d")
  case True
  then have "unat d \<le> unat s" by (simp add: word_less_nat_alt)
  then show ?thesis using True memmove_up_copy [OF assms] by (simp add: umemmove_def)
next
  case False
  then have "unat s \<le> unat d" by (simp add: word_less_nat_alt)
  then show ?thesis using False memmove_down_copy [OF assms] by (simp add: umemmove_def)
qed

section \<open>Numbers\<close>

lemma padv_arr_ptr: "padv (arr_ptr (x # xs)) = arr_ptr xs" "arr_ptr (x # xs) 0 = x"
  by (auto simp: padv_def arr_ptr_def)

lemma digits_rev_small: "2 \<le> b \<Longrightarrow> \<forall>d \<in> set (digits_rev b x). d < b"
proof (induction b x rule: digits_rev.induct)
  case (1 b x)
  then show ?case by (subst digits_rev.simps) auto
qed

lemma digits_rev_value: "2 \<le> b \<Longrightarrow> foldr (\<lambda>d a. a * b + d) (digits_rev b x) 0 = x"
proof (induction b x rule: digits_rev.induct)
  case (1 b x)
  then show ?case by (subst digits_rev.simps) auto
qed

lemma digit_byte:
  assumes "d < 10"
  shows "of_char (digits ! d) = (48 + of_nat d :: byte)" "udigits ! d = digits ! d"
proof -
  have "d \<in> {0, 1, 2, 3, 4, 5, 6, 7, 8, 9}" using assms by auto
  then show "of_char (digits ! d) = (48 + of_nat d :: byte)" "udigits ! d = digits ! d"
    by (auto simp: digits_def udigits_def)
qed

lemma digit_range:
  assumes "d < 10"
  shows "is_digit (48 + of_nat d)" "ucast (48 + of_nat d :: byte) - 48 = (of_nat d :: uint)"
proof -
  have "d \<in> {0, 1, 2, 3, 4, 5, 6, 7, 8, 9}" using assms by auto
  then show "is_digit (48 + of_nat d)" "ucast (48 + of_nat d :: byte) - 48 = (of_nat d :: uint)"
    by (auto simp: is_digit_def)
qed

lemma atoi_digits:
  assumes "\<forall>d \<in> set ds. d < 10" "rest = [] \<or> \<not> is_digit (hd rest)"
  shows "atoi_from a (arr_ptr (map (\<lambda>d. 48 + of_nat d) ds @ rest)) = Some (foldl (\<lambda>a d. a * 10 + of_nat d) a ds)"
  using assms(1)
proof (induction ds arbitrary: a)
  case Nil
  have "\<not> is_digit (arr_ptr rest 0)" using assms(2) by (cases rest) (auto simp: arr_ptr_def is_digit_def)
  then show ?case by (subst atoi_from.simps) simp
next
  case (Cons d ds)
  then have d: "is_digit (48 + of_nat d)" "ucast (48 + of_nat d :: byte) - 48 = (of_nat d :: uint)"
    using digit_range [of d] by auto
  have e: "a * 10 + ucast (48 + of_nat d :: byte) - 48 = a * 10 + of_nat d" using d(2) by (metis add_diff_eq)
  have "atoi_from a (arr_ptr (map (\<lambda>d. 48 + of_nat d) (d # ds) @ rest)) =
      atoi_from (a * 10 + ucast (48 + of_nat d :: byte) - 48) (arr_ptr (map (\<lambda>d. 48 + of_nat d) ds @ rest))"
    by (subst atoi_from.simps) (simp add: padv_arr_ptr d(1))
  with Cons show ?case unfolding e by simp
qed

lemma foldl_digits: "foldl (\<lambda>a d. a * 10 + of_nat d) (of_nat a :: uint) ds = of_nat (foldl (\<lambda>a d. a * 10 + d) a ds)"
proof (induction ds arbitrary: a)
  case (Cons d ds)
  have "of_nat a * 10 + of_nat d = (of_nat (a * 10 + d) :: uint)" by simp
  then show ?case using Cons [of "a * 10 + d"] by simp
qed simp

lemma show_nat_bytes: "to_bytes (show_nat 10 n) = map (\<lambda>d. 48 + of_nat d) (rev (digits_rev 10 n))"
  using digits_rev_small [of 10 n] digit_byte(1)
  by (simp add: to_bytes_def flip: digits_show) (simp add: rev_map)

lemma atoi_show:
  assumes "rest = [] \<or> \<not> is_digit (hd rest)"
  shows "atoi (arr_ptr (to_bytes (show_nat 10 n) @ rest)) = Some (of_nat n)"
proof -
  have "\<forall>d \<in> set (rev (digits_rev 10 n)). d < 10" using digits_rev_small [of 10 n] by simp
  from atoi_digits [OF this assms, of 0]
  show ?thesis using foldl_digits [of 0 "rev (digits_rev 10 n)"] digits_rev_value [of 10 n]
    by (simp add: atoi_def show_nat_bytes foldl_conv_foldr)
qed

lemma uprintint_show:
  "uprintint xx 10 True = show_int (sint xx)" "uprintint xx 10 False = show_nat 10 (unat xx)"
proof -
  have m: "rev (map (\<lambda>d. udigits ! d) (digits_rev 10 x)) = show_nat 10 x" for x
    using digits_rev_small [of 10 x] digit_byte(2) by (simp flip: digits_show cong: map_cong)
  show "uprintint xx 10 False = show_nat 10 (unat xx)" by (simp add: uprintint_def uprintint_buf_def m)
  have x: "xx = word_of_int (sint xx)" by simp
  have u: "uint (word_of_int k :: uint) = k" if "0 \<le> k" "k \<le> 2147483648" for k
    using that by (simp add: uint_word_of_int)
  have "sint xx < 0 \<Longrightarrow> unat (- xx) = nat (- sint xx)"
    using u [of "- sint xx"] int_bounds [of xx] by (subst x) (simp add: unat_eq_nat_uint flip: word_of_int_minus)
  moreover have "0 \<le> sint xx \<Longrightarrow> unat xx = nat (sint xx)"
    using u [of "sint xx"] int_bounds [of xx] by (subst x) (simp add: unat_eq_nat_uint)
  ultimately show "uprintint xx 10 True = show_int (sint xx)"
    by (simp add: uprintint_def uprintint_buf_def Let_def m show_int_def)
qed

lemma uprintint_buf_fits: "base = 10 \<or> base = 16 \<Longrightarrow> length (uprintint_buf xx base sg) \<le> 16"
proof -
  assume b: "base = 10 \<or> base = 16"
  have "x < base ^ 10" if "x < 2 ^ 32" for x using b that by auto
  then have "length (digits_rev base (unat y)) \<le> 10" for y :: uint
    using length_digits_rev [of base 10 "unat y"] b unsigned_less [of y, where 'a = nat] by auto
  then show ?thesis by (simp add: uprintint_buf_def Let_def) (meson le_Suc_eq le_trans numeral_le_iff semiring_norm)
qed

section \<open>Formats\<close>

text \<open>The pieces of a format, with their arguments, and what they should print.\<close>

datatype piece = PText string | PInt uint64 | PLong uint64 | PUns uint64 | PStr string | PPercent

primrec piece_fmt :: "piece \<Rightarrow> string" where
  "piece_fmt (PText t) = t"
| "piece_fmt (PInt w) = ''%d''"
| "piece_fmt (PLong w) = ''%ld''"
| "piece_fmt (PUns w) = ''%u''"
| "piece_fmt (PStr t) = ''%s''"
| "piece_fmt PPercent = ''%%''"

primrec piece_args :: "piece \<Rightarrow> varg list" where
  "piece_args (PText t) = []"
| "piece_args (PInt w) = [VNum w]"
| "piece_args (PLong w) = [VNum w]"
| "piece_args (PUns w) = [VNum w]"
| "piece_args (PStr t) = [VStr (Some t)]"
| "piece_args PPercent = []"

primrec piece_text :: "piece \<Rightarrow> string" where
  "piece_text (PText t) = t"
| "piece_text (PInt w) = show_int (sint (ucast w :: uint))"
| "piece_text (PLong w) = show_int (sint (ucast w :: uint))"
| "piece_text (PUns w) = show_nat 10 (unat (ucast w :: uint))"
| "piece_text (PStr t) = t"
| "piece_text PPercent = ''%''"

lemma vprintf_plain: "CHR ''%'' \<notin> set t \<Longrightarrow> vprintf (t @ r) args = map_option (\<lambda>u. t @ u) (vprintf r args)"
  by (cases "vprintf r args"; induction t) auto

lemma vprintf_piece:
  assumes "\<forall>t. p = PText t \<longrightarrow> CHR ''%'' \<notin> set t"
  shows "vprintf (piece_fmt p @ r) (piece_args p @ args) = map_option (\<lambda>u. piece_text p @ u) (vprintf r args)"
  using assms vprintf_plain by (cases "vprintf r args"; cases p) (auto simp: uconv_def va_num_def va_text_def uprintint_show Let_def)

section \<open>Properties\<close>



text \<open>
  \<open>atoi\<close> reads back every number below 2 GiB from its decimal notation, whatever follows it.
\<close>

theorem atoi_reads_back:
  assumes "n < 2 ^ 31" "rest = [] \<or> \<not> is_digit (hd rest)"
  shows "\<exists>w. atoi (arr_ptr (to_bytes (show_int (int n)) @ rest)) = Some w \<and> sint w = int n"
  using atoi_show [OF assms(2), of n] sint_small [OF assms(1)] by (simp add: show_int_def)

theorem atoi_reads_back_witness:
  "\<exists>w. atoi (arr_ptr (to_bytes ''512 KiB'')) = Some w \<and> sint w = 512"
proof -
  have "to_bytes (show_int (int 512)) @ to_bytes '' KiB'' = to_bytes ''512 KiB''" by code_simp
  moreover have "\<not> is_digit (hd (to_bytes '' KiB''))" by code_simp
  ultimately show ?thesis using atoi_reads_back [of 512 "to_bytes '' KiB''"] by simp
qed

end
