(* ===== verification/Lab_Wordcount.thy ===== *)
theory Lab_Wordcount
  imports Xv6_Prelude
begin

text \<open>
  \<open>lab8-lyjae/wc_mt.c\<close>: counting the words of a file with several threads, each on a block of its own.
  The text is a list of bytes.  A word is a maximal run of letters and digits, as \<open>isalnum\<close> has them in
  the C locale.
\<close>

definition is_word_char :: "byte \<Rightarrow> bool" where
  "is_word_char c \<longleftrightarrow> 48 \<le> c \<and> c \<le> 57 \<or> 65 \<le> c \<and> c \<le> 90 \<or> 97 \<le> c \<and> c \<le> 122"

section \<open>One thread\<close>

text \<open>\<open>count_words\<close> on the bytes from \<open>start\<close> up to \<open>end\<close>; the counter is a C integer.\<close>

function count_loop :: "byte list \<Rightarrow> nat \<Rightarrow> nat \<Rightarrow> bool \<Rightarrow> uint \<Rightarrow> uint" where
  "count_loop buf i e in_word n =
     (if i < e then
        if is_word_char (buf ! i) then count_loop buf (i + 1) e True (if in_word then n else n + 1)
        else count_loop buf (i + 1) e False n
      else n)"
  by auto
termination by (relation "measure (\<lambda>(buf, i, e, w, n). e - i)") auto

declare count_loop.simps [simp del]

definition count_words_mt :: "byte list \<Rightarrow> nat \<Rightarrow> nat \<Rightarrow> uint" where
  "count_words_mt buf s e = count_loop buf s e False 0"

section \<open>The blocks\<close>

text \<open>The loops that move the beginning and the end of a block past a word.\<close>

function past_word :: "byte list \<Rightarrow> nat \<Rightarrow> nat" where
  "past_word buf p = (if p < length buf \<and> is_word_char (buf ! p) then past_word buf (p + 1) else p)"
  by auto
termination by (relation "measure (\<lambda>(buf, p). length buf - p)") auto

declare past_word.simps [simp del]

definition block_start :: "byte list \<Rightarrow> nat \<Rightarrow> nat \<Rightarrow> nat" where
  "block_start buf n i =
     (let start = i * (length buf div n) in if i \<noteq> 0 then past_word buf start else start)"

definition block_end :: "byte list \<Rightarrow> nat \<Rightarrow> nat \<Rightarrow> nat" where
  "block_end buf n i =
     (let e = (if i = n - 1 then length buf else (i + 1) * (length buf div n)) in
      if i \<noteq> n - 1 then past_word buf e else e)"

text \<open>
  The threads share only the text, which nobody writes, and each writes its own \<open>count\<close>; after the
  joins the counts are added.
\<close>

definition wc_mt_total :: "byte list \<Rightarrow> nat \<Rightarrow> uint" where
  "wc_mt_total buf n = fold (\<lambda>i total. total + count_words_mt buf (block_start buf n i) (block_end buf n i)) [0..<n] 0"

definition MAX_THREADS :: int where "MAX_THREADS = 16"

text \<open>\<open>main\<close>: the exit status and the number printed, when one is printed; \<open>file\<close> is what \<open>fopen\<close> finds.\<close>

definition wc_mt_main :: "nat \<Rightarrow> int \<Rightarrow> byte list option \<Rightarrow> int \<times> uint option" where
  "wc_mt_main argc num_threads file =
     (if argc \<noteq> 3 then (1, None)
      else if num_threads \<le> 0 \<or> num_threads > MAX_THREADS then (1, None)
      else case file of
        None \<Rightarrow> (1, None)
      | Some buf \<Rightarrow> (0, Some (wc_mt_total buf (nat num_threads))))"

section \<open>The number of words\<close>

text \<open>The positions where a word begins in the bytes from \<open>a\<close> up to \<open>b\<close>, when these are read on their own.\<close>

definition word_starts :: "byte list \<Rightarrow> nat \<Rightarrow> nat \<Rightarrow> nat set" where
  "word_starts buf a b = {i. a \<le> i \<and> i < b \<and> is_word_char (buf ! i) \<and> (i = a \<or> \<not> is_word_char (buf ! (i - 1)))}"

definition num_words :: "byte list \<Rightarrow> nat" where
  "num_words buf = card (word_starts buf 0 (length buf))"

lemma finite_word_starts [simp]: "finite (word_starts buf a b)"
  by (rule finite_subset [of _ "{a..<b}"]) (auto simp: word_starts_def)

lemma count_loop_eq:
  assumes "a \<le> i" "in_word \<longleftrightarrow> a < i \<and> is_word_char (buf ! (i - 1))"
  shows "count_loop buf i e in_word n = n + of_nat (card {k \<in> word_starts buf a e. i \<le> k})"
  using assms
proof (induction buf i e in_word n rule: count_loop.induct)
  case (1 buf i e in_word n)
  let ?S = "\<lambda>i. {k \<in> word_starts buf a e. i \<le> k}"
  show ?case
  proof (cases "i < e")
    case False
    then have "?S i = {}" by (auto simp: word_starts_def)
    then have "card (?S i) = 0" by (simp only: card.empty)
    then show ?thesis using False by (simp only: count_loop.simps [of buf i e]) simp
  next
    case True
    show ?thesis
    proof (cases "is_word_char (buf ! i)")
      case w: True
      have ih: "count_loop buf (i + 1) e True m = m + of_nat (card (?S (i + 1)))" if "m = (if in_word then n else n + 1)" for m
        using 1(1) [OF True w] 1(3) that w by simp
      have "?S i = (if in_word then ?S (i + 1) else insert i (?S (i + 1)))"
        using 1(3,4) True w by (auto simp: word_starts_def le_less Suc_le_eq)
      moreover have "i \<notin> ?S (i + 1)" "finite (?S (i + 1))" by simp_all
      ultimately have "card (?S i) = (if in_word then card (?S (i + 1)) else card (?S (i + 1)) + 1)" by simp
      then show ?thesis using True w ih by (simp add: count_loop.simps [of buf i e])
    next
      case w: False
      have "?S i = ?S (i + 1)" using w by (auto simp: word_starts_def le_less Suc_le_eq)
      then show ?thesis using 1(2) [OF True w] 1(3) True w by (simp add: count_loop.simps [of buf i e])
    qed
  qed
qed

lemma count_words_mt_eq: "count_words_mt buf a e = of_nat (card (word_starts buf a e))"
proof -
  have "{k \<in> word_starts buf a e. a \<le> k} = word_starts buf a e" by (auto simp: word_starts_def)
  then show ?thesis unfolding count_words_mt_def using count_loop_eq [of a a False buf e 0] by simp
qed

lemma past_word_spec:
  "p \<le> past_word buf p \<and> (p \<le> length buf \<longrightarrow> past_word buf p \<le> length buf) \<and>
   (past_word buf p < length buf \<longrightarrow> \<not> is_word_char (buf ! past_word buf p)) \<and>
   (\<forall>k. p \<le> k \<longrightarrow> k < past_word buf p \<longrightarrow> is_word_char (buf ! k))"
proof (induction buf p rule: past_word.induct)
  case (1 buf p)
  show ?case
  proof (cases "p < length buf \<and> is_word_char (buf ! p)")
    case True
    then have e: "past_word buf p = past_word buf (p + 1)" by (simp add: past_word.simps [of buf p])
    have "is_word_char (buf ! k)" if "p \<le> k" "k < past_word buf (p + 1)" for k
      using 1 [OF True] True that by (cases "k = p") auto
    then show ?thesis using 1 [OF True] True unfolding e by auto
  next
    case False
    then have "past_word buf p = p" by (simp only: past_word.simps [of buf p] if_False)
    then show ?thesis using False by auto
  qed
qed

text \<open>A cut between words divides the words.\<close>

lemma word_starts_split:
  assumes "a \<le> m" "m \<le> b" "m = b \<or> m = a \<or> \<not> is_word_char (buf ! m) \<or> \<not> is_word_char (buf ! (m - 1))"
  shows "card (word_starts buf a b) = card (word_starts buf a m) + card (word_starts buf m b)"
proof -
  have "word_starts buf a b = word_starts buf a m \<union> word_starts buf m b"
    using assms by (auto simp: word_starts_def)
  moreover have "word_starts buf a m \<inter> word_starts buf m b = {}" by (auto simp: word_starts_def)
  ultimately show ?thesis by (simp add: card_Un_disjoint)
qed


lemma num_words_append:
  assumes "r = [] \<or> b = [] \<or> \<not> is_word_char (last b)"
  shows "num_words (b @ r) = num_words b + num_words r"
proof -
  have "card (word_starts (b @ r) 0 (length (b @ r))) =
      card (word_starts (b @ r) 0 (length b)) + card (word_starts (b @ r) (length b) (length (b @ r)))"
    using assms by (intro word_starts_split) (auto simp: nth_append last_conv_nth)
  moreover have "word_starts (b @ r) 0 (length b) = word_starts b 0 (length b)"
    by (auto simp: word_starts_def nth_append)
  moreover have "word_starts (b @ r) (length b) (length (b @ r)) = (\<lambda>i. length b + i) ` word_starts r 0 (length r)"
  proof (intro set_eqI iffI)
    fix i assume i: "i \<in> word_starts (b @ r) (length b) (length (b @ r))"
    have "(b @ r) ! i = r ! (i - length b)" "i \<noteq> length b \<Longrightarrow> (b @ r) ! (i - 1) = r ! (i - length b - 1)"
      using i by (auto simp: word_starts_def nth_append)
    then have "i - length b \<in> word_starts r 0 (length r)" using i by (auto simp: word_starts_def)
    then show "i \<in> (\<lambda>i. length b + i) ` word_starts r 0 (length r)"
      using i by (intro image_eqI [of _ _ "i - length b"]) (auto simp: word_starts_def)
  next
    fix i assume "i \<in> (\<lambda>i. length b + i) ` word_starts r 0 (length r)"
    then obtain j where "i = length b + j" "j \<in> word_starts r 0 (length r)" by blast
    then show "i \<in> word_starts (b @ r) (length b) (length (b @ r))"
      by (cases j) (auto simp: word_starts_def nth_append)
  qed
  ultimately show ?thesis by (simp add: num_words_def card_image)
qed

lemma past_word_mono:
  assumes "p \<le> q" "q \<le> length buf"
  shows "past_word buf p \<le> past_word buf q"
proof (cases "q \<le> past_word buf p")
  case True
  have "q \<le> m \<Longrightarrow> m \<le> past_word buf p \<Longrightarrow> past_word buf m = past_word buf p" for m
  proof (induction "past_word buf p - m" arbitrary: m)
    case 0
    then have "m = past_word buf p" by simp
    moreover have "past_word buf m = m"
      using past_word_spec [of p buf] calculation assms by (subst past_word.simps) auto
    ultimately show ?case by simp
  next
    case (Suc x)
    have "m < length buf \<and> is_word_char (buf ! m)"
      using past_word_spec [of p buf] Suc.hyps(2) Suc.prems assms by auto
    then have "past_word buf m = past_word buf (m + 1)" by (subst past_word.simps) simp
    with Suc.hyps(1) [of "m + 1"] Suc.hyps(2) Suc.prems show ?case by simp
  qed
  from this [of q] True show ?thesis by simp
next
  case False
  then show ?thesis using past_word_spec [of q buf] by simp
qed

text \<open>The cuts between the blocks.\<close>

definition block_cut :: "byte list \<Rightarrow> nat \<Rightarrow> nat \<Rightarrow> nat" where
  "block_cut buf n i = (if i = 0 then 0 else if i = n then length buf else past_word buf (i * (length buf div n)))"

lemma cut_block: "i < n \<Longrightarrow> block_start buf n i = block_cut buf n i \<and> block_end buf n i = block_cut buf n (i + 1)"
  by (auto simp: block_start_def block_end_def block_cut_def Let_def)

lemma block_le: "i \<le> n \<Longrightarrow> i * (length (buf :: byte list) div n) \<le> length buf"
  by (metis div_times_less_eq_dividend mult.commute mult_le_mono1 order_trans)

lemma cut_le:
  assumes "i \<le> n"
  shows "block_cut buf n i \<le> length buf"
  using past_word_spec [of "i * (length buf div n)" buf] block_le [OF assms, of buf] by (auto simp: block_cut_def)

lemma cut_mono:
  assumes "i < n"
  shows "block_cut buf n i \<le> block_cut buf n (i + 1)"
proof (cases "i = 0 \<or> i + 1 = n")
  case True
  then show ?thesis using cut_le [of i n buf] assms by (auto simp: block_cut_def)
next
  case False
  have "i * (length buf div n) \<le> (i + 1) * (length buf div n)" "(i + 1) * (length buf div n) \<le> length buf"
    using block_le [of "i + 1" n buf] assms by simp_all
  then show ?thesis using False assms past_word_mono by (simp add: block_cut_def)
qed

lemma cut_between: "i \<le> n \<Longrightarrow> i \<noteq> 0 \<Longrightarrow> block_cut buf n i = length buf \<or> \<not> is_word_char (buf ! block_cut buf n i)"
  using past_word_spec [of "i * (length buf div n)" buf] block_le [of i n buf] by (auto simp: block_cut_def le_less)

lemma words_of_blocks:
  "k \<le> n \<Longrightarrow>
   fold (\<lambda>i total. total + count_words_mt buf (block_start buf n i) (block_end buf n i)) [0..<k] 0 =
   (of_nat (card (word_starts buf 0 (block_cut buf n k))) :: uint)"
proof (induction k)
  case 0
  then show ?case by (simp add: block_cut_def word_starts_def)
next
  case (Suc k)
  then have k: "k < n" by simp
  have "block_cut buf n (k + 1) = block_cut buf n k \<or> k = 0 \<or> \<not> is_word_char (buf ! block_cut buf n k)"
    using cut_between [of k n buf] cut_le [of "k + 1" n buf] cut_mono [OF k, of buf] k by auto
  then have "card (word_starts buf 0 (block_cut buf n (k + 1))) =
      card (word_starts buf 0 (block_cut buf n k)) + card (word_starts buf (block_cut buf n k) (block_cut buf n (k + 1)))"
    using cut_mono [OF k, of buf] by (intro word_starts_split) (auto simp: block_cut_def)
  then show ?case using Suc.IH k cut_block [OF k, of buf] by (simp add: count_words_mt_eq)
qed

text \<open>
  C29: with any number of threads from 1 to 16, the program prints the number of words of the file: no
  word is cut in two or counted twice at the boundary of two blocks, however short the file.
\<close>

theorem wc_mt_counts_words:
  assumes "1 \<le> num_threads" "num_threads \<le> MAX_THREADS"
  shows "wc_mt_main 3 num_threads (Some buf) = (0, Some (of_nat (num_words buf)))"
proof -
  let ?n = "nat num_threads"
  have "block_cut buf ?n ?n = length buf" using assms(1) by (simp add: block_cut_def)
  then have "wc_mt_total buf ?n = of_nat (num_words buf)"
    using words_of_blocks [of ?n ?n buf] by (simp add: wc_mt_total_def num_words_def)
  then show ?thesis using assms by (simp add: wc_mt_main_def)
qed

theorem wc_mt_counts_words_witness:
  "wc_mt_main 3 3 (Some [97, 98, 32, 99, 100, 101, 102, 32, 103]) = (0, Some 3)"
proof -
  let ?b = "[97, 98, 32, 99, 100, 101, 102, 32, 103] :: byte list"
  have "(of_nat (num_words ?b) :: uint) = count_words_mt ?b 0 (length ?b)" by (simp only: num_words_def count_words_mt_eq)
  also have "\<dots> = 3" by code_simp
  finally show ?thesis using wc_mt_counts_words [of 3 ?b] by (simp add: MAX_THREADS_def)
qed

end
