(* ===== verification/Lab_Overlap.thy ===== *)
theory Lab_Overlap
  imports Lab_Wordcount Xv6_Ring
begin

text \<open>
  \<open>lab8-lyjae/wc_mt_overlap.c\<close>: one producer reads the file in chunks into a ring of 64 slots, any
  number of consumers count the words of the chunks and add them up.  All shared variables are only
  touched inside the mutex, so a critical section is one step; a thread in \<open>pthread_cond_wait\<close> is
  asleep until a signal chooses it, and then wants the mutex again.
\<close>

section \<open>Chunks\<close>

definition CHUNK_SIZE :: nat where "CHUNK_SIZE = 64 * 1024"
definition BUFFER_CAPACITY :: nat where "BUFFER_CAPACITY = 64"
definition MAX_CONSUMERS :: int where "MAX_CONSUMERS = 32"

record chunk =
  cdata :: "byte list"
  starts_inside_word :: bool

text \<open>The two loops of \<open>count_words_in_chunk\<close>; the second one is the loop of \<open>wc_mt.c\<close>.\<close>

definition count_words_in_chunk :: "chunk \<Rightarrow> uint" where
  "count_words_in_chunk c =
     (let i = (if starts_inside_word c then past_word (cdata c) 0 else 0) in
      count_loop (cdata c) i (length (cdata c)) False 0)"

text \<open>
  A chunk that ends inside a word is extended to the end of the word.  The buffer has room for 256 more
  bytes; a write beyond it is \<open>None\<close>.
\<close>

fun extend_chunk :: "byte list \<Rightarrow> byte list \<Rightarrow> (byte list \<times> byte list) option" where
  "extend_chunk buf [] = Some (buf, [])"
| "extend_chunk buf (c # rest) =
     (if buf \<noteq> [] \<and> is_word_char (last buf)
      then if length buf < CHUNK_SIZE + 256 then extend_chunk (buf @ [c]) rest else None
      else Some (buf, c # rest))"

section \<open>Threads\<close>

datatype ppc = PRead | PPut chunk | PPutAsleep chunk | PDone | PEnd | PFault
datatype cpc = CGet | CAsleep | CCount chunk | CAdd uint | CEnd

record wcst =
  unread :: "byte list"
  prev_in_word :: bool
  slots :: "nat \<Rightarrow> chunk"
  inp :: nat
  outp :: nat
  cnt :: nat
  total :: uint
  is_done :: bool
  producer :: ppc
  consumers :: "cpc list"

text \<open>The ring.\<close>

definition ring_put_chunk :: "chunk \<Rightarrow> wcst \<Rightarrow> wcst" where
  "ring_put_chunk c s = s\<lparr>slots := (slots s)(inp s := c), inp := (inp s + 1) mod BUFFER_CAPACITY, cnt := cnt s + 1\<rparr>"

definition ring_head_chunk :: "wcst \<Rightarrow> chunk" where
  "ring_head_chunk s = slots s (outp s)"

definition ring_pop_chunk :: "wcst \<Rightarrow> wcst" where
  "ring_pop_chunk s = s\<lparr>outp := (outp s + 1) mod BUFFER_CAPACITY, cnt := cnt s - 1\<rparr>"

text \<open>A signal on \<open>not_empty\<close> wakes one sleeping consumer, if there is one; a broadcast wakes all.\<close>

inductive signal_consumer :: "cpc list \<Rightarrow> cpc list \<Rightarrow> bool" where
  signal_one: "i < length cs \<Longrightarrow> cs ! i = CAsleep \<Longrightarrow> signal_consumer cs (cs[i := CGet])"
| signal_none: "CAsleep \<notin> set cs \<Longrightarrow> signal_consumer cs cs"

definition broadcast :: "cpc list \<Rightarrow> cpc list" where
  "broadcast cs = map (\<lambda>c. if c = CAsleep then CGet else c) cs"

definition wake_producer :: "ppc \<Rightarrow> ppc" where
  "wake_producer p = (case p of PPutAsleep c \<Rightarrow> PPut c | _ \<Rightarrow> p)"

definition read_chunk :: "wcst \<Rightarrow> wcst" where
  "read_chunk s =
     (let buf = take CHUNK_SIZE (unread s) in
      if buf = [] then s\<lparr>producer := PDone\<rparr>
      else case extend_chunk buf (drop CHUNK_SIZE (unread s)) of
        None \<Rightarrow> s\<lparr>producer := PFault\<rparr>
      | Some (buf, rest) \<Rightarrow>
          s\<lparr>unread := rest, producer := PPut \<lparr>cdata = buf, starts_inside_word = prev_in_word s\<rparr>,
            prev_in_word := is_word_char (last buf)\<rparr>)"

inductive wstep :: "wcst \<Rightarrow> wcst \<Rightarrow> bool" where
  read: "producer s = PRead \<Longrightarrow> wstep s (read_chunk s)"
| put_waits: "producer s = PPut c \<Longrightarrow> cnt s = BUFFER_CAPACITY \<Longrightarrow> wstep s (s\<lparr>producer := PPutAsleep c\<rparr>)"
| put: "producer s = PPut c \<Longrightarrow> cnt s \<noteq> BUFFER_CAPACITY \<Longrightarrow> signal_consumer (consumers s) cs \<Longrightarrow>
    wstep s ((ring_put_chunk c s)\<lparr>producer := PRead, consumers := cs\<rparr>)"
| finish: "producer s = PDone \<Longrightarrow>
    wstep s (s\<lparr>is_done := True, producer := PEnd, consumers := broadcast (consumers s)\<rparr>)"
| get_waits: "i < length (consumers s) \<Longrightarrow> consumers s ! i = CGet \<Longrightarrow> cnt s = 0 \<Longrightarrow> \<not> is_done s \<Longrightarrow>
    wstep s (s\<lparr>consumers := (consumers s)[i := CAsleep]\<rparr>)"
| get_ends: "i < length (consumers s) \<Longrightarrow> consumers s ! i = CGet \<Longrightarrow> cnt s = 0 \<Longrightarrow> is_done s \<Longrightarrow>
    wstep s (s\<lparr>consumers := (consumers s)[i := CEnd]\<rparr>)"
| get: "i < length (consumers s) \<Longrightarrow> consumers s ! i = CGet \<Longrightarrow> cnt s \<noteq> 0 \<Longrightarrow>
    wstep s ((ring_pop_chunk s)\<lparr>consumers := (consumers s)[i := CCount (ring_head_chunk s)],
      producer := wake_producer (producer s)\<rparr>)"
| count_chunk: "i < length (consumers s) \<Longrightarrow> consumers s ! i = CCount c \<Longrightarrow>
    wstep s (s\<lparr>consumers := (consumers s)[i := CAdd (count_words_in_chunk c)]\<rparr>)"
| add: "i < length (consumers s) \<Longrightarrow> consumers s ! i = CAdd w \<Longrightarrow>
    wstep s (s\<lparr>total := total s + w, consumers := (consumers s)[i := CGet]\<rparr>)"

definition overlap_init :: "byte list \<Rightarrow> nat \<Rightarrow> wcst" where
  "overlap_init f n = \<lparr>unread = f, prev_in_word = False, slots = (\<lambda>_. \<lparr>cdata = [], starts_inside_word = False\<rparr>),
     inp = 0, outp = 0, cnt = 0, total = 0, is_done = False, producer = PRead, consumers = replicate n CGet\<rparr>"

text \<open>\<open>main\<close> checks its arguments, starts the threads, and returns after all joins.\<close>

definition overlap_main :: "nat \<Rightarrow> int \<Rightarrow> byte list \<Rightarrow> int + wcst" where
  "overlap_main argc num_consumers f =
     (if argc \<noteq> 3 then Inl 1
      else if num_consumers \<le> 0 \<or> num_consumers > MAX_CONSUMERS then Inl 1
      else Inr (overlap_init f (nat num_consumers)))"

definition all_joined :: "wcst \<Rightarrow> bool" where
  "all_joined s \<longleftrightarrow> producer s = PEnd \<and> (\<forall>c \<in> set (consumers s). c = CEnd)"

section \<open>The ring is a queue\<close>

definition ring_chunks :: "wcst \<Rightarrow> chunk list" where
  "ring_chunks s = map (\<lambda>i. slots s ((outp s + i) mod BUFFER_CAPACITY)) [0..<cnt s]"

definition ring_ok :: "wcst \<Rightarrow> bool" where
  "ring_ok s \<longleftrightarrow> cnt s \<le> BUFFER_CAPACITY \<and> outp s < BUFFER_CAPACITY \<and> inp s = (outp s + cnt s) mod BUFFER_CAPACITY"

lemma ring_put_chunk_items:
  assumes "ring_ok s" "cnt s \<noteq> BUFFER_CAPACITY"
  shows "ring_ok (ring_put_chunk c s)" "ring_chunks (ring_put_chunk c s) = ring_chunks s @ [c]"
proof -
  have lt: "cnt s < BUFFER_CAPACITY" using assms by (simp add: ring_ok_def)
  show "ring_ok (ring_put_chunk c s)"
    using assms lt by (simp add: ring_ok_def ring_put_chunk_def mod_Suc_eq)
  have "slots (ring_put_chunk c s) ((outp s + i) mod BUFFER_CAPACITY) = slots s ((outp s + i) mod BUFFER_CAPACITY)"
    if "i < cnt s" for i
    using mod_inj_less [of i BUFFER_CAPACITY "cnt s" "outp s"] that lt assms(1) by (auto simp: ring_ok_def ring_put_chunk_def)
  moreover have "slots (ring_put_chunk c s) ((outp s + cnt s) mod BUFFER_CAPACITY) = c"
    using assms(1) by (simp add: ring_ok_def ring_put_chunk_def)
  ultimately show "ring_chunks (ring_put_chunk c s) = ring_chunks s @ [c]"
    by (simp add: ring_chunks_def ring_put_chunk_def)
qed

lemma ring_pop_chunk_items:
  assumes "ring_ok s" "cnt s \<noteq> 0"
  shows "ring_ok (ring_pop_chunk s)" "ring_chunks s = ring_head_chunk s # ring_chunks (ring_pop_chunk s)"
proof -
  obtain k where k: "cnt s = Suc k" using assms(2) not0_implies_Suc by blast
  have m: "((outp s + 1) mod BUFFER_CAPACITY + i) mod BUFFER_CAPACITY = (outp s + Suc i) mod BUFFER_CAPACITY" for i
    by (simp add: mod_add_left_eq)
  show "ring_ok (ring_pop_chunk s)"
    using assms(1) m [of k] k by (auto simp: ring_ok_def ring_pop_chunk_def BUFFER_CAPACITY_def)
  have "ring_chunks s = map (\<lambda>i. slots s ((outp s + i) mod BUFFER_CAPACITY)) (0 # map Suc [0..<k])"
    by (simp only: ring_chunks_def k upt_conv_Cons zero_less_Suc map_Suc_upt)
  then show "ring_chunks s = ring_head_chunk s # ring_chunks (ring_pop_chunk s)"
    using assms(1) m by (simp add: ring_chunks_def ring_pop_chunk_def ring_head_chunk_def ring_ok_def k comp_def)
qed

interpretation chunk_fifo: fifo ring_chunks BUFFER_CAPACITY ring_ok "\<lambda>s. cnt s = 0" "\<lambda>s. cnt s = BUFFER_CAPACITY"
  ring_put_chunk ring_head_chunk ring_pop_chunk
proof unfold_locales
  show "length (ring_chunks q) \<le> BUFFER_CAPACITY" if "ring_ok q" for q using that by (simp add: ring_chunks_def ring_ok_def)
  show "(cnt q = 0) = (ring_chunks q = [])" for q by (simp add: ring_chunks_def)
  show "(cnt q = BUFFER_CAPACITY) = (length (ring_chunks q) = BUFFER_CAPACITY)" for q by (simp add: ring_chunks_def)
qed (use ring_put_chunk_items ring_pop_chunk_items in blast)+


section \<open>Reading\<close>

definition long_word :: "byte list \<Rightarrow> bool" where
  "long_word f \<longleftrightarrow> (\<exists>u v w. f = u @ v @ w \<and> length v = 257 \<and> (\<forall>x \<in> set v. is_word_char x))"

lemma long_word_suffix: "long_word w \<Longrightarrow> long_word (u @ w)"
  unfolding long_word_def by (metis append_assoc)

lemma extend_chunk_spec:
  "extend_chunk b r = Some (b', r') \<Longrightarrow>
   \<exists>e. b' = b @ e \<and> r = e @ r' \<and> (r' = [] \<or> b' = [] \<or> \<not> is_word_char (last b'))"
  by (induction b r rule: extend_chunk.induct) (auto split: if_splits)

lemma extend_chunk_fits:
  assumes "\<not> long_word (b @ e @ r)" "b \<noteq> []" "length b \<le> CHUNK_SIZE" "\<forall>x \<in> set e. is_word_char x"
    "e \<noteq> [] \<Longrightarrow> is_word_char (last b)"
  shows "extend_chunk (b @ e) r \<noteq> None"
  using assms
proof (induction r arbitrary: e)
  case (Cons c r)
  show ?case
  proof (cases "is_word_char (last (b @ e))")
    case False
    then show ?thesis by simp
  next
    case True
    then have lb: "is_word_char (last b)" using Cons.prems(5) by (cases "e = []") auto
    have room: "length (b @ e) < CHUNK_SIZE + 256"
    proof (rule ccontr)
      assume "\<not> length (b @ e) < CHUNK_SIZE + 256"
      then have "256 \<le> length e" using Cons.prems(3) by simp
      then have "length (last b # take 256 e) = 257" "\<forall>x \<in> set (last b # take 256 e). is_word_char x"
        using Cons.prems(4) lb by (auto dest: in_set_takeD)
      moreover have "b @ e @ c # r = butlast b @ (last b # take 256 e) @ (drop 256 e @ c # r)"
        using Cons.prems(2) by (simp add: append_assoc [symmetric] del: append_assoc)
      ultimately show False using Cons.prems(1) unfolding long_word_def by blast
    qed
    have "extend_chunk (b @ e @ [c]) r \<noteq> None"
      if "is_word_char c" using Cons.IH [of "e @ [c]"] Cons.prems that lb by simp
    moreover have "extend_chunk (b @ e @ [c]) r \<noteq> None" if "\<not> is_word_char c" using that by (cases r) simp_all
    ultimately have "extend_chunk (b @ e @ [c]) r \<noteq> None" by blast
    then show ?thesis using True room by simp
  qed
qed simp


section \<open>The invariant\<close>

text \<open>Words that have left the file and are not in the total yet.\<close>

definition chunk_words :: "chunk \<Rightarrow> uint" where
  "chunk_words c = of_nat (num_words (cdata c))"

definition consumer_words :: "cpc \<Rightarrow> uint" where
  "consumer_words p = (case p of CCount c \<Rightarrow> chunk_words c | CAdd w \<Rightarrow> w | _ \<Rightarrow> 0)"

definition producer_words :: "ppc \<Rightarrow> uint" where
  "producer_words p = (case p of PPut c \<Rightarrow> chunk_words c | PPutAsleep c \<Rightarrow> chunk_words c | _ \<Rightarrow> 0)"

definition held_chunks :: "wcst \<Rightarrow> chunk set" where
  "held_chunks s = set (ring_chunks s) \<union> {c. producer s = PPut c \<or> producer s = PPutAsleep c} \<union> {c. CCount c \<in> set (consumers s)}"

definition pending :: "wcst \<Rightarrow> uint" where
  "pending s = sum_list (map chunk_words (ring_chunks s)) + sum_list (map consumer_words (consumers s)) +
     producer_words (producer s) + of_nat (num_words (unread s))"

definition sleep_ok :: "wcst \<Rightarrow> bool" where
  "sleep_ok s \<longleftrightarrow> (CAsleep \<in> set (consumers s) \<longrightarrow> \<not> is_done s \<and> (cnt s = 0 \<or> (\<exists>p \<in> set (consumers s). p \<noteq> CAsleep)))"

definition phase_ok :: "wcst \<Rightarrow> bool" where
  "phase_ok s \<longleftrightarrow> (prev_in_word s \<longrightarrow> unread s = []) \<and> (is_done s \<longleftrightarrow> producer s = PEnd) \<and>
     (producer s = PDone \<or> producer s = PEnd \<longrightarrow> unread s = []) \<and>
     (\<forall>c. producer s = PPutAsleep c \<longrightarrow> cnt s = BUFFER_CAPACITY) \<and>
     (CEnd \<in> set (consumers s) \<longrightarrow> is_done s \<and> cnt s = 0)"

definition winv :: "byte list \<Rightarrow> wcst \<Rightarrow> bool" where
  "winv f s \<longleftrightarrow> ring_ok s \<and> (\<forall>c \<in> held_chunks s. \<not> starts_inside_word c) \<and> total s + pending s = of_nat (num_words f) \<and>
     sleep_ok s \<and> phase_ok s \<and> (\<exists>u. f = u @ unread s) \<and> producer s \<noteq> PFault"

lemma count_words_in_chunk_eq: "\<not> starts_inside_word c \<Longrightarrow> count_words_in_chunk c = chunk_words c"
  using count_words_mt_eq [of "cdata c" 0 "length (cdata c)"]
  by (simp add: count_words_in_chunk_def chunk_words_def count_words_mt_def num_words_def)

lemma sum_consumers_upd:
  "i < length cs \<Longrightarrow> sum_list (map consumer_words (cs[i := p])) =
     sum_list (map consumer_words cs) - consumer_words (cs ! i) + consumer_words p"
proof (induction cs arbitrary: i)
  case (Cons c cs)
  then show ?case by (cases i) (simp_all add: algebra_simps)
qed simp

lemma mem_upd: "i < length cs \<Longrightarrow> cs ! i \<noteq> x \<Longrightarrow> p \<noteq> x \<Longrightarrow> x \<in> set (cs[i := p]) \<longleftrightarrow> x \<in> set cs"
proof (induction cs arbitrary: i)
  case (Cons c cs)
  then show ?case by (cases i) auto
qed simp

lemma signal_consumer_spec:
  assumes "signal_consumer cs cs'"
  shows "sum_list (map consumer_words cs') = sum_list (map consumer_words cs)"
    "CCount c \<in> set cs' \<longleftrightarrow> CCount c \<in> set cs" "CEnd \<in> set cs' \<longleftrightarrow> CEnd \<in> set cs"
  using assms by (auto elim!: signal_consumer.cases simp: sum_consumers_upd consumer_words_def mem_upd)

lemma signal_consumer_awake:
  assumes "signal_consumer cs cs'" "CAsleep \<in> set cs'"
  shows "\<exists>p \<in> set cs'. p \<noteq> CAsleep"
  using assms(1)
proof cases
  case (signal_one i)
  then show ?thesis using set_update_memI [of i cs CGet] by blast
qed (use assms(2) in simp)


text \<open>How a step of one consumer changes the parts of the invariant.\<close>

lemma winv_consumer:
  assumes "winv f s" "i < length (consumers s)" "p \<noteq> CAsleep" "p \<noteq> CEnd" "consumers s ! i \<noteq> CAsleep"
    and "\<forall>c. p = CCount c \<longrightarrow> \<not> starts_inside_word c"
    and "t + consumer_words p = total s + consumer_words (consumers s ! i)"
  shows "winv f (s\<lparr>total := t, consumers := (consumers s)[i := p]\<rparr>)"
proof -
  let ?cs = "(consumers s)[i := p]"
  have m: "CAsleep \<in> set ?cs \<Longrightarrow> CAsleep \<in> set (consumers s)" "CEnd \<in> set ?cs \<Longrightarrow> CEnd \<in> set (consumers s)"
    "CCount c \<in> set ?cs \<Longrightarrow> CCount c \<in> set (consumers s) \<or> p = CCount c" for c
    using set_update_subset_insert [of "consumers s" i p] assms(3,4) by blast+
  have p: "p \<in> set ?cs" using assms(2) by (rule set_update_memI)
  have "t + sum_list (map consumer_words ?cs) = total s + sum_list (map consumer_words (consumers s))"
    using assms(7) by (simp add: sum_consumers_upd [OF assms(2)] algebra_simps)
  then have "t + pending (s\<lparr>total := t, consumers := ?cs\<rparr>) = total s + pending s"
    by (simp add: pending_def ring_chunks_def ac_simps)
  moreover have "sleep_ok (s\<lparr>total := t, consumers := ?cs\<rparr>)"
    using assms(1,3) m(1) p unfolding winv_def sleep_ok_def by auto
  moreover have "phase_ok (s\<lparr>total := t, consumers := ?cs\<rparr>)"
    using assms(1) m(2) unfolding winv_def phase_ok_def by auto
  moreover have "\<forall>c \<in> held_chunks (s\<lparr>total := t, consumers := ?cs\<rparr>). \<not> starts_inside_word c"
    using assms(1,6) m(3) unfolding winv_def held_chunks_def ring_chunks_def by auto
  ultimately show ?thesis using assms(1) by (simp add: winv_def ring_ok_def)
qed


lemma winv_read:
  assumes w: "winv f s" and p: "producer s = PRead" and long: "\<not> long_word f"
  shows "winv f (read_chunk s)"
proof (cases "unread s = []")
  case True
  then have "read_chunk s = s\<lparr>producer := PDone\<rparr>" by (simp add: read_chunk_def)
  then show ?thesis using w p True
    by (auto simp: winv_def ring_ok_def held_chunks_def ring_chunks_def pending_def producer_words_def sleep_ok_def phase_ok_def)
next
  case False
  let ?b = "take CHUNK_SIZE (unread s)" and ?r = "drop CHUNK_SIZE (unread s)"
  have b: "?b \<noteq> []" using False by (simp add: CHUNK_SIZE_def)
  obtain u where u: "f = u @ unread s" using w by (auto simp: winv_def)
  have "\<not> long_word (unread s)" using long long_word_suffix u by metis
  then obtain b' r' where e: "extend_chunk ?b ?r = Some (b', r')"
    using extend_chunk_fits [of ?b "[]" ?r] b by auto
  from extend_chunk_spec [OF e] obtain x where
    x: "b' = ?b @ x" "?r = x @ r'" "r' = [] \<or> b' = [] \<or> \<not> is_word_char (last b')" by blast
  have un: "unread s = b' @ r'" using x(1,2) append_take_drop_id [of CHUNK_SIZE "unread s"] by (metis append_assoc)
  have b': "b' \<noteq> []" using b x(1) by simp
  have np: "\<not> prev_in_word s" using w False by (auto simp: winv_def phase_ok_def)
  let ?c = "\<lparr>cdata = b', starts_inside_word = prev_in_word s\<rparr>"
  have r: "read_chunk s = s\<lparr>unread := r', producer := PPut ?c, prev_in_word := is_word_char (last b')\<rparr>"
    using b e by (simp add: read_chunk_def Let_def)
  have "num_words (unread s) = num_words b' + num_words r'" using num_words_append [OF x(3)] un by simp
  then have "pending (read_chunk s) = pending s"
    using p unfolding r by (simp add: pending_def ring_chunks_def producer_words_def chunk_words_def)
  moreover have "total (read_chunk s) = total s" unfolding r by simp
  moreover have "sleep_ok (read_chunk s)" "ring_ok (read_chunk s)" using w unfolding r by (simp_all add: winv_def sleep_ok_def ring_ok_def)
  moreover have "phase_ok (read_chunk s)" using w p x(3) b' unfolding r by (auto simp: winv_def phase_ok_def)
  moreover have "\<forall>c \<in> held_chunks (read_chunk s). \<not> starts_inside_word c"
    using w np unfolding r by (auto simp: winv_def held_chunks_def ring_chunks_def)
  moreover have "\<exists>u. f = u @ unread (read_chunk s)" using u un unfolding r by (intro exI [of _ "u @ b'"]) simp
  moreover have "producer (read_chunk s) \<noteq> PFault" unfolding r by simp
  ultimately show ?thesis using w unfolding winv_def by simp
qed

lemma winv_put:
  assumes w: "winv f s" and p: "producer s = PPut c" and n: "cnt s \<noteq> BUFFER_CAPACITY" and sg: "signal_consumer (consumers s) cs"
  shows "winv f ((ring_put_chunk c s)\<lparr>producer := PRead, consumers := cs\<rparr>)"
proof -
  let ?s = "(ring_put_chunk c s)\<lparr>producer := PRead, consumers := cs\<rparr>"
  have ro: "ring_ok s" using w by (simp add: winv_def)
  note put = chunk_fifo.put_law [OF ro n, of c]
  note sc = signal_consumer_spec [OF sg]
  have nd: "\<not> is_done s" using w p by (auto simp: winv_def phase_ok_def)
  have q: "ring_chunks ?s = ring_chunks s @ [c]" "ring_ok ?s" using put by (simp_all add: ring_chunks_def ring_ok_def)
  have f: "total ?s = total s" "unread ?s = unread s" "prev_in_word ?s = prev_in_word s" "is_done ?s = is_done s"
    by (simp_all add: ring_put_chunk_def)
  have "pending ?s = pending s"
    using p by (simp add: pending_def q(1) sc(1) f(2) producer_words_def)
  moreover have "sleep_ok ?s" using signal_consumer_awake [OF sg] nd unfolding sleep_ok_def f(4) by auto
  moreover have "phase_ok ?s" using w p nd sc(3) f by (auto simp: winv_def phase_ok_def)
  moreover have "\<forall>c \<in> held_chunks ?s. \<not> starts_inside_word c"
    using w p q(1) sc(2) by (auto simp: winv_def held_chunks_def)
  ultimately show ?thesis using w q(2) f by (simp add: winv_def)
qed

lemma winv_get:
  assumes w: "winv f s" and i: "i < length (consumers s)" "consumers s ! i = CGet" and n: "cnt s \<noteq> 0"
  shows "winv f ((ring_pop_chunk s)\<lparr>consumers := (consumers s)[i := CCount (ring_head_chunk s)],
    producer := wake_producer (producer s)\<rparr>)"
proof -
  let ?c = "ring_head_chunk s" and ?cs = "(consumers s)[i := CCount (ring_head_chunk s)]"
  let ?s = "(ring_pop_chunk s)\<lparr>consumers := ?cs, producer := wake_producer (producer s)\<rparr>"
  have ro: "ring_ok s" using w by (simp add: winv_def)
  note pop = chunk_fifo.pop_law [OF ro n]
  have q: "ring_chunks s = ?c # ring_chunks ?s" "ring_ok ?s" using pop by (simp_all add: ring_chunks_def ring_ok_def)
  have f: "total ?s = total s" "unread ?s = unread s" "prev_in_word ?s = prev_in_word s" "is_done ?s = is_done s"
    by (simp_all add: ring_pop_chunk_def)
  have wp: "producer_words (wake_producer p) = producer_words p" "wake_producer p = PPut c \<longleftrightarrow> p = PPut c \<or> p = PPutAsleep c"
    "wake_producer p \<noteq> PPutAsleep c" "wake_producer p = PEnd \<longleftrightarrow> p = PEnd" "wake_producer p = PDone \<longleftrightarrow> p = PDone"
    "wake_producer p = PFault \<longleftrightarrow> p = PFault" for p c
    by (cases p; auto simp: wake_producer_def producer_words_def)+
  have m: "CAsleep \<in> set ?cs \<Longrightarrow> CAsleep \<in> set (consumers s)" "CEnd \<in> set ?cs \<Longrightarrow> CEnd \<in> set (consumers s)"
    "CCount c \<in> set ?cs \<Longrightarrow> CCount c \<in> set (consumers s) \<or> c = ?c" for c
    using set_update_subset_insert [of "consumers s" i "CCount ?c"] by blast+
  have in_cs: "CCount ?c \<in> set ?cs" using i(1) by (rule set_update_memI)
  have "pending ?s = pending s"
    using i(2) wp(1) by (simp add: pending_def q(1) sum_consumers_upd [OF i(1)] f(2) consumer_words_def ring_pop_chunk_def)
  moreover have "sleep_ok ?s"
    using w m(1) in_cs unfolding winv_def sleep_ok_def f(4) by auto
  moreover have "phase_ok ?s" using w m(2) n f wp by (auto simp: winv_def phase_ok_def)
  moreover have "held_chunks ?s \<subseteq> held_chunks s"
    unfolding held_chunks_def using q(1) wp(2,3) by (auto dest!: m(3))
  then have "\<forall>c \<in> held_chunks ?s. \<not> starts_inside_word c" using w unfolding winv_def by blast
  ultimately show ?thesis using w q(2) f wp(6) by (simp add: winv_def)
qed


lemma winv_step:
  assumes "wstep s s'" "winv f s" "\<not> long_word f"
  shows "winv f s'"
  using assms(1)
proof cases
  case read
  then show ?thesis using winv_read [OF assms(2) _ assms(3)] by simp
next
  case (put_waits c)
  then show ?thesis using assms(2)
    by (auto simp: winv_def ring_ok_def held_chunks_def ring_chunks_def pending_def producer_words_def sleep_ok_def phase_ok_def)
next
  case (put c cs)
  then show ?thesis using winv_put [OF assms(2)] by simp
next
  case finish
  have "consumer_words (if c = CAsleep then CGet else c) = consumer_words c" for c by (simp add: consumer_words_def)
  then have "sum_list (map consumer_words (broadcast (consumers s))) = sum_list (map consumer_words (consumers s))"
    by (simp add: broadcast_def comp_def)
  moreover have "CAsleep \<notin> set (broadcast (consumers s))" "CEnd \<in> set (broadcast (consumers s)) \<longleftrightarrow> CEnd \<in> set (consumers s)"
    "CCount c \<in> set (broadcast (consumers s)) \<longleftrightarrow> CCount c \<in> set (consumers s)" for c
    by (auto simp: broadcast_def image_iff)
  ultimately show ?thesis using assms(2) finish
    by (auto simp: winv_def ring_ok_def held_chunks_def ring_chunks_def pending_def producer_words_def sleep_ok_def phase_ok_def)
next
  case (get_waits i)
  have m: "CEnd \<in> set ((consumers s)[i := CAsleep]) \<longleftrightarrow> CEnd \<in> set (consumers s)"
    "CCount c \<in> set ((consumers s)[i := CAsleep]) \<longleftrightarrow> CCount c \<in> set (consumers s)" for c
    using get_waits by (simp_all add: mem_upd)
  have "sum_list (map consumer_words ((consumers s)[i := CAsleep])) = sum_list (map consumer_words (consumers s))"
    using get_waits by (simp add: sum_consumers_upd consumer_words_def)
  then show ?thesis using assms(2) get_waits m
    by (auto simp: winv_def ring_ok_def held_chunks_def ring_chunks_def pending_def sleep_ok_def phase_ok_def)
next
  case (get_ends i)
  have m: "CAsleep \<in> set ((consumers s)[i := CEnd]) \<longleftrightarrow> CAsleep \<in> set (consumers s)"
    "CCount c \<in> set ((consumers s)[i := CEnd]) \<longleftrightarrow> CCount c \<in> set (consumers s)" for c
    using get_ends by (simp_all add: mem_upd)
  have "sum_list (map consumer_words ((consumers s)[i := CEnd])) = sum_list (map consumer_words (consumers s))"
    using get_ends by (simp add: sum_consumers_upd consumer_words_def)
  then show ?thesis using assms(2) get_ends m
    by (auto simp: winv_def ring_ok_def held_chunks_def ring_chunks_def pending_def sleep_ok_def phase_ok_def)
next
  case (get i)
  then show ?thesis using winv_get [OF assms(2)] by simp
next
  case (count_chunk i c)
  have "\<not> starts_inside_word c"
    using assms(2) count_chunk nth_mem [of i "consumers s"] by (auto simp: winv_def held_chunks_def)
  then have "winv f (s\<lparr>total := total s, consumers := (consumers s)[i := CAdd (count_words_in_chunk c)]\<rparr>)"
    using count_chunk assms(2) by (intro winv_consumer) (auto simp: consumer_words_def count_words_in_chunk_eq)
  then show ?thesis using count_chunk by simp
next
  case (add i w)
  then have "winv f (s\<lparr>total := total s + w, consumers := (consumers s)[i := CGet]\<rparr>)"
    using assms(2) by (intro winv_consumer) (auto simp: consumer_words_def)
  then show ?thesis using add by simp
qed

lemma winv_init: "winv f (overlap_init f n)"
  by (auto simp: winv_def overlap_init_def ring_ok_def held_chunks_def ring_chunks_def pending_def producer_words_def
      consumer_words_def sleep_ok_def phase_ok_def BUFFER_CAPACITY_def map_replicate_const sum_list_replicate)

lemma winv_reachable:
  assumes "wstep\<^sup>*\<^sup>* (overlap_init f n) s" "\<not> long_word f"
  shows "winv f s \<and> length (consumers s) = n"
  using assms(1)
proof (induction rule: rtranclp_induct)
  case base
  show ?case by (simp add: winv_init, simp add: overlap_init_def)
next
  case (step s s')
  have "length (consumers s') = length (consumers s)"
    using step(2)
    by (auto elim!: wstep.cases signal_consumer.cases simp: read_chunk_def Let_def broadcast_def ring_put_chunk_def ring_pop_chunk_def
        split: option.splits if_splits)
  then show ?case using step winv_step [OF step(2) _ assms(2)] by simp
qed

section \<open>No deadlock\<close>

lemma winv_progress:
  assumes w: "winv f s" and n: "consumers s \<noteq> []" and nj: "\<not> all_joined s"
  shows "\<exists>s'. wstep s s'"
proof -
  have cons: "\<exists>s'. wstep s s'" if p: "p \<in> set (consumers s)" "p \<noteq> CAsleep" "p \<noteq> CEnd" for p
  proof -
    obtain i where i: "i < length (consumers s)" "consumers s ! i = p" using p(1) by (auto simp: in_set_conv_nth)
    show ?thesis
    proof (cases p)
      case CGet
      then show ?thesis using i wstep.get [of i s] wstep.get_waits [of i s] wstep.get_ends [of i s] by blast
    next
      case (CCount c)
      then show ?thesis using i wstep.count_chunk [of i s] by blast
    next
      case (CAdd x)
      then show ?thesis using i wstep.add [of i s] by blast
    qed (use p in auto)
  qed
  have sig: "\<exists>cs'. signal_consumer cs cs'" for cs
    using signal_one [of _ cs] signal_none [of cs] by (metis in_set_conv_nth)
  have ph: "phase_ok s" "sleep_ok s" "producer s \<noteq> PFault" using w by (auto simp: winv_def)
  show ?thesis
  proof (cases "producer s")
    case PRead
    then show ?thesis using wstep.read by blast
  next
    case (PPut c)
    then show ?thesis using wstep.put_waits [of s c] wstep.put [of s c] sig by blast
  next
    case (PPutAsleep c)
    then have full: "cnt s = BUFFER_CAPACITY" "\<not> is_done s" using ph(1) by (auto simp: phase_ok_def)
    then have ne: "cnt s \<noteq> 0" by (simp add: BUFFER_CAPACITY_def)
    have "\<exists>p \<in> set (consumers s). p \<noteq> CAsleep"
      using ph(2) ne n unfolding sleep_ok_def by (metis list.set_intros(1) neq_Nil_conv)
    moreover have "CEnd \<notin> set (consumers s)" using ph(1) full(2) by (auto simp: phase_ok_def)
    ultimately show ?thesis using cons by metis
  next
    case PDone
    then show ?thesis using wstep.finish by blast
  next
    case PEnd
    then have "is_done s" using ph(1) by (simp add: phase_ok_def)
    then have "CAsleep \<notin> set (consumers s)" using ph(2) by (auto simp: sleep_ok_def)
    then show ?thesis using nj PEnd cons unfolding all_joined_def by metis
  qed (use ph(3) in simp)
qed

lemma winv_final:
  assumes "winv f s" "all_joined s" "consumers s \<noteq> []"
  shows "total s = of_nat (num_words f)"
proof -
  have c: "\<forall>p \<in> set (consumers s). p = CEnd" "producer s = PEnd" using assms(2) by (auto simp: all_joined_def)
  then have "CEnd \<in> set (consumers s)" using assms(3) by (metis list.set_intros(1) neq_Nil_conv)
  then have "cnt s = 0" "unread s = []" using assms(1) c(2) by (auto simp: winv_def phase_ok_def)
  moreover have "map consumer_words (consumers s) = map (\<lambda>_. 0) (consumers s)"
    using c(1) by (intro map_cong) (auto simp: consumer_words_def)
  moreover have "num_words [] = 0" by (simp add: num_words_def word_starts_def)
  ultimately have "pending s = 0" using c(2)
    by (simp add: pending_def ring_chunks_def producer_words_def map_replicate_const sum_list_replicate)
  then show ?thesis using assms(1) by (simp add: winv_def)
qed


section \<open>Every run ends\<close>

text \<open>The work left: every step of a thread takes some away, and wakes at most what it pays for.\<close>

definition consumer_work :: "cpc \<Rightarrow> nat" where
  "consumer_work p = (case p of CGet \<Rightarrow> 1 | CAsleep \<Rightarrow> 0 | CCount c \<Rightarrow> 3 | CAdd w \<Rightarrow> 2 | CEnd \<Rightarrow> 0)"

definition producer_work :: "nat \<Rightarrow> nat \<Rightarrow> ppc \<Rightarrow> nat" where
  "producer_work n bytes p =
     (case p of PRead \<Rightarrow> 8 * bytes + n + 3 | PPut c \<Rightarrow> 8 * bytes + n + 10 | PPutAsleep c \<Rightarrow> 8 * bytes + n + 9
      | PDone \<Rightarrow> n + 1 | PEnd \<Rightarrow> 0 | PFault \<Rightarrow> 0)"

definition work :: "wcst \<Rightarrow> nat" where
  "work s = producer_work (length (consumers s)) (length (unread s)) (producer s) + 4 * cnt s +
     sum_list (map consumer_work (consumers s))"

lemma work_upd:
  "i < length cs \<Longrightarrow> sum_list (map consumer_work (cs[i := p])) + consumer_work (cs ! i) =
     sum_list (map consumer_work cs) + consumer_work p"
proof (induction cs arbitrary: i)
  case (Cons c cs)
  then show ?case by (cases i) (auto simp: algebra_simps)
qed simp

lemma signal_consumer_work:
  "signal_consumer cs cs' \<Longrightarrow> sum_list (map consumer_work cs') \<le> sum_list (map consumer_work cs) + 1 \<and> length cs' = length cs"
proof (erule signal_consumer.cases)
  fix i xs assume "cs = xs" "cs' = xs[i := CGet]" "i < length xs" "xs ! i = CAsleep"
  then show "sum_list (map consumer_work cs') \<le> sum_list (map consumer_work cs) + 1 \<and> length cs' = length cs"
    using work_upd [of i xs CGet] by (simp add: consumer_work_def)
qed simp

lemma broadcast_work: "sum_list (map consumer_work (broadcast cs)) \<le> sum_list (map consumer_work cs) + length cs"
proof (induction cs)
  case (Cons c cs)
  have "consumer_work (if c = CAsleep then CGet else c) \<le> consumer_work c + 1" by (simp add: consumer_work_def)
  with Cons show ?case by (simp add: broadcast_def)
qed (simp add: broadcast_def)

lemma wake_producer_work: "producer_work n b (wake_producer p) \<le> producer_work n b p + 1"
  by (cases p) (auto simp: wake_producer_def producer_work_def)

lemma wstep_work:
  assumes "wstep s s'"
  shows "work s' < work s"
  using assms
proof cases
  case read
  show ?thesis
  proof (cases "unread s = []")
    case True
    then show ?thesis using read by (simp add: read_chunk_def work_def producer_work_def)
  next
    case False
    then have b: "take CHUNK_SIZE (unread s) \<noteq> []" by (simp add: CHUNK_SIZE_def)
    show ?thesis
    proof (cases "extend_chunk (take CHUNK_SIZE (unread s)) (drop CHUNK_SIZE (unread s))")
      case None
      then show ?thesis using read b by (simp add: read_chunk_def work_def producer_work_def)
    next
      case (Some x)
      obtain b' r' where x: "x = (b', r')" by (cases x)
      from extend_chunk_spec [OF Some [unfolded x]] obtain e where
        e: "b' = take CHUNK_SIZE (unread s) @ e" "drop CHUNK_SIZE (unread s) = e @ r'" by blast
      have "length r' < length (unread s)"
        using arg_cong [OF e(2), of length] False by (cases "unread s") (auto simp: CHUNK_SIZE_def)
      then show ?thesis using read b Some x by (simp add: read_chunk_def work_def producer_work_def Let_def)
    qed
  qed
next
  case (put_waits c)
  then show ?thesis by (simp add: work_def producer_work_def)
next
  case (put c cs)
  then show ?thesis using signal_consumer_work [OF put(4)] by (simp add: work_def producer_work_def ring_put_chunk_def)
next
  case finish
  then show ?thesis using broadcast_work [of "consumers s"] by (simp add: work_def producer_work_def broadcast_def)
next
  case (get_waits i)
  then show ?thesis using work_upd [of i "consumers s" CAsleep] by (simp add: work_def consumer_work_def)
next
  case (get_ends i)
  then show ?thesis using work_upd [of i "consumers s" CEnd] by (simp add: work_def consumer_work_def)
next
  case (get i)
  then show ?thesis
    using work_upd [of i "consumers s" "CCount (ring_head_chunk s)"]
      wake_producer_work [of "length (consumers s)" "length (unread s)" "producer s"]
    by (simp add: work_def consumer_work_def ring_pop_chunk_def)
next
  case (count_chunk i c)
  then show ?thesis using work_upd [of i "consumers s" "CAdd (count_words_in_chunk c)"] by (simp add: work_def consumer_work_def)
next
  case (add i w)
  then show ?thesis using work_upd [of i "consumers s" CGet] by (simp add: work_def consumer_work_def)
qed

lemma wstep_wfp: "wfp (\<lambda>s' s. wstep s s')"
  by (rule wfp_if_convertible_to_nat [of _ work]) (rule wstep_work)

text \<open>So every run can be continued to one that cannot go on.\<close>

lemma wstep_final: "\<exists>s'. wstep\<^sup>*\<^sup>* s s' \<and> \<not> (\<exists>s''. wstep s' s'')"
  by (induction s rule: wfp_induct_rule [OF wstep_wfp]) (meson converse_rtranclp_into_rtranclp rtranclp.rtrancl_refl)

section \<open>Properties\<close>

text \<open>
  C27: for a file without words of more than 256 characters and any number of consumers, whatever the
  scheduler does, no thread is ever stuck, and when no thread can move all have ended and the total is
  the number of words of the file.
\<close>

theorem overlap_counts_words:
  assumes "overlap_main 3 num_consumers f = Inr s0" "\<not> long_word f" "wstep\<^sup>*\<^sup>* s0 s"
  shows "(\<exists>s'. wstep s s') \<or> all_joined s \<and> total s = of_nat (num_words f)"
proof -
  have n: "s0 = overlap_init f (nat num_consumers)" "0 < nat num_consumers"
    using assms(1) by (auto simp: overlap_main_def split: if_splits)
  have w: "winv f s" "length (consumers s) = nat num_consumers"
    using winv_reachable [OF assms(3) [unfolded n(1)] assms(2)] by simp_all
  then have "consumers s \<noteq> []" using n(2) by auto
  with w(1) winv_progress winv_final show ?thesis by blast
qed


lemma num_words_one: "is_word_char c \<Longrightarrow> num_words [c] = 1"
proof -
  assume "is_word_char c"
  then have "word_starts [c] 0 1 = {0}" by (auto simp: word_starts_def)
  then show ?thesis by (simp add: num_words_def)
qed

text \<open>Two consumers and the file \<open>a\<close>.\<close>

theorem overlap_counts_words_witness:
  "\<exists>s. wstep\<^sup>*\<^sup>* (overlap_init [97] 2) s \<and> all_joined s \<and> total s = 1"
proof -
  have l: "\<not> long_word [97]"
  proof
    assume "long_word [97]"
    then obtain u v w where e: "[97 :: byte] = u @ v @ w" "length v = 257" by (auto simp: long_word_def)
    have "length [97 :: byte] = length u + (length v + length w)" by (subst e(1)) (simp only: length_append)
    then show False using e(2) by simp
  qed
  have n: "num_words [97] = 1" by (rule num_words_one) (simp add: is_word_char_def)
  have m: "overlap_main 3 2 [97] = Inr (overlap_init [97] 2)" by (simp add: overlap_main_def MAX_CONSUMERS_def)
  obtain s where s: "wstep\<^sup>*\<^sup>* (overlap_init [97] 2) s" "\<not> (\<exists>s'. wstep s s')" using wstep_final by blast
  from overlap_counts_words [OF m l s(1)] s n show ?thesis by auto
qed

text \<open>
  A word of more than 65792 bytes overruns the buffer of its chunk: the producer extends the chunk to
  the end of the word without a bound.
\<close>

lemma extend_chunk_letters:
  "0 < k \<Longrightarrow> extend_chunk (replicate k 97) (replicate m 97) = None \<longleftrightarrow> CHUNK_SIZE + 256 < k + m \<and> 0 < m"
proof (induction m arbitrary: k)
  case (Suc m)
  have "is_word_char (last (replicate k 97))" using Suc.prems by (simp add: is_word_char_def)
  moreover have "replicate k (97 :: byte) @ [97] = replicate (Suc k) 97" by (simp add: replicate_append_same)
  ultimately show ?case using Suc.IH [of "Suc k"] Suc.prems by auto
qed simp

text \<open>
  On a file with one word of 65793 bytes the producer writes beyond the end of its buffer.
\<close>

theorem overlap_long_word_overruns:
  "\<exists>s. wstep (overlap_init (replicate (CHUNK_SIZE + 257) 97) n) s \<and> producer s = PFault"
proof (intro exI conjI)
  let ?s = "overlap_init (replicate (CHUNK_SIZE + 257) 97) n"
  show "wstep ?s (read_chunk ?s)" by (rule wstep.read) (simp add: overlap_init_def)
  have "extend_chunk (replicate CHUNK_SIZE 97) (replicate 257 97) = None"
    using extend_chunk_letters [of CHUNK_SIZE 257] by (simp add: CHUNK_SIZE_def)
  moreover have "take CHUNK_SIZE (replicate (CHUNK_SIZE + 257) (97 :: byte)) = replicate CHUNK_SIZE 97"
    "drop CHUNK_SIZE (replicate (CHUNK_SIZE + 257) (97 :: byte)) = replicate 257 97" by (simp_all only: take_replicate drop_replicate) simp_all
  moreover have "replicate CHUNK_SIZE (97 :: byte) \<noteq> []" by (simp add: CHUNK_SIZE_def)
  ultimately show "producer (read_chunk ?s) = PFault" by (simp add: read_chunk_def overlap_init_def Let_def)
qed

end
