(* ===== verification/Lab_Snake.thy ===== *)
theory Lab_Snake
  imports Xv6_Prelude
begin

text \<open>
  \<open>lab5-lyjae/snake.c\<close>: the snake game.  The values of \<open>getch\<close> and \<open>rand\<close> are inputs of the functions
  that ask for them; a signal runs its handler between two rounds of the main loop.  What is drawn is
  the list of the characters with their rows and columns.
\<close>

section \<open>State\<close>

definition WIDTH :: int where "WIDTH = 40"
definition HEIGHT :: int where "HEIGHT = 20"
definition MAX_LEN :: nat where "MAX_LEN = 300"

record position =
  px :: int
  py :: int

datatype direction = UP | DOWN | LEFT | RIGHT

record game =
  snake :: "position list"
  snake_length :: nat
  dir :: direction
  food :: position
  game_over :: bool
  score :: int
  paused :: bool
  sigint_flag :: bool

definition new_food :: "int \<Rightarrow> int \<Rightarrow> position" where
  "new_food r1 r2 = \<lparr>px = r1 mod (WIDTH - 2) + 1, py = r2 mod (HEIGHT - 2) + 1\<rparr>"

text \<open>The array is static: zero beyond the segments that are set.\<close>

definition init_game :: "int \<Rightarrow> int \<Rightarrow> game" where
  "init_game r1 r2 =
     \<lparr>snake = map (\<lambda>i. if i < 5 then \<lparr>px = WIDTH div 2 - int i, py = HEIGHT div 2\<rparr> else \<lparr>px = 0, py = 0\<rparr>) [0..<MAX_LEN],
      snake_length = 5, dir = RIGHT, food = new_food r1 r2, game_over = False, score = 0, paused = False, sigint_flag = False\<rparr>"

section \<open>Moving\<close>

text \<open>The loop that moves the segments up, from the tail to the neck.\<close>

fun shift_segments :: "nat \<Rightarrow> position list \<Rightarrow> position list" where
  "shift_segments 0 s = s"
| "shift_segments (Suc i) s = shift_segments i (s[Suc i := s ! i])"

definition move_head :: "direction \<Rightarrow> position \<Rightarrow> position" where
  "move_head d p =
     (case d of UP \<Rightarrow> p\<lparr>py := py p - 1\<rparr> | DOWN \<Rightarrow> p\<lparr>py := py p + 1\<rparr>
      | LEFT \<Rightarrow> p\<lparr>px := px p - 1\<rparr> | RIGHT \<Rightarrow> p\<lparr>px := px p + 1\<rparr>)"

definition hits_wall :: "position \<Rightarrow> bool" where
  "hits_wall p \<longleftrightarrow> px p \<le> 0 \<or> px p \<ge> WIDTH - 1 \<or> py p \<le> 0 \<or> py p \<ge> HEIGHT - 1"

definition hits_self :: "nat \<Rightarrow> position list \<Rightarrow> bool" where
  "hits_self n s \<longleftrightarrow> (\<exists>i \<in> set [1..<n]. px (s ! 0) = px (s ! i) \<and> py (s ! 0) = py (s ! i))"

definition move_snake :: "int \<Rightarrow> int \<Rightarrow> game \<Rightarrow> game" where
  "move_snake r1 r2 g =
     (let s = shift_segments (snake_length g - 1) (snake g);
          s = s[0 := move_head (dir g) (s ! 0)];
          g = g\<lparr>snake := s\<rparr> in
      if hits_wall (s ! 0) then g\<lparr>game_over := True\<rparr>
      else if hits_self (snake_length g) s then g\<lparr>game_over := True\<rparr>
      else if px (s ! 0) = px (food g) \<and> py (s ! 0) = py (food g)
      then g\<lparr>snake_length := (if snake_length g < MAX_LEN then snake_length g + 1 else snake_length g),
             score := score g + 1, food := new_food r1 r2\<rparr>
      else g)"

section \<open>Input\<close>

definition handle_input :: "char option \<Rightarrow> game \<Rightarrow> game" where
  "handle_input c g =
     (if c = Some CHR ''w'' then (if dir g \<noteq> DOWN then g\<lparr>dir := UP\<rparr> else g)
      else if c = Some CHR ''s'' then (if dir g \<noteq> UP then g\<lparr>dir := DOWN\<rparr> else g)
      else if c = Some CHR ''a'' then (if dir g \<noteq> RIGHT then g\<lparr>dir := LEFT\<rparr> else g)
      else if c = Some CHR ''d'' then (if dir g \<noteq> LEFT then g\<lparr>dir := RIGHT\<rparr> else g)
      else if c = Some CHR ''p'' \<or> c = Some CHR ''P'' then g\<lparr>paused := \<not> paused g\<rparr>
      else g)"

definition handle_sigint :: "game \<Rightarrow> game" where
  "handle_sigint g = g\<lparr>sigint_flag := True\<rparr>"

definition handle_sigtstp :: "game \<Rightarrow> game" where
  "handle_sigtstp g = g\<lparr>paused := \<not> paused g\<rparr>"

section \<open>The main loop\<close>

text \<open>
  One round: \<open>quit\<close> is the answer to the question after an interrupt, \<open>key\<close> the key of the round.  The
  result is \<open>None\<close> when the player quits.
\<close>

definition game_round :: "char option \<Rightarrow> char option \<Rightarrow> int \<Rightarrow> int \<Rightarrow> game \<Rightarrow> game option" where
  "game_round quit key r1 r2 g =
     (if sigint_flag g \<and> (quit = Some CHR ''y'' \<or> quit = Some CHR ''Y'') then None
      else let g = g\<lparr>sigint_flag := False\<rparr> in
        if paused g then
          Some (if key = Some CHR ''p'' \<or> key = Some CHR ''P'' then g\<lparr>paused := \<not> paused g\<rparr> else g)
        else Some (move_snake r1 r2 (handle_input key g)))"

datatype event = Round "char option" "char option" int int | SigInt | SigTstp

fun play :: "event list \<Rightarrow> game \<Rightarrow> game option" where
  "play [] g = Some g"
| "play (SigInt # es) g = play es (handle_sigint g)"
| "play (SigTstp # es) g = play es (handle_sigtstp g)"
| "play (Round q k r1 r2 # es) g =
     (if game_over g then Some g
      else case game_round q k r1 r2 g of None \<Rightarrow> None | Some g \<Rightarrow> play es g)"

section \<open>Drawing\<close>

definition draw_border :: "(int \<times> int \<times> char) list" where
  "draw_border =
     concat (map (\<lambda>i. [(0, i, CHR ''#''), (HEIGHT - 1, i, CHR ''#'')]) [0..WIDTH - 1]) @
     concat (map (\<lambda>i. [(i, 0, CHR ''#''), (i, WIDTH - 1, CHR ''#'')]) [0..HEIGHT - 1])"

definition draw_snake :: "game \<Rightarrow> (int \<times> int \<times> char) list" where
  "draw_snake g = map (\<lambda>i. (py (snake g ! i), px (snake g ! i), CHR ''O'')) [0..<snake_length g]"

definition draw_food :: "game \<Rightarrow> (int \<times> int \<times> char) list" where
  "draw_food g = [(py (food g), px (food g), CHR ''@'')]"

definition frame :: "game \<Rightarrow> (int \<times> int \<times> char) list" where
  "frame g = draw_border @ draw_food g @ draw_snake g"

section \<open>The invariant\<close>

definition inside :: "position \<Rightarrow> bool" where
  "inside p \<longleftrightarrow> 0 < px p \<and> px p < WIDTH - 1 \<and> 0 < py p \<and> py p < HEIGHT - 1"

text \<open>
  The segments lie inside the border and apart from each other; the last one may have been added in the
  last round and is then still zero, like the rest of the array.
\<close>

definition body_ok :: "game \<Rightarrow> bool" where
  "body_ok g \<longleftrightarrow> (let n = snake_length g; s = snake g in
     (\<forall>i < n - 1. inside (s ! i)) \<and> (inside (s ! (n - 1)) \<or> s ! (n - 1) = \<lparr>px = 0, py = 0\<rparr>) \<and>
     (\<forall>i. n \<le> i \<longrightarrow> i < MAX_LEN \<longrightarrow> s ! i = \<lparr>px = 0, py = 0\<rparr>) \<and>
     distinct (take (n - 1) s))"

definition snake_ok :: "game \<Rightarrow> bool" where
  "snake_ok g \<longleftrightarrow> length (snake g) = MAX_LEN \<and> 5 \<le> snake_length g \<and> snake_length g \<le> MAX_LEN \<and> inside (food g) \<and>
     0 \<le> score g \<and> int (snake_length g) = min (int MAX_LEN) (5 + score g) \<and> (\<not> game_over g \<longrightarrow> body_ok g)"

text \<open>The head is one step in front of the neck, in the direction of the snake.\<close>

definition heading_ok :: "game \<Rightarrow> bool" where
  "heading_ok g \<longleftrightarrow> snake g ! 0 = move_head (dir g) (snake g ! 1)"

lemma shift_segments_spec:
  "n < length s \<Longrightarrow> length (shift_segments n s) = length s \<and>
     (\<forall>i < length s. shift_segments n s ! i = (if 0 < i \<and> i \<le> n then s ! (i - 1) else s ! i))"
proof (induction n arbitrary: s)
  case (Suc n)
  then have "n < length (s[Suc n := s ! n])" by simp
  from Suc.IH [OF this] Suc.prems show ?case by (auto simp: nth_list_update le_Suc_eq)
qed auto


lemma inside_new_food: "inside (new_food r1 r2)"
  using pos_mod_bound [of "WIDTH - 2" r1] pos_mod_bound [of "HEIGHT - 2" r2]
  by (simp add: inside_def new_food_def WIDTH_def HEIGHT_def)

lemma not_hits_wall: "\<not> hits_wall p \<longleftrightarrow> inside p"
  by (auto simp: hits_wall_def inside_def)

text \<open>The array after the segments have moved.\<close>

definition moved :: "game \<Rightarrow> position list" where
  "moved g = (let s = shift_segments (snake_length g - 1) (snake g) in s[0 := move_head (dir g) (s ! 0)])"

lemma moved_nth:
  assumes "length (snake g) = MAX_LEN" "5 \<le> snake_length g" "snake_length g \<le> MAX_LEN"
  shows "length (moved g) = MAX_LEN" "moved g ! 0 = move_head (dir g) (snake g ! 0)"
    "\<And>i. i < MAX_LEN \<Longrightarrow> 0 < i \<Longrightarrow> moved g ! i = (if i < snake_length g then snake g ! (i - 1) else snake g ! i)"
proof -
  have n: "snake_length g - 1 < length (snake g)" using assms by simp
  note sh = shift_segments_spec [OF n]
  show "length (moved g) = MAX_LEN" using sh assms(1) by (simp add: moved_def Let_def)
  show "moved g ! 0 = move_head (dir g) (snake g ! 0)" using sh assms n by (auto simp: moved_def Let_def)
  show "moved g ! i = (if i < snake_length g then snake g ! (i - 1) else snake g ! i)" if "i < MAX_LEN" "0 < i" for i
    using sh assms that by (auto simp: moved_def Let_def)
qed

lemma move_snake_moved:
  "move_snake r1 r2 g =
     (let g = g\<lparr>snake := moved g\<rparr> in
      if hits_wall (snake g ! 0) \<or> hits_self (snake_length g) (snake g) then g\<lparr>game_over := True\<rparr>
      else if snake g ! 0 = food g
      then g\<lparr>snake_length := (if snake_length g < MAX_LEN then snake_length g + 1 else snake_length g),
             score := score g + 1, food := new_food r1 r2\<rparr>
      else g)"
  by (auto simp: move_snake_def moved_def Let_def)

lemma moved_body:
  assumes ok: "snake_ok g" "\<not> game_over g" and nh: "\<not> hits_wall (moved g ! 0)" "\<not> hits_self (snake_length g) (moved g)"
  shows "\<forall>i < snake_length g. inside (moved g ! i)" "distinct (take (snake_length g) (moved g))"
    "\<forall>i. snake_length g \<le> i \<longrightarrow> i < MAX_LEN \<longrightarrow> moved g ! i = \<lparr>px = 0, py = 0\<rparr>"
    "moved g ! 0 = move_head (dir g) (moved g ! 1)"
proof -
  have l: "length (snake g) = MAX_LEN" "5 \<le> snake_length g" "snake_length g \<le> MAX_LEN" using ok(1) by (simp_all add: snake_ok_def)
  note m = moved_nth [OF l]
  let ?n = "snake_length g" and ?s = "snake g"
  have b: "\<forall>i < ?n - 1. inside (?s ! i)" "distinct (take (?n - 1) ?s)"
    "\<forall>i. ?n \<le> i \<longrightarrow> i < MAX_LEN \<longrightarrow> ?s ! i = \<lparr>px = 0, py = 0\<rparr>"
    using ok by (auto simp: snake_ok_def body_ok_def Let_def)
  show "\<forall>i < ?n. inside (moved g ! i)"
  proof (intro allI impI)
    fix i assume "i < ?n"
    then show "inside (moved g ! i)" using nh(1) b(1) m(3) [of i] l by (cases i) (auto simp: not_hits_wall)
  qed
  show "\<forall>i. ?n \<le> i \<longrightarrow> i < MAX_LEN \<longrightarrow> moved g ! i = \<lparr>px = 0, py = 0\<rparr>" using b(3) m(3) l by auto
  show "moved g ! 0 = move_head (dir g) (moved g ! 1)" using m(2) m(3) [of 1] l by simp
  have d: "moved g ! i \<noteq> moved g ! j" if "i < j" "j < ?n" for i j
  proof (cases i)
    case 0
    have "j \<in> set [1..<?n]" using that by auto
    then have "\<not> (px (moved g ! 0) = px (moved g ! j) \<and> py (moved g ! 0) = py (moved g ! j))"
      using nh(2) unfolding hits_self_def by blast
    then show ?thesis using 0 by auto
  next
    case (Suc k)
    then have "moved g ! i = take (?n - 1) ?s ! k" "moved g ! j = take (?n - 1) ?s ! (j - 1)" "k < j - 1" "j - 1 < ?n - 1"
      using m(3) [of i] m(3) [of j] that l by auto
    moreover have "take (?n - 1) ?s ! k \<noteq> take (?n - 1) ?s ! (j - 1)"
      using b(2) calculation(3,4) l by (subst nth_eq_iff_index_eq) auto
    ultimately show ?thesis by simp
  qed
  then have "moved g ! i \<noteq> moved g ! j" if "i \<noteq> j" "i < ?n" "j < ?n" for i j
    using that by (metis nat_neq_iff)
  then show "distinct (take ?n (moved g))" unfolding distinct_conv_nth using m(1) l by simp
qed

lemma snake_ok_move:
  assumes "snake_ok g" "\<not> game_over g"
  shows "snake_ok (move_snake r1 r2 g) \<and> (\<not> game_over (move_snake r1 r2 g) \<longrightarrow> heading_ok (move_snake r1 r2 g))"
proof -
  have l: "length (snake g) = MAX_LEN" "5 \<le> snake_length g" "snake_length g \<le> MAX_LEN" using assms(1) by (simp_all add: snake_ok_def)
  note m = moved_nth [OF l]
  let ?n = "snake_length g"
  show ?thesis
  proof (cases "hits_wall (moved g ! 0) \<or> hits_self ?n (moved g)")
    case True
    then show ?thesis using assms(1) m(1) by (auto simp: move_snake_moved Let_def snake_ok_def)
  next
    case False
    then have nh: "\<not> hits_wall (moved g ! 0)" "\<not> hits_self ?n (moved g)" by auto
    note b = moved_body [OF assms nh]
    have dt: "distinct (take (?n - 1) (moved g))"
      using b(2) by (metis diff_le_self distinct_take min.absorb1 take_take)
    show ?thesis
    proof (cases "moved g ! 0 = food g")
      case True
      let ?m = "if ?n < MAX_LEN then ?n + 1 else ?n"
      have g': "move_snake r1 r2 g = g\<lparr>snake := moved g, snake_length := ?m, score := score g + 1, food := new_food r1 r2\<rparr>"
        using nh True by (simp add: move_snake_moved Let_def)
      have "body_ok (move_snake r1 r2 g)" "heading_ok (move_snake r1 r2 g)"
        using b dt l unfolding g' by (auto simp: body_ok_def heading_ok_def Let_def)
      then show ?thesis using assms(1) m(1) unfolding g' by (auto simp: snake_ok_def inside_new_food)
    next
      case no: False
      have g': "move_snake r1 r2 g = g\<lparr>snake := moved g\<rparr>" using nh no by (simp add: move_snake_moved Let_def)
      have "body_ok (move_snake r1 r2 g)" "heading_ok (move_snake r1 r2 g)"
        using b dt l unfolding g' by (auto simp: body_ok_def heading_ok_def Let_def)
      then show ?thesis using assms(1) m(1) unfolding g' by (auto simp: snake_ok_def)
    qed
  qed
qed


lemma handle_input_keeps:
  "snake (handle_input k g) = snake g" "snake_length (handle_input k g) = snake_length g" "food (handle_input k g) = food g"
  "game_over (handle_input k g) = game_over g" "score (handle_input k g) = score g"
  by (simp_all add: handle_input_def)

lemma snake_ok_handle_input: "snake_ok (handle_input k g) = snake_ok g"
  unfolding snake_ok_def body_ok_def handle_input_keeps ..

text \<open>A turn never reverses the snake.\<close>

lemma handle_input_dir: "move_head (dir (handle_input k g)) (move_head (dir g) p) \<noteq> p"
proof -
  have "dir (handle_input k g) = dir g \<or> dir (handle_input k g) = UP \<and> dir g \<noteq> DOWN \<or>
      dir (handle_input k g) = DOWN \<and> dir g \<noteq> UP \<or> dir (handle_input k g) = LEFT \<and> dir g \<noteq> RIGHT \<or>
      dir (handle_input k g) = RIGHT \<and> dir g \<noteq> LEFT"
    unfolding handle_input_def by simp
  moreover have "move_head d (move_head e p) \<noteq> p"
    if "(d, e) \<notin> {(UP, DOWN), (DOWN, UP), (LEFT, RIGHT), (RIGHT, LEFT)}" for d e
    using that by (cases p; cases d; cases e) (simp_all add: move_head_def)
  ultimately show ?thesis by auto
qed

definition playing :: "game \<Rightarrow> bool" where
  "playing g \<longleftrightarrow> snake_ok g \<and> (\<not> game_over g \<longrightarrow> heading_ok g)"

lemma playing_round:
  assumes "playing g" "\<not> game_over g" "game_round q k r1 r2 g = Some g'"
  shows "playing g'"
proof -
  let ?g = "g\<lparr>sigint_flag := False\<rparr>"
  have ok: "snake_ok ?g" "snake_ok (?g\<lparr>paused := b\<rparr>)" for b
    using assms(1) by (simp_all add: playing_def snake_ok_def body_ok_def)
  show ?thesis
  proof (cases "paused g")
    case True
    then show ?thesis using assms ok by (auto simp: game_round_def Let_def playing_def heading_ok_def split: if_splits)
  next
    case False
    then have g': "g' = move_snake r1 r2 (handle_input k ?g)"
      using assms(3) by (auto simp: game_round_def Let_def split: if_splits)
    have "snake_ok (handle_input k ?g)" "\<not> game_over (handle_input k ?g)"
      using ok(1) assms(2) by (simp_all add: handle_input_keeps snake_ok_handle_input)
    from snake_ok_move [OF this] show ?thesis unfolding g' by (simp add: playing_def)
  qed
qed

lemma playing_play: "playing g \<Longrightarrow> play es g = Some g' \<Longrightarrow> playing g'"
proof (induction es g rule: play.induct)
  case (2 es g)
  have "playing (handle_sigint g) = playing g"
    by (simp add: playing_def handle_sigint_def snake_ok_def body_ok_def heading_ok_def)
  with 2 show ?case by simp
next
  case (3 es g)
  have "playing (handle_sigtstp g) = playing g"
    by (simp add: playing_def handle_sigtstp_def snake_ok_def body_ok_def heading_ok_def)
  with 3 show ?case by simp
next
  case (4 q k r1 r2 es g)
  then show ?case using playing_round [of g q k r1 r2] by (auto split: if_splits option.splits)
qed simp

lemma playing_init: "playing (init_game r1 r2)"
proof -
  let ?g = "init_game r1 r2"
  have n: "snake ?g ! i = (if i < 5 then \<lparr>px = 20 - int i, py = 10\<rparr> else \<lparr>px = 0, py = 0\<rparr>)" if "i < MAX_LEN" for i
    using that by (simp add: init_game_def WIDTH_def HEIGHT_def)
  have sl: "snake_length ?g = 5" "length (snake ?g) = MAX_LEN" by (simp_all add: init_game_def)
  have "distinct (take 4 (snake ?g))"
    unfolding distinct_conv_nth using sl(2) n by (auto simp: MAX_LEN_def)
  moreover have "heading_ok ?g" using n by (simp add: heading_ok_def init_game_def move_head_def MAX_LEN_def WIDTH_def HEIGHT_def)
  ultimately show ?thesis using n sl
    by (auto simp: playing_def snake_ok_def body_ok_def Let_def inside_new_food inside_def WIDTH_def HEIGHT_def MAX_LEN_def)
      (simp_all add: init_game_def inside_new_food inside_def WIDTH_def HEIGHT_def MAX_LEN_def new_food_def)
qed

section \<open>Properties\<close>



text \<open>
  No key turns the snake back into its own neck: after any round that moved it, its head is not
  where its neck was.
\<close>

theorem snake_never_reverses:
  assumes "play es (init_game r1 r2) = Some g" "\<not> game_over g" "game_round q k r3 r4 g = Some g'" "\<not> paused g"
  shows "snake g' ! 0 \<noteq> snake g ! 1"
proof -
  have p: "snake_ok g" "heading_ok g" using playing_play [OF playing_init assms(1)] assms(2) by (simp_all add: playing_def)
  let ?g = "handle_input k (g\<lparr>sigint_flag := False\<rparr>)"
  have g': "g' = move_snake r3 r4 ?g" using assms(3,4) by (auto simp: game_round_def Let_def split: if_splits)
  have "length (snake ?g) = MAX_LEN" "5 \<le> snake_length ?g" "snake_length ?g \<le> MAX_LEN"
    using p(1) by (simp_all add: handle_input_keeps snake_ok_def)
  note m = moved_nth [OF this]
  have "snake g' ! 0 = moved ?g ! 0" unfolding g' by (simp add: move_snake_moved Let_def)
  also have "\<dots> = move_head (dir ?g) (snake g ! 0)" using m(2) by (simp add: handle_input_keeps)
  also have "\<dots> = move_head (dir ?g) (move_head (dir g) (snake g ! 1))" using p(2) by (simp add: heading_ok_def)
  also have "\<dots> \<noteq> snake g ! 1" using handle_input_dir [of k "g\<lparr>sigint_flag := False\<rparr>"] by simp
  finally show ?thesis .
qed


theorem snake_never_reverses_witness:
  "\<exists>g'. game_round None (Some CHR ''a'') 0 0 (init_game 0 0) = Some g' \<and> snake g' ! 0 \<noteq> snake (init_game 0 0) ! 1"
proof -
  have s: "\<not> game_over (init_game 0 0)" "\<not> paused (init_game 0 0)" "\<not> sigint_flag (init_game 0 0)"
    by (simp_all add: init_game_def)
  then obtain g' where g': "game_round None (Some CHR ''a'') 0 0 (init_game 0 0) = Some g'" by (simp add: game_round_def)
  have "play [] (init_game 0 0) = Some (init_game 0 0)" by simp
  from snake_never_reverses [OF this s(1) g' s(2)] g' show ?thesis by blast
qed

end
