(* ===== verification/Lab_Vars.thy ===== *)
theory Lab_Vars
  imports Main
begin

text \<open>
  The variables of the shells of \<open>lab7-lyjae\<close> (\<open>mini-shell-3.c\<close>, and where they differ
  \<open>mini-shell-2.c\<close>): two tables of 64 records with a name of 64 and a value of 256 characters, and the
  environment.  The tables are arrays of characters: \<open>strncpy\<close> leaves a name or a value that fills its
  field without a NUL, and a string then runs on into what follows it.  Reading past the end of an
  array is \<open>None\<close>.
\<close>

section \<open>Strings in arrays\<close>

abbreviation NULC :: char where "NULC \<equiv> CHR 0x00"

definition read_str :: "string \<Rightarrow> string option" where
  "read_str bs = (if NULC \<in> set bs then Some (takeWhile (\<lambda>c. c \<noteq> NULC) bs) else None)"

text \<open>\<open>strcmp(bs, t) == 0\<close>, which reads no further than the first difference.\<close>

fun str_eq :: "string \<Rightarrow> string \<Rightarrow> bool option" where
  "str_eq [] t = None"
| "str_eq (c # bs) [] = Some (c = NULC)"
| "str_eq (c # bs) (d # t) = (if c = d then str_eq bs t else Some False)"

definition strncpy_field :: "nat \<Rightarrow> string \<Rightarrow> string" where
  "strncpy_field n t = take n t @ replicate (n - length t) NULC"

section \<open>Tables\<close>

definition NAME_SIZE :: nat where "NAME_SIZE = 64"
definition VALUE_SIZE :: nat where "VALUE_SIZE = 256"
definition MAX_VARS :: nat where "MAX_VARS = 64"

record variable =
  var_name :: string
  var_value :: string

definition table_bytes :: "variable list \<Rightarrow> string" where
  "table_bytes vs = concat (map (\<lambda>v. var_name v @ var_value v) vs)"

definition name_bytes :: "variable list \<Rightarrow> nat \<Rightarrow> string" where
  "name_bytes vs i = drop (i * (NAME_SIZE + VALUE_SIZE)) (table_bytes vs)"

definition value_bytes :: "variable list \<Rightarrow> nat \<Rightarrow> string" where
  "value_bytes vs i = drop (i * (NAME_SIZE + VALUE_SIZE) + NAME_SIZE) (table_bytes vs)"

text \<open>The loop that looks for a name among the indices it has left.\<close>

fun find_name :: "variable list \<Rightarrow> string \<Rightarrow> nat list \<Rightarrow> nat option option" where
  "find_name vs name [] = Some None"
| "find_name vs name (i # js) =
     (case str_eq (name_bytes vs i) name of
        None \<Rightarrow> None
      | Some True \<Rightarrow> Some (Some i)
      | Some False \<Rightarrow> find_name vs name js)"

text \<open>A table is its array with the number of variables in use.\<close>

type_synonym vtable = "variable list \<times> nat"

definition no_vars :: vtable where
  "no_vars = (replicate MAX_VARS \<lparr>var_name = replicate NAME_SIZE NULC, var_value = replicate VALUE_SIZE NULC\<rparr>, 0)"

definition get_in :: "vtable \<Rightarrow> string \<Rightarrow> string option option" where
  "get_in tab name =
     (case find_name (fst tab) name [0..<snd tab] of
        None \<Rightarrow> None
      | Some None \<Rightarrow> Some None
      | Some (Some i) \<Rightarrow> map_option Some (read_str (value_bytes (fst tab) i)))"

text \<open>The result tells whether the table had room.\<close>

definition set_in :: "string \<Rightarrow> string \<Rightarrow> vtable \<Rightarrow> (bool \<times> vtable) option" where
  "set_in name v tab =
     (case tab of (vs, n) \<Rightarrow>
        case find_name vs name [0..<n] of
          None \<Rightarrow> None
        | Some (Some i) \<Rightarrow> Some (True, vs[i := (vs ! i)\<lparr>var_value := strncpy_field VALUE_SIZE v\<rparr>], n)
        | Some None \<Rightarrow>
            if n < MAX_VARS then
              Some (True, vs[n := \<lparr>var_name = strncpy_field NAME_SIZE name, var_value = strncpy_field VALUE_SIZE v\<rparr>], n + 1)
            else Some (False, vs, n))"

section \<open>Well-formed tables are maps\<close>

definition field_ok :: "nat \<Rightarrow> string \<Rightarrow> bool" where
  "field_ok n bs \<longleftrightarrow> length bs = n \<and> NULC \<in> set bs"

definition str :: "string \<Rightarrow> string" where
  "str bs = takeWhile (\<lambda>c. c \<noteq> NULC) bs"

definition slot_ok :: "variable \<Rightarrow> bool" where
  "slot_ok v \<longleftrightarrow> field_ok NAME_SIZE (var_name v) \<and> field_ok VALUE_SIZE (var_value v)"

definition table_ok :: "vtable \<Rightarrow> bool" where
  "table_ok tab \<longleftrightarrow> length (fst tab) = MAX_VARS \<and> snd tab \<le> MAX_VARS \<and> (\<forall>v \<in> set (fst tab). slot_ok v)"

definition table_map :: "vtable \<Rightarrow> string \<Rightarrow> string option" where
  "table_map tab = map_of (map (\<lambda>v. (str (var_name v), str (var_value v))) (take (snd tab) (fst tab)))"

definition short :: "nat \<Rightarrow> string \<Rightarrow> bool" where
  "short n t \<longleftrightarrow> length t < n \<and> NULC \<notin> set t"

definition has_room :: "string \<Rightarrow> vtable \<Rightarrow> bool" where
  "has_room name tab \<longleftrightarrow> name \<in> dom (table_map tab) \<or> snd tab < MAX_VARS"

lemma str_append [simp]: "NULC \<in> set bs \<Longrightarrow> str (bs @ cs) = str bs"
  by (induction bs) (auto simp: str_def)

lemma read_str_append: "NULC \<in> set bs \<Longrightarrow> read_str (bs @ cs) = Some (str bs)"
  using str_append [of bs cs] by (simp add: read_str_def str_def)

lemma str_eq_append:
  "NULC \<in> set bs \<Longrightarrow> NULC \<notin> set t \<Longrightarrow> str_eq (bs @ cs) t = Some (str bs = t)"
proof (induction bs arbitrary: t)
  case (Cons c bs)
  then show ?case by (cases t) (auto simp: str_def)
qed simp

lemma field_strncpy: "short n t \<Longrightarrow> field_ok n (strncpy_field n t) \<and> str (strncpy_field n t) = t"
proof -
  assume t: "short n t"
  then obtain k where k: "n - length t = Suc k" by (metis Suc_diff_Suc short_def)
  have "takeWhile (\<lambda>c. c \<noteq> NULC) (t @ NULC # replicate k NULC) = t"
    using t by (subst takeWhile_append2) (auto simp: short_def)
  then show ?thesis using t k by (auto simp: field_ok_def strncpy_field_def str_def short_def)
qed

lemma length_table_bytes:
  "\<forall>v \<in> set vs. slot_ok v \<Longrightarrow> length (table_bytes vs) = length vs * (NAME_SIZE + VALUE_SIZE)"
  by (induction vs) (auto simp: table_bytes_def slot_ok_def field_ok_def)

lemma drop_table_bytes:
  assumes "\<forall>v \<in> set vs. slot_ok v" "i < length vs"
  shows "drop (i * (NAME_SIZE + VALUE_SIZE)) (table_bytes vs) =
    var_name (vs ! i) @ var_value (vs ! i) @ table_bytes (drop (Suc i) vs)"
proof -
  have "table_bytes vs = table_bytes (take i vs) @ table_bytes (drop i vs)"
    by (metis append_take_drop_id concat_append table_bytes_def map_append)
  moreover have "length (table_bytes (take i vs)) = i * (NAME_SIZE + VALUE_SIZE)"
    using assms length_table_bytes [of "take i vs"] by (auto dest: in_set_takeD)
  ultimately show ?thesis
    using assms Cons_nth_drop_Suc [of i vs, symmetric] by (simp add: table_bytes_def)
qed

lemma name_bytes_ok:
  assumes "\<forall>v \<in> set vs. slot_ok v" "i < length vs"
  shows "NULC \<notin> set t \<Longrightarrow> str_eq (name_bytes vs i) t = Some (str (var_name (vs ! i)) = t)"
    and "read_str (name_bytes vs i) = Some (str (var_name (vs ! i)))"
proof -
  have "NULC \<in> set (var_name (vs ! i))"
    using assms by (auto simp: slot_ok_def field_ok_def)
  then show "NULC \<notin> set t \<Longrightarrow> str_eq (name_bytes vs i) t = Some (str (var_name (vs ! i)) = t)"
    and "read_str (name_bytes vs i) = Some (str (var_name (vs ! i)))"
    using assms by (simp_all add: name_bytes_def drop_table_bytes str_eq_append read_str_append)
qed

lemma value_bytes_ok:
  assumes "\<forall>v \<in> set vs. slot_ok v" "i < length vs"
  shows "read_str (value_bytes vs i) = Some (str (var_value (vs ! i)))"
proof -
  have "length (var_name (vs ! i)) = NAME_SIZE" "NULC \<in> set (var_value (vs ! i))"
    using assms by (auto simp: slot_ok_def field_ok_def)
  moreover have "value_bytes vs i = drop NAME_SIZE (name_bytes vs i)"
    by (simp add: value_bytes_def name_bytes_def add.commute)
  ultimately show ?thesis
    using assms by (simp add: name_bytes_def drop_table_bytes read_str_append)
qed

section \<open>Look-up and update\<close>

lemma find_name_ok:
  assumes "\<forall>v \<in> set vs. slot_ok v" "\<forall>i \<in> set js. i < length vs" "NULC \<notin> set t"
  shows "find_name vs t js = Some (find (\<lambda>i. str (var_name (vs ! i)) = t) js)"
  using assms(2) by (induction js) (auto simp: name_bytes_ok [OF assms(1)] assms(3))

lemma table_map_nth:
  assumes "table_ok tab"
  shows "table_map tab =
    map_of (map (\<lambda>i. (str (var_name (fst tab ! i)), str (var_value (fst tab ! i)))) [0..<snd tab])"
proof -
  have "take (snd tab) (fst tab) = map (nth (fst tab)) [0..<snd tab]"
    using assms by (intro nth_equalityI) (auto simp: table_ok_def)
  then show ?thesis by (simp add: table_map_def comp_def)
qed

lemma map_of_find: "map_of (map (\<lambda>i. (k i, w i)) js) t = map_option w (find (\<lambda>i. k i = t) js)"
  by (induction js) auto

lemma map_of_find_update:
  "find (\<lambda>i. k i = t) js = Some i \<Longrightarrow>
    map_of (map (\<lambda>j. (k j, if j = i then v else w j)) js) = (map_of (map (\<lambda>j. (k j, w j)) js))(t \<mapsto> v)"
proof (induction js)
  case (Cons j js)
  show ?case
  proof (cases "k j = t")
    case True
    with Cons.prems have i: "i = j" by simp
    have "map_of (map (\<lambda>l. (k l, if l = j then v else w l)) js) x = map_of (map (\<lambda>l. (k l, w l)) js) x"
      if "x \<noteq> t" for x
      using that True by (induction js) auto
    then show ?thesis using True i by (auto simp: fun_eq_iff)
  next
    case False
    with Cons have "find (\<lambda>i. k i = t) js = Some i" by simp
    moreover from this False have "j \<noteq> i" by (auto simp: find_Some_iff)
    ultimately show ?thesis using Cons.IH False by (auto simp: fun_eq_iff)
  qed
qed simp

lemma find_name_table:
  assumes "table_ok tab" "NULC \<notin> set t"
  shows "find_name (fst tab) t [0..<snd tab] = Some (find (\<lambda>i. str (var_name (fst tab ! i)) = t) [0..<snd tab])"
  using assms by (intro find_name_ok) (auto simp: table_ok_def)

lemma find_in_table:
  assumes "table_ok tab" "find P [0..<snd tab] = Some i"
  shows "i < snd tab \<and> i < length (fst tab) \<and> P i"
proof -
  have "i \<in> set [0..<snd tab]" "P i" using assms(2) by (metis find_Some_iff nth_mem)+
  then show ?thesis using assms(1) by (auto simp: table_ok_def)
qed

lemma get_in_ok:
  assumes "table_ok tab" "NULC \<notin> set t"
  shows "get_in tab t = Some (table_map tab t)"
proof (cases "find (\<lambda>i. str (var_name (fst tab ! i)) = t) [0..<snd tab]")
  case None
  then show ?thesis
    using assms by (simp add: get_in_def find_name_table table_map_nth map_of_find)
next
  case (Some i)
  then have "i < length (fst tab)" using find_in_table [OF assms(1)] by blast
  then show ?thesis
    using assms Some value_bytes_ok [of "fst tab" i]
    by (simp add: get_in_def find_name_table table_map_nth map_of_find table_ok_def)
qed

lemma slot_ok_update:
  "slot_ok v \<Longrightarrow> short VALUE_SIZE x \<Longrightarrow> slot_ok (v\<lparr>var_value := strncpy_field VALUE_SIZE x\<rparr>)"
  "short NAME_SIZE n \<Longrightarrow> short VALUE_SIZE x \<Longrightarrow>
    slot_ok \<lparr>var_name = strncpy_field NAME_SIZE n, var_value = strncpy_field VALUE_SIZE x\<rparr>"
  by (simp_all add: slot_ok_def field_strncpy)

lemma set_in_ok:
  assumes tab: "table_ok tab" and n: "short NAME_SIZE name" and v: "short VALUE_SIZE v"
  shows "\<exists>tab'. set_in name v tab = Some (has_room name tab, tab') \<and> table_ok tab' \<and>
    table_map tab' = (if has_room name tab then (table_map tab)(name \<mapsto> v) else table_map tab)"
proof -
  obtain vs k where [simp]: "tab = (vs, k)" by (cases tab)
  let ?find = "find (\<lambda>i. str (var_name (vs ! i)) = name) [0..<k]"
  have nul: "NULC \<notin> set name" using n by (simp add: short_def)
  have ok: "length vs = MAX_VARS" "k \<le> MAX_VARS" "\<forall>v \<in> set vs. slot_ok v"
    using tab by (auto simp: table_ok_def)
  have fd: "find_name vs name [0..<k] = Some ?find"
    using find_name_table [OF tab nul] by simp
  have mp: "table_map tab name = map_option (\<lambda>i. str (var_value (vs ! i))) ?find"
    by (simp add: table_map_nth [OF tab, simplified] map_of_find)
  show ?thesis
  proof (cases ?find)
    case None
    show ?thesis
    proof (cases "k < MAX_VARS")
      case True
      let ?new = "\<lparr>var_name = strncpy_field NAME_SIZE name, var_value = strncpy_field VALUE_SIZE v\<rparr>"
      have new: "table_ok (vs[k := ?new], k + 1)"
        using True ok slot_ok_update(2) [OF n v] by (auto simp: table_ok_def dest: set_update_subset_insert [THEN subsetD])
      have "take (Suc k) (vs[k := ?new]) = take k vs @ [?new]"
        using True ok by (simp add: take_Suc_conv_app_nth)
      moreover have "name \<notin> dom (table_map tab)" using mp None by (simp add: domIff)
      ultimately have "table_map (vs[k := ?new], k + 1) = (table_map tab)(name \<mapsto> v)"
        by (auto simp: table_map_def field_strncpy n v map_add_def fun_eq_iff domIff split: option.split)
      then show ?thesis using new fd None True mp by (auto simp: set_in_def has_room_def)
    next
      case False
      then show ?thesis using fd None tab mp by (auto simp: set_in_def has_room_def)
    qed
  next
    case (Some i)
    then have i: "i < k" "i < length vs" "str (var_name (vs ! i)) = name" using find_in_table [OF tab] by auto
    let ?vs = "vs[i := (vs ! i)\<lparr>var_value := strncpy_field VALUE_SIZE v\<rparr>]"
    have new: "table_ok (?vs, k)"
      using ok i slot_ok_update(1) [OF _ v, of "vs ! i"]
      by (auto simp: table_ok_def dest: set_update_subset_insert [THEN subsetD])
    have m: "map (\<lambda>j. (str (var_name (?vs ! j)), str (var_value (?vs ! j)))) [0..<k] =
      map (\<lambda>j. (str (var_name (vs ! j)), if j = i then v else str (var_value (vs ! j)))) [0..<k]"
      using ok i by (auto simp: nth_list_update field_strncpy v)
    have "table_map (?vs, k) = (table_map tab)(name \<mapsto> v)"
      unfolding table_map_nth [OF new] table_map_nth [OF tab] fst_conv snd_conv m
      using map_of_find_update [OF Some, of v "\<lambda>j. str (var_value (vs ! j))"] by simp
    then show ?thesis using new fd Some mp by (auto simp: set_in_def has_room_def)
  qed
qed

lemma no_vars_ok: "table_ok no_vars \<and> table_map no_vars = Map.empty"
  by (auto simp: table_ok_def no_vars_def table_map_def slot_ok_def field_ok_def NAME_SIZE_def VALUE_SIZE_def MAX_VARS_def)

section \<open>The variables of the shell\<close>

text \<open>What the shell asks of the system and prints, in order; a child process is the calls it makes.\<close>

datatype signal = SIGTSTP | SIGCONT

datatype child_call =
    Dup2 int int
  | CloseFd int
  | SigDefault signal
  | Execvp "string list"
  | ChildError string
  | ChildExit int

datatype call =
    Setenv string string
  | Print string
  | PrintError string
  | OpenIn string
  | OpenOut string
  | ForkChild "child_call list"
  | Waitpid int
  | Kill int signal

record shell_vars =
  local_vars :: vtable
  global_vars :: vtable
  environ :: "string \<rightharpoonup> string"
  trace :: "call list"

definition emit_call :: "call \<Rightarrow> 'a shell_vars_scheme \<Rightarrow> 'a shell_vars_scheme" where
  "emit_call c s = s\<lparr>trace := trace s @ [c]\<rparr>"

definition get_var_value :: "string \<Rightarrow> 'a shell_vars_scheme \<Rightarrow> string option" where
  "get_var_value name s =
     (case get_in (local_vars s) name of
        None \<Rightarrow> None
      | Some (Some v) \<Rightarrow> Some v
      | Some None \<Rightarrow>
          (case get_in (global_vars s) name of
             None \<Rightarrow> None
           | Some (Some v) \<Rightarrow> Some v
           | Some None \<Rightarrow> Some (case environ s name of Some v \<Rightarrow> v | None \<Rightarrow> [])))"

text \<open>\<open>setenv\<close> refuses an empty name; the names given to it have no \<open>=\<close>.\<close>

definition setenv :: "string \<Rightarrow> string \<Rightarrow> 'a shell_vars_scheme \<Rightarrow> 'a shell_vars_scheme" where
  "setenv name v s =
     emit_call (Setenv name v) (if name = [] then s else s\<lparr>environ := (environ s)(name \<mapsto> v)\<rparr>)"

lemma setenv_tables [simp]:
  "local_vars (setenv n v s) = local_vars s" "global_vars (setenv n v s) = global_vars s"
  by (simp_all add: setenv_def emit_call_def)

definition set_local_var :: "string \<Rightarrow> string \<Rightarrow> 'a shell_vars_scheme \<Rightarrow> 'a shell_vars_scheme option" where
  "set_local_var name v s = map_option (\<lambda>r. s\<lparr>local_vars := snd r\<rparr>) (set_in name v (local_vars s))"

definition set_global_var :: "string \<Rightarrow> string option \<Rightarrow> 'a shell_vars_scheme \<Rightarrow> 'a shell_vars_scheme option" where
  "set_global_var name v s =
     (let v = (case v of None \<Rightarrow> [] | Some v \<Rightarrow> v);
          s = setenv name v s in
      map_option (\<lambda>r. s\<lparr>global_vars := snd r\<rparr>) (set_in name v (global_vars s)))"

text \<open>\<open>mini-shell-2.c\<close> reports a full table.\<close>

definition set_local_var2 :: "string \<Rightarrow> string \<Rightarrow> 'a shell_vars_scheme \<Rightarrow> 'a shell_vars_scheme option" where
  "set_local_var2 name v s =
     map_option (\<lambda>r. if fst r then s\<lparr>local_vars := snd r\<rparr>
                   else emit_call (PrintError ''Error: too many local variables (max 64)\<newline>'') s)
       (set_in name v (local_vars s))"

definition set_global_var2 :: "string \<Rightarrow> string option \<Rightarrow> 'a shell_vars_scheme \<Rightarrow> 'a shell_vars_scheme option" where
  "set_global_var2 name v s =
     (let v = (case v of None \<Rightarrow> [] | Some v \<Rightarrow> v);
          s = setenv name v s in
      map_option (\<lambda>r. if fst r then s\<lparr>global_vars := snd r\<rparr>
                    else emit_call (PrintError ''Error: too many global variables (max 64)\<newline>'') s)
        (set_in name v (global_vars s)))"

section \<open>Scopes\<close>

text \<open>
  The contract of a scope: a store with a bounded number of entries whose look-up is a map.  \<open>used\<close> is the
  number of entries, \<open>cap\<close> the bound.
\<close>

locale scope =
  fixes inv :: "'s \<Rightarrow> bool"
    and look :: "'s \<Rightarrow> string \<Rightarrow> string option"
    and put :: "string \<Rightarrow> string \<Rightarrow> 's \<Rightarrow> 's option"
    and used :: "'s \<Rightarrow> nat"
    and cap :: nat
  assumes put_known: "inv s \<Longrightarrow> short NAME_SIZE n \<Longrightarrow> short VALUE_SIZE v \<Longrightarrow> n \<in> dom (look s) \<or> used s < cap \<Longrightarrow>
      \<exists>s'. put n v s = Some s' \<and> inv s' \<and> look s' = (look s)(n \<mapsto> v) \<and> used s' \<le> Suc (used s)"
    and put_full: "inv s \<Longrightarrow> short NAME_SIZE n \<Longrightarrow> short VALUE_SIZE v \<Longrightarrow> n \<notin> dom (look s) \<Longrightarrow> \<not> used s < cap \<Longrightarrow>
      \<exists>s'. put n v s = Some s' \<and> inv s' \<and> look s' = look s \<and> used s' = used s"
begin

primrec put_all :: "(string \<times> string) list \<Rightarrow> 's \<Rightarrow> 's option" where
  "put_all [] s = Some s"
| "put_all (p # ps) s = (case put (fst p) (snd p) s of None \<Rightarrow> None | Some s \<Rightarrow> put_all ps s)"

lemma put_inv:
  "inv s \<Longrightarrow> short NAME_SIZE n \<Longrightarrow> short VALUE_SIZE v \<Longrightarrow> \<exists>s'. put n v s = Some s' \<and> inv s'"
  using put_known put_full by blast

lemma put_all_look:
  "inv s \<Longrightarrow> \<forall>(n, v) \<in> set ps. short NAME_SIZE n \<and> short VALUE_SIZE v \<Longrightarrow> used s + length ps \<le> cap \<Longrightarrow>
    \<exists>s'. put_all ps s = Some s' \<and> inv s' \<and> look s' = look s ++ map_of (rev ps)"
proof (induction ps arbitrary: s)
  case (Cons p ps)
  obtain n v where p [simp]: "p = (n, v)" by (cases p)
  obtain s1 where s1: "put n v s = Some s1" "inv s1" "look s1 = (look s)(n \<mapsto> v)" "used s1 \<le> Suc (used s)"
    using put_known [of s n v] Cons.prems by auto
  have "\<exists>s2. put_all ps s1 = Some s2 \<and> inv s2 \<and> look s2 = look s1 ++ map_of (rev ps)"
    by (rule Cons.IH) (use Cons.prems s1(2,4) in auto)
  then obtain s2 where "put_all ps s1 = Some s2" "inv s2" "look s2 = look s1 ++ map_of (rev ps)" by blast
  then show ?case using s1 by (auto simp: fun_eq_iff map_add_def split: option.splits)
qed simp

end

definition vars_ok :: "'a shell_vars_scheme \<Rightarrow> bool" where
  "vars_ok s \<longleftrightarrow> table_ok (local_vars s) \<and> table_ok (global_vars s)"

definition local_map :: "'a shell_vars_scheme \<Rightarrow> string \<Rightarrow> string option" where
  "local_map s = table_map (local_vars s)"

definition global_map :: "'a shell_vars_scheme \<Rightarrow> string \<Rightarrow> string option" where
  "global_map s = table_map (global_vars s)"

lemma set_in_used: "set_in n v tab = Some (b, tab') \<Longrightarrow> snd tab' \<le> Suc (snd tab)"
  by (auto simp: set_in_def split: prod.splits option.splits if_splits)

lemma set_in_full: "set_in n v tab = Some (False, tab') \<Longrightarrow> tab' = tab"
  by (auto simp: set_in_def split: prod.splits option.splits if_splits)

interpretation locals: scope vars_ok local_map set_local_var "\<lambda>s. snd (local_vars s)" MAX_VARS
proof
  fix s :: "'a shell_vars_scheme" and n v
  assume s: "vars_ok s" "short NAME_SIZE n" "short VALUE_SIZE v"
  then obtain tab' where tab': "set_in n v (local_vars s) = Some (has_room n (local_vars s), tab')" "table_ok tab'"
    "table_map tab' = (if has_room n (local_vars s) then (local_map s)(n \<mapsto> v) else local_map s)"
    using set_in_ok [of "local_vars s" n v] by (auto simp: vars_ok_def local_map_def)
  show "\<exists>s'. set_local_var n v s = Some s' \<and> vars_ok s' \<and> local_map s' = (local_map s)(n \<mapsto> v) \<and>
      snd (local_vars s') \<le> Suc (snd (local_vars s))"
    if "n \<in> dom (local_map s) \<or> snd (local_vars s) < MAX_VARS"
    using tab' s that set_in_used [OF tab'(1)] by (auto simp: set_local_var_def vars_ok_def local_map_def has_room_def)
  show "\<exists>s'. set_local_var n v s = Some s' \<and> vars_ok s' \<and> local_map s' = local_map s \<and>
      snd (local_vars s') = snd (local_vars s)"
    if "n \<notin> dom (local_map s)" "\<not> snd (local_vars s) < MAX_VARS"
    using tab' s that set_in_full [of n v "local_vars s" tab']
    by (auto simp: set_local_var_def vars_ok_def local_map_def has_room_def)
qed

interpretation globals: scope vars_ok global_map "\<lambda>n v. set_global_var n (Some v)" "\<lambda>s. snd (global_vars s)" MAX_VARS
proof
  fix s :: "'a shell_vars_scheme" and n v
  assume s: "vars_ok s" "short NAME_SIZE n" "short VALUE_SIZE v"
  then obtain tab' where tab': "set_in n v (global_vars s) = Some (has_room n (global_vars s), tab')" "table_ok tab'"
    "table_map tab' = (if has_room n (global_vars s) then (global_map s)(n \<mapsto> v) else global_map s)"
    using set_in_ok [of "global_vars s" n v] by (auto simp: vars_ok_def global_map_def)
  then have put: "set_global_var n (Some v) s = Some ((setenv n v s)\<lparr>global_vars := tab'\<rparr>)"
    by (simp add: set_global_var_def)
  have ok: "vars_ok ((setenv n v s)\<lparr>global_vars := tab'\<rparr>)"
    using s tab' by (simp add: vars_ok_def)
  show "\<exists>s'. set_global_var n (Some v) s = Some s' \<and> vars_ok s' \<and> global_map s' = (global_map s)(n \<mapsto> v) \<and>
      snd (global_vars s') \<le> Suc (snd (global_vars s))"
    if "n \<in> dom (global_map s) \<or> snd (global_vars s) < MAX_VARS"
    using tab' that set_in_used [OF tab'(1)] ok unfolding put by (simp add: global_map_def has_room_def disj_commute)
  show "\<exists>s'. set_global_var n (Some v) s = Some s' \<and> vars_ok s' \<and> global_map s' = global_map s \<and>
      snd (global_vars s') = snd (global_vars s)"
    if "n \<notin> dom (global_map s)" "\<not> snd (global_vars s) < MAX_VARS"
    using tab' that set_in_full [of n v "global_vars s" tab'] ok unfolding put
    by (simp add: global_map_def has_room_def)
qed

text \<open>What \<open>$name\<close> stands for: the scopes, from the inside out.\<close>

definition var_view :: "'a shell_vars_scheme \<Rightarrow> string \<Rightarrow> string" where
  "var_view s n =
     (case (environ s ++ global_map s ++ local_map s) n of Some v \<Rightarrow> v | None \<Rightarrow> [])"

lemma get_var_value_view:
  "vars_ok s \<Longrightarrow> NULC \<notin> set n \<Longrightarrow> get_var_value n s = Some (var_view s n)"
  by (auto simp: get_var_value_def vars_ok_def get_in_ok var_view_def local_map_def global_map_def map_add_def
      split: option.splits)


text \<open>
  C36: The two tables and the environment are nested scopes.  For names and values that fit into their
  fields, \<open>get_var_value\<close> gives the innermost value; \<open>set_local_var\<close> changes what the name stands for and
  nothing else, or nothing at all when the table is full; \<open>set_global_var\<close> always sets the environment,
  and changes what the name stands for unless a local variable hides it, full table or not.
\<close>

theorem variables_refine_scopes:
  assumes "vars_ok s" "short 64 n" "short 256 v" "n \<noteq> []"
  shows "get_var_value n s = Some (var_view s n) \<and>
    (\<exists>s'. set_local_var n v s = Some s' \<and> vars_ok s' \<and> environ s' = environ s \<and>
      var_view s' = (if n \<in> dom (local_map s) \<or> snd (local_vars s) < 64 then (var_view s)(n := v) else var_view s)) \<and>
    (\<exists>s'. set_global_var n (Some v) s = Some s' \<and> vars_ok s' \<and> environ s' = (environ s)(n \<mapsto> v) \<and>
      var_view s' = (if n \<in> dom (local_map s) then var_view s else (var_view s)(n := v)))"
proof (intro conjI)
  have sh: "short NAME_SIZE n" "short VALUE_SIZE v" using assms by (simp_all add: NAME_SIZE_def VALUE_SIZE_def)
  show "get_var_value n s = Some (var_view s n)"
    using assms by (simp add: get_var_value_view short_def)
  show "\<exists>s'. set_local_var n v s = Some s' \<and> vars_ok s' \<and> environ s' = environ s \<and>
      var_view s' = (if n \<in> dom (local_map s) \<or> snd (local_vars s) < 64 then (var_view s)(n := v) else var_view s)"
  proof (cases "n \<in> dom (local_map s) \<or> snd (local_vars s) < MAX_VARS")
    case True
    then obtain s' where s': "set_local_var n v s = Some s'" "vars_ok s'" "local_map s' = (local_map s)(n \<mapsto> v)"
      using locals.put_known [OF assms(1) sh] by auto
    then have eqs: "environ s' = environ s" "global_map s' = global_map s" by (auto simp: set_local_var_def global_map_def)
    then have "var_view s' = (var_view s)(n := v)" by (intro ext) (simp add: var_view_def eqs s'(3) map_add_def)
    then show ?thesis using s' eqs True by (auto simp: MAX_VARS_def)
  next
    case False
    then obtain s' where s': "set_local_var n v s = Some s'" "vars_ok s'" "local_map s' = local_map s"
      using locals.put_full [OF assms(1) sh] by auto
    then have eqs: "environ s' = environ s" "global_map s' = global_map s" by (auto simp: set_local_var_def global_map_def)
    then have "var_view s' = var_view s" by (intro ext) (simp add: var_view_def eqs s'(3) map_add_def)
    then show ?thesis using s' eqs False by (auto simp: MAX_VARS_def)
  qed
  obtain s' where s': "set_global_var n (Some v) s = Some s'" "vars_ok s'" "global_map s' = (global_map s)(n \<mapsto> v) \<or>
      n \<notin> dom (global_map s) \<and> global_map s' = global_map s"
    using globals.put_known [OF assms(1) sh] globals.put_full [OF assms(1) sh] by blast
  have fr: "environ s' = (environ s)(n \<mapsto> v)" "local_map s' = local_map s"
    using s'(1) assms(4) by (auto simp: set_global_var_def setenv_def emit_call_def local_map_def)
  have "var_view s' m = (if n \<in> dom (local_map s) then var_view s else (var_view s)(n := v)) m" for m
    using s'(3) by (cases "m = n") (auto simp: var_view_def fr map_add_def split: option.splits)
  then show "\<exists>s'. set_global_var n (Some v) s = Some s' \<and> vars_ok s' \<and> environ s' = (environ s)(n \<mapsto> v) \<and>
      var_view s' = (if n \<in> dom (local_map s) then var_view s else (var_view s)(n := v))"
    using s' fr by blast
qed

theorem variables_refine_scopes_witness:
  "\<exists>s'. set_local_var ''A'' ''1'' \<lparr>local_vars = no_vars, global_vars = no_vars, environ = Map.empty, trace = []\<rparr> = Some s' \<and>
    var_view s' ''A'' = ''1''"
proof -
  let ?s = "\<lparr>local_vars = no_vars, global_vars = no_vars, environ = Map.empty, trace = []\<rparr>"
  have "vars_ok ?s" by (simp add: vars_ok_def no_vars_ok)
  from variables_refine_scopes [OF this, of "''A''" "''1''"] show ?thesis
    by (auto simp: short_def no_vars_def)
qed

text \<open>
  A value of 256 characters is stored without its NUL and runs on into the name of the next variable, and
  a name of 64 characters is never found again.
\<close>

lemma long_value_runs_on:
  assumes "table_ok (vs, 0)" "length v = 256" "NULC \<notin> set v" "short 64 n" "short 64 m" "m \<noteq> n"
  shows "\<exists>tab. Option.bind (set_in n v (vs, 0)) (\<lambda>r. set_in m w (snd r)) = Some (True, tab) \<and>
    get_in tab n = Some (Some (v @ m))"
proof -
  obtain a b r where vs: "vs = a # b # r"
    using assms(1) by (auto simp: table_ok_def MAX_VARS_def numeral_eq_Suc length_Suc_conv)
  let ?V = "\<lparr>var_name = strncpy_field 64 n, var_value = strncpy_field 256 v\<rparr>"
  let ?W = "\<lparr>var_name = strncpy_field 64 m, var_value = strncpy_field 256 w\<rparr>"
  have nm: "NULC \<in> set (strncpy_field 64 n)" "NULC \<in> set (strncpy_field 64 m)" "str (strncpy_field 64 n) = n"
    "str (strncpy_field 64 m) = m" "length (strncpy_field 64 n) = 64"
    using field_strncpy [OF assms(4)] field_strncpy [OF assms(5)] by (simp_all add: field_ok_def)
  have v: "strncpy_field 256 v = v" using assms(2) by (simp add: strncpy_field_def)
  have eqn: "str_eq (name_bytes (?V # vs') 0) t = Some (n = t)" if "NULC \<notin> set t" for t vs'
    using nm that by (simp add: name_bytes_def table_bytes_def str_eq_append)
  have "value_bytes (?V # ?W # r) 0 = v @ strncpy_field 64 m @ strncpy_field 256 w @ table_bytes r"
    using nm v by (simp add: value_bytes_def table_bytes_def NAME_SIZE_def)
  moreover have "takeWhile (\<lambda>c. c \<noteq> NULC) (v @ strncpy_field 64 m @ x) = v @ m" for x
    using str_append [OF nm(2), of x] nm(4) assms(3) unfolding str_def by (subst takeWhile_append2) auto
  ultimately have read: "read_str (value_bytes (?V # ?W # r) 0) = Some (v @ m)"
    using nm by (simp add: read_str_def)
  show ?thesis
    using assms eqn read
    by (simp add: vs set_in_def get_in_def MAX_VARS_def NAME_SIZE_def VALUE_SIZE_def short_def)
qed

end
