(* ===== verification/Lab_Minishell.thy ===== *)
theory Lab_Minishell
  imports Lab_Vars
begin

text \<open>
  The shell of \<open>lab7-lyjae/mini-shell-3.c\<close>, with variables, redirection, \<open>if\<close> blocks and jobs.  The
  system is a record of functions that answer \<open>open\<close>, \<open>fork\<close> and \<open>waitpid\<close> from what has happened so
  far; a write outside an array, a read outside a table and the use of an unset \<open>status\<close> are \<open>None\<close> or
  \<open>Fault\<close>.
\<close>

section \<open>Expansion and words\<close>

definition MAX_LINE :: nat where "MAX_LINE = 1024"
definition MAX_ARGS :: nat where "MAX_ARGS = 64"
definition MAX_BLOCK_LINES :: nat where "MAX_BLOCK_LINES = 32"
definition MAX_JOBS :: nat where "MAX_JOBS = 64"

text \<open>\<open>isalnum\<close> and \<open>isspace\<close> in the C locale.\<close>

definition is_var_char :: "char \<Rightarrow> bool" where
  "is_var_char c \<longleftrightarrow>
     (let n = of_char c :: nat in 48 \<le> n \<and> n \<le> 57 \<or> 65 \<le> n \<and> n \<le> 90 \<or> 97 \<le> n \<and> n \<le> 122 \<or> c = CHR ''_'')"

definition is_c_space :: "char \<Rightarrow> bool" where
  "is_c_space c \<longleftrightarrow> c = CHR '' '' \<or> (let n = of_char c :: nat in 9 \<le> n \<and> n \<le> 13)"

text \<open>The loop of \<open>expand_variables\<close>: the rest of the line and the buffer so far.\<close>

function expand_loop :: "'a shell_vars_scheme \<Rightarrow> string \<Rightarrow> string \<Rightarrow> string option" where
  "expand_loop s [] buf = (if length buf < MAX_LINE then Some buf else None)"
| "expand_loop s (c # line) buf =
     (if c = CHR ''$'' then
        let name = takeWhile is_var_char line in
        if length name < NAME_SIZE then
          (case get_var_value name s of
             None \<Rightarrow> None
           | Some v \<Rightarrow>
               if length buf + length v \<le> MAX_LINE
               then expand_loop s (dropWhile is_var_char line) (buf @ v) else None)
        else None
      else if length buf < MAX_LINE then expand_loop s line (buf @ [c]) else None)"
  by pat_completeness auto
termination
  by (relation "measure (\<lambda>(s, line, buf). length line)") (auto simp: le_imp_less_Suc length_dropWhile_le)

definition expand_variables :: "'a shell_vars_scheme \<Rightarrow> string \<Rightarrow> string option" where
  "expand_variables s line = expand_loop s line []"

definition is_delim :: "char \<Rightarrow> bool" where
  "is_delim c \<longleftrightarrow> c = CHR '' '' \<or> c = CHR 0x09 \<or> c = CHR 0x0A"

text \<open>At most \<open>n\<close> tokens of \<open>strtok(line, " \t\n")\<close>.\<close>

primrec tokens :: "nat \<Rightarrow> string \<Rightarrow> string list" where
  "tokens 0 line = []"
| "tokens (Suc n) line =
     (let line = dropWhile is_delim line in
      if line = [] then []
      else takeWhile (\<lambda>c. \<not> is_delim c) line # tokens n (dropWhile (\<lambda>c. \<not> is_delim c) line))"

definition parse_command :: "'a shell_vars_scheme \<Rightarrow> string \<Rightarrow> string list option" where
  "parse_command s line = map_option (tokens (MAX_ARGS - 1)) (expand_variables s line)"

definition is_blank_line :: "string \<Rightarrow> bool" where
  "is_blank_line line \<longleftrightarrow> list_all is_c_space line"

section \<open>Jobs\<close>

record job =
  jpid :: int
  jcommand :: string
  jstopped :: bool

text \<open>\<open>jobs\<close> is the part of the array in use; \<open>open_fds\<close> are the files the shell has opened and not closed.\<close>

record mshell = shell_vars +
  jobs :: "job list"
  fg_pid :: int
  open_fds :: "int list"

datatype wstatus = Exited int | Signaled int | Stopped int

text \<open>
  The answer of \<open>fork\<close> is the one the parent gets; \<open>os_wait\<close> is \<open>None\<close> where \<open>waitpid\<close> fails and leaves
  \<open>status\<close> unset; \<open>os_ctrlz\<close> tells how often the user stops the program in the foreground.
\<close>

record os =
  os_open :: "call list \<Rightarrow> int"
  os_fork :: "call list \<Rightarrow> int"
  os_wait :: "call list \<Rightarrow> wstatus option"
  os_ctrlz :: "call list \<Rightarrow> nat"

text \<open>\<open>%d\<close>.\<close>

fun dec_nat :: "nat \<Rightarrow> string" where
  "dec_nat n = (if n < 10 then [char_of (48 + n)] else dec_nat (n div 10) @ [char_of (48 + n mod 10)])"

declare dec_nat.simps [simp del]

definition dec :: "int \<Rightarrow> string" where
  "dec i = (if i < 0 then CHR ''-'' # dec_nat (nat (- i)) else dec_nat (nat i))"

definition job_status :: "nat \<Rightarrow> job \<Rightarrow> string" where
  "job_status idx j =
     ''['' @ dec (int idx + 1) @ ''] '' @ (if jstopped j then ''Stopped '' else ''Running '') @ '' '' @
     dec (jpid j) @ '' '' @ jcommand j @ ''\<newline>''"

definition print_job_status :: "mshell \<Rightarrow> nat \<Rightarrow> mshell" where
  "print_job_status s idx = emit_call (Print (job_status idx (jobs s ! idx))) s"

definition sigtstp_handler :: "mshell \<Rightarrow> mshell" where
  "sigtstp_handler s = (if fg_pid s > 0 then emit_call (Kill (fg_pid s) SIGTSTP) s else s)"

text \<open>\<open>fg_pid = pid; waitpid(pid, &status, WUNTRACED)\<close>, the handler running while the shell waits.\<close>

definition wait_fg :: "os \<Rightarrow> int \<Rightarrow> mshell \<Rightarrow> wstatus option \<times> mshell" where
  "wait_fg os pid s =
     (let s = s\<lparr>fg_pid := pid\<rparr>;
          s = (sigtstp_handler ^^ os_ctrlz os (trace s)) s;
          s = emit_call (Waitpid pid) s in
      (os_wait os (trace s), s))"

text \<open>\<open>strncat\<close> with the size of the field less one as its bound, and the command of a job.\<close>

definition strncat_field :: "nat \<Rightarrow> string \<Rightarrow> string \<Rightarrow> string option" where
  "strncat_field sz t a =
     (let r = t @ take (sz - 1) a in if length r < sz then Some r else None)"

fun job_command :: "string list \<Rightarrow> string \<Rightarrow> string option" where
  "job_command [] t = Some t"
| "job_command [a] t = strncat_field MAX_LINE t a"
| "job_command (a # b # as) t =
     (case strncat_field MAX_LINE t a of
        None \<Rightarrow> None
      | Some t \<Rightarrow> (case strncat_field MAX_LINE t '' '' of None \<Rightarrow> None | Some t \<Rightarrow> job_command (b # as) t))"

definition add_job :: "int \<Rightarrow> bool \<Rightarrow> string list \<Rightarrow> mshell \<Rightarrow> mshell option" where
  "add_job pid stopped argv s =
     (if length (jobs s) < MAX_JOBS then
        map_option (\<lambda>c. s\<lparr>jobs := jobs s @ [\<lparr>jpid = pid, jcommand = c, jstopped = stopped\<rparr>]\<rparr>) (job_command argv [])
      else None)"

section \<open>Programs\<close>

definition split_background :: "string list \<Rightarrow> bool \<times> string list" where
  "split_background args =
     (if args \<noteq> [] \<and> last args = ''&'' then (True, butlast args) else (False, args))"

text \<open>
  The loop over the arguments: the two descriptors and the arguments that remain, or \<open>None\<close> for its
  \<open>return -1\<close>.
\<close>

fun redirect :: "os \<Rightarrow> string list \<Rightarrow> int \<Rightarrow> int \<Rightarrow> string list \<Rightarrow> mshell \<Rightarrow> (int \<times> int \<times> string list) option \<times> mshell" where
  "redirect os [] i out argv s = (Some (i, out, argv), s)"
| "redirect os [a] i out argv s = redirect os [] i out (argv @ [a]) s"
| "redirect os (a # b # as) i out argv s =
     (if a = ''<'' then
        let s = emit_call (OpenIn b) s; fd = os_open os (trace s) in
        if fd < 0 then (None, s) else redirect os as fd out argv (s\<lparr>open_fds := open_fds s @ [fd]\<rparr>)
      else if a = ''>'' then
        let s = emit_call (OpenOut b) s; fd = os_open os (trace s) in
        if fd < 0 then (None, s) else redirect os as i fd argv (s\<lparr>open_fds := open_fds s @ [fd]\<rparr>)
      else redirect os (b # as) i out (argv @ [a]) s)"

definition child_redirections :: "int \<Rightarrow> int \<Rightarrow> child_call list" where
  "child_redirections i out =
     (if i \<noteq> -1 then [Dup2 i 0, CloseFd i] else []) @ (if out \<noteq> -1 then [Dup2 out 1, CloseFd out] else [])"

definition child_calls :: "int \<Rightarrow> int \<Rightarrow> string list \<Rightarrow> child_call list" where
  "child_calls i out argv = child_redirections i out @ [SigDefault SIGTSTP, Execvp argv, ChildExit 1]"

definition exit_code :: "wstatus \<Rightarrow> int" where
  "exit_code st = (case st of Exited n \<Rightarrow> n | _ \<Rightarrow> -1)"

definition stopped :: "wstatus \<Rightarrow> bool" where
  "stopped st \<longleftrightarrow> (case st of Stopped _ \<Rightarrow> True | _ \<Rightarrow> False)"

definition run_foreground :: "os \<Rightarrow> int \<Rightarrow> string list \<Rightarrow> mshell \<Rightarrow> (int \<times> mshell) option" where
  "run_foreground os pid argv s =
     (case wait_fg os pid s of
        (None, s) \<Rightarrow> None
      | (Some st, s) \<Rightarrow>
          map_option (\<lambda>s. (exit_code st, s\<lparr>fg_pid := -1\<rparr>))
            (if stopped st
             then map_option (emit_call (Print (''[Stopped] pid '' @ dec pid @ ''\<newline>''))) (add_job pid True argv s)
             else Some s))"

definition execute_external_command :: "os \<Rightarrow> string list \<Rightarrow> mshell \<Rightarrow> (int \<times> mshell) option" where
  "execute_external_command os args s =
     (case split_background args of (background, args) \<Rightarrow>
      case redirect os args (-1) (-1) [] s of
        (None, s) \<Rightarrow> Some (-1, s)
      | (Some (i, out, argv), s) \<Rightarrow>
          let s = emit_call (ForkChild (child_calls i out argv)) s; pid = os_fork os (trace s) in
          if background then
            map_option (\<lambda>s. (0, emit_call (Print (''[background pid '' @ dec pid @ '']\<newline>'')) s))
              (add_job pid False argv s)
          else run_foreground os pid argv s)"

section \<open>Commands\<close>

text \<open>The shell goes on, has called \<open>exit(0)\<close>, or has left its arrays.\<close>

datatype flow = Go mshell | Quit mshell | Fault

definition go :: "mshell option \<Rightarrow> flow" where
  "go r = (case r of Some s \<Rightarrow> Go s | None \<Rightarrow> Fault)"

text \<open>\<open>*eq = '\0'\<close> splits an argument at its first \<open>=\<close>.\<close>

definition split_eq :: "string \<Rightarrow> (string \<times> string) option" where
  "split_eq a =
     (if CHR ''='' \<in> set a
      then Some (takeWhile (\<lambda>c. c \<noteq> CHR ''='') a, tl (dropWhile (\<lambda>c. c \<noteq> CHR ''='') a))
      else None)"

fun export_loop :: "string list \<Rightarrow> mshell \<Rightarrow> mshell option" where
  "export_loop [] s = Some s"
| "export_loop (a # as) s =
     (case (case split_eq a of
              Some (n, v) \<Rightarrow> set_global_var n (Some v) s
            | None \<Rightarrow> (case get_var_value a s of None \<Rightarrow> None | Some v \<Rightarrow> set_global_var a (Some v) s)) of
        None \<Rightarrow> None
      | Some s \<Rightarrow> export_loop as s)"

text \<open>One loop of \<open>set\<close>.\<close>

primrec print_vars :: "string \<Rightarrow> variable list \<Rightarrow> nat list \<Rightarrow> mshell \<Rightarrow> mshell option" where
  "print_vars pre vs [] s = Some s"
| "print_vars pre vs (i # js) s =
     (case (read_str (name_bytes vs i), read_str (value_bytes vs i)) of
        (Some n, Some v) \<Rightarrow> print_vars pre vs js (emit_call (Print (pre @ n @ ''='' @ v @ ''\<newline>'')) s)
      | _ \<Rightarrow> None)"

definition print_set :: "mshell \<Rightarrow> mshell option" where
  "print_set s =
     Option.bind (print_vars [] (fst (local_vars s)) [0..<snd (local_vars s)] s)
       (\<lambda>s. print_vars ''export '' (fst (global_vars s)) [0..<snd (global_vars s)] s)"

text \<open>\<open>atoi\<close> of the C library: \<open>strtol\<close>, which saturates, cut to an \<open>int\<close>.\<close>

definition is_dec_digit :: "char \<Rightarrow> bool" where
  "is_dec_digit c \<longleftrightarrow> (let n = of_char c :: nat in 48 \<le> n \<and> n \<le> 57)"

definition digits_val :: "string \<Rightarrow> int" where
  "digits_val t = foldl (\<lambda>n c. n * 10 + (of_char c - 48)) 0 (takeWhile is_dec_digit t)"

definition c_atoi :: "string \<Rightarrow> int" where
  "c_atoi t =
     (let t = dropWhile is_c_space t;
          v = (case t of
                 c # r \<Rightarrow> if c = CHR ''-'' then - digits_val r else if c = CHR ''+'' then digits_val r else digits_val t
               | [] \<Rightarrow> 0) in
      signed_take_bit 31 (max (- (2 ^ 63)) (min (2 ^ 63 - 1) v)))"

text \<open>The message or the index of the job.\<close>

definition fg_target :: "string list \<Rightarrow> mshell \<Rightarrow> string + nat" where
  "fg_target args s =
     (if length args < 2 then
        (case find (\<lambda>i. jstopped (jobs s ! i)) (rev [0..<length (jobs s)]) of
           None \<Rightarrow> Inl ''fg: no current job\<newline>''
         | Some i \<Rightarrow> Inr i)
      else
        let n = c_atoi (args ! 1) in
        if n < 1 \<or> n > int (length (jobs s)) then Inl (''fg: job '' @ args ! 1 @ '' not found\<newline>'')
        else if \<not> jstopped (jobs s ! nat (n - 1)) then Inl (''fg: job '' @ dec n @ '' not stopped\<newline>'')
        else Inr (nat (n - 1)))"

text \<open>The loop that moves the later jobs down.\<close>

definition remove_job :: "nat \<Rightarrow> job list \<Rightarrow> job list" where
  "remove_job idx js = take (length js - 1) (fold (\<lambda>i js. js[i := js ! (i + 1)]) [idx..<length js - 1] js)"

definition run_fg :: "os \<Rightarrow> nat \<Rightarrow> mshell \<Rightarrow> flow" where
  "run_fg os idx s =
     (let j = jobs s ! idx;
          s = emit_call (Print (''Resuming job ['' @ dec (int idx + 1) @ ''] '' @ jcommand j @ ''\<newline>'')) s;
          s = s\<lparr>jobs := (jobs s)[idx := j\<lparr>jstopped := False\<rparr>]\<rparr>;
          s = emit_call (Kill (jpid j) SIGCONT) s in
      case wait_fg os (jpid j) s of
        (None, s) \<Rightarrow> Fault
      | (Some st, s) \<Rightarrow>
          let s = (if stopped st
                   then emit_call (Print (''[Stopped] pid '' @ dec (jpid j) @ ''\<newline>''))
                     (s\<lparr>jobs := (jobs s)[idx := (jobs s ! idx)\<lparr>jstopped := True\<rparr>]\<rparr>)
                   else s\<lparr>jobs := remove_job idx (jobs s)\<rparr>) in
          Go (s\<lparr>fg_pid := -1\<rparr>))"

definition execute_command :: "os \<Rightarrow> string list \<Rightarrow> mshell \<Rightarrow> flow" where
  "execute_command os args s =
     (if args = [] then Go s
      else if CHR ''='' \<in> set (hd args) \<and> hd (hd args) \<noteq> CHR ''-'' then
        (case split_eq (hd args) of Some (n, v) \<Rightarrow> go (set_local_var n v s) | None \<Rightarrow> Go s)
      else if hd args = ''exit'' then Quit s
      else if hd args = ''export'' then go (export_loop (tl args) s)
      else if hd args = ''set'' then go (print_set s)
      else if hd args = ''jobs'' then Go (foldl print_job_status s [0..<length (jobs s)])
      else if hd args = ''fg'' then
        (case fg_target args s of Inl m \<Rightarrow> Go (emit_call (Print m) s) | Inr i \<Rightarrow> run_fg os i s)
      else go (map_option snd (execute_external_command os args s)))"

definition run_command :: "os \<Rightarrow> string \<Rightarrow> mshell \<Rightarrow> flow" where
  "run_command os line s = (case parse_command s line of None \<Rightarrow> Fault | Some args \<Rightarrow> execute_command os args s)"

section \<open>Lines and blocks\<close>

text \<open>\<open>fgets\<close>: the characters up to the end of the line or of the buffer, and the input that is left.\<close>

fun take_line :: "nat \<Rightarrow> string \<Rightarrow> string \<times> string" where
  "take_line 0 inp = ([], inp)"
| "take_line (Suc n) [] = ([], [])"
| "take_line (Suc n) (c # inp) =
     (if c = CHR 0x0A then ([c], inp) else case take_line n inp of (l, inp) \<Rightarrow> (c # l, inp))"

definition fgets :: "string \<Rightarrow> (string \<times> string) option" where
  "fgets inp =
     (if inp = [] then None else case take_line (MAX_LINE - 1) inp of (l, inp) \<Rightarrow> Some (str l, inp))"

lemma length_take_line: "length (snd (take_line n inp)) \<le> length inp"
  by (induction n inp rule: take_line.induct) (auto split: prod.splits)

lemma fgets_less: "fgets inp = Some (l, inp') \<Longrightarrow> length inp' < length inp"
proof -
  assume f: "fgets inp = Some (l, inp')"
  then obtain c r where "inp = c # r" by (cases inp) (auto simp: fgets_def)
  then show ?thesis
    using f length_take_line [of 1022 r] by (auto simp: fgets_def MAX_LINE_def numeral_eq_Suc split: prod.splits if_splits)
qed

text \<open>
  The loop that collects the lines up to \<open>fi\<close>; \<open>None\<close> where the block is too long or the input ends.
\<close>

function read_block :: "string \<Rightarrow> string list \<Rightarrow> string list option \<times> string" where
  "read_block inp block =
     (case fgets inp of
        None \<Rightarrow> (None, inp)
      | Some (line, inp) \<Rightarrow>
          if is_blank_line line then read_block inp block
          else if tokens 1 line = [''fi''] then (Some block, inp)
          else if length block \<ge> MAX_BLOCK_LINES then (None, inp)
          else read_block inp (block @ [line]))"
  by pat_completeness auto
termination
  by (relation "measure (\<lambda>(inp, block). length inp)") (auto dest: fgets_less)

primrec run_lines :: "os \<Rightarrow> string list \<Rightarrow> mshell \<Rightarrow> flow" where
  "run_lines os [] s = Go s"
| "run_lines os (l # ls) s = (case run_command os l s of Go s \<Rightarrow> run_lines os ls s | r \<Rightarrow> r)"

definition handle_if_block :: "os \<Rightarrow> string \<Rightarrow> string \<Rightarrow> mshell \<Rightarrow> flow \<times> string" where
  "handle_if_block os if_line inp s =
     (let cond_line = drop 3 if_line in
      case fgets inp of
        None \<Rightarrow> (Go s, inp)
      | Some (line, inp) \<Rightarrow>
          if tokens 1 line \<noteq> [''then''] then (Go s, inp)
          else case read_block inp [] of
            (None, inp) \<Rightarrow> (Go s, inp)
          | (Some block, inp) \<Rightarrow>
              (case Option.bind (parse_command s cond_line) (\<lambda>args. execute_external_command os args s) of
                 None \<Rightarrow> (Fault, inp)
               | Some (r, s) \<Rightarrow> (if r = 0 then run_lines os block s else Go s, inp)))"

definition process_line :: "os \<Rightarrow> string \<Rightarrow> string \<Rightarrow> mshell \<Rightarrow> flow \<times> string" where
  "process_line os line inp s =
     (if is_blank_line line then (Go s, inp)
      else if take 3 line = ''if '' then handle_if_block os line inp s
      else (run_command os line s, inp))"

lemma length_read_block: "length (snd (read_block inp block)) \<le> length inp"
proof (induction inp block rule: read_block.induct)
  case (1 inp block)
  show ?case
  proof (cases "fgets inp")
    case (Some p)
    then show ?thesis
      using 1 fgets_less [of inp "fst p" "snd p"]
      by (subst read_block.simps) (fastforce split: prod.split)
  qed (subst read_block.simps, simp)
qed

declare read_block.simps [simp del]

lemma length_handle_if_block: "length (snd (handle_if_block os l inp s)) \<le> length inp"
proof (cases "fgets inp")
  case (Some p)
  then have "length (snd p) < length inp" using fgets_less [of inp "fst p" "snd p"] by simp
  then show ?thesis
    using Some length_read_block [of "snd p" "[]"]
    by (auto simp: handle_if_block_def Let_def split: prod.splits option.splits)
qed (simp add: handle_if_block_def)

lemma length_process_line: "length (snd (process_line os l inp s)) \<le> length inp"
  by (simp add: process_line_def length_handle_if_block)

lemma process_line_less:
  "fgets inp = Some (l, inp1) \<Longrightarrow> (r, inp2) = process_line os l inp1 s \<Longrightarrow> length inp2 < length inp"
  using fgets_less [of inp l inp1] length_process_line [of os l inp1 s] by (metis order_le_less_trans snd_conv)

section \<open>The main loops\<close>

function run_script :: "os \<Rightarrow> string \<Rightarrow> mshell \<Rightarrow> flow" where
  "run_script os inp s =
     (case fgets inp of
        None \<Rightarrow> Go s
      | Some (line, inp) \<Rightarrow>
          (case process_line os line inp s of
             (Go s, inp) \<Rightarrow> run_script os inp s
           | (r, inp) \<Rightarrow> r))"
  by pat_completeness auto
termination
  by (relation "measure (\<lambda>(os, inp, s). length inp)") (auto simp: process_line_less)

declare run_script.simps [simp del]

text \<open>The loop at the terminal, which prints a prompt before each line.\<close>

function run_prompt :: "os \<Rightarrow> string \<Rightarrow> mshell \<Rightarrow> flow" where
  "run_prompt os inp s =
     (let s = emit_call (Print ''mini-shell> '') s in
      case fgets inp of
        None \<Rightarrow> Go s
      | Some (line, inp) \<Rightarrow>
          (case process_line os line inp s of
             (Go s, inp) \<Rightarrow> run_prompt os inp s
           | (r, inp) \<Rightarrow> r))"
  by pat_completeness auto
termination
  by (relation "measure (\<lambda>(os, inp, s). length inp)") (auto simp: process_line_less)

declare run_prompt.simps [simp del]

definition mini_start :: "(string \<rightharpoonup> string) \<Rightarrow> mshell" where
  "mini_start env =
     \<lparr>local_vars = no_vars, global_vars = no_vars, environ = env, trace = [],
      jobs = [], fg_pid = -1, open_fds = []\<rparr>"

text \<open>
  \<open>main\<close>: the arguments after the program's name, the contents of the file named there if it can be
  opened, and the standard input.  The result is the exit status and the last state.
\<close>

definition mini_main :: "os \<Rightarrow> string list \<Rightarrow> string option \<Rightarrow> string \<Rightarrow> mshell \<Rightarrow> (int \<times> mshell) option" where
  "mini_main os argv contents stdin s =
     (if length argv = 1 \<and> contents = None then Some (1, s)
      else case (if length argv = 1 then run_script os (the contents) s else run_prompt os stdin s) of
        Go s \<Rightarrow> Some (0, s)
      | Quit s \<Rightarrow> Some (0, s)
      | Fault \<Rightarrow> None)"

end
