(* ===== verification/Lab_Minishell_Facts.thy ===== *)
theory Lab_Minishell_Facts
  imports Lab_Minishell
begin

text \<open>
  What the shell of \<open>mini-shell-3.c\<close> does: expansion and its bounds, programs and their redirections,
  \<open>if\<close> blocks, jobs, and the comparison with \<open>mini-shell-2.c\<close>.
\<close>

section \<open>Expansion\<close>

text \<open>Expansion without a buffer, and the names it looks up.\<close>

function expansion :: "(string \<Rightarrow> string) \<Rightarrow> string \<Rightarrow> string" where
  "expansion f [] = []"
| "expansion f (c # line) =
     (if c = CHR ''$'' then f (takeWhile is_var_char line) @ expansion f (dropWhile is_var_char line)
      else c # expansion f line)"
  by pat_completeness auto
termination
  by (relation "measure (\<lambda>(f, line). length line)") (auto simp: le_imp_less_Suc length_dropWhile_le)

function var_names :: "string \<Rightarrow> string list" where
  "var_names [] = []"
| "var_names (c # line) =
     (if c = CHR ''$'' then takeWhile is_var_char line # var_names (dropWhile is_var_char line)
      else var_names line)"
  by pat_completeness auto
termination
  by (relation "measure length") (auto simp: le_imp_less_Suc length_dropWhile_le)

lemma var_char_not_nul [simp]: "NULC \<notin> set (takeWhile is_var_char line)"
  by (auto dest!: set_takeWhileD simp: is_var_char_def)

lemma expand_loop_expansion:
  "vars_ok s \<Longrightarrow> length buf \<le> MAX_LINE \<Longrightarrow>
    expand_loop s line buf =
      (if (\<forall>n \<in> set (var_names line). length n < NAME_SIZE) \<and>
          length (buf @ expansion (var_view s) line) < MAX_LINE
       then Some (buf @ expansion (var_view s) line) else None)"
proof (induction s line buf rule: expand_loop.induct)
  case (2 s c line buf)
  show ?case
  proof (cases "c = CHR ''$''")
    case True
    have get: "get_var_value (takeWhile is_var_char line) s = Some (var_view s (takeWhile is_var_char line))"
      using 2 by (simp add: get_var_value_view)
    show ?thesis
      using 2(1) [OF True refl _ get] 2(3-) True get by (auto simp: Let_def)
  qed (use 2 in auto)
qed auto

lemma expand_variables_expansion:
  "vars_ok s \<Longrightarrow>
    expand_variables s line =
      (if (\<forall>n \<in> set (var_names line). length n < NAME_SIZE) \<and>
          length (expansion (var_view s) line) < MAX_LINE
       then Some (expansion (var_view s) line) else None)"
  by (simp add: expand_variables_def expand_loop_expansion)

lemma expansion_no_dollar: "CHR ''$'' \<notin> set line \<Longrightarrow> expansion f line = line \<and> var_names line = []"
  by (induction line) auto

section \<open>Words\<close>

definition word :: "string \<Rightarrow> bool" where
  "word w \<longleftrightarrow> w \<noteq> [] \<and> (\<forall>c \<in> set w. \<not> is_delim c)"

lemma tokens_words: "\<forall>w \<in> set (tokens n line). word w"
proof (induction n arbitrary: line)
  case (Suc n)
  show ?case
  proof (cases "dropWhile is_delim line")
    case (Cons c r)
    then have "\<not> is_delim c" by (metis dropWhile_eq_Cons_conv)
    then show ?thesis using Suc Cons by (auto simp: word_def dest: set_takeWhileD)
  qed simp
qed simp

lemma length_tokens: "length (tokens n line) \<le> n"
  by (induction n arbitrary: line) (auto simp: Let_def)

text \<open>With one character between two words, the tokens fit into the line.\<close>

lemma tokens_fit: "length (concat (tokens n line)) + length (tokens n line) \<le> length line + 1"
proof (induction n arbitrary: line)
  case (Suc n)
  let ?l = "dropWhile is_delim line"
  let ?w = "takeWhile (\<lambda>c. \<not> is_delim c) ?l" and ?r = "dropWhile (\<lambda>c. \<not> is_delim c) ?l"
  have len: "length ?w + length ?r = length ?l" "length ?l \<le> length line"
    by (metis length_append takeWhile_dropWhile_id) (rule length_dropWhile_le)
  show ?case
  proof (cases ?r)
    case Nil
    have "tokens n [] = []" by (cases n) auto
    then have "tokens n ?r = []" unfolding Nil .
    then show ?thesis using len by (auto simp: Let_def)
  next
    case (Cons c r)
    then have "is_delim c" by (metis dropWhile_eq_Cons_conv)
    then have "tokens n (c # r) = tokens n r" by (cases n) auto
    then have "tokens n ?r = tokens n r" unfolding Cons .
    then show ?thesis using len Cons Suc.IH [of r] by (auto simp: Let_def)
  qed
qed simp

section \<open>Programs\<close>

text \<open>The arguments without redirections, and the text of a job.\<close>

fun plain :: "string list \<Rightarrow> string list" where
  "plain [] = []"
| "plain [a] = [a]"
| "plain (a # b # as) = (if a = ''<'' \<or> a = ''>'' then plain as else a # plain (b # as))"

fun join :: "string list \<Rightarrow> string" where
  "join [] = []"
| "join [a] = a"
| "join (a # b # as) = a @ '' '' @ join (b # as)"

definition room_for :: "string list \<Rightarrow> nat" where
  "room_for as = length (concat as) + length as"

lemma room_for_simps [simp]:
  "room_for [] = 0" "room_for (a # as) = Suc (length a + room_for as)" "room_for (as @ bs) = room_for as + room_for bs"
  by (simp_all add: room_for_def)

lemma room_for_plain: "room_for (plain as) \<le> room_for as"
  by (induction as rule: plain.induct) auto

lemma room_for_join: "length (join as) \<le> room_for as - 1"
  by (induction as rule: join.induct) auto

lemma job_command_join:
  "length t + length (join as) < MAX_LINE \<Longrightarrow> job_command as t = Some (t @ join as)"
  by (induction as t rule: job_command.induct) (auto simp: strncat_field_def MAX_LINE_def)

text \<open>The part of the state that a program run by the shell leaves alone.\<close>

definition vars_part :: "mshell \<Rightarrow> vtable \<times> vtable \<times> (string \<rightharpoonup> string)" where
  "vars_part s = (local_vars s, global_vars s, environ s)"

lemma vars_part_simps [simp]:
  "vars_part (emit_call c s) = vars_part s" "vars_part (s\<lparr>jobs := js\<rparr>) = vars_part s"
  "vars_part (s\<lparr>fg_pid := p\<rparr>) = vars_part s" "vars_part (s\<lparr>open_fds := fs\<rparr>) = vars_part s"
  "jobs (emit_call c s) = jobs s" "fg_pid (emit_call c s) = fg_pid s" "open_fds (emit_call c s) = open_fds s"
  by (simp_all add: vars_part_def emit_call_def)

lemma redirect_state:
  "redirect os args i out argv s = (r, s') \<Longrightarrow>
    vars_part s' = vars_part s \<and> jobs s' = jobs s \<and> fg_pid s' = fg_pid s \<and>
    (\<forall>i' out' argv'. r = Some (i', out', argv') \<longrightarrow> argv' = argv @ plain args)"
  by (induction os args i out argv s rule: redirect.induct) (auto simp: Let_def split: if_splits)

lemma handler_state:
  "vars_part ((sigtstp_handler ^^ n) s) = vars_part s \<and> jobs ((sigtstp_handler ^^ n) s) = jobs s \<and>
    fg_pid ((sigtstp_handler ^^ n) s) = fg_pid s \<and> open_fds ((sigtstp_handler ^^ n) s) = open_fds s"
  by (induction n) (auto simp: sigtstp_handler_def)

lemma wait_fg_state:
  "wait_fg os pid s = (r, s') \<Longrightarrow>
    vars_part s' = vars_part s \<and> jobs s' = jobs s \<and> fg_pid s' = pid \<and> open_fds s' = open_fds s"
  by (auto simp: wait_fg_def Let_def handler_state)

lemma handler_trace: "\<exists>us. trace ((sigtstp_handler ^^ n) s) = trace s @ us"
proof (induction n)
  case (Suc n)
  then obtain us where "trace ((sigtstp_handler ^^ n) s) = trace s @ us" by blast
  moreover have "\<exists>vs. trace (sigtstp_handler s') = trace s' @ vs" for s'
    by (simp add: sigtstp_handler_def emit_call_def)
  ultimately show ?case by (metis append.assoc comp_apply funpow.simps(2))
qed simp

lemma wait_fg_trace:
  "wait_fg os pid s = (r, s') \<Longrightarrow> os_wait os (trace s') = r \<and> (\<exists>us. trace s' = trace s @ us @ [Waitpid pid])"
  using handler_trace [of "os_ctrlz os (trace s)" "s\<lparr>fg_pid := pid\<rparr>"] by (auto simp: wait_fg_def Let_def emit_call_def)

lemma wait_fg_defined: "\<forall>t. os_wait os t \<noteq> None \<Longrightarrow> \<exists>st s'. wait_fg os pid s = (Some st, s')"
  by (auto simp: wait_fg_def Let_def)

lemma add_job_ok:
  "room_for argv \<le> MAX_LINE \<Longrightarrow> length (jobs s) < MAX_JOBS \<Longrightarrow>
    add_job pid st argv s = Some (s\<lparr>jobs := jobs s @ [\<lparr>jpid = pid, jcommand = join argv, jstopped = st\<rparr>]\<rparr>) \<and>
    length (join argv) < MAX_LINE"
  using room_for_join [of argv] job_command_join [of "[]" argv] by (auto simp: add_job_def MAX_LINE_def)

lemma split_background_room:
  "split_background args = (b, args') \<Longrightarrow> room_for args' \<le> room_for args"
  by (cases args rule: rev_cases) (auto simp: split_background_def split: if_splits)

text \<open>The state between two commands.\<close>

definition job_ok :: "job \<Rightarrow> bool" where
  "job_ok j \<longleftrightarrow> length (jcommand j) < MAX_LINE"

definition jobs_ok :: "mshell \<Rightarrow> bool" where
  "jobs_ok s \<longleftrightarrow> fg_pid s = -1 \<and> length (jobs s) \<le> MAX_JOBS \<and> list_all job_ok (jobs s)"

lemma external_safe:
  assumes room: "room_for args \<le> MAX_LINE" and js: "jobs_ok s" "length (jobs s) < MAX_JOBS"
    and os: "\<forall>t. os_wait os t \<noteq> None"
  shows "\<exists>r s'. execute_external_command os args s = Some (r, s') \<and> vars_part s' = vars_part s \<and> jobs_ok s'"
proof -
  obtain b args1 where sp: "split_background args = (b, args1)" by fastforce
  obtain q s1 where rd: "redirect os args1 (-1) (-1) [] s = (q, s1)" by fastforce
  note s1 = redirect_state [OF rd]
  show ?thesis
  proof (cases q)
    case None
    then show ?thesis using sp rd s1 js by (auto simp: execute_external_command_def jobs_ok_def)
  next
    case (Some q')
    then obtain i out argv where q: "q = Some (i, out, argv)" by (cases q') auto
    then have "argv = plain args1" using s1 by simp
    then have argv: "room_for argv \<le> MAX_LINE"
      using room room_for_plain [of args1] split_background_room [OF sp] by simp
    let ?s = "emit_call (ForkChild (child_calls i out argv)) s1"
    let ?pid = "os_fork os (trace ?s)"
    obtain st s2 where w: "wait_fg os ?pid ?s = (Some st, s2)" using wait_fg_defined [OF os] by blast
    have "jobs_ok s1" "length (jobs s1) < MAX_JOBS" "length (jobs s2) < MAX_JOBS" "jobs s2 = jobs s"
      "vars_part s2 = vars_part s"
      using s1 js wait_fg_state [OF w] by (auto simp: jobs_ok_def)
    then show ?thesis
      using sp rd q s1 w js add_job_ok [OF argv, of ?s ?pid False] add_job_ok [OF argv, of s2 ?pid True]
      by (auto simp: execute_external_command_def run_foreground_def Let_def jobs_ok_def job_ok_def)
  qed
qed

section \<open>Commands\<close>

definition env_ok :: "'a shell_vars_scheme \<Rightarrow> bool" where
  "env_ok s \<longleftrightarrow> (\<forall>v \<in> ran (environ s). short VALUE_SIZE v)"

definition shell_ok :: "mshell \<Rightarrow> bool" where
  "shell_ok s \<longleftrightarrow> vars_ok s \<and> env_ok s \<and> jobs_ok s"

text \<open>The arguments whose parts go into a table fit into its fields.\<close>

definition args_fit :: "string list \<Rightarrow> bool" where
  "args_fit args \<longleftrightarrow>
     (\<forall>a \<in> set args. case split_eq a of
        Some (n, v) \<Rightarrow> short NAME_SIZE n \<and> short VALUE_SIZE v
      | None \<Rightarrow> hd args = ''export'' \<longrightarrow> short NAME_SIZE a)"

lemma str_short: "field_ok n bs \<Longrightarrow> short n (str bs)"
proof -
  assume f: "field_ok n bs"
  then obtain xs ys where bs: "bs = xs @ NULC # ys" "NULC \<notin> set xs" by (auto simp: field_ok_def dest: split_list_first)
  then have "str bs = xs" unfolding str_def by (subst bs(1)) (subst takeWhile_append2; auto)
  then show ?thesis using f bs by (auto simp: short_def field_ok_def)
qed

lemma table_map_short: "table_ok tab \<Longrightarrow> table_map tab n = Some v \<Longrightarrow> short VALUE_SIZE v"
proof -
  assume tab: "table_ok tab" "table_map tab n = Some v"
  then have "(n, v) \<in> set (map (\<lambda>v. (str (var_name v), str (var_value v))) (take (snd tab) (fst tab)))"
    unfolding table_map_def by (blast dest: map_of_SomeD)
  then obtain w where "w \<in> set (fst tab)" "v = str (var_value w)" by (auto dest: in_set_takeD)
  then show ?thesis using tab by (auto simp: table_ok_def slot_ok_def str_short)
qed

lemma var_view_short: "vars_ok s \<Longrightarrow> env_ok s \<Longrightarrow> short VALUE_SIZE (var_view s n)"
proof (cases "(environ s ++ global_map s ++ local_map s) n")
  case None
  show ?thesis unfolding var_view_def None by (simp add: short_def VALUE_SIZE_def)
next
  case (Some v)
  assume "vars_ok s" "env_ok s"
  with Some have "short VALUE_SIZE v"
    by (auto simp: vars_ok_def env_ok_def local_map_def global_map_def map_add_Some_iff ranI dest: table_map_short)
  then show ?thesis using Some by (simp add: var_view_def)
qed

lemma set_vars_frame:
  "set_local_var n v s = Some s' \<Longrightarrow> environ s' = environ s \<and> jobs s' = jobs s \<and> fg_pid s' = fg_pid s"
  "set_global_var n (Some v) s = Some s' \<Longrightarrow>
    environ s' = (if n = [] then environ s else (environ s)(n \<mapsto> v)) \<and> jobs s' = jobs s \<and> fg_pid s' = fg_pid s"
  by (auto simp: set_local_var_def set_global_var_def setenv_def emit_call_def)

lemma set_local_safe:
  assumes "shell_ok s" "short NAME_SIZE n" "short VALUE_SIZE v"
  shows "\<exists>s'. set_local_var n v s = Some s' \<and> shell_ok s'"
  using locals.put_inv [of s n v] assms set_vars_frame(1) [of n v s]
  by (fastforce simp: shell_ok_def env_ok_def jobs_ok_def)

lemma set_global_safe:
  assumes "shell_ok s" "short NAME_SIZE n" "short VALUE_SIZE v"
  shows "\<exists>s'. set_global_var n (Some v) s = Some s' \<and> shell_ok s' \<and> length (jobs s') = length (jobs s)"
proof -
  obtain s' where s': "set_global_var n (Some v) s = Some s'" "vars_ok s'"
    using globals.put_inv [of s n v] assms by (auto simp: shell_ok_def)
  then have "ran (environ s') \<subseteq> insert v (ran (environ s))"
    using set_vars_frame(2) [OF s'(1)] by (auto simp: ran_def split: if_splits)
  then show ?thesis
    using s' assms set_vars_frame(2) [OF s'(1)] by (auto simp: shell_ok_def env_ok_def jobs_ok_def)
qed

lemma export_safe:
  assumes "shell_ok s"
    "\<forall>a \<in> set as. case split_eq a of Some (n, v) \<Rightarrow> short NAME_SIZE n \<and> short VALUE_SIZE v | None \<Rightarrow> short NAME_SIZE a"
  shows "\<exists>s'. export_loop as s = Some s' \<and> shell_ok s'"
  using assms
proof (induction as arbitrary: s)
  case (Cons a as)
  have view: "get_var_value a s = Some (var_view s a)" "short VALUE_SIZE (var_view s a)" if "short NAME_SIZE a"
    using Cons.prems(1) that var_view_short [of s a] by (simp_all add: shell_ok_def get_var_value_view short_def [of NAME_SIZE])
  show ?case
  proof (cases "split_eq a")
    case None
    then have a: "short NAME_SIZE a" using Cons.prems(2) by auto
    then obtain s1 where "set_global_var a (Some (var_view s a)) s = Some s1" "shell_ok s1"
      using set_global_safe [OF Cons.prems(1) a view(2)] by auto
    then show ?thesis using Cons.IH [of s1] Cons.prems(2) None view(1) [OF a] by auto
  next
    case (Some p)
    then obtain n v where p: "split_eq a = Some (n, v)" "short NAME_SIZE n" "short VALUE_SIZE v"
      using Cons.prems(2) by (cases p) auto
    then obtain s1 where "set_global_var n (Some v) s = Some s1" "shell_ok s1"
      using set_global_safe [OF Cons.prems(1)] by blast
    then show ?thesis using Cons.IH [of s1] Cons.prems(2) p by auto
  qed
qed simp

lemma shell_ok_emit [simp]: "shell_ok (emit_call c s) = shell_ok s"
  by (simp add: shell_ok_def vars_ok_def env_ok_def jobs_ok_def emit_call_def)

lemma emit_call_tables [simp]:
  "local_vars (emit_call c s) = local_vars s" "global_vars (emit_call c s) = global_vars s" "environ (emit_call c s) = environ s"
  by (simp_all add: emit_call_def)

lemma print_vars_safe:
  assumes "table_ok tab" "\<forall>i \<in> set js. i < snd tab" "shell_ok s"
  shows "\<exists>s'. print_vars pre (fst tab) js s = Some s' \<and> shell_ok s' \<and> global_vars s' = global_vars s"
  using assms(2,3)
proof (induction js arbitrary: s)
  case (Cons i js)
  have i: "\<forall>v \<in> set (fst tab). slot_ok v" "i < length (fst tab)" using assms(1) Cons.prems(1) by (auto simp: table_ok_def)
  let ?s = "emit_call (Print (pre @ str (var_name (fst tab ! i)) @ ''='' @ str (var_value (fst tab ! i)) @ ''\<newline>'')) s"
  have "global_vars ?s = global_vars s" "shell_ok ?s" using Cons.prems(2) by simp_all
  then show ?case
    using Cons.IH [of ?s] Cons.prems name_bytes_ok(2) [OF i] value_bytes_ok [OF i] by auto
qed simp


lemma fold_shift:
  "idx \<le> n \<Longrightarrow> n < length js \<Longrightarrow>
    take n (fold (\<lambda>i js. js[i := js ! (i + 1)]) [idx..<n] js) = take idx js @ drop (Suc idx) (take (Suc n) js) \<and>
    drop n (fold (\<lambda>i js. js[i := js ! (i + 1)]) [idx..<n] js) = drop n js"
proof (induction n)
  case (Suc n)
  let ?js = "fold (\<lambda>i js. js[i := js ! (i + 1)]) [idx..<n] js"
  show ?case
  proof (cases "idx \<le> n")
    case True
    then have IH: "take n ?js = take idx js @ drop (Suc idx) (take (Suc n) js)" "drop n ?js = drop n js"
      using Suc by auto
    have len: "length ?js = length js" by (rule fold_invariant [where Q = "\<lambda>_. True"]) auto
    have "?js ! Suc n = js ! Suc n"
      using arg_cong [OF IH(2), of "\<lambda>l. l ! 1"] Suc.prems len by simp
    moreover have "drop (Suc n) ?js = drop (Suc n) js"
      using arg_cong [OF IH(2), of tl] by (simp add: drop_Suc tl_drop)
    ultimately show ?thesis
      using True Suc.prems IH len take_Suc_conv_app_nth [of "Suc n" js] take_Suc_conv_app_nth [of n "?js[n := js ! Suc n]"]
      by simp
  next
    case False
    then have "idx = Suc n" using Suc.prems by simp
    then show ?thesis by simp
  qed
qed auto

lemma remove_job_drop: "idx < length js \<Longrightarrow> remove_job idx js = take idx js @ drop (Suc idx) js"
  using fold_shift [of idx "length js - 1" js] by (simp add: remove_job_def)

lemma run_fg_safe:
  assumes "shell_ok s" "idx < length (jobs s)" "\<forall>t. os_wait os t \<noteq> None"
  shows "\<exists>s'. run_fg os idx s = Go s' \<and> shell_ok s'"
proof -
  let ?j = "jobs s ! idx"
  let ?s = "emit_call (Kill (jpid ?j) SIGCONT) (emit_call (Print (''Resuming job ['' @ dec (int idx + 1) @ ''] '' @
    jcommand ?j @ ''\<newline>'')) s \<lparr>jobs := (jobs s)[idx := ?j\<lparr>jstopped := False\<rparr>]\<rparr>)"
  obtain st s2 where w: "wait_fg os (jpid ?j) ?s = (Some st, s2)" using wait_fg_defined [OF assms(3)] by blast
  have j: "job_ok ?j" using assms by (simp add: shell_ok_def jobs_ok_def list_all_length)
  have s2: "vars_part s2 = vars_part s" "jobs s2 = (jobs s)[idx := ?j\<lparr>jstopped := False\<rparr>]" "fg_pid s2 = jpid ?j"
    using wait_fg_state [OF w] by auto
  have jobs2: "list_all job_ok (jobs s2)" "length (jobs s2) = length (jobs s)"
    using assms j unfolding s2 by (auto simp: shell_ok_def jobs_ok_def list_all_length nth_list_update job_ok_def)
  have "list_all job_ok (remove_job idx (jobs s2))" "length (remove_job idx (jobs s2)) \<le> MAX_JOBS"
    using jobs2 assms by (auto simp: remove_job_drop list_all_iff shell_ok_def jobs_ok_def dest: in_set_takeD in_set_dropD)
  moreover have "list_all job_ok ((jobs s2)[idx := (jobs s2 ! idx)\<lparr>jstopped := True\<rparr>])"
    using jobs2 assms by (auto simp: list_all_length nth_list_update job_ok_def)
  ultimately show ?thesis
    using w s2(1) jobs2 assms
    by (auto simp: run_fg_def Let_def shell_ok_def jobs_ok_def vars_ok_def env_ok_def vars_part_def)
qed

lemma print_jobs_state: "shell_ok s \<Longrightarrow> shell_ok (foldl print_job_status s js)"
  by (induction js arbitrary: s) (auto simp: print_job_status_def)

lemma print_set_safe:
  assumes "shell_ok s"
  shows "\<exists>s'. print_set s = Some s' \<and> shell_ok s'"
proof -
  have tabs: "table_ok (local_vars s)" "table_ok (global_vars s)" using assms by (auto simp: shell_ok_def vars_ok_def)
  obtain s1 where s1: "print_vars [] (fst (local_vars s)) [0..<snd (local_vars s)] s = Some s1"
    "shell_ok s1" "global_vars s1 = global_vars s"
    using print_vars_safe [OF tabs(1) _ assms, of "[0..<snd (local_vars s)]" "[]"] by auto
  obtain s2 where "print_vars ''export '' (fst (global_vars s)) [0..<snd (global_vars s)] s1 = Some s2" "shell_ok s2"
    using print_vars_safe [OF tabs(2) _ s1(2), of "[0..<snd (global_vars s)]" "''export ''"] by auto
  then show ?thesis using s1 by (simp add: print_set_def)
qed

lemma find_found: "find P xs = Some x \<Longrightarrow> x \<in> set xs \<and> P x"
  by (induction xs) (auto split: if_splits)

lemma find_append_split: "find P (xs @ ys) = (case find P xs of None \<Rightarrow> find P ys | r \<Rightarrow> r)"
  by (induction xs) auto

lemma fg_target_bound: "fg_target args s = Inr i \<Longrightarrow> i < length (jobs s)"
  by (auto simp: fg_target_def Let_def split: if_splits option.splits dest: find_found)

lemma execute_command_safe:
  assumes ok: "shell_ok s" "length (jobs s) < MAX_JOBS" and args: "args_fit args" "room_for args \<le> MAX_LINE"
    and os: "\<forall>t. os_wait os t \<noteq> None"
  shows "\<exists>s'. (execute_command os args s = Go s' \<or> execute_command os args s = Quit s') \<and> shell_ok s'"
proof (cases args)
  case (Cons a as)
  have assign: "\<exists>s'. set_local_var n v s = Some s' \<and> shell_ok s'" if "split_eq a = Some (n, v)" for n v
    using that args(1) Cons by (intro set_local_safe [OF ok(1)]) (auto simp: args_fit_def)
  have export: "\<exists>s'. export_loop as s = Some s' \<and> shell_ok s'" if "a = ''export''"
    using that args(1) Cons by (intro export_safe [OF ok(1)]) (auto simp: args_fit_def split: option.splits)
  obtain r s' where ext: "execute_external_command os args s = Some (r, s')" "shell_ok s'"
    using external_safe [OF args(2) _ ok(2) os] ok(1)
    by (fastforce simp: shell_ok_def vars_ok_def env_ok_def vars_part_def)
  have fg: "\<exists>s'. run_fg os i s = Go s' \<and> shell_ok s'" if "fg_target args s = Inr i" for i
    using run_fg_safe [OF ok(1) fg_target_bound [OF that] os] .
  let ?assign = "CHR ''='' \<in> set a \<and> hd a \<noteq> CHR ''-''"
  consider "?assign" | "\<not> ?assign" "a = ''export''" | "\<not> ?assign" "a = ''fg''"
    | "\<not> ?assign" "a \<noteq> ''export''" "a \<noteq> ''fg''" by blast
  then show ?thesis
  proof cases
    case 1
    then obtain n v where "split_eq a = Some (n, v)" by (simp add: split_eq_def)
    then show ?thesis using assign 1 Cons by (auto simp: execute_command_def go_def)
  next
    case 2
    then show ?thesis using export Cons by (auto simp: execute_command_def go_def)
  next
    case 3
    then show ?thesis using fg ok(1) Cons
      by (cases "fg_target args s") (auto simp: execute_command_def)
  next
    case 4
    obtain s3 where "print_set s = Some s3" "shell_ok s3" using print_set_safe [OF ok(1)] by blast
    moreover have "shell_ok (foldl print_job_status s [0..<length (jobs s)])" by (rule print_jobs_state [OF ok(1)])
    ultimately show ?thesis
      using 4 ext ok(1) unfolding execute_command_def go_def Cons
      by (cases "a = ''exit''"; cases "a = ''set''"; cases "a = ''jobs''") auto
  qed
qed (use ok in \<open>simp add: execute_command_def\<close>)


section \<open>Blocks\<close>

definition is_line :: "string \<Rightarrow> bool" where
  "is_line l \<longleftrightarrow> l \<noteq> [] \<and> last l = CHR 0x0A \<and> CHR 0x0A \<notin> set (butlast l) \<and> NULC \<notin> set l \<and> length l < MAX_LINE"

lemma take_line_line:
  "CHR 0x0A \<notin> set w \<Longrightarrow> length w < n \<Longrightarrow> take_line n (w @ CHR 0x0A # rest) = (w @ [CHR 0x0A], rest)"
proof (induction w arbitrary: n)
  case (Cons c w)
  then show ?case by (cases n) auto
qed (case_tac n; simp)

lemma fgets_line: "is_line l \<Longrightarrow> fgets (l @ rest) = Some (l, rest)"
proof -
  assume l: "is_line l"
  then obtain w where w: "l = w @ [CHR 0x0A]" "CHR 0x0A \<notin> set w" by (metis append_butlast_last_id is_line_def)
  have "str l = l" using l by (auto simp: str_def is_line_def intro: takeWhile_eq_all_conv [THEN iffD2])
  then show ?thesis
    using l w take_line_line [OF w(2), of "MAX_LINE - 1" rest] by (auto simp: fgets_def is_line_def)
qed

lemma blank_no_tokens: "is_line l \<Longrightarrow> tokens 1 l = [w] \<Longrightarrow> \<forall>c \<in> set w. \<not> is_c_space c \<Longrightarrow> \<not> is_blank_line l"
proof -
  assume t: "tokens 1 l = [w]" and w: "\<forall>c \<in> set w. \<not> is_c_space c"
  then have "word w" using tokens_words [of 1 l] by auto
  then obtain c where "c \<in> set w" by (auto simp: word_def intro: list.set_sel)
  moreover have "set w \<subseteq> set l"
    using t by (auto simp: Let_def split: if_splits dest!: set_takeWhileD set_dropWhileD)
  ultimately show ?thesis using w by (auto simp: is_blank_line_def list_all_iff)
qed

definition block_line :: "string \<Rightarrow> bool" where
  "block_line l \<longleftrightarrow> is_line l \<and> \<not> is_blank_line l \<and> tokens 1 l \<noteq> [''fi'']"

lemma read_block_lines:
  assumes "is_line fi_line" "tokens 1 fi_line = [''fi'']"
  shows "list_all block_line ls \<Longrightarrow> length block \<le> MAX_BLOCK_LINES \<Longrightarrow>
    read_block (concat ls @ fi_line @ rest) block =
      (if length block + length ls \<le> MAX_BLOCK_LINES then (Some (block @ ls), rest)
       else (None, concat (drop (Suc (MAX_BLOCK_LINES - length block)) ls) @ fi_line @ rest))"
proof (induction ls arbitrary: block)
  case Nil
  have "\<not> is_blank_line fi_line" using blank_no_tokens [OF assms] by (simp add: is_c_space_def)
  then show ?case using Nil assms by (subst read_block.simps) (simp add: fgets_line)
next
  case (Cons l ls)
  then have l: "is_line l" "\<not> is_blank_line l" "tokens 1 l \<noteq> [''fi'']" by (auto simp: block_line_def)
  show ?case
  proof (cases "length block < MAX_BLOCK_LINES")
    case True
    then have "MAX_BLOCK_LINES - length block = Suc (MAX_BLOCK_LINES - length (block @ [l]))" by simp
    then show ?thesis
      using Cons.IH [of "block @ [l]"] Cons.prems l True
      by (subst read_block.simps) (simp add: fgets_line)
  next
    case False
    then show ?thesis using l Cons.prems by (subst read_block.simps) (simp add: fgets_line)
  qed
qed


section \<open>Properties\<close>

definition demo_os :: os where
  "demo_os = \<lparr>os_open = (\<lambda>_. 3), os_fork = (\<lambda>_. 100), os_wait = (\<lambda>_. Some (Exited 0)), os_ctrlz = (\<lambda>_. 0)\<rparr>"

lemma mini_start_ok:
  "(\<forall>v \<in> ran env. short VALUE_SIZE v) \<Longrightarrow> shell_ok (mini_start env)"
  by (simp add: shell_ok_def vars_ok_def env_ok_def jobs_ok_def mini_start_def no_vars_ok)

lemma mini_start_view: "var_view (mini_start env) n = (case env n of Some v \<Rightarrow> v | None \<Rightarrow> [])"
  by (simp add: var_view_def mini_start_def local_map_def global_map_def no_vars_ok map_add_def split: option.split)

text \<open>
  C37: Variables are expanded as in a shell without buffers, and the two buffers overflow exactly when they
  must.  On well-formed tables \<open>expand_variables\<close> gives the line with every \<open>$name\<close> replaced by its value;
  it leaves its arrays exactly when a name has 64 characters or more or the result has no room for its
  NUL in 1024 characters, which the code does not test.
\<close>

theorem expand_variables_exact:
  assumes "vars_ok s"
  shows "expand_variables s line =
    (if (\<forall>n \<in> set (var_names line). length n < 64) \<and> length (expansion (var_view s) line) < 1024
     then Some (expansion (var_view s) line) else None)"
  using expand_variables_expansion [OF assms, of line] by (simp add: NAME_SIZE_def MAX_LINE_def)

theorem expand_variables_exact_witness:
  "expand_variables (mini_start [''HOME'' \<mapsto> ''/root'']) ''cd $HOME/x'' = Some ''cd /root/x''"
proof -
  have "vars_ok (mini_start [''HOME'' \<mapsto> ''/root''])" by (simp add: vars_ok_def mini_start_def no_vars_ok)
  from expand_variables_exact [OF this, of "''cd $HOME/x''"] show ?thesis
    by (simp add: mini_start_view is_var_char_def)
qed



text \<open>
  C35: An \<open>if\<close> block runs its lines exactly when the program of its condition exits with 0, and
  reads the input up to its \<open>fi\<close>; but a block of more than 32 lines is dropped after its 33rd line, and the
  lines after it are left in the input, to be run as commands whatever the condition says.
\<close>

theorem if_block_runs:
  assumes "is_line then_line" "tokens 1 then_line = [''then'']"
    and "list_all block_line block" "is_line fi_line" "tokens 1 fi_line = [''fi'']"
    and "parse_command s (drop 3 if_line) = Some args" "execute_external_command os args s = Some (r, s')"
  shows "handle_if_block os if_line (then_line @ concat block @ fi_line @ rest) s =
    (if length block \<le> 32 then (if r = 0 then run_lines os block s' else Go s', rest)
     else (Go s, concat (drop 33 block) @ fi_line @ rest))"
  using assms read_block_lines [OF assms(4,5,3), of "[]" rest]
  by (simp add: handle_if_block_def fgets_line MAX_BLOCK_LINES_def)


theorem if_block_runs_witness:
  "\<exists>s'. handle_if_block demo_os ''if true\<newline>'' (''then\<newline>'' @ concat [''A=1\<newline>''] @ ''fi\<newline>'' @ ''ls'') (mini_start Map.empty) =
     (run_lines demo_os [''A=1\<newline>''] s', ''ls'')"
proof -
  have lines: "is_line ''then\<newline>''" "is_line ''fi\<newline>''" "is_line ''A=1\<newline>''" by (simp_all add: is_line_def MAX_LINE_def)
  have toks: "tokens 1 ''then\<newline>'' = [''then'']" "tokens 1 ''fi\<newline>'' = [''fi'']" "tokens 1 ''A=1\<newline>'' = [''A=1'']"
    "tokens 63 ''true\<newline>'' = [''true'']"
    by (simp_all add: numeral_eq_Suc is_delim_def)
  have block: "list_all block_line [''A=1\<newline>'']"
    using lines toks by (simp add: block_line_def is_blank_line_def is_c_space_def)
  have parse: "parse_command (mini_start Map.empty) (drop 3 ''if true\<newline>'') = Some [''true'']"
    using toks(4) by (simp add: parse_command_def expand_variables_def MAX_LINE_def MAX_ARGS_def)
  have "\<exists>s'. execute_external_command demo_os [''true''] (mini_start Map.empty) = Some (0, s')"
    by (simp add: execute_external_command_def split_background_def run_foreground_def wait_fg_def demo_os_def
        exit_code_def stopped_def Let_def)
  then obtain s' where "execute_external_command demo_os [''true''] (mini_start Map.empty) = Some (0, s')" ..
  from if_block_runs [OF lines(1) toks(1) block lines(2) toks(2) parse this, of "''ls''"] show ?thesis by auto
qed

text \<open>
  \<open>fg\<close> resumes the last stopped job: it is sent \<open>SIGCONT\<close> and waited for, and unless it stops again it
  leaves the list, the other jobs keeping their order.
\<close>

theorem fg_resumes_last:
  assumes "jobs s = before @ j # after" "jstopped j" "list_all (\<lambda>j. \<not> jstopped j) after" "\<forall>t. os_wait os t \<noteq> None"
  shows "\<exists>s' t us st. execute_command os [''fg''] s = Go s' \<and> trace s' = t @ us \<and> os_wait os t = Some st \<and>
    Kill (jpid j) SIGCONT \<in> set t \<and> last t = Waitpid (jpid j) \<and>
    jobs s' = (if stopped st then jobs s else before @ after) \<and> fg_pid s' = -1"
proof -
  have tgt: "fg_target [''fg''] s = Inr (length before)"
  proof -
    have "find (\<lambda>i. jstopped (jobs s ! i)) (rev [0..<length (jobs s)]) = Some (length before)"
    proof -
      have "[0..<length (jobs s)] = [0..<length before] @ length before # [Suc (length before)..<length (jobs s)]"
        using upt_add_eq_append [of 0 "length before" "Suc (length after)"] assms(1) by (simp add: upt_conv_Cons del: upt_Suc)
      moreover have "find (\<lambda>i. jstopped (jobs s ! i)) (rev [Suc (length before)..<length (jobs s)]) = None"
        using assms(1,3) by (auto simp: find_None_iff list_all_length nth_append nth_Cons split: nat.splits)
      ultimately show ?thesis using assms(1,2) by (simp add: find_append_split)
    qed
    then show ?thesis by (simp add: fg_target_def)
  qed
  let ?s = "emit_call (Kill (jpid j) SIGCONT) (emit_call (Print (''Resuming job ['' @ dec (int (length before) + 1) @ ''] '' @
    jcommand j @ ''\<newline>'')) s \<lparr>jobs := (jobs s)[length before := j\<lparr>jstopped := False\<rparr>]\<rparr>)"
  obtain st s2 where w: "wait_fg os (jpid j) ?s = (Some st, s2)" using wait_fg_defined [OF assms(4)] by blast
  have jobs2: "jobs s2 = before @ j\<lparr>jstopped := False\<rparr> # after" using wait_fg_state [OF w] assms(1) by simp
  obtain t where t: "trace s2 = t" "os_wait os t = Some st" "Kill (jpid j) SIGCONT \<in> set t" "last t = Waitpid (jpid j)"
    using wait_fg_trace [OF w] by (auto simp: emit_call_def)
  have "jobs s = before @ j\<lparr>jstopped := True\<rparr> # after" using assms(1,2) by (cases j) simp
  then show ?thesis
    using tgt w t assms(1) jobs2
    by (auto simp: execute_command_def run_fg_def Let_def remove_job_drop emit_call_def list_update_append)
qed

end
