(* ===== verification/Lab_Minishell2.thy ===== *)
theory Lab_Minishell2
  imports Lab_Minishell_Facts
begin

text \<open>
  \<open>lab7-lyjae/mini-shell-2.c\<close>, the shell before \<open>fg\<close>: the functions that differ from \<open>mini-shell-3.c\<close>.  It
  reports errors, tests the result of \<open>fork\<close> and drops a job when the table is full, which the later shell
  does not.
\<close>

section \<open>Parsing\<close>

definition parse_command2 :: "string \<Rightarrow> mshell \<Rightarrow> (string list \<times> mshell) option" where
  "parse_command2 line s =
     (case expand_variables s line of
        None \<Rightarrow> None
      | Some l \<Rightarrow>
          Some (tokens (MAX_ARGS - 1) l,
            if length (tokens MAX_ARGS l) > MAX_ARGS - 1
            then emit_call (PrintError ''Warning: too many arguments (max 63); some were ignored\<newline>'') s else s))"

section \<open>Programs\<close>

definition add_job2 :: "int \<Rightarrow> bool \<Rightarrow> string list \<Rightarrow> mshell \<Rightarrow> mshell option" where
  "add_job2 pid st argv s = (if length (jobs s) < MAX_JOBS then add_job pid st argv s else Some s)"

fun redirect2 :: "os \<Rightarrow> string list \<Rightarrow> int \<Rightarrow> int \<Rightarrow> string list \<Rightarrow> mshell \<Rightarrow> (int \<times> int \<times> string list) option \<times> mshell" where
  "redirect2 os [] i out argv s = (Some (i, out, argv), s)"
| "redirect2 os [a] i out argv s = redirect2 os [] i out (argv @ [a]) s"
| "redirect2 os (a # b # as) i out argv s =
     (if a = ''<'' then
        let s = emit_call (OpenIn b) s; fd = os_open os (trace s) in
        if fd < 0 then (None, emit_call (PrintError ''open for input'') s)
        else redirect2 os as fd out argv (s\<lparr>open_fds := open_fds s @ [fd]\<rparr>)
      else if a = ''>'' then
        let s = emit_call (OpenOut b) s; fd = os_open os (trace s) in
        if fd < 0 then (None, emit_call (PrintError ''open for output'') s)
        else redirect2 os as i fd argv (s\<lparr>open_fds := open_fds s @ [fd]\<rparr>)
      else redirect2 os (b # as) i out (argv @ [a]) s)"

definition child_calls2 :: "int \<Rightarrow> int \<Rightarrow> string list \<Rightarrow> child_call list" where
  "child_calls2 i out argv =
     child_redirections i out @
     [SigDefault SIGTSTP, Execvp argv,
      ChildError ((case argv of a # _ \<Rightarrow> a | [] \<Rightarrow> ''(null)'') @ '': command not found\<newline>''), ChildExit 1]"

definition run_foreground2 :: "os \<Rightarrow> int \<Rightarrow> string list \<Rightarrow> mshell \<Rightarrow> (int \<times> mshell) option" where
  "run_foreground2 os pid argv s =
     (case wait_fg os pid s of
        (None, s) \<Rightarrow> None
      | (Some st, s) \<Rightarrow>
          map_option (\<lambda>s. (exit_code st, s\<lparr>fg_pid := -1\<rparr>))
            (if stopped st
             then map_option (emit_call (Print (''[Stopped] pid '' @ dec pid @ ''\<newline>''))) (add_job2 pid True argv s)
             else Some s))"

definition execute_external_command2 :: "os \<Rightarrow> string list \<Rightarrow> mshell \<Rightarrow> (int \<times> mshell) option" where
  "execute_external_command2 os args s =
     (case split_background args of (background, args) \<Rightarrow>
      case redirect2 os args (-1) (-1) [] s of
        (None, s) \<Rightarrow> Some (-1, s)
      | (Some (i, out, argv), s) \<Rightarrow>
          let s = emit_call (ForkChild (child_calls2 i out argv)) s; pid = os_fork os (trace s) in
          if pid < 0 then Some (-1, emit_call (PrintError ''fork'') s)
          else if background then
            map_option (\<lambda>s. (0, emit_call (Print (''[background pid '' @ dec pid @ '']\<newline>'')) s))
              (add_job2 pid False argv s)
          else run_foreground2 os pid argv s)"

section \<open>Commands and blocks\<close>

fun export_loop2 :: "string list \<Rightarrow> mshell \<Rightarrow> mshell option" where
  "export_loop2 [] s = Some s"
| "export_loop2 (a # as) s =
     (case (case split_eq a of
              Some (n, v) \<Rightarrow> set_global_var2 n (Some v) s
            | None \<Rightarrow> (case get_var_value a s of None \<Rightarrow> None | Some v \<Rightarrow> set_global_var2 a (Some v) s)) of
        None \<Rightarrow> None
      | Some s \<Rightarrow> export_loop2 as s)"

definition execute_command2 :: "os \<Rightarrow> string list \<Rightarrow> mshell \<Rightarrow> flow" where
  "execute_command2 os args s =
     (if args = [] then Go s
      else if CHR ''='' \<in> set (hd args) \<and> hd (hd args) \<noteq> CHR ''-'' then
        (case split_eq (hd args) of Some (n, v) \<Rightarrow> go (set_local_var2 n v s) | None \<Rightarrow> Go s)
      else if hd args = ''exit'' then Quit s
      else if hd args = ''export'' then go (export_loop2 (tl args) s)
      else if hd args = ''set'' then go (print_set s)
      else if hd args = ''jobs'' then Go (foldl print_job_status s [0..<length (jobs s)])
      else go (map_option snd (execute_external_command2 os args s)))"

definition run_command2 :: "os \<Rightarrow> string \<Rightarrow> mshell \<Rightarrow> flow" where
  "run_command2 os line s =
     (case parse_command2 line s of None \<Rightarrow> Fault | Some (args, s) \<Rightarrow> execute_command2 os args s)"

text \<open>The lines of the block, or the message of the early return.\<close>

function read_block2 :: "string \<Rightarrow> string list \<Rightarrow> (string + string list) \<times> string" where
  "read_block2 inp block =
     (case fgets inp of
        None \<Rightarrow> (Inl ''Syntax error: missing 'fi'\<newline>'', inp)
      | Some (line, inp) \<Rightarrow>
          if is_blank_line line then read_block2 inp block
          else if tokens 1 line = [''fi''] then (Inr block, inp)
          else if length block \<ge> MAX_BLOCK_LINES then (Inl ''Error: too many lines in if block\<newline>'', inp)
          else read_block2 inp (block @ [line]))"
  by pat_completeness auto
termination
  by (relation "measure (\<lambda>(inp, block). length inp)") (auto dest: fgets_less)

declare read_block2.simps [simp del]

primrec run_lines2 :: "os \<Rightarrow> string list \<Rightarrow> mshell \<Rightarrow> flow" where
  "run_lines2 os [] s = Go s"
| "run_lines2 os (l # ls) s = (case run_command2 os l s of Go s \<Rightarrow> run_lines2 os ls s | r \<Rightarrow> r)"

definition handle_if_block2 :: "os \<Rightarrow> string \<Rightarrow> string \<Rightarrow> mshell \<Rightarrow> flow \<times> string" where
  "handle_if_block2 os if_line inp s =
     (let cond_line = drop 3 if_line;
          no_then = emit_call (PrintError ''Syntax error: expected 'then'\<newline>'') in
      case fgets inp of
        None \<Rightarrow> (Go (no_then s), inp)
      | Some (line, inp) \<Rightarrow>
          if tokens 1 line \<noteq> [''then''] then (Go (no_then s), inp)
          else case read_block2 inp [] of
            (Inl m, inp) \<Rightarrow> (Go (emit_call (PrintError m) s), inp)
          | (Inr block, inp) \<Rightarrow>
              (case Option.bind (parse_command2 cond_line s) (\<lambda>(args, s). execute_external_command2 os args s) of
                 None \<Rightarrow> (Fault, inp)
               | Some (r, s) \<Rightarrow> (if r = 0 then run_lines2 os block s else Go s, inp)))"

definition process_line2 :: "os \<Rightarrow> string \<Rightarrow> string \<Rightarrow> mshell \<Rightarrow> flow \<times> string" where
  "process_line2 os line inp s =
     (if is_blank_line line then (Go s, inp)
      else if take 3 line = ''if '' then handle_if_block2 os line inp s
      else (run_command2 os line s, inp))"


lemma length_read_block2: "length (snd (read_block2 inp block)) \<le> length inp"
proof (induction inp block rule: read_block2.induct)
  case (1 inp block)
  show ?case
  proof (cases "fgets inp")
    case (Some p)
    then show ?thesis
      using 1 fgets_less [of inp "fst p" "snd p"]
      by (subst read_block2.simps) (fastforce split: prod.split)
  qed (subst read_block2.simps, simp)
qed

lemma process_line2_less:
  assumes "fgets inp = Some (l, inp1)" "(r, inp2) = process_line2 os l inp1 s"
  shows "length inp2 < length inp"
proof -
  have "length (snd (handle_if_block2 os l inp1 s)) \<le> length inp1"
  proof (cases "fgets inp1")
    case (Some p)
    then have "length (snd p) < length inp1" using fgets_less [of inp1 "fst p" "snd p"] by simp
    then show ?thesis
      using Some length_read_block2 [of "snd p" "[]"]
      by (auto simp: handle_if_block2_def Let_def split: prod.splits option.splits sum.splits)
  qed (simp add: handle_if_block2_def Let_def)
  then have "length inp2 \<le> length inp1"
    using assms(2) by (auto simp: process_line2_def split: if_splits dest!: arg_cong [of _ _ snd])
  then show ?thesis using fgets_less [OF assms(1)] by simp
qed

function run_script2 :: "os \<Rightarrow> string \<Rightarrow> mshell \<Rightarrow> flow" where
  "run_script2 os inp s =
     (case fgets inp of
        None \<Rightarrow> Go s
      | Some (line, inp) \<Rightarrow>
          (case process_line2 os line inp s of
             (Go s, inp) \<Rightarrow> run_script2 os inp s
           | (r, inp) \<Rightarrow> r))"
  by pat_completeness auto
termination
  by (relation "measure (\<lambda>(os, inp, s). length inp)") (auto simp: process_line2_less)

function run_prompt2 :: "os \<Rightarrow> string \<Rightarrow> mshell \<Rightarrow> flow" where
  "run_prompt2 os inp s =
     (let s = emit_call (Print ''mini-shell> '') s in
      case fgets inp of
        None \<Rightarrow> Go s
      | Some (line, inp) \<Rightarrow>
          (case process_line2 os line inp s of
             (Go s, inp) \<Rightarrow> run_prompt2 os inp s
           | (r, inp) \<Rightarrow> r))"
  by pat_completeness auto
termination
  by (relation "measure (\<lambda>(os, inp, s). length inp)") (auto simp: process_line2_less)

declare run_script2.simps [simp del] run_prompt2.simps [simp del]

definition mini_main2 :: "os \<Rightarrow> string list \<Rightarrow> string option \<Rightarrow> string \<Rightarrow> mshell \<Rightarrow> (int \<times> mshell) option" where
  "mini_main2 os argv contents stdin s =
     (if length argv = 1 \<and> contents = None then Some (1, emit_call (PrintError ''fopen'') s)
      else case (if length argv = 1 then run_script2 os (the contents) s else run_prompt2 os stdin s) of
        Go s \<Rightarrow> Some (0, s)
      | Quit s \<Rightarrow> Some (0, s)
      | Fault \<Rightarrow> None)"

section \<open>Comparison\<close>

text \<open>Without the messages, and with a system that does not look at them.\<close>

definition erase_call :: "call \<Rightarrow> call list" where
  "erase_call c =
     (case c of
        PrintError _ \<Rightarrow> []
      | ForkChild cs \<Rightarrow> [ForkChild (filter (\<lambda>c. case c of ChildError _ \<Rightarrow> False | _ \<Rightarrow> True) cs)]
      | _ \<Rightarrow> [c])"

definition erase :: "call list \<Rightarrow> call list" where
  "erase cs = concat (map erase_call cs)"

definition quiet :: "mshell \<Rightarrow> mshell" where
  "quiet s = s\<lparr>trace := erase (trace s)\<rparr>"

definition quiet_os :: "os \<Rightarrow> os" where
  "quiet_os os = \<lparr>os_open = os_open os \<circ> erase, os_fork = os_fork os \<circ> erase, os_wait = os_wait os \<circ> erase,
     os_ctrlz = os_ctrlz os \<circ> erase\<rparr>"

lemma quiet_os_simps [simp]:
  "os_open (quiet_os os) t = os_open os (erase t)" "os_fork (quiet_os os) t = os_fork os (erase t)"
  "os_wait (quiet_os os) t = os_wait os (erase t)" "os_ctrlz (quiet_os os) t = os_ctrlz os (erase t)"
  by (simp_all add: quiet_os_def)

lemma quiet_fields [simp]:
  "trace (quiet s) = erase (trace s)" "jobs (quiet s) = jobs s" "fg_pid (quiet s) = fg_pid s" "open_fds (quiet s) = open_fds s"
  "quiet (s\<lparr>jobs := js\<rparr>) = quiet s\<lparr>jobs := js\<rparr>" "quiet (s\<lparr>fg_pid := p\<rparr>) = quiet s\<lparr>fg_pid := p\<rparr>"
  "quiet (s\<lparr>open_fds := fs\<rparr>) = quiet s\<lparr>open_fds := fs\<rparr>"
  by (simp_all add: quiet_def)

lemma quiet_emit [simp]:
  "quiet (emit_call (PrintError m) s) = quiet s"
  "quiet (emit_call (Print m) s) = emit_call (Print m) (quiet s)"
  "quiet (emit_call (OpenIn m) s) = emit_call (OpenIn m) (quiet s)"
  "quiet (emit_call (OpenOut m) s) = emit_call (OpenOut m) (quiet s)"
  "quiet (emit_call (Waitpid p) s) = emit_call (Waitpid p) (quiet s)"
  "quiet (emit_call (Kill p g) s) = emit_call (Kill p g) (quiet s)"
  "quiet (emit_call (ForkChild (child_calls2 i out argv)) s) = emit_call (ForkChild (child_calls i out argv)) (quiet s)"
  by (auto simp: quiet_def emit_call_def erase_def erase_call_def child_calls2_def child_calls_def child_redirections_def)

lemma erase_trace: "erase (trace (emit_call c s)) = trace (quiet (emit_call c s))"
  by simp

lemma quiet_redirect:
  "(case redirect2 (quiet_os os) args i out argv s of (r, s') \<Rightarrow> (r, quiet s')) = redirect os args i out argv (quiet s)"
proof (induction "quiet_os os" args i out argv s rule: redirect2.induct)
  case (3 a b as i out argv s)
  then show ?case by (simp add: Let_def erase_trace del: quiet_fields(1))
qed auto


lemma quiet_handler: "quiet ((sigtstp_handler ^^ n) s) = (sigtstp_handler ^^ n) (quiet s)"
proof (induction n)
  case (Suc n)
  have "quiet (sigtstp_handler s') = sigtstp_handler (quiet s')" for s' by (simp add: sigtstp_handler_def)
  then show ?case using Suc by simp
qed simp

lemma quiet_wait:
  "(case wait_fg (quiet_os os) pid s of (r, s') \<Rightarrow> (r, quiet s')) = wait_fg os pid (quiet s)"
proof -
  let ?n = "os_ctrlz os (erase (trace s))"
  let ?s = "(sigtstp_handler ^^ ?n) (s\<lparr>fg_pid := pid\<rparr>)"
  have "erase (trace (emit_call (Waitpid pid) ?s)) = trace (emit_call (Waitpid pid) ((sigtstp_handler ^^ ?n) (quiet s\<lparr>fg_pid := pid\<rparr>)))"
    by (simp add: erase_trace quiet_handler del: quiet_fields(1))
  then show ?thesis by (simp add: wait_fg_def Let_def quiet_handler)
qed

lemma quiet_add_job:
  "length (jobs s) < MAX_JOBS \<Longrightarrow> map_option quiet (add_job2 pid st argv s) = add_job pid st argv (quiet s)"
  by (auto simp: add_job2_def add_job_def option.map_comp intro!: option.map_cong)

lemma quiet_foreground:
  assumes "length (jobs s) < MAX_JOBS"
  shows "map_option (map_prod id quiet) (run_foreground2 (quiet_os os) pid argv s) = run_foreground os pid argv (quiet s)"
proof -
  obtain r s1 where w: "wait_fg (quiet_os os) pid s = (r, s1)" by fastforce
  then have q: "wait_fg os pid (quiet s) = (r, quiet s1)" using quiet_wait [of os pid s] by simp
  have "add_job pid True argv (quiet s1) = map_option quiet (add_job2 pid True argv s1)"
    using wait_fg_state [OF w] assms quiet_add_job [of s1] by simp
  then show ?thesis
    using w q by (auto simp: run_foreground2_def run_foreground_def option.map_comp comp_def split: option.splits)
qed

text \<open>
  Where the table of jobs has room and \<open>fork\<close> succeeds, the two shells run a program in the same way.
  With a system that does not look at error messages, \<open>mini-shell-2\<close> asks for the same calls as \<open>mini-shell-3\<close> apart from its
  messages, and ends with the same jobs, variables, descriptors and exit status.
\<close>

theorem shells_agree:
  assumes "length (jobs s) < 64" "\<forall>t. os_fork os t \<ge> 0"
  shows "map_option (map_prod id quiet) (execute_external_command2 (quiet_os os) args s) =
    execute_external_command os args (quiet s)"
proof -
  obtain b args1 where sp: "split_background args = (b, args1)" by fastforce
  obtain r s1 where rd: "redirect2 (quiet_os os) args1 (-1) (-1) [] s = (r, s1)" by fastforce
  then have q: "redirect os args1 (-1) (-1) [] (quiet s) = (r, quiet s1)"
    using quiet_redirect [of os args1 "-1" "-1" "[]" s] by simp
  have js: "length (jobs s1) < MAX_JOBS" using redirect_state [OF q] assms(1) by (simp add: MAX_JOBS_def)
  show ?thesis
  proof (cases r)
    case None
    then show ?thesis using sp rd q by (simp add: execute_external_command2_def execute_external_command_def)
  next
    case (Some p)
    then obtain i out argv where p: "r = Some (i, out, argv)" by (cases p) auto
    let ?s = "emit_call (ForkChild (child_calls2 i out argv)) s1"
    have js2: "length (jobs ?s) < MAX_JOBS" using js by simp
    have aj: "add_job pid False argv (emit_call (ForkChild (child_calls i out argv)) (quiet s1)) =
        map_option quiet (add_job2 pid False argv ?s)" for pid
      using quiet_add_job [OF js2, of pid False argv] by simp
    show ?thesis
      using sp rd q p assms(2) quiet_foreground [OF js2, of os _ argv]
      by (auto simp: execute_external_command2_def execute_external_command_def Let_def erase_trace option.map_comp comp_def
          not_less [symmetric] aj simp del: quiet_fields(1))
  qed
qed


theorem shells_agree_witness:
  "map_option (map_prod id quiet) (execute_external_command2 (quiet_os demo_os) [''ls''] (mini_start Map.empty)) =
    execute_external_command demo_os [''ls''] (quiet (mini_start Map.empty))"
  using shells_agree [of "mini_start Map.empty" demo_os "[''ls'']"] by (simp add: mini_start_def demo_os_def)

lemma redirect_opens:
  "\<forall>t. os_open os t \<ge> 0 \<Longrightarrow> fst (redirect os args i out argv s) \<noteq> None"
  by (induction os args i out argv s rule: redirect.induct) (auto simp: Let_def not_less [symmetric])

lemma redirect2_opens:
  "\<forall>t. os_open os t \<ge> 0 \<Longrightarrow> redirect2 os args i out argv s = redirect os args i out argv s"
  by (induction os args i out argv s rule: redirect2.induct) (auto simp: Let_def not_less [symmetric])



end
