(* ===== verification/Spec2Isabelle.thy ===== *)
theory Spec2Isabelle
  imports Xv6_Contents Xv6_Calls User_Wc User_Malloc User_Shell_Run User_Lib Lab_Overlap Lab_Snake Lab_Minishell2
begin

text \<open>
  A verification of the xv6 kernel of \<open>src/lab3-lyjae/xv6-riscv/kernel\<close>, the RISC-V teaching kernel
  with the two system calls of lab 3 (\<open>hello\<close> and \<open>getsyscallcount\<close>), and of user programs from
  \<open>src/lab3-lyjae/xv6-riscv/user\<close> and of the labs beside it.

  \<^bold>\<open>The program.\<close>  The kernel boots on several harts (\<open>start.c\<close>, \<open>main.c\<close>), builds its page table
  and its tables of processes, buffers, inodes and files, and then runs the scheduler.  Traps from
  user code (\<open>trap.c\<close>) lead to the system call dispatcher (\<open>syscall.c\<close>, \<open>sysproc.c\<close>, \<open>sysfile.c\<close>) or to
  device interrupts (\<open>plic.c\<close>, \<open>uart.c\<close>, \<open>virtio_disk.c\<close>).  Files are built in layers: disk driver,
  buffer cache (\<open>bio.c\<close>), write-ahead log (\<open>log.c\<close>), inodes, directories and paths (\<open>fs.c\<close>), open files
  and pipes (\<open>file.c\<close>, \<open>pipe.c\<close>).  Below everything are spinlocks, the page allocator, page tables and
  the process table with \<open>sleep\<close> and \<open>wakeup\<close>.

  \<^bold>\<open>How code is modelled.\<close>  A C function is a function of the kernel state into an \<open>outcome\<close>: a return,
  a \<open>panic\<close>, an endless wait, or a switch to the scheduler that carries the rest of the thread as a
  continuation (\<open>Xv6_Prelude\<close>).  The state is one record that grows along the theories:
  \<open>machine\<close> (hart, locks), \<open>kmem\<close> (physical memory, free list), \<open>ptable\<close> (processes), \<open>slocks\<close>, \<open>bcache\<close>
  (buffers, disk), \<open>logst\<close>, \<open>uartst\<close>, \<open>consst\<close>, \<open>fsst\<close>, \<open>filest\<close>, \<open>virtst\<close>, \<open>kernst\<close>.  Operations are
  stated for every extension of the record they need.  Pointers to kernel objects are indices into
  their tables, a null pointer is \<open>None\<close>; memory that the code treats as bytes (pages, page tables,
  trap frames, disk blocks) is bytes, at the offsets of the C structures.  Integers have their C
  width, as words, wherever the code can make them wrap around.

  \<^bold>\<open>Theories and what they show.\<close>
  \<^item> \<open>Xv6_String\<close>: \<open>string.c\<close>; \<open>memmove\<close> on overlapping ranges, copies and comparisons of C strings.
  \<^item> \<open>Xv6_Spinlock\<close>: \<open>spinlock.c\<close>; a critical section restores the hart and the lock; mutual exclusion
    over all interleavings of any number of harts, by an inductive step relation.
  \<^item> \<open>Xv6_Memory\<close>, \<open>Xv6_Kalloc\<close>: physical memory and \<open>kalloc.c\<close>; the free list is a chain of distinct pages.
  \<^item> \<open>Xv6_Vm\<close>, \<open>Xv6_Pagetable\<close>, \<open>Xv6_Usercopy\<close>: \<open>vm.c\<close>; page tables are trees in memory that refine
    a translation function, and \<open>copyin\<close> and \<open>copyout\<close> read and write the user address space.
  \<^item> \<open>Xv6_Proc\<close>, \<open>Xv6_Sleeplock\<close>: \<open>proc.c\<close> up to \<open>wait\<close>, \<open>sleeplock.c\<close>; process creation, \<open>sleep\<close> and
    \<open>wakeup\<close>.
  \<^item> \<open>Xv6_Bio\<close>: \<open>bio.c\<close>; the LRU list, and that the cache shows one coherent disk.
  \<^item> \<open>Xv6_Log\<close>, \<open>Xv6_Recovery\<close>: \<open>log.c\<close>; commits are atomic under a crash after any prefix of the
    block writes, recovered by \<open>initlog\<close>.
  \<^item> \<open>Xv6_Console\<close>: \<open>uart.c\<close>, \<open>printf.c\<close>, \<open>console.c\<close>, \<open>procdump\<close>; \<open>Xv6_Output\<close>: bytes leave in
    order, numbers are printed in their usual notation.
  \<^item> \<open>Xv6_Fs\<close>: \<open>fs.c\<close>; \<open>Xv6_Layout\<close>: inodes on disk, names in directories, elements of paths.
  \<^item> \<open>Xv6_Txn\<close>: a block read or changed inside a transaction, through the cache and the log, with the
    room in the log as a budget of blocks; \<open>Xv6_Balloc\<close>: \<open>balloc\<close> and \<open>bfree\<close> refine a set of free blocks;
    \<open>Xv6_Bmap\<close>: the blocks of a file stay apart when \<open>bmap\<close> allocates; \<open>Xv6_Contents\<close>: \<open>readi\<close> and \<open>writei\<close>
    refine reading and replacing bytes of a list, and a write as \<open>filewrite\<close> makes it fits the log.
  \<^item> \<open>Xv6_File\<close>: \<open>file.c\<close> and \<open>pipe.c\<close>; \<open>Xv6_Ring\<close>: ring buffers with wrapping counters and the
    contract \<open>fifo\<close>; \<open>Xv6_Pipe\<close>: a pipe is a queue of at most 512 bytes.
  \<^item> \<open>Xv6_Virtio\<close>: \<open>virtio_disk.c\<close> with the device as a step of its own.
  \<^item> \<open>Xv6_Exec\<close>: \<open>fork\<close>, \<open>exit\<close>, \<open>userinit\<close>, \<open>exec.c\<close> and argument fetching; \<open>Xv6_Sysfile\<close>: \<open>sysfile.c\<close>;
    \<open>Xv6_Trap\<close>: \<open>trap.c\<close>, \<open>syscall.c\<close>, \<open>sysproc.c\<close>, \<open>plic.c\<close>, \<open>main.c\<close>, \<open>start.c\<close>.
  \<^item> \<open>Xv6_Calls\<close>: the dispatcher with the calls added in lab 3.
  \<^item> \<open>Xv6_Demo\<close>: a concrete kernel state for the witnesses.
  \<^item> \<open>User_Malloc\<close>: \<open>umalloc.c\<close>; \<open>malloc\<close> and \<open>free\<close> always return and keep the blocks apart.
  \<^item> \<open>User_Shell\<close>: the parser of \<open>sh.c\<close>, which always returns and never damages a word when it writes the
    NULs; \<open>User_Shell_Grammar\<close>: every command is read back from its printed form;
    \<open>User_Shell_Run\<close>: \<open>runcmd\<close> and \<open>main\<close>, and the descriptors of the programs they start.
  \<^item> \<open>User_Grep\<close>, \<open>User_Wc\<close>: \<open>grep.c\<close> and \<open>wc.c\<close>; the matcher has the usual meaning of patterns, and the
    output depends only on the contents of the file, not on how \<open>read\<close> cuts it into pieces.
  \<^item> \<open>User_Lib\<close>: \<open>ulib.c\<close> and \<open>printf.c\<close> of the user programs; formats are printed piece by piece.
  \<^item> \<open>Lab_Snake\<close>: the snake game of \<open>lab5-lyjae\<close>; the snake stays inside the border and never turns back.
  \<^item> \<open>Lab_Wordcount\<close>, \<open>Lab_Overlap\<close>: the word counters of \<open>lab8-lyjae\<close>; the blocks of the threads cover
    every word once, and the producer and its consumers end with the right total in every interleaving.

  \<^item> \<open>Lab_Vars\<close>, \<open>Lab_Minishell\<close>: the shell \<open>mini-shell-3.c\<close> of \<open>lab7-lyjae\<close>, with its variables in arrays
    of characters; \<open>Lab_Minishell_Facts\<close>: variables are nested scopes, expansion has the usual meaning while it
    fits, command lines keep inside the arrays, blocks and jobs; \<open>Lab_Minishell2\<close>: \<open>mini-shell-2.c\<close> and
    where the two shells agree.

  \<^bold>\<open>Interfaces.\<close>  \<open>fifo\<close> is the contract of a bounded queue; the pipe ring, the transmit ring of the
  UART and the chunk ring of \<open>Lab_Overlap\<close> are instances.  \<open>scope\<close> is the contract of a bounded table of
  variables, with the local and the global variables of the lab 7 shell as instances.  \<open>page_allocator\<close> is
  what clients use of \<open>kalloc\<close> and \<open>kfree\<close>, and \<open>block_store\<close> what they use of \<open>balloc\<close> and \<open>bfree\<close>.

  \<^bold>\<open>Bounds.\<close>  Loops over arrays and lists end by recursion on the data.  Loops that wait for other
  threads or devices have a bound of \<open>ROUNDS = 2^32\<close> rounds and then hang, as they may in the code;
  theorems about them state that they return.  \<open>freewalk\<close> recurses over the three levels of a page
  table, \<open>copyout\<close> and \<open>copyin\<close> over the number of bytes, which is at least the number of pages.  The
  recursive descent of the shell has fuel for four calls per character, which is proved to be enough.  The
  loops of \<open>malloc\<close> and \<open>free\<close> are partial functions, proved to return on every well-formed heap.

  \<^bold>\<open>Not modelled.\<close>  Assembly (\<open>entry.S\<close>, \<open>swtch.S\<close>, \<open>trampoline.S\<close>, \<open>kernelvec.S\<close>), whose effect on the
  C code is part of the model; the TLB and the memory ordering of \<open>__sync_synchronize\<close>; interrupts
  arriving in the middle of a kernel function, which appear as handlers that are run, not as steps
  between any two statements; the remaining user programs and the other labs of the repository.
\<close>

end
